(* ===== verification/Kevo_Prelude.thy ===== *)
theory Kevo_Prelude
  imports Main "HOL-Library.Word" "HOL-Library.List_Lexorder"
begin

text \<open>
  Shared vocabulary of the development: Go byte slices, \<open>bytes.Compare\<close>, the little-endian
  codecs of \<open>encoding/binary\<close>, and the generic lemmas on lists, options and words that the
  component theories use. A Go \<open>[]byte\<close> whose nil value is never observed is a \<open>bytes\<close>;
  where the code distinguishes nil from the empty slice it is a \<open>slice\<close>.
\<close>

unbundle bit_operations_syntax

type_synonym byte = "8 word"
type_synonym bytes = "byte list"
type_synonym slice = "bytes option"
type_synonym u16 = "16 word"
type_synonym u32 = "32 word"
type_synonym u64 = "64 word"

text \<open>\<open>len_slice\<close> is Go's \<open>len\<close>, which is 0 on nil; \<open>bytes_of\<close> reads a slice's content.\<close>

definition bytes_of :: "slice \<Rightarrow> bytes" where
  "bytes_of s = (case s of None \<Rightarrow> [] | Some b \<Rightarrow> b)"

abbreviation len_slice :: "slice \<Rightarrow> nat" where
  "len_slice s \<equiv> length (bytes_of s)"

lemma bytes_of_simps [simp]: "bytes_of None = []" "bytes_of (Some b) = b"
  by (simp_all add: bytes_of_def)

named_theorems codec_simps \<open>byte layouts: lengths, splits and decode-after-encode\<close>
named_theorems status_iff \<open>when an operation of a component succeeds\<close>

section \<open>Comparing byte strings\<close>

text \<open>\<open>bytes.Compare\<close> of the Go library: -1, 0 or 1, lexicographic on unsigned bytes.\<close>

fun bytes_compare :: "bytes \<Rightarrow> bytes \<Rightarrow> int" where
  "bytes_compare [] [] = 0"
| "bytes_compare [] (y # ys) = -1"
| "bytes_compare (x # xs) [] = 1"
| "bytes_compare (x # xs) (y # ys) =
     (if x < y then -1 else if y < x then 1 else bytes_compare xs ys)"

text \<open>The comparison is the library's lexicographic linear order on lists of bytes.\<close>

lemma bytes_compare_cases:
  "(bytes_compare a b < 0 \<longleftrightarrow> a < b) \<and> (bytes_compare a b = 0 \<longleftrightarrow> a = b)"
  by (induction a b rule: bytes_compare.induct) auto

lemma bytes_compare_less [simp]: "bytes_compare a b < 0 \<longleftrightarrow> a < b"
  using bytes_compare_cases by blast

lemma bytes_compare_eq [simp]: "bytes_compare a b = 0 \<longleftrightarrow> a = b"
  using bytes_compare_cases by blast

lemma bytes_compare_le [simp]: "bytes_compare a b \<le> 0 \<longleftrightarrow> a \<le> b"
  using bytes_compare_cases [of a b] by (auto simp: le_less)

lemma bytes_compare_greater [simp]: "0 < bytes_compare a b \<longleftrightarrow> b < a"
  using bytes_compare_le [of a b] by (metis not_less)

lemma bytes_compare_ge [simp]: "0 \<le> bytes_compare a b \<longleftrightarrow> b \<le> a"
  using bytes_compare_less [of a b] by (metis not_less)

section \<open>Little-endian integers\<close>

text \<open>
  \<open>le_enc n v\<close> is the \<open>n\<close>-byte little-endian image of \<open>v\<close>, cut off at \<open>n\<close> bytes as the
  conversions \<open>uint16(x)\<close>, \<open>uint32(x)\<close> cut it off; \<open>le_dec\<close> reads bytes back.
\<close>

lemma unat_byte_lt [simp]: "unat (b :: byte) < 256"
  using unsigned_less [of b, where ?'a = nat] by simp

lemma unat_u16_lt [simp]: "unat (w :: u16) < 65536"
  using unsigned_less [of w, where ?'a = nat] by simp

lemma unat_u32_lt [simp]: "unat (w :: u32) < 4294967296"
  using unsigned_less [of w, where ?'a = nat] by simp

lemma unat_u64_lt [simp]: "unat (w :: u64) < 18446744073709551616"
  using unsigned_less [of w, where ?'a = nat] by simp

fun le_enc :: "nat \<Rightarrow> nat \<Rightarrow> bytes" where
  "le_enc 0 v = []"
| "le_enc (Suc n) v = of_nat v # le_enc n (v div 256)"

fun le_dec :: "bytes \<Rightarrow> nat" where
  "le_dec [] = 0"
| "le_dec (b # bs) = unat b + 256 * le_dec bs"

lemma length_le_enc [simp]: "length (le_enc n v) = n"
  by (induction n arbitrary: v) auto

lemma le_dec_enc [simp]: "le_dec (le_enc n v) = v mod 256 ^ n"
proof (induction n arbitrary: v)
  case 0
  then show ?case by simp
next
  case (Suc n)
  have "unat (of_nat v :: byte) = v mod 256"
    by (simp add: unat_of_nat)
  then show ?case
    by (simp add: Suc.IH mod_mult2_eq)
qed

lemma le_dec_bound: "le_dec bs < 256 ^ length bs"
proof (induction bs)
  case Nil
  then show ?case by simp
next
  case (Cons b bs)
  have "unat b + 256 * le_dec bs < 256 * (le_dec bs + 1)"
    by simp
  also have "\<dots> \<le> 256 * 256 ^ length bs"
    using Cons by (intro mult_le_mono2) simp
  finally show ?case by simp
qed

lemma le_enc_dec: "length bs = n \<Longrightarrow> le_enc n (le_dec bs) = bs"
proof (induction n arbitrary: bs)
  case 0
  then show ?case by simp
next
  case (Suc n)
  then obtain b cs where bs: "bs = b # cs" and len: "length cs = n"
    by (cases bs) auto
  have "unat (of_nat (unat b + 256 * le_dec cs) :: byte) = unat b"
    unfolding unat_of_nat by simp
  then have "of_nat (unat b + 256 * le_dec cs) = (b :: byte)"
    by (rule unsigned_word_eqI)
  moreover have "(unat b + 256 * le_dec cs) div 256 = le_dec cs"
    by simp
  ultimately show ?case
    using Suc.IH [OF len] by (simp add: bs)
qed

definition put_u16 :: "u16 \<Rightarrow> bytes" where "put_u16 w = le_enc 2 (unat w)"
definition put_u32 :: "u32 \<Rightarrow> bytes" where "put_u32 w = le_enc 4 (unat w)"
definition put_u64 :: "u64 \<Rightarrow> bytes" where "put_u64 w = le_enc 8 (unat w)"

definition get_u16 :: "bytes \<Rightarrow> u16" where "get_u16 bs = of_nat (le_dec (take 2 bs))"
definition get_u32 :: "bytes \<Rightarrow> u32" where "get_u32 bs = of_nat (le_dec (take 4 bs))"
definition get_u64 :: "bytes \<Rightarrow> u64" where "get_u64 bs = of_nat (le_dec (take 8 bs))"

lemma length_put [simp, codec_simps]:
  "length (put_u16 a) = 2" "length (put_u32 b) = 4" "length (put_u64 c) = 8"
  by (simp_all add: put_u16_def put_u32_def put_u64_def)

lemma get_put_u16 [simp, codec_simps]: "get_u16 (put_u16 w @ bs) = w"
  by (simp add: get_u16_def put_u16_def)

lemma get_put_u32 [simp, codec_simps]: "get_u32 (put_u32 w @ bs) = w"
  by (simp add: get_u32_def put_u32_def)

lemma get_put_u64 [simp, codec_simps]: "get_u64 (put_u64 w @ bs) = w"
  by (simp add: get_u64_def put_u64_def)

lemma get_put_nil [simp, codec_simps]:
  "get_u16 (put_u16 a) = a" "get_u32 (put_u32 b) = b" "get_u64 (put_u64 c) = c"
  using get_put_u16 [of a "[]"] get_put_u32 [of b "[]"] get_put_u64 [of c "[]"] by simp_all

text \<open>Encoding a decoded field gives its bytes back.\<close>

lemma put_u16_get: "length bs = 2 \<Longrightarrow> put_u16 (get_u16 bs) = bs"
  using le_dec_bound [of bs] le_enc_dec [of bs 2]
  by (simp add: put_u16_def get_u16_def unat_of_nat)

lemma put_u32_get: "length bs = 4 \<Longrightarrow> put_u32 (get_u32 bs) = bs"
  using le_dec_bound [of bs] le_enc_dec [of bs 4]
  by (simp add: put_u32_def get_u32_def unat_of_nat)

lemma put_u64_get: "length bs = 8 \<Longrightarrow> put_u64 (get_u64 bs) = bs"
  using le_dec_bound [of bs] le_enc_dec [of bs 8]
  by (simp add: put_u64_def get_u64_def unat_of_nat)

text \<open>Reading skips what was written before it.\<close>

lemma drop_put [simp, codec_simps]:
  "drop 2 (put_u16 a @ bs) = bs" "drop 4 (put_u32 b @ bs) = bs" "drop 8 (put_u64 c @ bs) = bs"
  by simp_all

lemma unat_u32_len: "n < 2 ^ 32 \<Longrightarrow> unat (of_nat n :: u32) = n"
  by (simp add: unat_of_nat)

lemma unat_u16_len: "n < 2 ^ 16 \<Longrightarrow> unat (of_nat n :: u16) = n"
  by (simp add: unat_of_nat)

section \<open>Results\<close>

text \<open>Operations that can fail return \<open>error + value\<close>; \<open>is_ok\<close> recognises success.\<close>

definition is_ok :: "'e + 'a \<Rightarrow> bool" where
  "is_ok r = (case r of Inl _ \<Rightarrow> False | Inr _ \<Rightarrow> True)"

lemma is_ok_simps [simp]: "is_ok (Inl e) = False" "is_ok (Inr x) = True"
  by (simp_all add: is_ok_def)

lemma is_ok_iff [status_iff]: "is_ok r \<longleftrightarrow> (\<exists>x. r = Inr x)"
  by (cases r) auto

text \<open>
  Code that mutates a receiver and may return an error is a function of the state to a result
  and the state left behind; an early \<open>return err\<close> keeps the effects made so far, as in Go.
\<close>

type_synonym ('s, 'e, 'a) op = "'s \<Rightarrow> ('e + 'a) \<times> 's"

definition ret :: "'a \<Rightarrow> ('s, 'e, 'a) op" where
  "ret x = (\<lambda>s. (Inr x, s))"

definition fail :: "'e \<Rightarrow> ('s, 'e, 'a) op" where
  "fail e = (\<lambda>s. (Inl e, s))"

definition bind_op :: "('s, 'e, 'a) op \<Rightarrow> ('a \<Rightarrow> ('s, 'e, 'b) op) \<Rightarrow> ('s, 'e, 'b) op" where
  "bind_op m f = (\<lambda>s. case m s of (Inl e, s') \<Rightarrow> (Inl e, s') | (Inr x, s') \<Rightarrow> f x s')"

definition modify :: "('s \<Rightarrow> 's) \<Rightarrow> ('s, 'e, unit) op" where
  "modify f = (\<lambda>s. (Inr (), f s))"

lemma ret_apply [simp]: "ret x s = (Inr x, s)"
  by (simp add: ret_def)

lemma fail_apply [simp]: "fail e s = (Inl e, s)"
  by (simp add: fail_def)

lemma modify_apply [simp]: "modify f s = (Inr (), f s)"
  by (simp add: modify_def)

lemma bind_op_Inr [simp]: "m s = (Inr x, s') \<Longrightarrow> bind_op m f s = f x s'"
  by (simp add: bind_op_def)

lemma bind_op_Inl [simp]: "m s = (Inl e, s') \<Longrightarrow> bind_op m f s = (Inl e, s')"
  by (simp add: bind_op_def)

lemma bind_op_ok_iff [status_iff]:
  "bind_op m f s = (Inr y, s'') \<longleftrightarrow> (\<exists>x s'. m s = (Inr x, s') \<and> f x s' = (Inr y, s''))"
  by (auto simp: bind_op_def split: prod.splits sum.splits)

text \<open>
  Code whose loops may fail to return is modelled in the option type, \<open>None\<close> standing for not
  returning or for a panic; \<open>run_all\<close> performs one operation per element of a list.
\<close>

fun run_all :: "('a \<Rightarrow> 's \<Rightarrow> 's option) \<Rightarrow> 'a list \<Rightarrow> 's \<Rightarrow> 's option" where
  "run_all f [] s = Some s"
| "run_all f (x # xs) s = (case f x s of None \<Rightarrow> None | Some s' \<Rightarrow> run_all f xs s')"

lemma run_all_append:
  "run_all f (xs @ ys) s = (case run_all f xs s of None \<Rightarrow> None | Some s' \<Rightarrow> run_all f ys s')"
  by (induction xs arbitrary: s) (auto split: option.splits)

section \<open>Lists\<close>

lemma list_all_True [simp]: "list_all (\<lambda>_. True) xs"
  by (simp add: list_all_iff)

lemma take_append_exact: "length xs = n \<Longrightarrow> take n (xs @ ys) = xs"
  by simp

lemma drop_append_exact: "length xs = n \<Longrightarrow> drop n (xs @ ys) = ys"
  by simp

lemma takeWhile_filter_prefix:
  "takeWhile P (xs @ ys) = (if \<forall>x\<in>set xs. P x then xs @ takeWhile P ys else takeWhile P xs)"
  by (induction xs) auto

lemma takeWhile_dropWhile [simp]: "takeWhile P (dropWhile P xs) = []"
  by (induction xs) auto

lemma dropWhile_dropWhile_same [simp]: "dropWhile P (dropWhile P xs) = dropWhile P xs"
  by (induction xs) auto

text \<open>On a sorted list the elements below a bound are a prefix.\<close>

lemma sorted_takeWhile_filter:
  assumes "sorted_wrt R xs" and "\<And>a b. R a b \<Longrightarrow> P b \<Longrightarrow> P a"
  shows "takeWhile P xs = filter P xs" "dropWhile P xs = filter (\<lambda>x. \<not> P x) xs"
proof -
  have "takeWhile P xs = filter P xs \<and> dropWhile P xs = filter (\<lambda>x. \<not> P x) xs"
    using assms(1)
  proof (induction xs)
    case Nil
    then show ?case by simp
  next
    case (Cons x xs)
    have "filter P xs = [] \<and> filter (\<lambda>x. \<not> P x) xs = xs" if "\<not> P x"
      using that Cons.prems assms(2) by (auto simp: filter_empty_conv filter_id_conv)
    with Cons show ?case by auto
  qed
  then show "takeWhile P xs = filter P xs" "dropWhile P xs = filter (\<lambda>x. \<not> P x) xs"
    by auto
qed

section \<open>Binary search\<close>

text \<open>\<open>sort.Search\<close> of the Go library on the interval from \<open>i\<close> to \<open>j\<close>.\<close>

function sort_search :: "(nat \<Rightarrow> bool) \<Rightarrow> nat \<Rightarrow> nat \<Rightarrow> nat" where
  "sort_search f i j =
     (if i < j then
        let h = (i + j) div 2 in
        if \<not> f h then sort_search f (h + 1) j else sort_search f i h
      else i)"
  by pat_completeness auto
termination by (relation "measure (\<lambda>(f, i, j). j - i)") auto

declare sort_search.simps [simp del]

text \<open>For a predicate that stays true once it is true, it finds the first index that satisfies it.\<close>

lemma sort_search_bounds:
  assumes mono: "\<forall>a b. a \<le> b \<and> b < n \<and> f a \<longrightarrow> f b"
  shows "i \<le> j \<Longrightarrow> j \<le> n \<Longrightarrow> i \<le> sort_search f i j \<and> sort_search f i j \<le> j \<and>
    (\<forall>k. i \<le> k \<and> k < sort_search f i j \<longrightarrow> \<not> f k) \<and>
    (\<forall>k. sort_search f i j \<le> k \<and> k < j \<longrightarrow> f k)"
proof (induction "j - i" arbitrary: i j rule: less_induct)
  case less
  show ?case
  proof (cases "i < j")
    case False
    then have "sort_search f i j = i" by (simp add: sort_search.simps)
    with False less.prems show ?thesis by auto
  next
    case True
    define h where "h = (i + j) div 2"
    have h: "i \<le> h" "h < j" using True by (auto simp: h_def)
    show ?thesis
    proof (cases "f h")
      case True
      have eq: "sort_search f i j = sort_search f i h"
        using \<open>i < j\<close> True by (subst sort_search.simps) (simp add: h_def)
      have "f k" if "h \<le> k" "k < j" for k
        using mono that True less.prems by (meson order_less_le_trans)
      moreover have "i \<le> sort_search f i h \<and> sort_search f i h \<le> h \<and>
          (\<forall>k. i \<le> k \<and> k < sort_search f i h \<longrightarrow> \<not> f k) \<and> (\<forall>k. sort_search f i h \<le> k \<and> k < h \<longrightarrow> f k)"
        using h less.prems by (intro less.hyps) auto
      ultimately show ?thesis unfolding eq using h by (metis linorder_not_less order.trans order_less_imp_le)
    next
      case False
      have eq: "sort_search f i j = sort_search f (h + 1) j"
        using \<open>i < j\<close> False by (subst sort_search.simps) (simp add: h_def)
      have low: "\<not> f k" if "k \<le> h" for k
        using mono that False h less.prems by (meson order_less_le_trans)
      have ih: "h + 1 \<le> sort_search f (h + 1) j \<and> sort_search f (h + 1) j \<le> j \<and>
          (\<forall>k. h + 1 \<le> k \<and> k < sort_search f (h + 1) j \<longrightarrow> \<not> f k) \<and>
          (\<forall>k. sort_search f (h + 1) j \<le> k \<and> k < j \<longrightarrow> f k)"
        using h less.prems by (intro less.hyps) auto
      have "\<not> f k" if "k < sort_search f (h + 1) j" for k
        using low [of k] ih that by (cases "k \<le> h") auto
      then show ?thesis unfolding eq using h ih by simp
    qed
  qed
qed

lemma sort_search_takeWhile:
  assumes "sorted_wrt R xs" and "\<And>a b. R a b \<Longrightarrow> P a \<Longrightarrow> P b"
  shows "sort_search (\<lambda>i. P (xs ! i)) 0 (length xs) = length (takeWhile (\<lambda>x. \<not> P x) xs)"
proof -
  define r where "r = sort_search (\<lambda>i. P (xs ! i)) 0 (length xs)"
  have "P (xs ! b)" if "a \<le> b" "b < length xs" "P (xs ! a)" for a b
    using that assms(2) [of "xs ! a" "xs ! b"] sorted_wrt_nth_less [OF assms(1), of a b]
    by (cases "a = b") auto
  then have "\<forall>a b. a \<le> b \<and> b < length xs \<and> P (xs ! a) \<longrightarrow> P (xs ! b)" by blast
  from sort_search_bounds [OF this le0 order_refl, folded r_def]
  have r: "r \<le> length xs" "\<forall>k<r. \<not> P (xs ! k)" "r < length xs \<longrightarrow> P (xs ! r)" by auto
  then have "takeWhile (\<lambda>x. \<not> P x) xs = take r xs"
    by (intro takeWhile_eq_take_P_nth) auto
  then show ?thesis using r(1) by (simp add: r_def [symmetric])
qed

end
