(* ===== verification/Version_Store.thy ===== *)
theory Version_Store
  imports Kevo_Prelude "HOL-Library.Multiset"
begin

text \<open>
  The entries of a memtable (\<^verbatim>\<open>src/pkg/memtable/skiplist.go\<close>), the order the skip list keeps them in,
  and the interface \<open>version_list\<close> through which the memtable uses the skip list: a sequence of
  entries ordered by key, newest version first, into which entries are inserted and in which the
  newest version of a key is found.
\<close>

section \<open>Entries\<close>

datatype value_type = TypeValue | TypeDeletion

record mentry =
  me_key :: bytes
  me_value :: slice
  me_type :: value_type
  me_seq :: u64

definition newEntry :: "bytes \<Rightarrow> slice \<Rightarrow> value_type \<Rightarrow> u64 \<Rightarrow> mentry" where
  "newEntry key value t sq = \<lparr>me_key = key, me_value = value, me_type = t, me_seq = sq\<rparr>"

definition entry_size :: "mentry \<Rightarrow> nat" where
  "entry_size e = length (me_key e) + len_slice (me_value e) + 16"

definition entry_compare :: "mentry \<Rightarrow> bytes \<Rightarrow> int" where
  "entry_compare e key = bytes_compare (me_key e) key"

definition compareWithEntry :: "mentry \<Rightarrow> mentry \<Rightarrow> int" where
  "compareWithEntry e other =
     (let cmp = bytes_compare (me_key e) (me_key other) in
      if cmp = 0 then
        if me_seq e > me_seq other then -1
        else if me_seq e < me_seq other then 1
        else 0
      else cmp)"

text \<open>\<open>older_first\<close> would be the wrong reading: within a key the newest entry comes first.\<close>

definition precedes :: "mentry \<Rightarrow> mentry \<Rightarrow> bool" where
  "precedes a b \<longleftrightarrow> compareWithEntry a b < 0"

lemma entry_compare_simps [simp]:
  "entry_compare e key < 0 \<longleftrightarrow> me_key e < key"
  "entry_compare e key = 0 \<longleftrightarrow> me_key e = key"
  by (simp_all add: entry_compare_def)

lemma precedes_iff:
  "precedes a b \<longleftrightarrow> me_key a < me_key b \<or> me_key a = me_key b \<and> me_seq b < me_seq a"
  by (auto simp: precedes_def compareWithEntry_def Let_def)

lemma compareWithEntry_eq:
  "compareWithEntry a b = 0 \<longleftrightarrow> me_key a = me_key b \<and> me_seq a = me_seq b"
  by (auto simp: compareWithEntry_def Let_def)

lemma compareWithEntry_antisym: "compareWithEntry a b > 0 \<longleftrightarrow> precedes b a"
  by (auto simp: precedes_iff compareWithEntry_def Let_def)

lemma precedes_trans: "precedes a b \<Longrightarrow> precedes b c \<Longrightarrow> precedes a c"
  by (auto simp: precedes_iff)

lemma precedes_irrefl [simp]: "\<not> precedes a a"
  by (simp add: precedes_iff)

lemma precedes_weak_trans: "\<not> precedes b a \<Longrightarrow> precedes b c \<Longrightarrow> precedes a c"
  by (auto simp: precedes_iff not_less le_less)

section \<open>Ordered version lists\<close>

definition version_sorted :: "mentry list \<Rightarrow> bool" where
  "version_sorted xs \<longleftrightarrow> sorted_wrt (\<lambda>a b. \<not> precedes b a) xs"

definition insert_version :: "mentry \<Rightarrow> mentry list \<Rightarrow> mentry list" where
  "insert_version e xs =
     takeWhile (\<lambda>x. precedes x e) xs @ e # dropWhile (\<lambda>x. precedes x e) xs"

definition lookup_version :: "bytes \<Rightarrow> mentry list \<Rightarrow> mentry option" where
  "lookup_version key xs = find (\<lambda>e. me_key e = key) xs"

lemma version_sorted_simps [simp]:
  "version_sorted []"
  "version_sorted (x # xs) \<longleftrightarrow> (\<forall>y\<in>set xs. \<not> precedes y x) \<and> version_sorted xs"
  by (simp_all add: version_sorted_def)

lemma lookup_version_simps [simp]:
  "lookup_version key [] = None"
  "lookup_version key (x # xs) = (if me_key x = key then Some x else lookup_version key xs)"
  by (simp_all add: lookup_version_def)

lemma insert_version_simps [simp]:
  "insert_version e [] = [e]"
  "insert_version e (x # xs) =
     (if precedes x e then x # insert_version e xs else e # x # xs)"
  by (simp_all add: insert_version_def)

lemma set_insert_version [simp]: "set (insert_version e xs) = insert e (set xs)"
  by (induction xs) auto

lemma mset_insert_version [simp]: "mset (insert_version e xs) = add_mset e (mset xs)"
  by (induction xs) auto

lemma mset_fold_insert_version: "mset (fold insert_version es xs) = mset es + mset xs"
  by (induction es arbitrary: xs) auto

lemma insert_version_sorted: "version_sorted xs \<Longrightarrow> version_sorted (insert_version e xs)"
proof (induction xs)
  case Nil
  then show ?case by simp
next
  case (Cons x xs)
  then show ?case
    using precedes_trans [of x e x] precedes_weak_trans [of _ x e] by auto
qed

text \<open>What a lookup returns after an insert.\<close>

definition supersedes :: "mentry \<Rightarrow> mentry option \<Rightarrow> bool" where
  "supersedes e old \<longleftrightarrow> (case old of None \<Rightarrow> True | Some x \<Rightarrow> me_seq x \<le> me_seq e)"

lemma lookup_version_none: "lookup_version key xs = None \<longleftrightarrow> (\<forall>x\<in>set xs. me_key x \<noteq> key)"
  by (auto simp: lookup_version_def find_None_iff)

lemma lookup_insert_version:
  assumes "version_sorted xs"
  shows "lookup_version key (insert_version e xs) =
    (if me_key e = key \<and> supersedes e (lookup_version key xs) then Some e
     else lookup_version key xs)"
  using assms
proof (induction xs)
  case Nil
  then show ?case by (simp add: supersedes_def)
next
  case (Cons x xs)
  show ?case
  proof (cases "precedes x e")
    case True
    then have "me_key x \<noteq> key \<or> \<not> (me_key e = key \<and> me_seq x \<le> me_seq e)"
      by (auto simp: precedes_iff)
    with True Cons show ?thesis by (auto simp: supersedes_def)
  next
    case False
    have "lookup_version key xs = None" if "me_key e = key" "me_key x \<noteq> key"
    proof -
      have "e \<noteq> x" "\<not> me_key x < key" using that False by (auto simp: precedes_iff)
      then have "key < me_key x" using that by simp
      then show ?thesis
        using Cons.prems by (auto simp: lookup_version_none precedes_iff)
    qed
    with False show ?thesis by (auto simp: supersedes_def precedes_iff not_less)
  qed
qed

text \<open>The newest of the writes made so far: later writes win ties of the sequence number.\<close>

definition newest_write :: "bytes \<Rightarrow> mentry list \<Rightarrow> mentry option" where
  "newest_write key ws =
     fold (\<lambda>e acc. if me_key e = key \<and> supersedes e acc then Some e else acc) ws None"

lemma newest_write_simps [simp]:
  "newest_write key [] = None"
  "newest_write key (ws @ [e]) =
     (if me_key e = key \<and> supersedes e (newest_write key ws) then Some e else newest_write key ws)"
  by (simp_all add: newest_write_def)

text \<open>It is a write to the key, and no write to the key has a higher sequence number.\<close>

lemma newest_write_Some:
  "newest_write key ws = Some e \<Longrightarrow>
     e \<in> set ws \<and> me_key e = key \<and> (\<forall>x\<in>set ws. me_key x = key \<longrightarrow> me_seq x \<le> me_seq e)"
proof (induction ws arbitrary: e rule: rev_induct)
  case Nil
  then show ?case by simp
next
  case (snoc x ws)
  show ?case
  proof (cases "newest_write key ws")
    case None
    have "\<forall>y\<in>set ws. me_key y \<noteq> key"
      using None by (induction ws rule: rev_induct) (auto simp: supersedes_def split: if_splits option.splits)
    with None snoc.prems show ?thesis by (auto split: if_splits)
  next
    case (Some y)
    with snoc.IH [OF Some] snoc.prems show ?thesis
      by (auto simp: supersedes_def split: if_splits intro: order_trans)
  qed
qed

lemma newest_write_None: "newest_write key ws = None \<longleftrightarrow> (\<forall>x\<in>set ws. me_key x \<noteq> key)"
  by (induction ws rule: rev_induct) (auto simp: supersedes_def split: option.splits)

lemma fold_insert_version_sorted:
  "version_sorted xs \<Longrightarrow> version_sorted (fold insert_version es xs)"
  by (induction es arbitrary: xs) (simp_all add: insert_version_sorted)

text \<open>Inserting writes one by one and looking a key up gives its newest write.\<close>

lemma lookup_fold_insert_version:
  "lookup_version key (fold insert_version es []) = newest_write key es"
  by (induction es rule: rev_induct)
     (simp_all add: lookup_insert_version fold_insert_version_sorted)

text \<open>When later writes carry higher sequence numbers, the later part of a history decides.\<close>

lemma newest_write_append:
  assumes "\<forall>a\<in>set as. \<forall>b\<in>set bs. me_seq a \<le> me_seq b"
  shows "newest_write key (as @ bs) =
    (case newest_write key bs of None \<Rightarrow> newest_write key as | Some e \<Rightarrow> Some e)"
  using assms
proof (induction bs rule: rev_induct)
  case Nil
  then show ?case by simp
next
  case (snoc b bs)
  have "supersedes b (newest_write key as)"
    using snoc.prems newest_write_Some [of key as] by (auto simp: supersedes_def split: option.splits)
  moreover have "newest_write key (as @ bs) =
      (case newest_write key bs of None \<Rightarrow> newest_write key as | Some e \<Rightarrow> Some e)"
    using snoc by simp
  ultimately show ?case
    unfolding append_assoc [symmetric] newest_write_simps
    by (auto simp: supersedes_def split: option.splits)
qed

fun first_write :: "bytes \<Rightarrow> mentry list list \<Rightarrow> mentry option" where
  "first_write key [] = None"
| "first_write key (seg # segs) =
     (case newest_write key seg of None \<Rightarrow> first_write key segs | Some e \<Rightarrow> Some e)"

lemma first_write_newest:
  "sorted (map me_seq (concat (rev segs))) \<Longrightarrow> first_write key segs = newest_write key (concat (rev segs))"
proof (induction segs)
  case Nil
  then show ?case by simp
next
  case (Cons seg segs)
  then have "first_write key segs = newest_write key (concat (rev segs))"
    by (simp add: sorted_append)
  moreover have "\<forall>a\<in>set (concat (rev segs)). \<forall>b\<in>set seg. me_seq a \<le> me_seq b"
    using Cons.prems by (auto simp: sorted_append)
  ultimately show ?case by (simp add: newest_write_append split: option.split)
qed

section \<open>The interface\<close>

text \<open>
  A structure that holds versions: operations may fail to return (\<open>None\<close>), and the laws promise
  that on well-formed states they do return, that an insert is an ordered insert into the sequence
  of entries, and that a find is a lookup in it. \<open>legal\<close> entries are those the operation accepts.
\<close>

locale version_list =
  fixes wf :: "'s \<Rightarrow> bool"
    and legal :: "mentry \<Rightarrow> bool"
    and entries :: "'s \<Rightarrow> mentry list"
    and ins :: "mentry \<Rightarrow> 's \<Rightarrow> 's option"
    and fnd :: "bytes \<Rightarrow> 's \<Rightarrow> mentry option option"
  assumes wf_sorted: "wf s \<Longrightarrow> version_sorted (entries s)"
    and ins_ok: "wf s \<Longrightarrow> legal e \<Longrightarrow>
      \<exists>s'. ins e s = Some s' \<and> wf s' \<and> entries s' = insert_version e (entries s)"
    and fnd_ok: "wf s \<Longrightarrow> fnd key s = Some (lookup_version key (entries s))"
begin

lemma inserts_ok:
  "wf s \<Longrightarrow> list_all legal es \<Longrightarrow>
     \<exists>s'. run_all ins es s = Some s' \<and> wf s' \<and> entries s' = fold insert_version es (entries s)"
proof (induction es arbitrary: s)
  case Nil
  then show ?case by simp
next
  case (Cons e es)
  then show ?case using ins_ok [of s e] by fastforce
qed

text \<open>After any run of inserts into an empty structure a find gives the newest write.\<close>

lemma find_after_inserts:
  assumes "wf s" and "entries s = []" and "list_all legal es" and "run_all ins es s = Some s'"
  shows "fnd key s' = Some (newest_write key es)"
  using inserts_ok [OF assms(1,3)] assms(2,4) by (auto simp: fnd_ok lookup_fold_insert_version)

end

end
