(* ===== verification/Skip_List.thy ===== *)
theory Skip_List
  imports Version_Store
begin

text \<open>
  The skip list of \<^verbatim>\<open>src/pkg/memtable/skiplist.go\<close>. Nodes live in an arena: a pointer is an index
  into \<open>sl_nodes\<close>, nil is \<open>None\<close> and the head is node 0; nodes are never freed. Every node has an
  array of \<open>MaxHeight\<close> next pointers. A loop over next pointers need not end on an arbitrary
  arena, so the loops are partial: \<open>None\<close> stands for not returning, or for the nil dereference
  that Go turns into a panic. The random source is the sequence \<open>sl_rnd\<close> of coin flips it will
  give (\<open>True\<close> for \<open>Int31n(2) = 0\<close>). Inserts are serialised by the memtable's lock.
\<close>

section \<open>Nodes and pointers\<close>

definition MaxHeight :: nat where "MaxHeight = 12"

record node =
  sn_entry :: "mentry option"
  sn_height :: nat
  sn_next :: "nat option list"

record skip_list =
  sl_nodes :: "node list"
  sl_maxHeight :: nat
  sl_rnd :: "nat \<Rightarrow> bool"
  sl_size :: int

abbreviation (input) head :: nat where "head \<equiv> 0"

definition newNode :: "mentry option \<Rightarrow> nat \<Rightarrow> node" where
  "newNode e height = \<lparr>sn_entry = e, sn_height = height, sn_next = replicate MaxHeight None\<rparr>"

definition getNext :: "skip_list \<Rightarrow> nat \<Rightarrow> nat \<Rightarrow> nat option" where
  "getNext s p level = sn_next (sl_nodes s ! p) ! level"

definition setNext :: "nat \<Rightarrow> nat \<Rightarrow> nat option \<Rightarrow> skip_list \<Rightarrow> skip_list" where
  "setNext p level q s =
     s\<lparr>sl_nodes := (sl_nodes s)
         [p := (sl_nodes s ! p)\<lparr>sn_next := (sn_next (sl_nodes s ! p))[level := q]\<rparr>]\<rparr>"

definition NewSkipList :: "(nat \<Rightarrow> bool) \<Rightarrow> skip_list" where
  "NewSkipList rnd =
     \<lparr>sl_nodes = [newNode None MaxHeight], sl_maxHeight = 1, sl_rnd = rnd, sl_size = 0\<rparr>"

text \<open>The loop of \<open>randomHeight\<close> asks for another coin at each height below the maximum.\<close>

function random_height :: "(nat \<Rightarrow> bool) \<Rightarrow> nat \<Rightarrow> nat" where
  "random_height rnd height =
     (if height < MaxHeight \<and> rnd (height - 1) then random_height rnd (Suc height) else height)"
  by pat_completeness auto
termination by (relation "measure (\<lambda>(_, height). MaxHeight - height)") auto

declare random_height.simps [simp del]

definition randomHeight :: "skip_list \<Rightarrow> nat \<times> skip_list" where
  "randomHeight s =
     (let height = random_height (sl_rnd s) 1;
          used = (if height < MaxHeight then height else height - 1)
      in (height, s\<lparr>sl_rnd := \<lambda>i. sl_rnd s (used + i)\<rparr>))"

definition getCurrentHeight :: "skip_list \<Rightarrow> nat" where
  "getCurrentHeight s = sl_maxHeight s"

section \<open>Searching\<close>

text \<open>The inner loop: move right on one level while the next entry is below the target.\<close>

partial_function (option) advance ::
  "skip_list \<Rightarrow> (mentry \<Rightarrow> bool) \<Rightarrow> nat \<Rightarrow> nat \<Rightarrow> nat option" where
  "advance s below level current =
     (case getNext s current level of
        None \<Rightarrow> Some current
      | Some nx \<Rightarrow>
          (case sn_entry (sl_nodes s ! nx) of
             None \<Rightarrow> None
           | Some e \<Rightarrow> if below e then advance s below level nx else Some current))"

text \<open>The outer loop: from the top level down, remembering the last node before the target.\<close>

fun descend ::
  "skip_list \<Rightarrow> (mentry \<Rightarrow> bool) \<Rightarrow> nat \<Rightarrow> nat \<Rightarrow> nat option list \<Rightarrow> (nat \<times> nat option list) option" where
  "descend s below 0 current prev = Some (current, prev)"
| "descend s below (Suc level) current prev =
     (case advance s below level current of
        None \<Rightarrow> None
      | Some c \<Rightarrow> descend s below level c (prev[level := Some c]))"

fun link_levels :: "nat \<Rightarrow> nat option list \<Rightarrow> nat \<Rightarrow> nat \<Rightarrow> skip_list \<Rightarrow> skip_list option" where
  "link_levels n prev 0 level s = Some s"
| "link_levels n prev (Suc k) level s =
     (case prev ! level of
        None \<Rightarrow> None
      | Some q \<Rightarrow>
          link_levels n prev k (Suc level)
            (setNext q level (Some n) (setNext n level (getNext s q level) s)))"

definition Insert :: "mentry \<Rightarrow> skip_list \<Rightarrow> skip_list option" where
  "Insert e s0 =
     (let (height, s1) = randomHeight s0;
          n = length (sl_nodes s1);
          s2 = s1\<lparr>sl_nodes := sl_nodes s1 @ [newNode (Some e) height],
                  sl_maxHeight := if height > getCurrentHeight s1 then height else getCurrentHeight s1\<rparr>
      in case descend s2 (\<lambda>x. compareWithEntry x e < 0) (getCurrentHeight s2) head
                (replicate MaxHeight None) of
           None \<Rightarrow> None
         | Some (_, prev) \<Rightarrow>
             (case link_levels n prev height 0 s2 of
                None \<Rightarrow> None
              | Some s3 \<Rightarrow> Some (s3\<lparr>sl_size := sl_size s3 + int (entry_size e)\<rparr>)))"

text \<open>The last loop of \<open>Find\<close>: the highest sequence number among the entries of the key.\<close>

partial_function (option) newest_of :: "skip_list \<Rightarrow> bytes \<Rightarrow> nat option \<Rightarrow> mentry \<Rightarrow> mentry option" where
  "newest_of s key candidate result =
     (case candidate of
        None \<Rightarrow> Some result
      | Some c \<Rightarrow>
          (case sn_entry (sl_nodes s ! c) of
             None \<Rightarrow> None
           | Some e \<Rightarrow>
               if entry_compare e key = 0
               then newest_of s key (getNext s c 0) (if me_seq e > me_seq result then e else result)
               else Some result))"

definition Find :: "bytes \<Rightarrow> skip_list \<Rightarrow> mentry option option" where
  "Find key s =
     (case descend s (\<lambda>x. entry_compare x key < 0) (getCurrentHeight s) head (replicate MaxHeight None) of
        None \<Rightarrow> None
      | Some (current, _) \<Rightarrow>
          (case getNext s current 0 of
             None \<Rightarrow> Some None
           | Some candidate \<Rightarrow>
               (case sn_entry (sl_nodes s ! candidate) of
                  None \<Rightarrow> None
                | Some e \<Rightarrow>
                    if entry_compare e key \<noteq> 0 then Some None
                    else map_option Some (newest_of s key (Some candidate) e))))"

definition skip_ApproximateSize :: "skip_list \<Rightarrow> int" where
  "skip_ApproximateSize s = sl_size s"

section \<open>The iterator\<close>

text \<open>An iterator is its \<open>current\<close> pointer; the list is an argument of its operations.\<close>

type_synonym skip_iter = "nat option"

definition NewIterator :: "skip_list \<Rightarrow> skip_iter" where
  "NewIterator s = Some head"

definition iter_Valid :: "skip_list \<Rightarrow> skip_iter \<Rightarrow> bool" where
  "iter_Valid s it \<longleftrightarrow> it \<noteq> None \<and> it \<noteq> Some head"

definition iter_Next :: "skip_list \<Rightarrow> skip_iter \<Rightarrow> skip_iter" where
  "iter_Next s it = (case it of None \<Rightarrow> None | Some p \<Rightarrow> getNext s p 0)"

definition iter_SeekToFirst :: "skip_list \<Rightarrow> skip_iter \<Rightarrow> skip_iter" where
  "iter_SeekToFirst s it = getNext s head 0"

definition iter_Seek :: "skip_list \<Rightarrow> bytes \<Rightarrow> skip_iter \<Rightarrow> skip_iter option" where
  "iter_Seek s key it =
     (case descend s (\<lambda>x. entry_compare x key < 0) (getCurrentHeight s) head (replicate MaxHeight None) of
        None \<Rightarrow> None
      | Some (current, _) \<Rightarrow> Some (getNext s current 0))"

definition iter_Entry :: "skip_list \<Rightarrow> skip_iter \<Rightarrow> mentry option" where
  "iter_Entry s it = (if iter_Valid s it then sn_entry (sl_nodes s ! the it) else None)"

definition iter_Key :: "skip_list \<Rightarrow> skip_iter \<Rightarrow> slice" where
  "iter_Key s it = map_option me_key (iter_Entry s it)"

definition iter_Value :: "skip_list \<Rightarrow> skip_iter \<Rightarrow> slice" where
  "iter_Value s it = (case iter_Entry s it of None \<Rightarrow> None | Some e \<Rightarrow> me_value e)"

definition iter_ValueType :: "skip_list \<Rightarrow> skip_iter \<Rightarrow> value_type option" where
  "iter_ValueType s it = map_option me_type (iter_Entry s it)"

definition iter_IsTombstone :: "skip_list \<Rightarrow> skip_iter \<Rightarrow> bool" where
  "iter_IsTombstone s it \<longleftrightarrow> iter_ValueType s it = Some TypeDeletion"

text \<open>The entries an iterator passes from a position on; each step visits a new node.\<close>

fun walk :: "nat \<Rightarrow> skip_list \<Rightarrow> skip_iter \<Rightarrow> mentry list" where
  "walk 0 s it = []"
| "walk (Suc fuel) s it =
     (case iter_Entry s it of None \<Rightarrow> [] | Some e \<Rightarrow> e # walk fuel s (iter_Next s it))"

definition skip_entries :: "skip_list \<Rightarrow> mentry list" where
  "skip_entries s = walk (length (sl_nodes s)) s (iter_SeekToFirst s (NewIterator s))"

section \<open>Well-formed lists\<close>

fun linked :: "skip_list \<Rightarrow> nat \<Rightarrow> nat \<Rightarrow> nat list \<Rightarrow> bool" where
  "linked s l p [] \<longleftrightarrow> getNext s p l = None"
| "linked s l p (q # qs) \<longleftrightarrow> getNext s p l = Some q \<and> linked s l q qs"

definition entry_at :: "skip_list \<Rightarrow> nat \<Rightarrow> mentry" where
  "entry_at s p = the (sn_entry (sl_nodes s ! p))"

definition height_at :: "skip_list \<Rightarrow> nat \<Rightarrow> nat" where
  "height_at s p = sn_height (sl_nodes s ! p)"

text \<open>
  The nodes in list order are \<open>ps\<close>: distinct nodes of the arena without the head, sorted, and
  level \<open>l\<close> links those of them that are higher than \<open>l\<close>.
\<close>

definition threaded :: "skip_list \<Rightarrow> nat list \<Rightarrow> bool" where
  "threaded s ps \<longleftrightarrow>
     set ps \<subseteq> {1..<length (sl_nodes s)} \<and> distinct ps \<and> sl_nodes s \<noteq> [] \<and>
     (\<forall>nd\<in>set (sl_nodes s). length (sn_next nd) = MaxHeight) \<and>
     (\<forall>p\<in>set ps. sn_entry (sl_nodes s ! p) \<noteq> None \<and> 0 < height_at s p \<and>
        height_at s p \<le> sl_maxHeight s) \<and>
     0 < sl_maxHeight s \<and> sl_maxHeight s \<le> MaxHeight \<and>
     sorted_wrt (\<lambda>p q. \<not> precedes (entry_at s q) (entry_at s p)) ps \<and>
     (\<forall>l<MaxHeight. linked s l head (filter (\<lambda>p. l < height_at s p) ps))"

definition skip_wf :: "skip_list \<Rightarrow> bool" where
  "skip_wf s \<longleftrightarrow> (\<exists>ps. threaded s ps)"

section \<open>Pointer lemmas\<close>

lemma random_height_bounds:
  "0 < height \<Longrightarrow> height \<le> MaxHeight \<Longrightarrow>
     0 < random_height rnd height \<and> random_height rnd height \<le> MaxHeight"
proof (induction rnd height rule: random_height.induct)
  case (1 rnd height)
  then show ?case by (auto simp: random_height.simps [of rnd height])
qed

lemma length_setNext [simp]: "length (sl_nodes (setNext p l q s)) = length (sl_nodes s)"
  by (simp add: setNext_def)

lemma setNext_fields [simp]:
  "sl_maxHeight (setNext p l q s) = sl_maxHeight s"
  "sl_rnd (setNext p l q s) = sl_rnd s"
  "sl_size (setNext p l q s) = sl_size s"
  by (simp_all add: setNext_def)

lemma setNext_node [simp]:
  "sn_entry (sl_nodes (setNext p l q s) ! x) = sn_entry (sl_nodes s ! x)"
  "sn_height (sl_nodes (setNext p l q s) ! x) = sn_height (sl_nodes s ! x)"
  "length (sn_next (sl_nodes (setNext p l q s) ! x)) = length (sn_next (sl_nodes s ! x))"
  by (cases "p < length (sl_nodes s)";
      auto simp: setNext_def nth_list_update list_update_beyond not_less)+

lemma getNext_setNext:
  "p < length (sl_nodes s) \<Longrightarrow> l < length (sn_next (sl_nodes s ! p)) \<Longrightarrow>
     getNext (setNext p l q s) x m = (if x = p \<and> m = l then q else getNext s x m)"
  by (auto simp: getNext_def setNext_def nth_list_update)

lemma linked_append:
  "linked s l p (xs @ ys) \<Longrightarrow> linked s l (last (p # xs)) ys"
  by (induction xs arbitrary: p) auto

lemma linked_cong:
  "(\<And>x. x \<in> insert p (set qs) \<Longrightarrow> getNext s x l = getNext t x l) \<Longrightarrow> linked s l p qs = linked t l p qs"
  by (induction qs arbitrary: p) auto

text \<open>Splicing a node \<open>n\<close> in behind the last node of \<open>xs\<close>.\<close>

lemma linked_splice:
  assumes "linked s l p (xs @ ys)" and "distinct (p # xs @ ys)" and "n \<notin> set (p # xs @ ys)"
    and "\<And>x. getNext t x l =
      (if x = n then getNext s (last (p # xs)) l else if x = last (p # xs) then Some n else getNext s x l)"
  shows "linked t l p (xs @ n # ys)"
  using assms
proof (induction xs arbitrary: p)
  case Nil
  have "linked t l n ys"
  proof (cases ys)
    case (Cons y zs)
    with Nil have "linked s l y zs" by simp
    moreover have "linked s l y zs = linked t l y zs"
      using Nil Cons by (intro linked_cong) auto
    ultimately show ?thesis using Nil Cons by simp
  qed (use Nil in simp)
  with Nil show ?case by simp
next
  case (Cons x xs)
  have "linked t l x (xs @ n # ys)"
    using Cons.prems by (intro Cons.IH) auto
  moreover have "p \<noteq> last (x # xs)"
    using Cons.prems(2) last_in_set [of "x # xs"] by auto
  ultimately show ?case using Cons.prems by auto
qed

lemma advance_linked:
  assumes "linked s l p qs" and "\<forall>q\<in>set qs. sn_entry (sl_nodes s ! q) \<noteq> None"
  shows "advance s below l p = Some (last (p # takeWhile (\<lambda>q. below (entry_at s q)) qs))"
  using assms
proof (induction qs arbitrary: p)
  case Nil
  then show ?case by (subst advance.simps) simp
next
  case (Cons q qs)
  then show ?case by (subst advance.simps) (auto simp: entry_at_def)
qed

section \<open>Searching a well-formed list\<close>

text \<open>The last node of a level whose entry is below the target.\<close>

definition pred_at :: "skip_list \<Rightarrow> (mentry \<Rightarrow> bool) \<Rightarrow> nat list \<Rightarrow> nat \<Rightarrow> nat" where
  "pred_at s below ps l = last (head # filter (\<lambda>p. below (entry_at s p) \<and> l < height_at s p) ps)"

definition downward :: "(mentry \<Rightarrow> bool) \<Rightarrow> bool" where
  "downward below \<longleftrightarrow> (\<forall>a b. \<not> precedes b a \<longrightarrow> below b \<longrightarrow> below a)"

lemma downward_entry: "downward (\<lambda>x. compareWithEntry x e < 0)"
  by (auto simp: downward_def precedes_def [symmetric] intro: precedes_weak_trans)

lemma downward_key: "downward (\<lambda>x. entry_compare x key < 0)"
  by (auto simp: downward_def precedes_iff not_less)

lemma sorted_below:
  assumes "sorted_wrt (\<lambda>p q. \<not> precedes (entry_at s q) (entry_at s p)) ps" and "downward below"
  shows "takeWhile (\<lambda>p. below (entry_at s p)) ps = filter (\<lambda>p. below (entry_at s p)) ps"
    and "dropWhile (\<lambda>p. below (entry_at s p)) ps = filter (\<lambda>p. \<not> below (entry_at s p)) ps"
  using assms by (auto simp: downward_def intro!: sorted_takeWhile_filter)

lemma last_filter_split:
  obtains xs' where "xs = xs' @ drop (length xs') xs"
    and "last (p # filter P xs) = last (p # xs')"
proof (cases "filter P xs = []")
  case True
  then show ?thesis using that [of "[]"] by simp
next
  case False
  then have "last (filter P xs) \<in> set xs"
    using last_in_set by fastforce
  then obtain ys zs where "xs = ys @ last (filter P xs) # zs"
    by (meson split_list)
  then have "xs = (ys @ [last (filter P xs)]) @ drop (length (ys @ [last (filter P xs)])) xs"
    by (metis append.assoc append_Cons append_Nil append_eq_conv_conj)
  then show ?thesis
    using False that by (metis last_ConsR last_snoc snoc_eq_iff_butlast)
qed

lemma advance_pred:
  assumes ps: "threaded s ps" and d: "downward below" and l: "l < MaxHeight"
  shows "advance s below l (pred_at s below ps (Suc l)) = Some (pred_at s below ps l)"
proof -
  let ?b = "\<lambda>p. below (entry_at s p)"
  let ?L = "filter (\<lambda>p. l < height_at s p) ps"
  have sorted: "sorted_wrt (\<lambda>p q. \<not> precedes (entry_at s q) (entry_at s p)) ?L"
    and links: "linked s l head ?L" and ent: "\<forall>q\<in>set ?L. sn_entry (sl_nodes s ! q) \<noteq> None"
    using ps l by (auto simp: threaded_def sorted_wrt_filter)
  define A B where "A = filter ?b ?L" and "B = dropWhile ?b ?L"
  have split: "?L = A @ B"
    unfolding A_def B_def sorted_below(1) [OF sorted d, symmetric] by simp
  have "pred_at s below ps (Suc l) = last (head # filter (\<lambda>p. Suc l < height_at s p) A)"
    unfolding pred_at_def A_def filter_filter
    by (intro arg_cong [of _ _ "\<lambda>xs. last (head # xs)"] filter_cong) auto
  then obtain A1 A2 where A: "A = A1 @ A2" and c: "pred_at s below ps (Suc l) = last (head # A1)"
    using last_filter_split [of A head "\<lambda>p. Suc l < height_at s p"] by metis
  have "linked s l (last (head # A1)) (A2 @ B)"
    using links unfolding split A by (intro linked_append) simp
  then have "advance s below l (last (head # A1)) = Some (last (last (head # A1) # takeWhile ?b (A2 @ B)))"
    using ent unfolding split A by (intro advance_linked) auto
  moreover have "takeWhile ?b (A2 @ B) = A2"
  proof -
    have "set A2 \<subseteq> set A" using A by simp
    then have "\<forall>q\<in>set A2. ?b q" by (auto simp: A_def)
    moreover have "takeWhile ?b B = []"
      unfolding B_def by (rule takeWhile_dropWhile)
    ultimately show ?thesis by (simp add: takeWhile_append)
  qed
  moreover have "last (last (head # A1) # A2) = last (head # A)"
    by (cases A2) (auto simp: A)
  moreover have "pred_at s below ps l = last (head # A)"
    by (simp add: pred_at_def A_def conj_ac)
  ultimately show ?thesis unfolding c by simp
qed

lemma descend_pred:
  assumes "threaded s ps" and "downward below" and "k \<le> MaxHeight" and "length prev = MaxHeight"
  shows "\<exists>prev'. descend s below k (pred_at s below ps k) prev = Some (pred_at s below ps 0, prev') \<and>
    length prev' = MaxHeight \<and> (\<forall>l<k. prev' ! l = Some (pred_at s below ps l)) \<and>
    (\<forall>l\<ge>k. prev' ! l = prev ! l)"
  using assms(3,4)
proof (induction k arbitrary: prev)
  case 0
  then show ?case by simp
next
  case (Suc k)
  let ?c = "pred_at s below ps k"
  from Suc.IH [of "prev[k := Some ?c]"] Suc.prems obtain prev'
    where "descend s below k ?c (prev[k := Some ?c]) = Some (pred_at s below ps 0, prev')"
      and "length prev' = MaxHeight" and "\<forall>l<k. prev' ! l = Some (pred_at s below ps l)"
      and "\<forall>l\<ge>k. prev' ! l = prev[k := Some ?c] ! l"
    by auto
  then show ?case
    using advance_pred [OF assms(1,2), of k] Suc.prems
    by (intro exI [of _ prev']) (auto simp: less_Suc_eq)
qed

lemma pred_at_top: "threaded s ps \<Longrightarrow> sl_maxHeight s \<le> l \<Longrightarrow> pred_at s below ps l = head"
proof -
  assume "threaded s ps" and l: "sl_maxHeight s \<le> l"
  then have "\<forall>p\<in>set ps. height_at s p \<le> sl_maxHeight s"
    unfolding threaded_def by blast
  with l have "\<forall>p\<in>set ps. height_at s p \<le> l"
    using order_trans by blast
  then have "filter (\<lambda>p. below (entry_at s p) \<and> l < height_at s p) ps = []"
    by (simp add: filter_empty_conv not_less)
  then show "pred_at s below ps l = head"
    by (simp add: pred_at_def)
qed

lemma search_pred:
  assumes "threaded s ps" and "downward below"
  obtains prev where "descend s below (getCurrentHeight s) head (replicate MaxHeight None) =
      Some (pred_at s below ps 0, prev)"
    and "\<And>l. l < sl_maxHeight s \<Longrightarrow> prev ! l = Some (pred_at s below ps l)"
  using descend_pred [OF assms, of "sl_maxHeight s" "replicate MaxHeight None"]
    pred_at_top [OF assms(1) order_refl] assms(1)
  by (auto simp: getCurrentHeight_def threaded_def)

section \<open>What the operations do\<close>

lemma walk_linked:
  assumes "linked s 0 p qs" and "\<forall>q\<in>set qs. q \<noteq> head \<and> sn_entry (sl_nodes s ! q) \<noteq> None"
    and "length qs \<le> fuel"
  shows "walk fuel s (getNext s p 0) = map (entry_at s) qs"
  using assms
proof (induction qs arbitrary: p fuel)
  case Nil
  then show ?case by (cases fuel) (simp_all add: iter_Entry_def iter_Valid_def)
next
  case (Cons q qs)
  then obtain f where f: "fuel = Suc f" by (cases fuel) auto
  with Cons show ?case
    by (auto simp: iter_Entry_def iter_Valid_def iter_Next_def entry_at_def)
qed

lemma threaded_linked0: "threaded s ps \<Longrightarrow> linked s 0 head ps"
proof -
  assume ps: "threaded s ps"
  then have "filter (\<lambda>p. 0 < height_at s p) ps = ps"
    unfolding threaded_def by (auto simp: filter_id_conv)
  moreover from ps have "\<forall>l<MaxHeight. linked s l head (filter (\<lambda>p. l < height_at s p) ps)"
    unfolding threaded_def by blast
  then have "linked s 0 head (filter (\<lambda>p. 0 < height_at s p) ps)"
    by (rule allE [where x = 0]) (simp add: MaxHeight_def)
  ultimately show ?thesis by simp
qed

lemma threaded_nodes:
  "threaded s ps \<Longrightarrow> \<forall>q\<in>set ps. q \<noteq> head \<and> sn_entry (sl_nodes s ! q) \<noteq> None"
  unfolding threaded_def by auto

lemma threaded_length: "threaded s ps \<Longrightarrow> length ps \<le> length (sl_nodes s)"
proof -
  assume "threaded s ps"
  then have "set ps \<subseteq> {1..<length (sl_nodes s)}" "distinct ps" by (simp_all add: threaded_def)
  then show ?thesis
    using card_mono [of "{1..<length (sl_nodes s)}" "set ps"] by (simp add: distinct_card)
qed

lemma skip_entries_threaded:
  assumes "threaded s ps"
  shows "skip_entries s = map (entry_at s) ps"
  using walk_linked [OF threaded_linked0 [OF assms] threaded_nodes [OF assms] threaded_length [OF assms]]
  by (simp add: skip_entries_def iter_SeekToFirst_def)

lemma skip_wf_sorted: "skip_wf s \<Longrightarrow> version_sorted (skip_entries s)"
  by (auto simp: skip_wf_def skip_entries_threaded version_sorted_def sorted_wrt_map threaded_def)

lemma NewSkipList_threaded: "threaded (NewSkipList rnd) []"
  by (simp add: threaded_def NewSkipList_def newNode_def getNext_def MaxHeight_def)

lemma NewSkipList_ok: "skip_wf (NewSkipList rnd) \<and> skip_entries (NewSkipList rnd) = []"
  using NewSkipList_threaded skip_entries_threaded by (fastforce simp: skip_wf_def)

subsection \<open>Finding\<close>

text \<open>Behind the last node below the target stands the first node that is not below it.\<close>

lemma search_next:
  assumes "threaded s ps" and "downward below"
  shows "linked s 0 (pred_at s below ps 0) (dropWhile (\<lambda>p. below (entry_at s p)) ps)"
proof -
  have "filter (\<lambda>p. below (entry_at s p) \<and> 0 < height_at s p) ps = filter (\<lambda>p. below (entry_at s p)) ps"
    using assms(1) by (intro filter_cong) (auto simp: threaded_def)
  also have "\<dots> = takeWhile (\<lambda>p. below (entry_at s p)) ps"
    using assms by (simp add: sorted_below threaded_def)
  finally have "pred_at s below ps 0 = last (head # takeWhile (\<lambda>p. below (entry_at s p)) ps)"
    by (simp add: pred_at_def)
  moreover have "linked s 0 head (takeWhile (\<lambda>p. below (entry_at s p)) ps @ dropWhile (\<lambda>p. below (entry_at s p)) ps)"
    using threaded_linked0 [OF assms(1)] by simp
  ultimately show ?thesis using linked_append by metis
qed

lemma newest_of_linked:
  assumes "linked s 0 c qs" and "\<forall>q\<in>set qs. sn_entry (sl_nodes s ! q) \<noteq> None"
    and "\<forall>q\<in>set qs. me_key (entry_at s q) = key \<longrightarrow> me_seq (entry_at s q) \<le> me_seq result"
  shows "newest_of s key (getNext s c 0) result = Some result"
  using assms
proof (induction qs arbitrary: c)
  case Nil
  then show ?case by (subst newest_of.simps) simp
next
  case (Cons q qs)
  then show ?case by (subst newest_of.simps) (auto simp: entry_at_def not_less)
qed

lemma lookup_key_dropWhile:
  "lookup_version key (map f ps) = lookup_version key (map f (dropWhile (\<lambda>p. me_key (f p) < key) ps))"
  by (induction ps) auto

lemma Find_threaded:
  assumes ps: "threaded s ps"
  shows "Find key s = Some (lookup_version key (map (entry_at s) ps))"
proof -
  let ?below = "\<lambda>x. entry_compare x key < 0"
  define qs0 where "qs0 = dropWhile (\<lambda>p. me_key (entry_at s p) < key) ps"
  obtain prev where search: "descend s ?below (getCurrentHeight s) head (replicate MaxHeight None) =
      Some (pred_at s ?below ps 0, prev)"
    by (rule search_pred [OF ps downward_key])
  have links: "linked s 0 (pred_at s ?below ps 0) qs0"
    using search_next [OF ps downward_key, of key] by (simp add: qs0_def)
  have lookup: "lookup_version key (map (entry_at s) ps) = lookup_version key (map (entry_at s) qs0)"
    unfolding qs0_def by (rule lookup_key_dropWhile)
  have ent: "\<forall>q\<in>set qs0. sn_entry (sl_nodes s ! q) \<noteq> None"
    using threaded_nodes [OF ps] set_dropWhileD unfolding qs0_def by fastforce
  have sorted: "sorted_wrt (\<lambda>p q. \<not> precedes (entry_at s q) (entry_at s p)) qs0"
    using ps sorted_wrt_dropWhile unfolding threaded_def qs0_def by blast
  show ?thesis
  proof (cases qs0)
    case Nil
    then show ?thesis using links search lookup by (simp add: Find_def)
  next
    case (Cons q qs)
    then have nxt: "getNext s (pred_at s ?below ps 0) 0 = Some q" and rest: "linked s 0 q qs"
      using links by simp_all
    obtain e where e: "sn_entry (sl_nodes s ! q) = Some e" "entry_at s q = e"
      using ent Cons by (auto simp: entry_at_def)
    show ?thesis
    proof (cases "me_key e = key")
      case True
      have "newest_of s key (getNext s q 0) e = Some e"
      proof (rule newest_of_linked [OF rest])
        show "\<forall>q\<in>set qs. sn_entry (sl_nodes s ! q) \<noteq> None"
          using ent Cons by simp
        show "\<forall>q\<in>set qs. me_key (entry_at s q) = key \<longrightarrow> me_seq (entry_at s q) \<le> me_seq e"
          using sorted Cons True e by (auto simp: precedes_iff not_less)
      qed
      then have "newest_of s key (Some q) e = Some e"
        by (subst newest_of.simps) (simp add: e True)
      then show ?thesis using search nxt lookup Cons e True by (simp add: Find_def)
    next
      case False
      have "\<not> me_key e < key" using Cons e(2) unfolding qs0_def by (metis dropWhile_eq_Cons_conv)
      with False have "key < me_key e" by simp
      then have "lookup_version key (map (entry_at s) qs) = None"
        using sorted Cons e by (auto simp: lookup_version_none precedes_iff)
      then show ?thesis using search nxt lookup Cons e False by (simp add: Find_def)
    qed
  qed
qed

lemma Find_ok: "skip_wf s \<Longrightarrow> Find key s = Some (lookup_version key (skip_entries s))"
  by (auto simp: skip_wf_def Find_threaded skip_entries_threaded)

subsection \<open>Inserting\<close>

text \<open>Linking changes nothing but the pointers of the new node and of its predecessors.\<close>

definition same_nodes :: "skip_list \<Rightarrow> skip_list \<Rightarrow> bool" where
  "same_nodes s t \<longleftrightarrow> length (sl_nodes t) = length (sl_nodes s) \<and>
     (\<forall>x. sn_entry (sl_nodes t ! x) = sn_entry (sl_nodes s ! x) \<and>
          sn_height (sl_nodes t ! x) = sn_height (sl_nodes s ! x) \<and>
          length (sn_next (sl_nodes t ! x)) = length (sn_next (sl_nodes s ! x))) \<and>
     sl_maxHeight t = sl_maxHeight s \<and> sl_rnd t = sl_rnd s \<and> sl_size t = sl_size s"

lemma same_nodes_simps:
  "same_nodes s t \<Longrightarrow> entry_at t = entry_at s" "same_nodes s t \<Longrightarrow> height_at t = height_at s"
  by (auto simp: same_nodes_def entry_at_def height_at_def)

lemma link_levels_ok:
  assumes "\<forall>x<length (sl_nodes s). length (sn_next (sl_nodes s ! x)) = MaxHeight"
    and "n < length (sl_nodes s)" and "level + k \<le> MaxHeight"
    and "\<forall>l. level \<le> l \<and> l < level + k \<longrightarrow>
      prev ! l = Some (pr l) \<and> pr l < length (sl_nodes s) \<and> pr l \<noteq> n"
  shows "\<exists>t. link_levels n prev k level s = Some t \<and> same_nodes s t \<and>
    (\<forall>x l. getNext t x l =
      (if level \<le> l \<and> l < level + k
       then if x = n then getNext s (pr l) l else if x = pr l then Some n else getNext s x l
       else getNext s x l))"
  using assms
proof (induction k arbitrary: level s)
  case 0
  then show ?case by (auto simp: same_nodes_def)
next
  case (Suc k)
  let ?u = "setNext (pr level) level (Some n) (setNext n level (getNext s (pr level) level) s)"
  have pr: "prev ! level = Some (pr level)" "pr level < length (sl_nodes s)" "pr level \<noteq> n"
    using Suc.prems by auto
  have u: "getNext ?u x l =
      (if l = level then if x = n then getNext s (pr l) l else if x = pr l then Some n else getNext s x l
       else getNext s x l)" for x l
    using Suc.prems(1-3) pr by (auto simp: getNext_setNext)
  have same: "same_nodes s ?u" by (simp add: same_nodes_def)
  obtain t where t: "link_levels n prev k (Suc level) ?u = Some t" "same_nodes ?u t"
    "\<And>x l. getNext t x l =
      (if Suc level \<le> l \<and> l < Suc level + k
       then if x = n then getNext ?u (pr l) l else if x = pr l then Some n else getNext ?u x l
       else getNext ?u x l)"
    using Suc.IH [of ?u "Suc level"] Suc.prems by auto
  have "getNext t x l =
      (if level \<le> l \<and> l < level + Suc k
       then if x = n then getNext s (pr l) l else if x = pr l then Some n else getNext s x l
       else getNext s x l)" for x l
    unfolding t(3) u using pr(3) by (cases "l = level") auto
  moreover have "same_nodes s t" using same t(2) by (simp add: same_nodes_def)
  ultimately show ?case using t(1) pr(1) by simp
qed

text \<open>The arena with the new node allocated but not linked.\<close>

lemma threaded_alloc:
  fixes e rnd
  assumes "threaded s ps" and "0 < h" "h \<le> MaxHeight"
  defines "t \<equiv> s\<lparr>sl_rnd := rnd, sl_nodes := sl_nodes s @ [newNode (Some e) h],
      sl_maxHeight := if h > sl_maxHeight s then h else sl_maxHeight s\<rparr>"
  shows "threaded t ps" and "\<forall>p\<in>set ps. entry_at t p = entry_at s p"
    and "length (sl_nodes s) \<notin> set ps" and "entry_at t (length (sl_nodes s)) = e"
    and "height_at t (length (sl_nodes s)) = h"
proof -
  have sub: "\<forall>p\<in>set ps. p < length (sl_nodes s)"
    using assms(1) unfolding threaded_def by auto
  have nth: "sl_nodes t ! p = sl_nodes s ! p" if "p < length (sl_nodes s)" for p
    using that by (simp add: t_def nth_append)
  show ent: "\<forall>p\<in>set ps. entry_at t p = entry_at s p"
    using sub nth by (simp add: entry_at_def)
  have hgt: "\<forall>p\<in>set ps. height_at t p = height_at s p"
    using sub nth by (simp add: height_at_def)
  show "length (sl_nodes s) \<notin> set ps" using sub by auto
  show "entry_at t (length (sl_nodes s)) = e" "height_at t (length (sl_nodes s)) = h"
    by (simp_all add: entry_at_def height_at_def t_def newNode_def)
  have "linked t l head (filter (\<lambda>p. l < height_at t p) ps)" if "l < MaxHeight" for l
  proof -
    have "filter (\<lambda>p. l < height_at t p) ps = filter (\<lambda>p. l < height_at s p) ps"
      using hgt by (intro filter_cong) auto
    moreover have "linked s l head (filter (\<lambda>p. l < height_at s p) ps)"
      using assms(1) that unfolding threaded_def by blast
    moreover have "0 < length (sl_nodes s)" using assms(1) unfolding threaded_def by simp
    moreover have "getNext s x l = getNext t x l" if "x \<in> insert head (set ps)" for x
      using that sub nth [of x] \<open>0 < length (sl_nodes s)\<close> by (auto simp: getNext_def)
    then have "linked s l head (filter (\<lambda>p. l < height_at s p) ps) =
        linked t l head (filter (\<lambda>p. l < height_at s p) ps)"
      by (intro linked_cong) auto
    ultimately show ?thesis by simp
  qed
  moreover have "sorted_wrt (\<lambda>p q. \<not> precedes (entry_at t q) (entry_at t p)) ps"
    using assms(1) ent unfolding threaded_def by (auto intro: sorted_wrt_mono_rel [rotated])
  moreover have "\<forall>p\<in>set ps. sn_entry (sl_nodes t ! p) \<noteq> None \<and> 0 < height_at t p \<and> height_at t p \<le> sl_maxHeight t"
    using assms(1) sub nth hgt unfolding threaded_def by (auto simp: t_def)
  moreover have "\<forall>nd\<in>set (sl_nodes t). length (sn_next nd) = MaxHeight"
    using assms(1) unfolding threaded_def by (auto simp: t_def newNode_def)
  moreover have "0 < sl_maxHeight t \<and> sl_maxHeight t \<le> MaxHeight"
    using assms(1-3) unfolding threaded_def by (auto simp: t_def)
  moreover have "set ps \<subseteq> {1..<length (sl_nodes t)} \<and> distinct ps \<and> sl_nodes t \<noteq> []"
    using assms(1) unfolding threaded_def by (auto simp: t_def)
  ultimately show "threaded t ps" unfolding threaded_def by blast
qed

text \<open>Splicing the allocated node in at every level below its height.\<close>

lemma threaded_splice:
  assumes s: "threaded s (A @ B)" and n: "n \<notin> set (A @ B)" "n \<in> {1..<length (sl_nodes s)}"
    and node: "sn_entry (sl_nodes s ! n) = Some e" "0 < height_at s n" "height_at s n \<le> sl_maxHeight s"
    and order: "\<forall>p\<in>set A. precedes (entry_at s p) e" "\<forall>p\<in>set B. \<not> precedes (entry_at s p) e"
    and same: "same_nodes s t"
    and links: "\<And>x l. getNext t x l =
      (if l < height_at s n
       then let q = last (head # filter (\<lambda>p. l < height_at s p) A)
            in if x = n then getNext s q l else if x = q then Some n else getNext s x l
       else getNext s x l)"
  shows "threaded t (A @ n # B)"
proof -
  note eh = same_nodes_simps [OF same]
  have len: "length (sl_nodes t) = length (sl_nodes s)" and mh: "sl_maxHeight t = sl_maxHeight s"
    using same by (simp_all add: same_nodes_def)
  have "linked t l head (filter (\<lambda>p. l < height_at t p) (A @ n # B))" if l: "l < MaxHeight" for l
  proof -
    let ?f = "filter (\<lambda>p. l < height_at s p)"
    have old: "linked s l head (?f A @ ?f B)"
      using s l unfolding threaded_def by (metis filter_append)
    have dist: "distinct (head # ?f A @ ?f B)" "n \<notin> set (head # ?f A @ ?f B)"
      using s n unfolding threaded_def by (auto simp: distinct_filter)
    show ?thesis
    proof (cases "l < height_at s n")
      case True
      then have "linked t l head (?f A @ n # ?f B)"
        by (intro linked_splice [OF old dist]) (simp add: links Let_def)
      with True show ?thesis by (simp add: eh)
    next
      case False
      then have "linked t l head (?f A @ ?f B)"
        using old linked_cong [of head "?f A @ ?f B" s l t] by (simp add: links)
      with False show ?thesis by (simp add: eh)
    qed
  qed
  moreover have "sorted_wrt (\<lambda>p q. \<not> precedes (entry_at t q) (entry_at t p)) (A @ n # B)"
  proof -
    have "entry_at s n = e" using node(1) by (simp add: entry_at_def)
    moreover have "\<forall>p\<in>set A. \<not> precedes e (entry_at s p)"
      using order(1) precedes_trans precedes_irrefl by blast
    ultimately show ?thesis
      using s order(2) unfolding threaded_def eh by (simp add: sorted_wrt_append)
  qed
  moreover have "\<forall>nd\<in>set (sl_nodes t). length (sn_next nd) = MaxHeight"
    using s same unfolding threaded_def same_nodes_def by (metis in_set_conv_nth)
  moreover have "\<forall>p\<in>set (A @ n # B). sn_entry (sl_nodes t ! p) \<noteq> None \<and> 0 < height_at t p \<and>
      height_at t p \<le> sl_maxHeight t"
    using s same node unfolding threaded_def eh same_nodes_def by auto
  moreover have "set (A @ n # B) \<subseteq> {1..<length (sl_nodes t)} \<and> distinct (A @ n # B) \<and> sl_nodes t \<noteq> []"
    using s n len unfolding threaded_def by auto
  moreover have "0 < sl_maxHeight t \<and> sl_maxHeight t \<le> MaxHeight"
    using s mh unfolding threaded_def by simp
  ultimately show ?thesis unfolding threaded_def by blast
qed

lemma size_update [simp]:
  "getNext (s\<lparr>sl_size := x\<rparr>) = getNext s" "entry_at (s\<lparr>sl_size := x\<rparr>) = entry_at s"
  "height_at (s\<lparr>sl_size := x\<rparr>) = height_at s"
  by (simp_all add: fun_eq_iff getNext_def entry_at_def height_at_def)

lemma threaded_size_update [simp]: "threaded (s\<lparr>sl_size := x\<rparr>) ps = threaded s ps"
proof -
  have "linked (s\<lparr>sl_size := x\<rparr>) l p qs = linked s l p qs" for l p qs
    by (intro linked_cong) simp
  then show ?thesis by (simp add: threaded_def)
qed

lemma Insert_threaded:
  assumes ps: "threaded s ps"
  shows "\<exists>t qs. Insert e s = Some t \<and> threaded t qs \<and>
    map (entry_at t) qs = insert_version e (map (entry_at s) ps)"
proof -
  define h where "h = random_height (sl_rnd s) 1"
  obtain rnd where rh: "randomHeight s = (h, s\<lparr>sl_rnd := rnd\<rparr>)"
    by (simp add: randomHeight_def Let_def h_def)
  have h: "0 < h" "h \<le> MaxHeight"
    using random_height_bounds [of 1 "sl_rnd s"] by (simp_all add: h_def MaxHeight_def)
  define n where "n = length (sl_nodes s)"
  define s2 where "s2 = s\<lparr>sl_rnd := rnd, sl_nodes := sl_nodes s @ [newNode (Some e) h],
      sl_maxHeight := if h > sl_maxHeight s then h else sl_maxHeight s\<rparr>"
  have alloc: "threaded s2 ps" "\<forall>p\<in>set ps. entry_at s2 p = entry_at s p" "n \<notin> set ps"
    "entry_at s2 n = e" "height_at s2 n = h"
    unfolding s2_def n_def by (rule threaded_alloc [OF ps h])+
  let ?below = "\<lambda>x. compareWithEntry x e < 0"
  define A B where "A = takeWhile (\<lambda>p. ?below (entry_at s2 p)) ps"
    and "B = dropWhile (\<lambda>p. ?below (entry_at s2 p)) ps"
  have AB: "ps = A @ B" by (simp add: A_def B_def)
  have sorted: "sorted_wrt (\<lambda>p q. \<not> precedes (entry_at s2 q) (entry_at s2 p)) ps"
    using alloc(1) unfolding threaded_def by blast
  note Af = sorted_below(1) [OF sorted downward_entry, of e, folded A_def]
  note Bf = sorted_below(2) [OF sorted downward_entry, of e, folded B_def]
  define pr where "pr l = last (head # filter (\<lambda>p. l < height_at s2 p) A)" for l
  have pr: "pred_at s2 ?below ps l = pr l" for l
    by (simp add: pred_at_def pr_def Af conj_commute)
  obtain prev where search: "descend s2 ?below (getCurrentHeight s2) head (replicate MaxHeight None) =
      Some (pred_at s2 ?below ps 0, prev)"
    and prev: "\<And>l. l < sl_maxHeight s2 \<Longrightarrow> prev ! l = Some (pr l)"
    using search_pred [OF alloc(1) downward_entry, unfolded pr] by (metis pr)
  have hm: "h \<le> sl_maxHeight s2" by (simp add: s2_def)
  have nlen: "n < length (sl_nodes s2)" "n \<noteq> 0"
    using ps by (auto simp: s2_def n_def threaded_def)
  have pr_mem: "pr l \<in> insert head (set ps)" for l
    using last_in_set [of "head # filter (\<lambda>p. l < height_at s2 p) A"] by (auto simp: pr_def AB)
  then have pr_lt: "pr l < length (sl_nodes s2) \<and> pr l \<noteq> n" for l
    using alloc(1,3) nlen pr_mem [of l] unfolding threaded_def by fastforce
  obtain t where t: "link_levels n prev h 0 s2 = Some t" "same_nodes s2 t"
    "\<And>x l. getNext t x l = (if l < h
       then if x = n then getNext s2 (pr l) l else if x = pr l then Some n else getNext s2 x l
       else getNext s2 x l)"
    using link_levels_ok [of s2 n 0 h prev pr] alloc(1) nlen(1) h(2) hm prev pr_lt
    unfolding threaded_def by (auto simp: nth_mem)
  have ins: "Insert e s = Some (t\<lparr>sl_size := sl_size t + int (entry_size e)\<rparr>)"
    using search t(1) by (simp add: Insert_def rh getCurrentHeight_def s2_def n_def Let_def cong: if_cong)
  have order: "\<forall>p\<in>set A. precedes (entry_at s2 p) e" "\<forall>p\<in>set B. \<not> precedes (entry_at s2 p) e"
    by (simp_all add: Af Bf precedes_def)
  have node: "sn_entry (sl_nodes s2 ! n) = Some e" by (simp add: s2_def n_def newNode_def)
  have "threaded t (A @ n # B)"
    using alloc nlen node hm order h t(3)
    by (intro threaded_splice [where s = s2 and e = e]) (simp_all add: AB [symmetric] t(2) pr_def)
  moreover have "map (entry_at t) (A @ n # B) = insert_version e (map (entry_at s) ps)"
  proof -
    have ps_eq: "map (entry_at s) ps = map (entry_at s2) ps" using alloc(2) by simp
    have "entry_at t = entry_at s2" using same_nodes_simps(1) [OF t(2)] .
    then show ?thesis
      unfolding ps_eq insert_version_def takeWhile_map dropWhile_map
      using alloc(4) by (simp add: A_def B_def comp_def precedes_def)
  qed
  ultimately show ?thesis
    using ins by (intro exI [of _ "t\<lparr>sl_size := sl_size t + int (entry_size e)\<rparr>"] exI [of _ "A @ n # B"]) simp
qed

lemma Insert_ok:
  assumes "skip_wf s"
  shows "\<exists>t. Insert e s = Some t \<and> skip_wf t \<and> skip_entries t = insert_version e (skip_entries s)"
proof -
  obtain ps where "threaded s ps" using assms by (auto simp: skip_wf_def)
  moreover from Insert_threaded [OF this, of e] obtain t qs where "Insert e s = Some t"
    "threaded t qs" "map (entry_at t) qs = insert_version e (map (entry_at s) ps)" by blast
  ultimately show ?thesis
    unfolding skip_wf_def by (metis skip_entries_threaded)
qed

text \<open>The skip list is a version list, whatever coins are thrown.\<close>

interpretation sl: version_list skip_wf "\<lambda>_. True" skip_entries Insert Find
  by unfold_locales (simp_all add: skip_wf_sorted Insert_ok Find_ok)

lemma Seek_threaded:
  assumes "threaded s ps"
  shows "\<exists>it'. iter_Seek s key it = Some it' \<and>
    walk (length (sl_nodes s)) s it' = dropWhile (\<lambda>e. me_key e < key) (map (entry_at s) ps)"
proof -
  let ?below = "\<lambda>x. entry_compare x key < 0"
  let ?qs = "dropWhile (\<lambda>p. ?below (entry_at s p)) ps"
  obtain prev where search: "descend s ?below (getCurrentHeight s) head (replicate MaxHeight None) =
      Some (pred_at s ?below ps 0, prev)"
    by (rule search_pred [OF assms downward_key])
  have "walk (length (sl_nodes s)) s (getNext s (pred_at s ?below ps 0) 0) = map (entry_at s) ?qs"
  proof (rule walk_linked [OF search_next [OF assms downward_key]])
    show "\<forall>q\<in>set ?qs. q \<noteq> head \<and> sn_entry (sl_nodes s ! q) \<noteq> None"
      using threaded_nodes [OF assms] set_dropWhileD by fastforce
    show "length ?qs \<le> length (sl_nodes s)"
      using threaded_length [OF assms] length_dropWhile_le order_trans by blast
  qed
  then show ?thesis
    using search by (simp add: iter_Seek_def dropWhile_map comp_def)
qed

lemma Seek_ok:
  assumes "skip_wf s"
  shows "\<exists>it'. iter_Seek s key it = Some it' \<and>
    walk (length (sl_nodes s)) s it' = filter (\<lambda>e. key \<le> me_key e) (skip_entries s)"
proof -
  obtain ps where ps: "threaded s ps" using assms by (auto simp: skip_wf_def)
  have "sorted_wrt (\<lambda>a b. me_key a \<le> me_key b) (skip_entries s)"
    using skip_wf_sorted [OF assms] unfolding version_sorted_def
    by (rule sorted_wrt_mono_rel [rotated]) (auto simp: precedes_iff not_less)
  then have "dropWhile (\<lambda>e. me_key e < key) (skip_entries s) = filter (\<lambda>e. \<not> me_key e < key) (skip_entries s)"
    by (rule sorted_takeWhile_filter) auto
  then show ?thesis
    using Seek_threaded [OF ps, of key it] skip_entries_threaded [OF ps] by (simp add: not_less)
qed

text \<open>The size grows by the size of each inserted entry.\<close>

lemma link_levels_size: "link_levels n prev k level s = Some t \<Longrightarrow> sl_size t = sl_size s"
  by (induction k arbitrary: level s) (auto split: option.splits)

lemma Insert_size: "Insert e s = Some t \<Longrightarrow> sl_size t = sl_size s + int (entry_size e)"
  by (auto simp: Insert_def randomHeight_def Let_def split: option.splits prod.splits
      dest!: link_levels_size)

lemma inserts_size:
  "run_all Insert es s = Some t \<Longrightarrow> sl_size t = sl_size s + (\<Sum>e\<leftarrow>es. int (entry_size e))"
  by (induction es arbitrary: s) (auto simp: Insert_size split: option.splits)

section \<open>Properties\<close>

text \<open>
  Insertion always completes, whatever coins \<open>randomHeight\<close> throws, and after any sequence of
  inserts \<open>Find\<close> returns the entry with the highest sequence number for the key, the one inserted
  last when sequence numbers are equal, and nothing for a key that was never written.
\<close>

lemma skip_list_find_newest:
  "\<exists>s. run_all Insert ws (NewSkipList rnd) = Some s \<and> Find key s = Some (newest_write key ws)"
  using sl.inserts_ok [of "NewSkipList rnd" ws] sl.find_after_inserts [of "NewSkipList rnd" ws]
    NewSkipList_ok [of rnd] by auto

text \<open>
  Iterating from the first entry visits every inserted entry exactly as often as it was
  inserted, in key order and newest version first, and the size is that of the entries inserted.
\<close>

lemma skip_list_iterates_sorted:
  "\<exists>s. run_all Insert ws (NewSkipList rnd) = Some s \<and>
     version_sorted (skip_entries s) \<and> mset (skip_entries s) = mset ws \<and>
     skip_ApproximateSize s = (\<Sum>e\<leftarrow>ws. int (entry_size e))"
proof -
  obtain s where s: "run_all Insert ws (NewSkipList rnd) = Some s" "skip_wf s"
    "skip_entries s = fold insert_version ws []"
    using sl.inserts_ok [of "NewSkipList rnd" ws] NewSkipList_ok [of rnd] by auto
  have "sl_size s = sl_size (NewSkipList rnd) + (\<Sum>e\<leftarrow>ws. int (entry_size e))"
    using s(1) by (rule inserts_size)
  then show ?thesis
    using s skip_wf_sorted [OF s(2)] by (simp add: mset_fold_insert_version skip_ApproximateSize_def NewSkipList_def)
qed

text \<open>
  After any inserts \<open>Seek\<close> puts the iterator on the first entry whose key is at least the
  target: from there it visits exactly the entries with such keys, in order.
\<close>

lemma skip_list_seek:
  "\<exists>s it'. run_all Insert ws (NewSkipList rnd) = Some s \<and> iter_Seek s key it = Some it' \<and>
     walk (length (sl_nodes s)) s it' = filter (\<lambda>e. key \<le> me_key e) (skip_entries s)"
proof -
  obtain s where s: "run_all Insert ws (NewSkipList rnd) = Some s" "skip_wf s"
    using sl.inserts_ok [of "NewSkipList rnd" ws] NewSkipList_ok [of rnd] by auto
  then show ?thesis using Seek_ok [OF s(2)] by blast
qed

end
