(* ===== verification/Checksums.thy ===== *)
theory Checksums
  imports Kevo_Prelude
begin

text \<open>
  The two hash functions of the Go standard library the engine calls: CRC-32 with the IEEE
  polynomial (\<open>hash/crc32\<close>, used by the write-ahead log) and 64-bit FNV-1a
  (\<open>hash/fnv\<close>, used by the Bloom filter).
\<close>

definition crc_poly :: u32 where
  "crc_poly = 0xEDB88320"

definition crc_bit :: "u32 \<Rightarrow> u32" where
  "crc_bit c = (if c AND 1 = 1 then drop_bit 1 c XOR crc_poly else drop_bit 1 c)"

definition crc_byte :: "byte \<Rightarrow> u32 \<Rightarrow> u32" where
  "crc_byte b c =
     crc_bit (crc_bit (crc_bit (crc_bit (crc_bit (crc_bit (crc_bit (crc_bit (c XOR ucast b))))))))"

definition crc32_ieee :: "bytes \<Rightarrow> u32" where
  "crc32_ieee bs = NOT (fold crc_byte bs 0xFFFFFFFF)"

definition fnv_offset :: u64 where
  "fnv_offset = 14695981039346656037"

definition fnv_prime :: u64 where
  "fnv_prime = 1099511628211"

definition fnv1a_byte :: "byte \<Rightarrow> u64 \<Rightarrow> u64" where
  "fnv1a_byte b h = (h XOR ucast b) * fnv_prime"

definition fnv1a :: "bytes \<Rightarrow> u64" where
  "fnv1a bs = fold fnv1a_byte bs fnv_offset"

text \<open>The published check values of the two functions.\<close>

lemma crc32_check_empty: "crc32_ieee [] = 0"
  by (simp add: crc32_ieee_def)

lemma crc32_check_digits: "crc32_ieee [49, 50, 51, 52, 53, 54, 55, 56, 57] = 0xCBF43926"
  by (simp add: crc32_ieee_def crc_byte_def crc_bit_def crc_poly_def)

lemma fnv1a_check_a: "fnv1a [97] = 0xAF63DC4C8601EC8C"
  by (simp add: fnv1a_def fnv1a_byte_def fnv_offset_def fnv_prime_def)

end
