(* ===== verification/Wal_Format.thy ===== *)
theory Wal_Format
  imports Checksums
begin

text \<open>
  The on-disk format of the write-ahead log (\<open>src/pkg/wal/wal.go\<close>, \<open>reader.go\<close>): the logical
  entry, the payload of a record, the physical record with its CRC header, the fragmentation of
  large entries, and the reader that turns the bytes of a file back into entries.
\<close>

section \<open>Constants, entries and errors\<close>

definition RecordTypeFull :: byte where "RecordTypeFull = 1"
definition RecordTypeFirst :: byte where "RecordTypeFirst = 2"
definition RecordTypeMiddle :: byte where "RecordTypeMiddle = 3"
definition RecordTypeLast :: byte where "RecordTypeLast = 4"

definition OpTypePut :: byte where "OpTypePut = 1"
definition OpTypeDelete :: byte where "OpTypeDelete = 2"
definition OpTypeMerge :: byte where "OpTypeMerge = 3"
definition OpTypeBatch :: byte where "OpTypeBatch = 4"

definition HeaderSize :: nat where "HeaderSize = 7"
definition MaxRecordSize :: nat where "MaxRecordSize = 32 * 1024"

lemmas record_type_defs =
  RecordTypeFull_def RecordTypeFirst_def RecordTypeMiddle_def RecordTypeLast_def

lemmas op_type_defs = OpTypePut_def OpTypeDelete_def OpTypeMerge_def OpTypeBatch_def

text \<open>
  \<open>wal.Entry\<close>. A nil \<open>Value\<close> marks a deletion, so the value is a slice; \<open>we_raw\<close> is
  \<open>rawBytes\<close>, which replication sets and the reader leaves nil.
\<close>

record wentry =
  we_seq :: u64
  we_type :: byte
  we_key :: bytes
  we_value :: slice
  we_raw :: slice

definition SetRawBytes :: "wentry \<Rightarrow> slice \<Rightarrow> wentry" where
  "SetRawBytes e bs = e\<lparr>we_raw := bs\<rparr>"

definition RawBytes :: "wentry \<Rightarrow> slice \<times> bool" where
  "RawBytes e = (we_raw e, we_raw e \<noteq> None \<and> len_slice (we_raw e) > 0)"

text \<open>
  The errors of the package, one constructor per error value or \<open>fmt.Errorf\<close> site the callers
  can tell apart; \<open>WalPanic\<close> is an index out of range.
\<close>

datatype wal_error =
    ErrCorruptRecord
  | ErrInvalidRecordType byte
  | ErrInvalidOpType
  | ErrWALClosed
  | ErrWALRotating
  | ErrRecordTooLarge nat
  | ErrRawTooSmall nat
  | ErrRawSizeMismatch nat nat
  | ErrEOF
  | ErrUnexpectedEOF
  | ErrEOFInFragments nat
  | ErrEmptyBatch
  | ErrBatchTooLarge nat
  | ErrNotBatch
  | ErrIO
  | ErrTooManyCorrupted
  | ErrHandling wal_error
  | ErrReadingEntry wal_error
  | ErrFatalReplay wal_error
  | ErrNoWALFiles wal_error
  | ErrMaxMemTables
  | WalPanic

text \<open>The test \<open>strings.Contains(err.Error(), "corrupt") || ... "invalid"\<close>, by message.\<close>

fun mentions_corruption :: "wal_error \<Rightarrow> bool" where
  "mentions_corruption ErrCorruptRecord = True"
| "mentions_corruption (ErrInvalidRecordType t) = True"
| "mentions_corruption ErrInvalidOpType = True"
| "mentions_corruption ErrTooManyCorrupted = True"
| "mentions_corruption (ErrHandling e) = mentions_corruption e"
| "mentions_corruption (ErrReadingEntry e) = mentions_corruption e"
| "mentions_corruption (ErrFatalReplay e) = mentions_corruption e"
| "mentions_corruption (ErrNoWALFiles e) = mentions_corruption e"
| "mentions_corruption _ = False"

section \<open>Payloads and physical records\<close>

text \<open>The payload \<open>writeRecord\<close> builds: type, sequence, key length, key, value length, value.\<close>

definition payloadSize :: "byte \<Rightarrow> bytes \<Rightarrow> slice \<Rightarrow> nat" where
  "payloadSize t key value =
     1 + 8 + 4 + length key + (if t \<noteq> OpTypeDelete then 4 + len_slice value else 0)"

definition encode_payload :: "byte \<Rightarrow> u64 \<Rightarrow> bytes \<Rightarrow> slice \<Rightarrow> bytes" where
  "encode_payload t sq key value =
     [t] @ put_u64 sq @ put_u32 (of_nat (length key)) @ key @
     (if t \<noteq> OpTypeDelete then put_u32 (of_nat (len_slice value)) @ bytes_of value else [])"

definition record_header :: "byte \<Rightarrow> bytes \<Rightarrow> bytes" where
  "record_header rt data = put_u32 (crc32_ieee data) @ put_u16 (of_nat (length data)) @ [rt]"

definition record_bytes :: "byte \<Rightarrow> bytes \<Rightarrow> bytes" where
  "record_bytes rt data = record_header rt data @ data"

lemma length_encode_payload [simp]:
  "length (encode_payload t sq key value) = payloadSize t key value"
  by (simp add: encode_payload_def payloadSize_def)

lemma length_record_header [simp]: "length (record_header rt data) = HeaderSize"
  by (simp add: record_header_def HeaderSize_def)

lemma length_record_bytes [simp]: "length (record_bytes rt data) = HeaderSize + length data"
  by (simp add: record_bytes_def)

text \<open>
  \<open>writeFragmentedRecord\<close> cuts the payload of a large entry: the first fragment holds the
  metadata and as much of the key as fits, the rest is cut into full records.
\<close>

definition keyInFirst :: "bytes \<Rightarrow> nat" where
  "keyInFirst key = min (length key) (MaxRecordSize - 13)"

definition first_fragment :: "byte \<Rightarrow> u64 \<Rightarrow> bytes \<Rightarrow> bytes" where
  "first_fragment t sq key =
     [t] @ put_u64 sq @ put_u32 (of_nat (length key)) @ take (keyInFirst key) key"

definition remaining_data :: "byte \<Rightarrow> bytes \<Rightarrow> slice \<Rightarrow> bytes" where
  "remaining_data t key value =
     drop (keyInFirst key) key @
     (if t \<noteq> OpTypeDelete then put_u32 (of_nat (len_slice value)) @ bytes_of value else [])"

function chunk_records :: "bytes \<Rightarrow> (byte \<times> bytes) list" where
  "chunk_records rem =
     (if length rem > MaxRecordSize
      then (RecordTypeMiddle, take MaxRecordSize rem) # chunk_records (drop MaxRecordSize rem)
      else if length rem > 0 then [(RecordTypeLast, rem)] else [])"
  by pat_completeness auto
termination
  by (relation "measure length") (auto simp: MaxRecordSize_def)

declare chunk_records.simps [simp del]

text \<open>The physical records of one entry, in file order.\<close>

definition entry_records :: "byte \<Rightarrow> u64 \<Rightarrow> bytes \<Rightarrow> slice \<Rightarrow> (byte \<times> bytes) list" where
  "entry_records t sq key value =
     (if payloadSize t key value \<le> MaxRecordSize
      then [(RecordTypeFull, encode_payload t sq key value)]
      else (RecordTypeFirst, first_fragment t sq key) # chunk_records (remaining_data t key value))"

definition records_bytes :: "(byte \<times> bytes) list \<Rightarrow> bytes" where
  "records_bytes rs = concat (map (\<lambda>(rt, data). record_bytes rt data) rs)"

lemma records_bytes_simps [simp]:
  "records_bytes [] = []"
  "records_bytes (r # rs) = record_bytes (fst r) (snd r) @ records_bytes rs"
  "records_bytes (rs @ rs') = records_bytes rs @ records_bytes rs'"
  by (simp_all add: records_bytes_def case_prod_beta)

section \<open>The reader\<close>

record wal_reader =
  r_input :: bytes
  r_fragments :: "bytes list"
  r_currType :: byte

definition OpenReader :: "bytes \<Rightarrow> wal_reader" where
  "OpenReader content = \<lparr>r_input = content, r_fragments = [], r_currType = 0\<rparr>"

text \<open>
  \<open>io.ReadFull\<close>: nil for an empty buffer, \<open>io.EOF\<close> when nothing could be read,
  \<open>io.ErrUnexpectedEOF\<close> when only part of the buffer was filled.
\<close>

definition ReadFull :: "nat \<Rightarrow> bytes \<Rightarrow> (wal_error + bytes) \<times> bytes" where
  "ReadFull n inp =
     (if n \<le> length inp then (Inr (take n inp), drop n inp)
      else if inp = [] then (Inl ErrEOF, []) else (Inl ErrUnexpectedEOF, []))"

definition readRecord :: "wal_reader \<Rightarrow> (wal_error + byte \<times> bytes) \<times> wal_reader" where
  "readRecord r =
     (case ReadFull HeaderSize (r_input r) of
        (Inl e, inp) \<Rightarrow> (Inl e, r\<lparr>r_input := inp\<rparr>)
      | (Inr header, inp) \<Rightarrow>
          let crc = get_u32 (take 4 header);
              len = unat (get_u16 (take 2 (drop 4 header)));
              rt = header ! 6
          in if rt < RecordTypeFull \<or> rt > RecordTypeLast
             then (Inl (ErrInvalidRecordType rt), r\<lparr>r_input := inp\<rparr>)
             else (case ReadFull len inp of
                     (Inl e, inp') \<Rightarrow> (Inl e, r\<lparr>r_input := inp'\<rparr>)
                   | (Inr data, inp') \<Rightarrow>
                       if crc32_ieee data \<noteq> crc
                       then (Inl ErrCorruptRecord, r\<lparr>r_input := inp'\<rparr>)
                       else (Inr (rt, data), r\<lparr>r_input := inp'\<rparr>)))"

definition valid_entry_type :: "byte \<Rightarrow> bool" where
  "valid_entry_type t =
     (t = OpTypePut \<or> t = OpTypeDelete \<or> t = OpTypeMerge \<or> t = OpTypeBatch)"

definition parseEntryData :: "bytes \<Rightarrow> wal_error + wentry" where
  "parseEntryData data =
     (if length data < 13 then Inl ErrCorruptRecord
      else let entryType = data ! 0 in
        if \<not> valid_entry_type entryType then Inl ErrInvalidOpType
        else
          let seqNum = get_u64 (take 8 (drop 1 data));
              keyLen = unat (get_u32 (take 4 (drop 9 data)))
          in if 13 + keyLen > length data then Inl ErrCorruptRecord
             else
               let key = take keyLen (drop 13 data);
                   offset = 13 + keyLen
               in if entryType = OpTypeDelete
                  then Inr \<lparr>we_seq = seqNum, we_type = entryType, we_key = key,
                            we_value = None, we_raw = None\<rparr>
                  else if offset + 4 > length data then Inl ErrCorruptRecord
                  else
                    let valueLen = unat (get_u32 (take 4 (drop offset data)))
                    in if offset + 4 + valueLen > length data then Inl ErrCorruptRecord
                       else Inr \<lparr>we_seq = seqNum, we_type = entryType, we_key = key,
                                 we_value = Some (take valueLen (drop (offset + 4) data)),
                                 we_raw = None\<rparr>)"

definition processFragments :: "wal_reader \<Rightarrow> (wal_error + wentry) \<times> wal_reader" where
  "processFragments r =
     (parseEntryData (concat (r_fragments r)), r\<lparr>r_fragments := []\<rparr>)"

lemma ReadFull_length: "length (snd (ReadFull n inp)) \<le> length inp"
  by (simp add: ReadFull_def)

lemma ReadFull_Inr: "ReadFull n inp = (Inr bs, rest) \<longleftrightarrow>
    n \<le> length inp \<and> bs = take n inp \<and> rest = drop n inp"
  by (auto simp: ReadFull_def)

lemma readRecord_consumes:
  assumes "readRecord r = (Inr d, r')"
  shows "length (r_input r') < length (r_input r)"
proof -
  obtain x inp where hd: "ReadFull HeaderSize (r_input r) = (x, inp)"
    by (cases "ReadFull HeaderSize (r_input r)")
  with assms obtain header where x: "x = Inr header"
    by (cases x) (auto simp: readRecord_def)
  have inp: "length inp < length (r_input r)"
    using hd x by (auto simp: ReadFull_Inr HeaderSize_def)
  have "length (r_input r') \<le> length inp"
    using assms hd x ReadFull_length [of _ inp]
    by (auto simp: readRecord_def Let_def ReadFull_def split: if_splits)
  with inp show ?thesis by simp
qed

function ReadEntry :: "wal_reader \<Rightarrow> (wal_error + wentry) \<times> wal_reader" where
  "ReadEntry r =
     (case readRecord r of
        (Inl e, r') \<Rightarrow>
          if e = ErrEOF then
            (if r_fragments r' \<noteq> [] then (Inl (ErrEOFInFragments (length (r_fragments r'))), r')
             else (Inl ErrEOF, r'))
          else (Inl e, r')
      | (Inr (rt, data), r') \<Rightarrow>
          if rt = RecordTypeFull then (parseEntryData data, r')
          else if rt = RecordTypeFirst then
            (case data of
               [] \<Rightarrow> (Inl WalPanic, r'\<lparr>r_fragments := r_fragments r' @ [data]\<rparr>)
             | t # _ \<Rightarrow>
                 ReadEntry (r'\<lparr>r_fragments := r_fragments r' @ [data], r_currType := t\<rparr>))
          else if rt = RecordTypeMiddle then
            (if r_fragments r' = [] then (Inl ErrCorruptRecord, r')
             else ReadEntry (r'\<lparr>r_fragments := r_fragments r' @ [data]\<rparr>))
          else if rt = RecordTypeLast then
            (if r_fragments r' = [] then (Inl ErrCorruptRecord, r')
             else processFragments (r'\<lparr>r_fragments := r_fragments r' @ [data]\<rparr>))
          else (Inl (ErrInvalidRecordType rt), r'))"
  by pat_completeness auto
termination
  by (relation "measure (\<lambda>r. length (r_input r))") (auto dest!: sym [THEN readRecord_consumes])

declare ReadEntry.simps [simp del]

section \<open>Decoding what was encoded\<close>

text \<open>The entry a reader recovers: a deletion has a nil value, any other value is non-nil.\<close>

definition logged_entry :: "byte \<Rightarrow> u64 \<Rightarrow> bytes \<Rightarrow> slice \<Rightarrow> wentry" where
  "logged_entry t sq key value =
     \<lparr>we_seq = sq, we_type = t, we_key = key,
      we_value = (if t = OpTypeDelete then None else Some (bytes_of value)), we_raw = None\<rparr>"

definition fits_u32 :: "bytes \<Rightarrow> slice \<Rightarrow> bool" where
  "fits_u32 key value \<longleftrightarrow> length key < 2 ^ 32 \<and> len_slice value < 2 ^ 32"

lemma encode_payload_fields:
  "encode_payload t sq key value ! 0 = t"
  "take 8 (drop (Suc 0) (encode_payload t sq key value)) = put_u64 sq"
  "take 4 (drop 9 (encode_payload t sq key value)) = put_u32 (of_nat (length key))"
  "take (length key) (drop 13 (encode_payload t sq key value)) = key"
  "drop (13 + length key) (encode_payload t sq key value) =
     (if t \<noteq> OpTypeDelete then put_u32 (of_nat (len_slice value)) @ bytes_of value else [])"
  by (simp_all add: encode_payload_def drop_Cons')

lemma parse_encode_payload:
  assumes "valid_entry_type t" and "fits_u32 key value"
  shows "parseEntryData (encode_payload t sq key value) = Inr (logged_entry t sq key value)"
proof -
  have k: "unat (of_nat (length key) :: u32) = length key"
    and v: "unat (of_nat (len_slice value) :: u32) = len_slice value"
    using assms(2) by (simp_all add: fits_u32_def unat_u32_len)
  have val: "drop (17 + length key) (encode_payload t sq key value) = bytes_of value"
    if "t \<noteq> OpTypeDelete"
    using that by (simp add: encode_payload_def drop_Cons')
  show ?thesis
    using assms(1) val
    by (simp add: parseEntryData_def Let_def encode_payload_fields k v logged_entry_def
        payloadSize_def)
qed

lemma record_bytes_fields:
  "take 4 (record_header rt data) = put_u32 (crc32_ieee data)"
  "take 2 (drop 4 (record_header rt data)) = put_u16 (of_nat (length data))"
  "record_header rt data ! 6 = rt"
  by (simp_all add: record_header_def nth_append)

text \<open>One physical record is read back exactly, leaving the reader at the next one.\<close>

lemma readRecord_record_bytes:
  assumes "RecordTypeFull \<le> rt" and "rt \<le> RecordTypeLast" and "length data < 2 ^ 16"
    and "r_input r = record_bytes rt data @ rest"
  shows "readRecord r = (Inr (rt, data), r\<lparr>r_input := rest\<rparr>)"
proof -
  have "ReadFull HeaderSize (r_input r) = (Inr (record_header rt data), data @ rest)"
    by (simp add: assms(4) record_bytes_def ReadFull_def)
  moreover have "ReadFull (length data) (data @ rest) = (Inr data, rest)"
    by (simp add: ReadFull_def)
  moreover have "unat (of_nat (length data) :: u16) = length data"
    using assms(3) by (rule unat_u16_len)
  ultimately show ?thesis
    using assms(1,2) by (simp add: readRecord_def Let_def record_bytes_fields not_less)
qed

section \<open>Fragments\<close>

lemma first_remaining_payload:
  "first_fragment t sq key @ remaining_data t key value = encode_payload t sq key value"
  by (simp add: first_fragment_def remaining_data_def encode_payload_def)

lemma chunk_records_concat: "concat (map snd (chunk_records rem)) = rem"
proof (induction rem rule: chunk_records.induct)
  case (1 rem)
  then show ?case by (simp add: chunk_records.simps [of rem])
qed

text \<open>A run of middle fragments closed by one last fragment, each of at most the record size.\<close>

fun tail_fragments :: "(byte \<times> bytes) list \<Rightarrow> bool" where
  "tail_fragments [] = False"
| "tail_fragments [(rt, d)] = (rt = RecordTypeLast \<and> length d \<le> MaxRecordSize)"
| "tail_fragments ((rt, d) # rs) =
     (rt = RecordTypeMiddle \<and> length d \<le> MaxRecordSize \<and> tail_fragments rs)"

lemma tail_fragments_Cons:
  "tail_fragments rs \<Longrightarrow> length d \<le> MaxRecordSize \<Longrightarrow> tail_fragments ((RecordTypeMiddle, d) # rs)"
  by (cases rs) auto

lemma chunk_records_tail: "rem \<noteq> [] \<Longrightarrow> tail_fragments (chunk_records rem)"
proof (induction rem rule: chunk_records.induct)
  case (1 rem)
  show ?case
  proof (cases "length rem > MaxRecordSize")
    case True
    then have "tail_fragments (chunk_records (drop MaxRecordSize rem))"
      using "1.IH" by simp
    with True show ?thesis
      by (simp add: chunk_records.simps [of rem] tail_fragments_Cons)
  next
    case False
    with "1.prems" show ?thesis by (simp add: chunk_records.simps [of rem])
  qed
qed

lemma put_u32_nonempty [simp]: "put_u32 w \<noteq> []"
  by (simp flip: length_0_conv)

lemma remaining_data_nonempty:
  "payloadSize t key value > MaxRecordSize \<Longrightarrow> remaining_data t key value \<noteq> []"
  by (auto simp: remaining_data_def payloadSize_def keyInFirst_def MaxRecordSize_def min_def
      split: if_splits)

lemma length_first_fragment:
  "length (first_fragment t sq key) \<le> MaxRecordSize" "first_fragment t sq key \<noteq> []"
  by (auto simp: first_fragment_def keyInFirst_def MaxRecordSize_def)

text \<open>With fragments pending, the reader collects the run and parses it as one payload.\<close>

lemma ReadEntry_tail_fragments:
  assumes "tail_fragments rs" and "r_input r = records_bytes rs @ rest" and "r_fragments r \<noteq> []"
  shows "ReadEntry r =
    (parseEntryData (concat (r_fragments r) @ concat (map snd rs)),
     r\<lparr>r_input := rest, r_fragments := []\<rparr>)"
  using assms
proof (induction rs arbitrary: r rule: tail_fragments.induct)
  case 1
  then show ?case by simp
next
  case (2 rt d)
  then have "readRecord r = (Inr (rt, d), r\<lparr>r_input := rest\<rparr>)"
    by (intro readRecord_record_bytes) (auto simp: record_type_defs MaxRecordSize_def)
  with 2 show ?case
    by (simp add: ReadEntry.simps [of r] record_type_defs processFragments_def)
next
  case (3 rt d r2 rs)
  let ?r = "r\<lparr>r_input := records_bytes (r2 # rs) @ rest, r_fragments := r_fragments r @ [d]\<rparr>"
  have "readRecord r = (Inr (rt, d), r\<lparr>r_input := records_bytes (r2 # rs) @ rest\<rparr>)"
    using 3 by (intro readRecord_record_bytes) (auto simp: record_type_defs MaxRecordSize_def)
  with "3.prems" have "ReadEntry r = ReadEntry ?r"
    by (simp add: ReadEntry.simps [of r] record_type_defs)
  also have "\<dots> = (parseEntryData (concat (r_fragments ?r) @ concat (map snd (r2 # rs))),
     ?r\<lparr>r_input := rest, r_fragments := []\<rparr>)"
    using "3.prems" by (intro "3.IH") auto
  finally show ?case by simp
qed

text \<open>
  The records of one entry, whole or fragmented, are read back as exactly that entry, wherever
  they stand in the file.
\<close>

lemma ReadEntry_entry_records:
  assumes "valid_entry_type t" and "fits_u32 key value"
    and "r_input r = records_bytes (entry_records t sq key value) @ rest"
    and "r_fragments r = []"
  shows "\<exists>ct. ReadEntry r =
    (Inr (logged_entry t sq key value), r\<lparr>r_input := rest, r_currType := ct\<rparr>)"
proof (cases "payloadSize t key value \<le> MaxRecordSize")
  case True
  then have "readRecord r =
      (Inr (RecordTypeFull, encode_payload t sq key value), r\<lparr>r_input := rest\<rparr>)"
    using assms(3) by (intro readRecord_record_bytes)
      (auto simp: entry_records_def record_type_defs MaxRecordSize_def)
  with assms(1,2) have "ReadEntry r = (Inr (logged_entry t sq key value), r\<lparr>r_input := rest\<rparr>)"
    by (simp add: ReadEntry.simps [of r] parse_encode_payload)
  then show ?thesis
    by (intro exI [of _ "r_currType r"]) simp
next
  case False
  let ?f = "first_fragment t sq key"
  let ?cs = "chunk_records (remaining_data t key value)"
  from False have inp: "r_input r = record_bytes RecordTypeFirst ?f @ records_bytes ?cs @ rest"
    using assms(3) by (simp add: entry_records_def)
  obtain c f' where f: "?f = c # f'"
    using length_first_fragment(2) by (metis neq_Nil_conv)
  let ?r = "r\<lparr>r_input := records_bytes ?cs @ rest, r_fragments := [?f], r_currType := c\<rparr>"
  have "readRecord r = (Inr (RecordTypeFirst, ?f), r\<lparr>r_input := records_bytes ?cs @ rest\<rparr>)"
    using length_first_fragment(1) [of t sq key] inp
    by (intro readRecord_record_bytes) (auto simp: record_type_defs MaxRecordSize_def)
  then have "ReadEntry r = ReadEntry ?r"
    using assms(4) f by (simp add: ReadEntry.simps [of r] record_type_defs)
  also have "\<dots> = (parseEntryData (?f @ remaining_data t key value),
      ?r\<lparr>r_input := rest, r_fragments := []\<rparr>)"
    using False by (subst ReadEntry_tail_fragments [of ?cs _ rest])
      (auto intro!: chunk_records_tail remaining_data_nonempty simp: chunk_records_concat)
  also have "\<dots> = (Inr (logged_entry t sq key value), ?r\<lparr>r_input := rest, r_fragments := []\<rparr>)"
    using assms(1,2) by (simp add: first_remaining_payload parse_encode_payload)
  finally show ?thesis
    using assms(4) by (intro exI [of _ c]) simp
qed

end
