(* ===== verification/Config.thy ===== *)
theory Config
  imports Kevo_Prelude Complex_Main
begin

text \<open>
  The engine's configuration (\<open>src/pkg/config/config.go\<close>): the record, the defaults and
  validation. The directories that \<open>filepath.Join\<close> computes are arguments of the defaults;
  the manifest file is in \<open>Manifest\<close>.
\<close>

datatype sync_mode = SyncNone | SyncBatch | SyncImmediate

record config =
  Version :: int
  WALDir :: string
  WALSyncMode :: sync_mode
  WALSyncBytes :: int
  WALMaxSize :: int
  MemTableSize :: int
  MaxMemTables :: int
  MaxMemTableAge :: int
  MemTablePoolCap :: int
  SSTDir :: string
  SSTableBlockSize :: int
  SSTableIndexSize :: int
  SSTableMaxSize :: int
  SSTableRestartSize :: int
  CompactionLevels :: int
  CompactionRatio :: rat
  CompactionThreads :: int
  CompactionInterval :: int
  MaxLevelWithTombstones :: int

definition NewDefaultConfig :: "string \<Rightarrow> string \<Rightarrow> config" where
  "NewDefaultConfig walDir sstDir =
     \<lparr>Version = 1, WALDir = walDir, WALSyncMode = SyncImmediate, WALSyncBytes = 1024 * 1024,
      WALMaxSize = 0, MemTableSize = 32 * 1024 * 1024, MaxMemTables = 4, MaxMemTableAge = 600,
      MemTablePoolCap = 4, SSTDir = sstDir, SSTableBlockSize = 16 * 1024,
      SSTableIndexSize = 64 * 1024, SSTableMaxSize = 64 * 1024 * 1024, SSTableRestartSize = 16,
      CompactionLevels = 7, CompactionRatio = 10, CompactionThreads = 2, CompactionInterval = 30,
      MaxLevelWithTombstones = 1\<rparr>"

datatype config_error =
    InvalidVersion int | NoWALDir | NoSSTDir | BadMemTableSize | BadMaxMemTables
  | BadBlockSize | BadIndexSize | BadCompactionLevels | BadCompactionRatio

definition Validate :: "config \<Rightarrow> config_error option" where
  "Validate c =
     (if Version c \<le> 0 then Some (InvalidVersion (Version c))
      else if WALDir c = [] then Some NoWALDir
      else if SSTDir c = [] then Some NoSSTDir
      else if MemTableSize c \<le> 0 then Some BadMemTableSize
      else if MaxMemTables c \<le> 0 then Some BadMaxMemTables
      else if SSTableBlockSize c \<le> 0 then Some BadBlockSize
      else if SSTableIndexSize c \<le> 0 then Some BadIndexSize
      else if CompactionLevels c \<le> 0 then Some BadCompactionLevels
      else if CompactionRatio c \<le> 1 then Some BadCompactionRatio
      else None)"

lemma Validate_None_iff:
  "Validate c = None \<longleftrightarrow>
     0 < Version c \<and> WALDir c \<noteq> [] \<and> SSTDir c \<noteq> [] \<and> 0 < MemTableSize c \<and> 0 < MaxMemTables c \<and>
     0 < SSTableBlockSize c \<and> 0 < SSTableIndexSize c \<and> 0 < CompactionLevels c \<and>
     1 < CompactionRatio c"
  by (auto simp: Validate_def)

lemma Validate_default:
  "walDir \<noteq> [] \<Longrightarrow> sstDir \<noteq> [] \<Longrightarrow> Validate (NewDefaultConfig walDir sstDir) = None"
  by (simp add: Validate_None_iff NewDefaultConfig_def)

end
