(* ===== verification/Wal_Log.thy ===== *)
theory Wal_Log
  imports Wal_Format Config
begin

text \<open>
  The write-ahead log as an object (\<open>src/pkg/wal/wal.go\<close>): its state, the record writers, every
  append operation, syncing, closing, rotation status and the observers. Writes go through a
  \<open>bufio.Writer\<close>: \<open>w_stream\<close> is everything the writer has accepted, its first \<open>w_flushed\<close> bytes have
  reached the file (the rest is in the buffer), and its first \<open>w_synced\<close> bytes survive a crash.
  The device may fail: \<open>w_fault = Some n\<close> means that the next \<open>n\<close> calls into the
  writer or the file succeed and every later one fails (the error of \<open>bufio.Writer\<close> is sticky);
  \<open>None\<close> means it never fails. All operations hold \<open>w.mu\<close>, so each is one atomic step.
\<close>

section \<open>State\<close>

datatype wal_status = WALStatusActive | WALStatusRotating | WALStatusClosed

datatype wal_event = EntryWritten wentry | BatchWritten u64 "wentry list" | Synced u64

record wal =
  w_cfg :: config
  w_stream :: bytes
  w_flushed :: nat
  w_synced :: nat
  w_fault :: "nat option"
  w_nextSequence :: u64
  w_bytesWritten :: int
  w_batchByteSize :: int
  w_status :: wal_status
  w_closed :: bool
  w_observers :: "string \<rightharpoonup> wal_event list"

type_synonym 'a wal_op = "(wal, wal_error, 'a) op"

definition NewWAL :: "config \<Rightarrow> nat option \<Rightarrow> wal" where
  "NewWAL cfg fault =
     \<lparr>w_cfg = cfg, w_stream = [], w_flushed = 0, w_synced = 0, w_fault = fault, w_nextSequence = 1,
      w_bytesWritten = 0, w_batchByteSize = 0, w_status = WALStatusActive, w_closed = False,
      w_observers = Map.empty\<rparr>"

text \<open>
  \<open>ReuseWAL\<close> on the content of the newest file of the directory: nil when there is no file or
  it has reached the maximum size.
\<close>

definition ReuseWAL :: "config \<Rightarrow> bytes list \<Rightarrow> u64 \<Rightarrow> nat option \<Rightarrow> wal option" where
  "ReuseWAL cfg files nextSeq fault =
     (if files = [] then None
      else let content = last files;
               maxWALSize = (if WALMaxSize cfg > 0 then WALMaxSize cfg else 64 * 1024 * 1024)
           in if int (length content) \<ge> maxWALSize then None
              else Some \<lparr>w_cfg = cfg, w_stream = content, w_flushed = length content, w_synced = length content, w_fault = fault,
                         w_nextSequence = nextSeq, w_bytesWritten = int (length content),
                         w_batchByteSize = 0, w_status = WALStatusActive, w_closed = False,
                         w_observers = Map.empty\<rparr>)"

section \<open>The device\<close>

definition device_call :: "(wal \<Rightarrow> wal) \<Rightarrow> unit wal_op" where
  "device_call f w =
     (if w_fault w = Some 0 then (Inl ErrIO, w)
      else (Inr (), (f w)\<lparr>w_fault := map_option (\<lambda>n. n - 1) (w_fault w)\<rparr>))"

text \<open>
  \<open>bufio.Writer\<close> with its 64 KB buffer: how many bytes are left in the buffer when \<open>m\<close> more are
  written to \<open>n\<close> buffered ones. What does not fit fills the buffer and flushes it; what is larger than an
  empty buffer goes straight to the file.
\<close>

definition BufferSize :: nat where "BufferSize = 64 * 1024"

definition buffered_after :: "nat \<Rightarrow> nat \<Rightarrow> nat" where
  "buffered_after n m =
     (if m \<le> BufferSize - n then n + m
      else if n = 0 then 0
      else let rest = m - (BufferSize - n) in if rest \<le> BufferSize then rest else 0)"

definition writer_Write :: "bytes \<Rightarrow> unit wal_op" where
  "writer_Write bs = device_call (\<lambda>w.
     w\<lparr>w_stream := w_stream w @ bs,
       w_flushed := length (w_stream w @ bs) - buffered_after (length (w_stream w) - w_flushed w) (length bs)\<rparr>)"

definition writer_Flush :: "unit wal_op" where
  "writer_Flush = device_call (\<lambda>w. w\<lparr>w_flushed := length (w_stream w)\<rparr>)"

definition file_Sync :: "unit wal_op" where
  "file_Sync = device_call (\<lambda>w. w\<lparr>w_synced := w_flushed w\<rparr>)"

definition file_Close :: "unit wal_op" where
  "file_Close = device_call (\<lambda>w. w)"

text \<open>The content of the file, and what of it is left after a crash.\<close>

definition log_file :: "wal \<Rightarrow> bytes" where
  "log_file w = take (w_flushed w) (w_stream w)"

definition durable :: "wal \<Rightarrow> bytes" where
  "durable w = take (w_synced w) (w_stream w)"

section \<open>Observers\<close>

definition notify :: "wal_event \<Rightarrow> unit wal_op" where
  "notify ev = modify (\<lambda>w. w\<lparr>w_observers := (\<lambda>i. map_option (\<lambda>l. l @ [ev]) (w_observers w i))\<rparr>)"

definition notifyEntryObservers :: "wentry \<Rightarrow> unit wal_op" where
  "notifyEntryObservers e = notify (EntryWritten e)"

definition notifyBatchObservers :: "u64 \<Rightarrow> wentry list \<Rightarrow> unit wal_op" where
  "notifyBatchObservers startSeq es = notify (BatchWritten startSeq es)"

definition notifySyncObservers :: "u64 \<Rightarrow> unit wal_op" where
  "notifySyncObservers upTo = notify (Synced upTo)"

definition RegisterObserver :: "string \<Rightarrow> wal \<Rightarrow> wal" where
  "RegisterObserver i w = w\<lparr>w_observers := (w_observers w)(i \<mapsto> [])\<rparr>"

definition UnregisterObserver :: "string \<Rightarrow> wal \<Rightarrow> wal" where
  "UnregisterObserver i w = w\<lparr>w_observers := (w_observers w)(i := None)\<rparr>"

section \<open>Syncing\<close>

definition syncLocked :: "unit wal_op" where
  "syncLocked w =
     (if w_status w = WALStatusClosed then (Inl ErrWALClosed, w)
      else if w_status w = WALStatusRotating then (Inl ErrWALRotating, w)
      else bind_op writer_Flush (\<lambda>_. bind_op file_Sync (\<lambda>_.
             bind_op (modify (\<lambda>w. w\<lparr>w_batchByteSize := 0\<rparr>)) (\<lambda>_.
               (\<lambda>w. notifySyncObservers (w_nextSequence w - 1) w)))) w)"

definition maybeSync :: "unit wal_op" where
  "maybeSync w =
     (let needSync = (case WALSyncMode (w_cfg w) of
            SyncImmediate \<Rightarrow> True
          | SyncBatch \<Rightarrow> w_batchByteSize w \<ge> WALSyncBytes (w_cfg w)
          | SyncNone \<Rightarrow> False)
      in if needSync then syncLocked w else (Inr (), w))"

definition wal_Sync :: "unit wal_op" where
  "wal_Sync = syncLocked"

section \<open>Record writers\<close>

definition count_bytes :: "nat \<Rightarrow> wal \<Rightarrow> wal" where
  "count_bytes n w = w\<lparr>w_bytesWritten := w_bytesWritten w + int n,
                       w_batchByteSize := w_batchByteSize w + int n\<rparr>"

definition writeRawRecord :: "byte \<Rightarrow> bytes \<Rightarrow> unit wal_op" where
  "writeRawRecord rt data =
     (if length data > MaxRecordSize then fail (ErrRecordTooLarge (length data))
      else bind_op (writer_Write (record_header rt data)) (\<lambda>_.
           bind_op (writer_Write data) (\<lambda>_.
             modify (count_bytes (HeaderSize + length data)))))"

definition writeRecord :: "byte \<Rightarrow> byte \<Rightarrow> u64 \<Rightarrow> bytes \<Rightarrow> slice \<Rightarrow> unit wal_op" where
  "writeRecord rt t sq key value =
     (if payloadSize t key value > MaxRecordSize
      then fail (ErrRecordTooLarge (payloadSize t key value))
      else let payload = encode_payload t sq key value in
           bind_op (writer_Write (record_header rt payload)) (\<lambda>_.
           bind_op (writer_Write payload) (\<lambda>_.
             modify (count_bytes (HeaderSize + payloadSize t key value)))))"

function writeChunks :: "bytes \<Rightarrow> unit wal_op" where
  "writeChunks rem =
     (if length rem > MaxRecordSize
      then bind_op (writeRawRecord RecordTypeMiddle (take MaxRecordSize rem))
             (\<lambda>_. writeChunks (drop MaxRecordSize rem))
      else if length rem > 0 then writeRawRecord RecordTypeLast rem
      else ret ())"
  by pat_completeness auto
termination
  by (relation "measure length") (auto simp: MaxRecordSize_def)

declare writeChunks.simps [simp del]

definition writeFragmentedRecord :: "byte \<Rightarrow> u64 \<Rightarrow> bytes \<Rightarrow> slice \<Rightarrow> unit wal_op" where
  "writeFragmentedRecord t sq key value =
     bind_op (writeRawRecord RecordTypeFirst (first_fragment t sq key))
       (\<lambda>_. writeChunks (remaining_data t key value))"

section \<open>Appending entries\<close>

definition check_status :: "unit wal_op" where
  "check_status w =
     (if w_status w = WALStatusClosed then (Inl ErrWALClosed, w)
      else if w_status w = WALStatusRotating then (Inl ErrWALRotating, w)
      else (Inr (), w))"

definition valid_append_type :: "byte \<Rightarrow> bool" where
  "valid_append_type t = (t = OpTypePut \<or> t = OpTypeDelete \<or> t = OpTypeMerge)"

definition write_entry :: "byte \<Rightarrow> u64 \<Rightarrow> bytes \<Rightarrow> slice \<Rightarrow> unit wal_op" where
  "write_entry t sq key value =
     (if payloadSize t key value \<le> MaxRecordSize
      then writeRecord RecordTypeFull t sq key value
      else writeFragmentedRecord t sq key value)"

definition new_entry :: "u64 \<Rightarrow> byte \<Rightarrow> bytes \<Rightarrow> slice \<Rightarrow> wentry" where
  "new_entry sq t key value =
     \<lparr>we_seq = sq, we_type = t, we_key = key, we_value = value, we_raw = None\<rparr>"

definition Append :: "byte \<Rightarrow> bytes \<Rightarrow> slice \<Rightarrow> u64 wal_op" where
  "Append t key value =
     bind_op check_status (\<lambda>_.
       if \<not> valid_append_type t then fail ErrInvalidOpType
       else (\<lambda>w. let seqNum = w_nextSequence w in
          bind_op (modify (\<lambda>w. w\<lparr>w_nextSequence := w_nextSequence w + 1\<rparr>)) (\<lambda>_.
          bind_op (write_entry t seqNum key value) (\<lambda>_.
          bind_op (notifyEntryObservers (new_entry seqNum t key value)) (\<lambda>_.
          bind_op maybeSync (\<lambda>_. ret seqNum)))) w))"

definition advance_past :: "u64 \<Rightarrow> wal \<Rightarrow> wal" where
  "advance_past sq w = (if sq \<ge> w_nextSequence w then w\<lparr>w_nextSequence := sq + 1\<rparr> else w)"

definition AppendWithSequence :: "byte \<Rightarrow> bytes \<Rightarrow> slice \<Rightarrow> u64 \<Rightarrow> u64 wal_op" where
  "AppendWithSequence t key value seqNum =
     bind_op check_status (\<lambda>_.
       if \<not> valid_append_type t then fail ErrInvalidOpType
       else
         bind_op (modify (advance_past seqNum)) (\<lambda>_.
         bind_op (write_entry t seqNum key value) (\<lambda>_.
         bind_op (notifyEntryObservers (new_entry seqNum t key value)) (\<lambda>_.
         bind_op maybeSync (\<lambda>_. ret seqNum)))))"

definition AppendExactBytes :: "bytes \<Rightarrow> u64 \<Rightarrow> u64 wal_op" where
  "AppendExactBytes raw seqNum =
     bind_op check_status (\<lambda>_.
       if length raw < HeaderSize then fail (ErrRawTooSmall (length raw))
       else let payloadSize = unat (get_u16 (take 2 (drop 4 raw))) in
         if length raw \<noteq> HeaderSize + payloadSize
         then fail (ErrRawSizeMismatch payloadSize (length raw))
         else
           bind_op (modify (advance_past seqNum)) (\<lambda>_.
           bind_op (writer_Write raw) (\<lambda>_.
           bind_op (modify (count_bytes (length raw))) (\<lambda>_.
             if length raw \<le> HeaderSize then fail WalPanic
             else
               bind_op (notifyEntryObservers (new_entry seqNum (raw ! HeaderSize) [] (Some []))) (\<lambda>_.
               bind_op maybeSync (\<lambda>_. ret seqNum))))))"

definition batch_header :: "u64 \<Rightarrow> nat \<Rightarrow> bytes" where
  "batch_header startSeq n = [OpTypeBatch] @ put_u64 startSeq @ put_u32 (of_nat n)"

text \<open>The loop of \<open>AppendBatch\<close>: entry \<open>i\<close> is logged with sequence \<open>startSeq + i\<close>.\<close>

fun write_batch_entries :: "u64 \<Rightarrow> wentry list \<Rightarrow> unit wal_op" where
  "write_batch_entries sq [] = ret ()"
| "write_batch_entries sq (e # es) =
     bind_op
       (case we_value e of
          None \<Rightarrow> writeRecord RecordTypeFull OpTypeDelete sq (we_key e) None
        | Some v \<Rightarrow> writeRecord RecordTypeFull OpTypePut sq (we_key e) (Some v))
       (\<lambda>_. write_batch_entries (sq + 1) es)"

definition AppendBatch :: "wentry list \<Rightarrow> u64 wal_op" where
  "AppendBatch entries =
     bind_op check_status (\<lambda>_ w.
       if entries = [] then (Inr (w_nextSequence w), w)
       else let startSeqNum = w_nextSequence w in
         bind_op (writeRawRecord RecordTypeFull (batch_header startSeqNum (length entries))) (\<lambda>_.
         bind_op (write_batch_entries startSeqNum entries) (\<lambda>_.
         bind_op (modify (\<lambda>w. w\<lparr>w_nextSequence := startSeqNum + of_nat (length entries)\<rparr>)) (\<lambda>_.
         bind_op (notifyBatchObservers startSeqNum entries) (\<lambda>_.
         bind_op maybeSync (\<lambda>_. ret startSeqNum))))) w)"

section \<open>Closing and rotation status\<close>

definition wal_Close :: "unit wal_op" where
  "wal_Close w =
     (if w_status w = WALStatusClosed then (Inr (), w)
      else bind_op writer_Flush (\<lambda>_. bind_op file_Sync (\<lambda>_.
           bind_op (modify (\<lambda>w. w\<lparr>w_status := WALStatusRotating\<rparr>)) (\<lambda>_.
           bind_op file_Close (\<lambda>_. modify (\<lambda>w. w\<lparr>w_status := WALStatusClosed\<rparr>))))) w)"

definition SetRotating :: "wal \<Rightarrow> wal" where
  "SetRotating w = w\<lparr>w_status := WALStatusRotating\<rparr>"

definition SetActive :: "wal \<Rightarrow> wal" where
  "SetActive w = w\<lparr>w_status := WALStatusActive\<rparr>"

definition UpdateNextSequence :: "u64 \<Rightarrow> wal \<Rightarrow> wal" where
  "UpdateNextSequence nextSeq w =
     (if nextSeq > w_nextSequence w then w\<lparr>w_nextSequence := nextSeq\<rparr> else w)"

definition GetNextSequence :: "wal \<Rightarrow> u64" where
  "GetNextSequence w = w_nextSequence w"

section \<open>What a successful operation leaves behind\<close>

text \<open>
  \<open>wrote rs f w\<close> is \<open>w\<close> with the records \<open>rs\<close> appended to the stream and counted; \<open>f\<close> is
  what is left of the device's fault budget, and how much of the stream has reached the file.
\<close>

definition wrote :: "(byte \<times> bytes) list \<Rightarrow> nat option \<times> nat \<Rightarrow> wal \<Rightarrow> wal" where
  "wrote rs f w = (count_bytes (length (records_bytes rs))
                    (w\<lparr>w_stream := w_stream w @ records_bytes rs\<rparr>))\<lparr>w_fault := fst f, w_flushed := snd f\<rparr>"

lemma wrote_fields [simp]:
  "w_stream (wrote rs f w) = w_stream w @ records_bytes rs"
  "w_nextSequence (wrote rs f w) = w_nextSequence w"
  "w_status (wrote rs f w) = w_status w"
  "w_cfg (wrote rs f w) = w_cfg w"
  "w_synced (wrote rs f w) = w_synced w"
  "w_flushed (wrote rs f w) = snd f"
  "w_fault (wrote rs f w) = fst f"
  "w_observers (wrote rs f w) = w_observers w"
  "w_closed (wrote rs f w) = w_closed w"
  by (simp_all add: wrote_def count_bytes_def)

lemma wrote_wrote [simp]: "wrote rs' f' (wrote rs f w) = wrote (rs @ rs') f' w"
  by (simp add: wrote_def count_bytes_def)

lemma wrote_Nil: "wrote [] (w_fault w, w_flushed w) w = w"
  by (simp add: wrote_def count_bytes_def)

lemma device_call_ok [status_iff]:
  "device_call g w = (Inr u, w') \<longleftrightarrow>
     w_fault w \<noteq> Some 0 \<and> w' = (g w)\<lparr>w_fault := map_option (\<lambda>n. n - 1) (w_fault w)\<rparr>"
  by (auto simp: device_call_def)

lemma two_writes_ok:
  assumes "bind_op (writer_Write (record_header rt d)) (\<lambda>_. bind_op (writer_Write d) (\<lambda>_.
             modify (count_bytes (HeaderSize + length d)))) w = (Inr u, w')"
  shows "\<exists>f. w' = wrote [(rt, d)] f w"
  using assms
  by (cases w) (auto simp: status_iff writer_Write_def wrote_def count_bytes_def record_bytes_def)

lemma writeRawRecord_ok:
  "writeRawRecord rt d w = (Inr u, w') \<Longrightarrow> \<exists>f. w' = wrote [(rt, d)] f w"
  unfolding writeRawRecord_def using two_writes_ok [of rt d w u w'] by (auto split: if_splits simp del: split_paired_Ex)

lemma writeRecord_ok:
  assumes "writeRecord rt t sq key value w = (Inr u, w')"
  shows "\<exists>f. w' = wrote [(rt, encode_payload t sq key value)] f w"
proof -
  have "payloadSize t key value \<le> MaxRecordSize"
    using assms by (auto simp: writeRecord_def split: if_splits)
  with assms show ?thesis
    by (intro two_writes_ok) (simp add: writeRecord_def Let_def)
qed

lemma writeChunks_ok:
  "writeChunks rem w = (Inr u, w') \<Longrightarrow> \<exists>f. w' = wrote (chunk_records rem) f w"
proof (induction rem arbitrary: w rule: chunk_records.induct)
  case (1 rem)
  show ?case
  proof (cases "length rem > MaxRecordSize")
    case True
    then obtain w1 where w1: "writeRawRecord RecordTypeMiddle (take MaxRecordSize rem) w = (Inr (), w1)"
      and rest: "writeChunks (drop MaxRecordSize rem) w1 = (Inr u, w')"
      using "1.prems" by (auto simp: writeChunks.simps [of rem] status_iff)
    from "1.IH" [OF True rest] writeRawRecord_ok [OF w1] True show ?thesis
      by (auto simp: chunk_records.simps [of rem] simp del: split_paired_Ex)
  next
    case False
    with "1.prems" show ?thesis
      by (auto simp: writeChunks.simps [of rem] chunk_records.simps [of rem] dest: writeRawRecord_ok
          intro: exI [of _ "(w_fault w, w_flushed w)"] wrote_Nil [symmetric] split: if_splits
          simp del: split_paired_Ex)
  qed
qed

lemma write_entry_ok:
  assumes "write_entry t sq key value w = (Inr u, w')"
  shows "\<exists>f. w' = wrote (entry_records t sq key value) f w"
proof (cases "payloadSize t key value \<le> MaxRecordSize")
  case True
  with assms show ?thesis
    by (auto simp: write_entry_def entry_records_def dest: writeRecord_ok simp del: split_paired_Ex)
next
  case False
  with assms obtain w1 where
    "writeRawRecord RecordTypeFirst (first_fragment t sq key) w = (Inr (), w1)"
    "writeChunks (remaining_data t key value) w1 = (Inr u, w')"
    by (auto simp: write_entry_def writeFragmentedRecord_def status_iff)
  with False show ?thesis
    by (auto simp: entry_records_def dest!: writeRawRecord_ok writeChunks_ok simp del: split_paired_Ex)
qed

text \<open>Syncing and notifying leave the stream, the sequence and the status alone.\<close>

definition same_log :: "wal \<Rightarrow> wal \<Rightarrow> bool" where
  "same_log w w' \<longleftrightarrow> w_stream w' = w_stream w \<and> w_nextSequence w' = w_nextSequence w \<and>
     w_status w' = w_status w \<and> w_cfg w' = w_cfg w"

lemma notify_ok: "notify ev w = (Inr u, w') \<Longrightarrow> same_log w w' \<and> w_synced w' = w_synced w"
  by (auto simp: notify_def same_log_def)

lemma syncLocked_ok:
  "syncLocked w = (Inr u, w') \<Longrightarrow>
     same_log w w' \<and> w_flushed w' = length (w_stream w') \<and> w_synced w' = length (w_stream w') \<and> w_batchByteSize w' = 0"
  by (auto simp: syncLocked_def status_iff writer_Flush_def file_Sync_def
      notifySyncObservers_def notify_def same_log_def split: if_splits)

lemma maybeSync_ok:
  "maybeSync w = (Inr u, w') \<Longrightarrow> same_log w w' \<and>
     (WALSyncMode (w_cfg w) = SyncImmediate \<longrightarrow> w_flushed w' = length (w_stream w') \<and> w_synced w' = length (w_stream w'))"
  by (auto simp: maybeSync_def Let_def same_log_def split: if_splits sync_mode.splits
      dest!: syncLocked_ok)

lemma check_status_ok [simp]:
  "check_status w = (Inr u, w') \<longleftrightarrow> w_status w = WALStatusActive \<and> w' = w"
  by (cases "w_status w") (auto simp: check_status_def)

text \<open>
  A successful \<open>Append\<close>, whatever the device does and whatever the sync mode: the number handed
  out is the next one, the stream grows by exactly the records of that entry, and in immediate
  mode everything written is durable when it returns.
\<close>

lemma Append_ok:
  assumes "Append t key value w = (Inr sq, w')"
  shows "sq = w_nextSequence w" "w_nextSequence w' = w_nextSequence w + 1"
    "w_stream w' = w_stream w @ records_bytes (entry_records t sq key value)"
    "w_status w' = WALStatusActive" "w_cfg w' = w_cfg w" "valid_append_type t"
    "WALSyncMode (w_cfg w) = SyncImmediate \<Longrightarrow> w_synced w' = length (w_stream w')"
    "WALSyncMode (w_cfg w) = SyncImmediate \<Longrightarrow> w_flushed w' = length (w_stream w')"
proof -
  have act: "w_status w = WALStatusActive" and ty: "valid_append_type t"
    using assms by (auto simp: Append_def status_iff split: if_splits)
  let ?sq = "w_nextSequence w"
  let ?w0 = "w\<lparr>w_nextSequence := ?sq + 1\<rparr>"
  obtain w1 w2 where w: "write_entry t ?sq key value ?w0 = (Inr (), w1)"
    "notify (EntryWritten (new_entry ?sq t key value)) w1 = (Inr (), w2)"
    "maybeSync w2 = (Inr (), w')" and sq: "sq = ?sq"
    using assms ty by (auto simp: Append_def status_iff Let_def notifyEntryObservers_def)
  from write_entry_ok [OF w(1)] obtain f where
    w1: "w1 = wrote (entry_records t ?sq key value) f ?w0" ..
  note s = notify_ok [OF w(2)] maybeSync_ok [OF w(3)]
  show "sq = w_nextSequence w" by (rule sq)
  show "w_nextSequence w' = w_nextSequence w + 1" "w_status w' = WALStatusActive"
    "w_cfg w' = w_cfg w" "w_stream w' = w_stream w @ records_bytes (entry_records t sq key value)"
    using s act by (auto simp: same_log_def w1 sq)
  show "valid_append_type t" by (rule ty)
  show "w_synced w' = length (w_stream w')" "w_flushed w' = length (w_stream w')" if "WALSyncMode (w_cfg w) = SyncImmediate"
    using s that by (auto simp: same_log_def w1)
qed

section \<open>A device that does not fail\<close>

text \<open>
  \<open>healthy I m\<close>: from a state satisfying \<open>I\<close>, with no device fault ahead, \<open>m\<close> succeeds and
  keeps both. The rules compose it along the operations.
\<close>

definition healthy :: "(wal \<Rightarrow> bool) \<Rightarrow> 'a wal_op \<Rightarrow> bool" where
  "healthy I m \<longleftrightarrow> (\<forall>w. w_fault w = None \<and> I w \<longrightarrow> (\<exists>x w'. m w = (Inr x, w') \<and> w_fault w' = None \<and> I w'))"

abbreviation active :: "wal \<Rightarrow> bool" where
  "active w \<equiv> w_status w = WALStatusActive"

lemma healthyD: "healthy I m \<Longrightarrow> w_fault w = None \<Longrightarrow> I w \<Longrightarrow>
    \<exists>x w'. m w = (Inr x, w') \<and> w_fault w' = None \<and> I w'"
  by (auto simp: healthy_def)

lemma healthy_bind [intro]:
  assumes "healthy I m" and "\<And>x. healthy I (f x)"
  shows "healthy I (bind_op m f)"
  unfolding healthy_def
proof (intro allI impI)
  fix w assume "w_fault w = None \<and> I w"
  with healthyD [OF assms(1)] obtain x w1 where
    "m w = (Inr x, w1)" "w_fault w1 = None" "I w1" by blast
  with healthyD [OF assms(2)] show "\<exists>y w'. bind_op m f w = (Inr y, w') \<and> w_fault w' = None \<and> I w'"
    by simp
qed

lemma healthy_read: "(\<And>w0. healthy I (f w0)) \<Longrightarrow> healthy I (\<lambda>w. f w w)"
  by (auto simp: healthy_def)

lemma healthy_ret [intro, simp]: "healthy I (ret x)"
  by (simp add: healthy_def)

lemma healthy_modify [intro]:
  "(\<And>w. w_fault (f w) = w_fault w) \<Longrightarrow> (\<And>w. I w \<Longrightarrow> I (f w)) \<Longrightarrow> healthy I (modify f)"
  by (simp add: healthy_def)

lemma healthy_device [intro]:
  "(\<And>w. active w \<Longrightarrow> active (f w)) \<Longrightarrow> healthy active (device_call f)"
  by (simp add: healthy_def device_call_def)

lemma healthy_notify [intro]: "healthy active (notify ev)"
  unfolding notify_def by (rule healthy_modify) auto

lemma healthy_sync [intro]: "healthy active syncLocked"
proof -
  have "healthy active (bind_op writer_Flush (\<lambda>_. bind_op file_Sync (\<lambda>_.
             bind_op (modify (\<lambda>w. w\<lparr>w_batchByteSize := 0\<rparr>)) (\<lambda>_.
               (\<lambda>w. notifySyncObservers (w_nextSequence w - 1) w)))))"
    unfolding writer_Flush_def file_Sync_def notifySyncObservers_def
    by (intro healthy_bind healthy_device healthy_modify healthy_read [where f = "\<lambda>w0. notify (Synced (w_nextSequence w0 - 1))"]
        healthy_notify) auto
  then show ?thesis
    unfolding healthy_def syncLocked_def by simp
qed

lemma healthy_maybeSync [intro]: "healthy active maybeSync"
  using healthy_sync unfolding healthy_def maybeSync_def by (simp add: Let_def)

lemma healthy_check [intro]: "healthy active check_status"
  by (simp add: healthy_def check_status_def)

lemma healthy_raw [intro]: "length d \<le> MaxRecordSize \<Longrightarrow> healthy active (writeRawRecord rt d)"
  unfolding writeRawRecord_def writer_Write_def
  by (auto intro!: healthy_bind healthy_device healthy_modify simp: count_bytes_def)

lemma healthy_record [intro]:
  "payloadSize t key v \<le> MaxRecordSize \<Longrightarrow> healthy active (writeRecord rt t sq key v)"
  unfolding writeRecord_def writer_Write_def Let_def
  by (auto intro!: healthy_bind healthy_device healthy_modify simp: count_bytes_def)

lemma healthy_chunks [intro]: "healthy active (writeChunks rem)"
proof (induction rem rule: writeChunks.induct)
  case (1 rem)
  then show ?case
    by (subst writeChunks.simps) (auto intro!: healthy_bind healthy_raw)
qed

lemma healthy_entry [intro]: "healthy active (write_entry t sq key v)"
  unfolding write_entry_def writeFragmentedRecord_def
  by (auto intro!: healthy_bind healthy_record healthy_raw healthy_chunks
      simp: length_first_fragment)

lemma healthy_Append [intro]:
  assumes "valid_append_type t"
  shows "healthy active (Append t key v)"
proof -
  let ?body = "\<lambda>sq. bind_op (modify (\<lambda>w. w\<lparr>w_nextSequence := w_nextSequence w + 1\<rparr>)) (\<lambda>_.
      bind_op (write_entry t sq key v) (\<lambda>_.
      bind_op (notify (EntryWritten (new_entry sq t key v))) (\<lambda>_.
      bind_op maybeSync (\<lambda>_. ret sq))))"
  have "healthy active (?body sq)" for sq
    by (intro healthy_bind healthy_modify healthy_entry healthy_notify healthy_maybeSync) auto
  then have "healthy active (\<lambda>w. ?body (w_nextSequence w) w)"
    by (rule healthy_read)
  with assms show ?thesis
    unfolding Append_def Let_def notifyEntryObservers_def
    by (intro healthy_bind healthy_check) simp
qed

end
