(* ===== verification/Wal_Batch.thy ===== *)
theory Wal_Batch
  imports Wal_Log
begin

text \<open>
  Batches of operations in the log (\<open>src/pkg/wal/batch.go\<close> and \<open>AppendBatchWithSequence\<close> of
  \<open>wal.go\<close>): building a batch, writing it as one record, and decoding it during replay.
\<close>

section \<open>Batches\<close>

record batch_op =
  bo_type :: byte
  bo_key :: bytes
  bo_value :: slice

record batch =
  b_Operations :: "batch_op list"
  b_Seq :: u64

definition BatchHeaderSize :: nat where "BatchHeaderSize = 12"

definition NewBatch :: batch where
  "NewBatch = \<lparr>b_Operations = [], b_Seq = 0\<rparr>"

definition batch_Put :: "bytes \<Rightarrow> slice \<Rightarrow> batch \<Rightarrow> batch" where
  "batch_Put key value b =
     b\<lparr>b_Operations := b_Operations b @ [\<lparr>bo_type = OpTypePut, bo_key = key, bo_value = value\<rparr>]\<rparr>"

definition batch_Delete :: "bytes \<Rightarrow> batch \<Rightarrow> batch" where
  "batch_Delete key b =
     b\<lparr>b_Operations := b_Operations b @ [\<lparr>bo_type = OpTypeDelete, bo_key = key, bo_value = None\<rparr>]\<rparr>"

definition batch_Count :: "batch \<Rightarrow> nat" where
  "batch_Count b = length (b_Operations b)"

definition batch_Reset :: "batch \<Rightarrow> batch" where
  "batch_Reset b = b\<lparr>b_Operations := [], b_Seq := 0\<rparr>"

definition op_size :: "batch_op \<Rightarrow> nat" where
  "op_size b = 1 + 4 + length (bo_key b) +
     (if bo_type b \<noteq> OpTypeDelete then 4 + len_slice (bo_value b) else 0)"

definition batch_Size :: "batch \<Rightarrow> nat" where
  "batch_Size b = BatchHeaderSize + sum_list (map op_size (b_Operations b))"

section \<open>Serialisation\<close>

definition encode_op :: "batch_op \<Rightarrow> bytes" where
  "encode_op b = [bo_type b] @ put_u32 (of_nat (length (bo_key b))) @ bo_key b @
     (if bo_type b \<noteq> OpTypeDelete
      then put_u32 (of_nat (len_slice (bo_value b))) @ bytes_of (bo_value b) else [])"

definition serialize_batch :: "u64 \<Rightarrow> batch_op list \<Rightarrow> bytes" where
  "serialize_batch sq ops =
     put_u32 (of_nat (length ops)) @ put_u64 sq @ concat (map encode_op ops)"

lemma length_encode_op [simp]: "length (encode_op b) = op_size b"
  by (simp add: encode_op_def op_size_def)

lemma length_serialize_batch:
  "length (serialize_batch sq ops) = BatchHeaderSize + sum_list (map op_size ops)"
  by (simp add: serialize_batch_def BatchHeaderSize_def length_concat comp_def)

text \<open>
  \<open>Batch.Write\<close>: the batch takes the log's next sequence number and the log skips one number
  per operation. The check for a closed log reads \<open>w.closed\<close>.
\<close>

definition batch_Write :: "batch \<Rightarrow> wal \<Rightarrow> (wal_error + unit) \<times> batch \<times> wal" where
  "batch_Write b w =
     (if b_Operations b = [] then (Inl ErrEmptyBatch, b, w)
      else if batch_Size b > MaxRecordSize then (Inl (ErrBatchTooLarge (batch_Size b)), b, w)
      else if w_closed w then (Inl ErrWALClosed, b, w)
      else
        let sq = w_nextSequence w;
            data = serialize_batch sq (b_Operations b);
            w1 = w\<lparr>w_nextSequence := sq + of_nat (length (b_Operations b))\<rparr>
        in case bind_op (writeRecord RecordTypeFull OpTypeBatch sq data None) (\<lambda>_. maybeSync) w1 of
             (res, w2) \<Rightarrow> (res, b\<lparr>b_Seq := sq\<rparr>, w2))"

definition op_of_entry :: "wentry \<Rightarrow> batch_op" where
  "op_of_entry e = \<lparr>bo_type = we_type e, bo_key = we_key e, bo_value = we_value e\<rparr>"

definition AppendBatchWithSequence :: "wentry list \<Rightarrow> u64 \<Rightarrow> u64 wal_op" where
  "AppendBatchWithSequence entries startSequence =
     bind_op check_status (\<lambda>_.
       if entries = [] then ret startSequence
       else
         bind_op (writeRecord RecordTypeFull OpTypeBatch startSequence
                    (serialize_batch startSequence (map op_of_entry entries)) None) (\<lambda>_.
         bind_op (modify (\<lambda>w.
             let endSeq = startSequence + of_nat (length entries) in
             if endSeq > w_nextSequence w then w\<lparr>w_nextSequence := endSeq\<rparr> else w)) (\<lambda>_.
         bind_op (notifyBatchObservers startSequence entries) (\<lambda>_.
         bind_op maybeSync (\<lambda>_. ret startSequence)))))"

section \<open>Decoding\<close>

text \<open>The loop of \<open>DecodeBatch\<close>; the argument \<open>rest\<close> is \<open>data[offset:]\<close>.\<close>

fun decode_ops :: "nat \<Rightarrow> bytes \<Rightarrow> wal_error + batch_op list" where
  "decode_ops 0 rest = Inr []"
| "decode_ops (Suc n) [] = Inl ErrCorruptRecord"
| "decode_ops (Suc n) (opType # rest) =
     (if \<not> valid_append_type opType then Inl ErrInvalidOpType
      else if length rest < 4 then Inl ErrCorruptRecord
      else
        let keyLen = unat (get_u32 (take 4 rest)); rest1 = drop 4 rest in
        if keyLen > length rest1 then Inl ErrCorruptRecord
        else
          let key = take keyLen rest1; rest2 = drop keyLen rest1 in
          if opType = OpTypeDelete then
            (case decode_ops n rest2 of
               Inl e \<Rightarrow> Inl e
             | Inr ops \<Rightarrow> Inr (\<lparr>bo_type = opType, bo_key = key, bo_value = None\<rparr> # ops))
          else if length rest2 < 4 then Inl ErrCorruptRecord
          else
            let valueLen = unat (get_u32 (take 4 rest2)); rest3 = drop 4 rest2 in
            if valueLen > length rest3 then Inl ErrCorruptRecord
            else
              (case decode_ops n (drop valueLen rest3) of
                 Inl e \<Rightarrow> Inl e
               | Inr ops \<Rightarrow>
                   Inr (\<lparr>bo_type = opType, bo_key = key, bo_value = Some (take valueLen rest3)\<rparr> # ops)))"

definition DecodeBatch :: "wentry \<Rightarrow> wal_error + batch" where
  "DecodeBatch entry =
     (if we_type entry \<noteq> OpTypeBatch then Inl ErrNotBatch
      else let data = we_key entry in
        if length data < BatchHeaderSize then Inl ErrCorruptRecord
        else
          let count = unat (get_u32 (take 4 data)); sq = get_u64 (take 8 (drop 4 data)) in
          (case decode_ops count (drop BatchHeaderSize data) of
             Inl e \<Rightarrow> Inl e
           | Inr ops \<Rightarrow> Inr \<lparr>b_Operations = ops, b_Seq = sq\<rparr>))"

text \<open>What decoding returns for an operation: deletions lose their value, nil values become empty.\<close>

definition logged_op :: "batch_op \<Rightarrow> batch_op" where
  "logged_op b = b\<lparr>bo_value := (if bo_type b = OpTypeDelete then None else Some (bytes_of (bo_value b)))\<rparr>"

definition op_encodable :: "batch_op \<Rightarrow> bool" where
  "op_encodable b \<longleftrightarrow> valid_append_type (bo_type b) \<and> fits_u32 (bo_key b) (bo_value b)"

lemma decode_encode_op:
  assumes "op_encodable b"
  shows "decode_ops (Suc n) (encode_op b @ rest) =
    (case decode_ops n rest of Inl e \<Rightarrow> Inl e | Inr ops \<Rightarrow> Inr (logged_op b # ops))"
proof -
  have k: "unat (of_nat (length (bo_key b)) :: u32) = length (bo_key b)"
    and v: "unat (of_nat (len_slice (bo_value b)) :: u32) = len_slice (bo_value b)"
    and t: "valid_append_type (bo_type b)"
    using assms by (simp_all add: op_encodable_def fits_u32_def unat_u32_len)
  show ?thesis
    using t by (auto simp: encode_op_def k v logged_op_def Let_def split: sum.splits)
qed

lemma decode_encode_ops:
  "list_all op_encodable ops \<Longrightarrow>
   decode_ops (length ops) (concat (map encode_op ops) @ rest) = Inr (map logged_op ops)"
  by (induction ops) (simp_all add: decode_encode_op del: decode_ops.simps(3))

lemma decode_serialized:
  assumes "list_all op_encodable ops" and "length ops < 2 ^ 32"
    and "we_type e = OpTypeBatch" and "we_key e = serialize_batch sq ops"
  shows "DecodeBatch e = Inr \<lparr>b_Operations = map logged_op ops, b_Seq = sq\<rparr>"
  using decode_encode_ops [OF assms(1), of "[]"] assms(2-4)
  by (simp add: DecodeBatch_def BatchHeaderSize_def serialize_batch_def Let_def unat_u32_len
      take_append drop_append)

text \<open>A batch that \<open>Write\<close> reports as written is in the stream as one record.\<close>

lemma batch_Write_ok:
  assumes "batch_Write b w = (Inr u, b', w')"
  defines "data \<equiv> serialize_batch (w_nextSequence w) (b_Operations b)"
  shows "w_stream w' = w_stream w @ records_bytes (entry_records OpTypeBatch (w_nextSequence w) data None)"
    "w_nextSequence w' = w_nextSequence w + of_nat (length (b_Operations b))"
    "b' = b\<lparr>b_Seq := w_nextSequence w\<rparr>" "w_status w' = w_status w" "w_cfg w' = w_cfg w"
proof -
  let ?sq = "w_nextSequence w"
  let ?w1 = "w\<lparr>w_nextSequence := ?sq + of_nat (length (b_Operations b))\<rparr>"
  obtain w2 where w2: "writeRecord RecordTypeFull OpTypeBatch ?sq data None ?w1 = (Inr (), w2)"
    "maybeSync w2 = (Inr (), w')" and b': "b' = b\<lparr>b_Seq := ?sq\<rparr>"
    using assms(1) unfolding data_def
    by (auto simp: batch_Write_def Let_def status_iff split: if_splits prod.splits)
  have "payloadSize OpTypeBatch data None \<le> MaxRecordSize"
    using w2(1) by (auto simp: writeRecord_def split: if_splits)
  moreover obtain f where "w2 = wrote [(RecordTypeFull, encode_payload OpTypeBatch ?sq data None)] f ?w1"
    using writeRecord_ok [OF w2(1)] ..
  ultimately show "w_stream w' = w_stream w @ records_bytes (entry_records OpTypeBatch ?sq data None)"
    "w_nextSequence w' = ?sq + of_nat (length (b_Operations b))" "b' = b\<lparr>b_Seq := ?sq\<rparr>"
    "w_status w' = w_status w" "w_cfg w' = w_cfg w"
    using maybeSync_ok [OF w2(2)] b' by (auto simp: same_log_def entry_records_def)
qed

end
