(* ===== verification/Wal_Replay.thy ===== *)
theory Wal_Replay
  imports Wal_Batch "HOL-Library.Sublist"
begin

text \<open>
  Reading logs back (\<open>src/pkg/wal/reader.go\<close>, and \<open>GetEntriesFrom\<close> of \<open>wal.go\<close>): replay of a
  file and of a directory with the recovery from corruption, retrieval from a sequence number on,
  and counting. A file is its content; a directory is the list of contents of its \<open>*.wal\<close> files
  in the order \<open>FindWALFiles\<close> sorts them. The replay handler is a function of its own state.
\<close>

section \<open>Progress of the reader\<close>

definition eof_like :: "wal_error \<Rightarrow> bool" where
  "eof_like e \<longleftrightarrow> (e = ErrEOF \<or> e = ErrUnexpectedEOF \<or> (\<exists>n. e = ErrEOFInFragments n))"

lemma readRecord_progress:
  assumes "readRecord r = (x, r')"
  shows "length (r_input r') \<le> length (r_input r)"
    and "(\<And>e. x = Inl e \<Longrightarrow> \<not> eof_like e) \<Longrightarrow> length (r_input r') < length (r_input r)"
proof -
  obtain y inp where rf: "ReadFull HeaderSize (r_input r) = (y, inp)"
    by (cases "ReadFull HeaderSize (r_input r)")
  have le: "length (r_input r') \<le> length inp"
    using assms rf by (auto simp: readRecord_def Let_def ReadFull_def split: if_splits sum.splits)
  moreover have "length inp \<le> length (r_input r)"
    using ReadFull_length [of HeaderSize "r_input r"] rf by simp
  ultimately show "length (r_input r') \<le> length (r_input r)" by simp
  show "length (r_input r') < length (r_input r)" if "\<And>e. x = Inl e \<Longrightarrow> \<not> eof_like e"
  proof (cases y)
    case (Inl e)
    then have "eof_like e" using rf by (auto simp: ReadFull_def eof_like_def split: if_splits)
    moreover have "x = Inl e" using assms rf Inl by (simp add: readRecord_def)
    ultimately show ?thesis using that by blast
  next
    case (Inr h)
    then have "length inp < length (r_input r)"
      using rf by (auto simp: ReadFull_Inr HeaderSize_def)
    with le show ?thesis by simp
  qed
qed

lemma ReadEntry_progress:
  "ReadEntry r = (x, r') \<Longrightarrow>
     length (r_input r') \<le> length (r_input r) \<and>
     ((\<forall>e. x = Inl e \<longrightarrow> \<not> eof_like e) \<longrightarrow> length (r_input r') < length (r_input r))"
proof (induction r arbitrary: x r' rule: ReadEntry.induct)
  case (1 r)
  obtain y r1 where rr: "readRecord r = (y, r1)" by (cases "readRecord r")
  note le = readRecord_progress(1) [OF rr]
  show ?case
  proof (cases y)
    case (Inl e)
    with "1.prems" rr have x: "r' = r1" "x = Inl e \<or> (\<exists>n. x = Inl (ErrEOFInFragments n))"
      by (auto simp: ReadEntry.simps [of r] split: if_splits)
    then show ?thesis
      using le readRecord_progress(2) [OF rr] Inl by (auto simp: eof_like_def)
  next
    case (Inr d)
    obtain rt data where d: "d = (rt, data)" by (cases d)
    have lt: "length (r_input r1) < length (r_input r)"
      using readRecord_progress(2) [OF rr] Inr by simp
    have step: "length (r_input r') \<le> length (r_input r1)"
      using "1.prems" rr Inr d "1.IH"
      by (auto simp: ReadEntry.simps [of r] processFragments_def split: if_splits list.splits)
    from lt step show ?thesis by simp
  qed
qed

lemma ReadEntry_entry_progress:
  "ReadEntry r = (Inr e, r') \<Longrightarrow> length (r_input r') < length (r_input r)"
  using ReadEntry_progress by fastforce

lemma mentions_corruption_not_eof: "mentions_corruption e \<Longrightarrow> \<not> eof_like e"
  by (auto simp: eof_like_def)

lemma ReadEntry_corrupt_progress:
  "ReadEntry r = (Inl e, r') \<Longrightarrow> mentions_corruption e \<Longrightarrow> length (r_input r') < length (r_input r)"
  using ReadEntry_progress [of r "Inl e" r'] mentions_corruption_not_eof by auto

section \<open>Where the reader panics\<close>

text \<open>
  \<open>ReadEntry\<close> takes the operation type from the first byte of a first fragment, which panics when
  that fragment is empty: in front of the reader is then the record of type 2 with no payload, whose
  checksum, that of no bytes, is 0.
\<close>

definition panic_record :: bytes where
  "panic_record = [0, 0, 0, 0, 0, 0, RecordTypeFirst]"

lemma readRecord_suffix: "readRecord r = (x, r') \<Longrightarrow> suffix (r_input r') (r_input r)"
  by (auto simp: readRecord_def Let_def ReadFull_def suffix_drop split: if_splits
      intro: suffix_order.trans [OF suffix_drop suffix_drop])

lemma ReadEntry_suffix: "ReadEntry r = (x, r') \<Longrightarrow> suffix (r_input r') (r_input r)"
proof (induction r arbitrary: x r' rule: ReadEntry.induct)
  case (1 r)
  obtain y r1 where rr: "readRecord r = (y, r1)" by (cases "readRecord r")
  note suf = readRecord_suffix [OF rr]
  show ?case
  proof (cases y)
    case (Inl e)
    with "1.prems" rr suf show ?thesis by (auto simp: ReadEntry.simps [of r] split: if_splits)
  next
    case (Inr d)
    obtain rt data where d: "d = (rt, data)" by (cases d)
    have "suffix (r_input r') (r_input r1)"
      using "1.prems" rr Inr d "1.IH"
      by (auto simp: ReadEntry.simps [of r] processFragments_def split: if_splits list.splits)
    with suf show ?thesis by (rule suffix_order.trans [rotated])
  qed
qed

lemma readRecord_no_panic: "readRecord r \<noteq> (Inl WalPanic, r')"
  by (auto simp: readRecord_def Let_def ReadFull_def split: if_splits)

lemma readRecord_empty:
  assumes "readRecord r = (Inr (RecordTypeFirst, []), r')"
  shows "sublist panic_record (r_input r)"
proof -
  obtain header inp where h: "ReadFull HeaderSize (r_input r) = (Inr header, inp)"
    using assms by (auto simp: readRecord_def split: prod.splits sum.splits)
  then have len: "length header = 7" and inp: "r_input r = header @ inp"
    by (auto simp: ReadFull_Inr HeaderSize_def)
  let ?n = "unat (get_u16 (take 2 (drop 4 header)))"
  from assms h have d: "[] = take ?n inp" "?n \<le> length inp" "RecordTypeFirst = header ! 6"
    and crc: "crc32_ieee [] = get_u32 (take 4 header)"
    by (auto simp: readRecord_def Let_def ReadFull_def HeaderSize_def not_less split: if_splits)
  have n: "?n = 0" using d(1,2) by (metis length_take list.size(3) min.absorb2)
  have split: "xs = take 4 xs @ take 2 (drop 4 xs) @ [xs ! 6]" if "length xs = 7" for xs :: bytes
    using that by (auto simp: length_Suc_conv numeral_eq_Suc)
  have "take 4 header = put_u32 0"
    using crc len put_u32_get [of "take 4 header"] by (simp add: crc32_check_empty)
  moreover have "take 2 (drop 4 header) = put_u16 0"
    using n len put_u16_get [of "take 2 (drop 4 header)"] by (simp add: unsigned_eq_0_iff)
  moreover have "put_u32 0 = [0, 0, 0, 0]" "put_u16 0 = [0, 0]"
    by code_simp+
  ultimately have "header = [0, 0, 0, 0] @ [0, 0] @ [RecordTypeFirst]"
    using split [OF len] d(3) by argo
  then have "header = panic_record"
    by (simp add: panic_record_def)
  with inp show ?thesis by simp
qed

lemma ReadEntry_panic:
  "ReadEntry r = (Inl WalPanic, r') \<Longrightarrow> sublist panic_record (r_input r)"
proof (induction r arbitrary: r' rule: ReadEntry.induct)
  case (1 r)
  obtain y r1 where rr: "readRecord r = (y, r1)" by (cases "readRecord r")
  with readRecord_no_panic "1.prems" obtain rt data where d: "y = Inr (rt, data)"
    by (cases y) (auto simp: ReadEntry.simps [of r] split: if_splits)
  note run = "1.prems" [unfolded ReadEntry.simps [of r], unfolded rr d, simplified]
  have parse: "parseEntryData bs \<noteq> Inl WalPanic" for bs
    by (simp add: parseEntryData_def Let_def)
  consider "rt = RecordTypeFirst" "data = []"
    | t ts where "rt = RecordTypeFirst" "data = t # ts"
        "ReadEntry (r1\<lparr>r_fragments := r_fragments r1 @ [data], r_currType := t\<rparr>) = (Inl WalPanic, r')"
    | "rt = RecordTypeMiddle" "r_fragments r1 \<noteq> []"
        "ReadEntry (r1\<lparr>r_fragments := r_fragments r1 @ [data]\<rparr>) = (Inl WalPanic, r')"
    using run parse by (auto simp: processFragments_def split: if_splits list.splits)
  then have "data = [] \<and> rt = RecordTypeFirst \<or> sublist panic_record (r_input r1)"
    using "1.IH" [OF rr [symmetric] d refl] by cases (auto simp: record_type_defs)
  with rr d readRecord_empty readRecord_suffix [OF rr] show ?case
    by (meson sublist_order.order.trans suffix_imp_sublist)
qed

section \<open>Replaying a file\<close>

record recovery_stats =
  EntriesProcessed :: nat
  EntriesSkipped :: nat

definition NewRecoveryStats :: recovery_stats where
  "NewRecoveryStats = \<lparr>EntriesProcessed = 0, EntriesSkipped = 0\<rparr>"

type_synonym 's handler = "'s \<Rightarrow> wentry \<Rightarrow> wal_error option \<times> 's"

text \<open>\<open>recoverFromCorruption\<close> reads 32 KB away byte by byte; running dry is \<open>io.EOF\<close>.\<close>

definition recoverFromCorruption :: "wal_reader \<Rightarrow> wal_error option \<times> wal_reader" where
  "recoverFromCorruption r =
     (if length (r_input r) < 32 * 1024 then (Some ErrEOF, r\<lparr>r_input := []\<rparr>)
      else (None, r\<lparr>r_input := drop (32 * 1024) (r_input r)\<rparr>))"

function replay_loop ::
  "'s handler \<Rightarrow> recovery_stats \<Rightarrow> 's \<Rightarrow> wal_reader \<Rightarrow> wal_error option \<times> recovery_stats \<times> 's" where
  "replay_loop h stats s r =
     (case ReadEntry r of
        (Inl e, r') \<Rightarrow>
          if e = ErrEOF then (None, stats, s)
          else if mentions_corruption e then
            (let stats' = stats\<lparr>EntriesSkipped := EntriesSkipped stats + 1\<rparr> in
             if EntriesSkipped stats' > 5 \<and> EntriesProcessed stats' = 0
             then (Some ErrTooManyCorrupted, stats', s)
             else (case recoverFromCorruption r' of
                     (Some _, _) \<Rightarrow> (None, stats', s)
                   | (None, r'') \<Rightarrow> replay_loop h stats' s r''))
          else if e = WalPanic then (Some WalPanic, stats, s)
          else (Some (ErrReadingEntry e), stats, s)
      | (Inr entry, r') \<Rightarrow>
          (case h s entry of
             (Some e, s') \<Rightarrow> (Some (ErrHandling e), stats, s')
           | (None, s') \<Rightarrow>
               replay_loop h (stats\<lparr>EntriesProcessed := EntriesProcessed stats + 1\<rparr>) s' r'))"
  by pat_completeness auto
termination
  by (relation "measure (\<lambda>(h, stats, s, r). length (r_input r))")
     (auto simp: recoverFromCorruption_def split: if_splits
      dest!: sym [of _ "ReadEntry _"] ReadEntry_corrupt_progress ReadEntry_entry_progress)

declare replay_loop.simps [simp del]

definition ReplayWALFile :: "bytes \<Rightarrow> 's handler \<Rightarrow> 's \<Rightarrow> wal_error option \<times> recovery_stats \<times> 's" where
  "ReplayWALFile content h s = replay_loop h NewRecoveryStats s (OpenReader content)"

section \<open>Replaying a directory\<close>

definition add_stats :: "recovery_stats \<Rightarrow> recovery_stats \<Rightarrow> recovery_stats" where
  "add_stats a b = \<lparr>EntriesProcessed = EntriesProcessed a + EntriesProcessed b,
                    EntriesSkipped = EntriesSkipped a + EntriesSkipped b\<rparr>"

text \<open>The loop over the files: totals so far, files replayed successfully, last error.\<close>

fun replay_files ::
  "'s handler \<Rightarrow> bytes list \<Rightarrow> recovery_stats \<Rightarrow> nat \<Rightarrow> wal_error option \<Rightarrow> 's
    \<Rightarrow> wal_error option \<times> recovery_stats \<times> 's" where
  "replay_files h [] tot ok lastErr s =
     (if ok > 0 then (None, tot, s)
      else (case lastErr of None \<Rightarrow> (None, tot, s)
                          | Some e \<Rightarrow> (Some (ErrNoWALFiles e), tot, s)))"
| "replay_files h (f # fs) tot ok lastErr s =
     (case ReplayWALFile f h s of
        (Some e, stats, s') \<Rightarrow>
          if e = WalPanic then (Some WalPanic, tot, s')
          else if \<not> mentions_corruption e
          then (Some (ErrFatalReplay e), add_stats tot stats, s')
          else replay_files h fs (add_stats tot stats) ok (Some e) s'
      | (None, stats, s') \<Rightarrow> replay_files h fs (add_stats tot stats) (ok + 1) lastErr s')"

definition ReplayWALDir :: "bytes list \<Rightarrow> 's handler \<Rightarrow> 's \<Rightarrow> wal_error option \<times> recovery_stats \<times> 's" where
  "ReplayWALDir files h s = replay_files h files NewRecoveryStats 0 None s"

lemma ReplayWALFile_panic: "ReplayWALFile (panic_record @ f) h s = (Some WalPanic, NewRecoveryStats, s)"
proof -
  have "readRecord (OpenReader (panic_record @ f)) = (Inr (RecordTypeFirst, []), OpenReader f)"
    by (simp add: readRecord_def OpenReader_def ReadFull_def HeaderSize_def panic_record_def get_u16_def get_u32_def
        Let_def crc32_check_empty record_type_defs)
  then show ?thesis
    by (simp add: ReplayWALFile_def replay_loop.simps [of h] ReadEntry.simps [of "OpenReader (panic_record @ f)"]
        record_type_defs)
qed

text \<open>So replay panics on no input without that record.\<close>

lemma replay_loop_no_panic:
  "\<not> sublist panic_record (r_input r) \<Longrightarrow> fst (replay_loop h stats s r) \<noteq> Some WalPanic"
proof (induction h stats s r rule: replay_loop.induct)
  case (1 h stats s r)
  obtain x r' where re: "ReadEntry r = (x, r')" by (cases "ReadEntry r")
  have suf: "suffix (r_input r') (r_input r)" by (rule ReadEntry_suffix [OF re])
  then have below: "\<not> sublist panic_record (r_input r')" "\<not> sublist panic_record (drop n (r_input r'))" for n
    using "1.prems" by (meson sublist_order.order.trans suffix_imp_sublist suffix_drop)+
  show ?case
  proof (cases x)
    case (Inl e)
    with ReadEntry_panic re "1.prems" have "e \<noteq> WalPanic" by blast
    with Inl re below "1.IH"(1) [OF re [symmetric] Inl] show ?thesis
      by (subst replay_loop.simps) (auto simp: recoverFromCorruption_def Let_def)
  next
    case (Inr e)
    with re below "1.IH"(2) [OF re [symmetric] Inr] show ?thesis
      by (subst replay_loop.simps) (auto split: prod.split option.split)
  qed
qed

lemma ReplayWALDir_no_panic:
  assumes "list_all (\<lambda>f. \<not> sublist panic_record f) files"
  shows "fst (ReplayWALDir files h s) \<noteq> Some WalPanic"
proof -
  have "fst (replay_files h files tot ok lastErr s) \<noteq> Some WalPanic" for tot ok lastErr
    using assms
  proof (induction files arbitrary: tot ok lastErr s)
    case (Cons f fs)
    have "fst (ReplayWALFile f h s) \<noteq> Some WalPanic"
      using Cons.prems replay_loop_no_panic [of "OpenReader f"] by (simp add: ReplayWALFile_def OpenReader_def)
    with Cons show ?case by (auto split: prod.split option.split)
  qed (simp split: option.split)
  then show ?thesis by (simp add: ReplayWALDir_def)
qed

section \<open>Retrieval and counting\<close>

function entries_loop :: "u64 \<Rightarrow> wentry list \<Rightarrow> wal_reader \<Rightarrow> wal_error option \<times> wentry list" where
  "entries_loop minSequence acc r =
     (case ReadEntry r of
        (Inl e, r') \<Rightarrow>
          if e = ErrEOF then (None, acc)
          else if mentions_corruption e then entries_loop minSequence acc r'
          else (Some e, acc)
      | (Inr entry, r') \<Rightarrow>
          entries_loop minSequence
            (if we_seq entry \<ge> minSequence then acc @ [entry] else acc) r')"
  by pat_completeness auto
termination
  by (relation "measure (\<lambda>(m, acc, r). length (r_input r))")
     (auto dest!: sym [of _ "ReadEntry _"] ReadEntry_corrupt_progress ReadEntry_entry_progress)

declare entries_loop.simps [simp del]

definition getEntriesFromFile :: "bytes \<Rightarrow> u64 \<Rightarrow> wal_error option \<times> wentry list" where
  "getEntriesFromFile content minSequence = entries_loop minSequence [] (OpenReader content)"

text \<open>
  \<open>GetEntriesFrom\<close>: \<open>older\<close> holds the contents of the other log files of the directory, oldest
  first; the current file is read last, after a flush. Errors of older files are skipped, a panic is not.
\<close>

definition GetEntriesFrom :: "bytes list \<Rightarrow> u64 \<Rightarrow> wentry list wal_op" where
  "GetEntriesFrom older sequenceNumber w =
     (if w_status w = WALStatusClosed then (Inl ErrWALClosed, w)
      else if sequenceNumber \<ge> w_nextSequence w then (Inr [], w)
      else bind_op writer_Flush (\<lambda>_ w.
        let old = map (\<lambda>f. getEntriesFromFile f sequenceNumber) older;
            oldEntries = concat (map (\<lambda>r. case r of (None, es) \<Rightarrow> es | (Some _, _) \<Rightarrow> []) old)
        in if list_ex (\<lambda>r. fst r = Some WalPanic) old then (Inl WalPanic, w)
           else case getEntriesFromFile (log_file w) sequenceNumber of
             (Some e, _) \<Rightarrow> (Inl e, w)
           | (None, es) \<Rightarrow> (Inr (oldEntries @ es), w)) w)"

text \<open>
  \<open>getEntryCount\<close> skips every error but \<open>io.EOF\<close>, so it may not return: \<open>None\<close> is no return, or a
  panic of the reader.
\<close>

partial_function (option) count_loop :: "nat \<Rightarrow> wal_reader \<Rightarrow> nat option" where
  "count_loop n r =
     (case ReadEntry r of
        (Inl e, r') \<Rightarrow> if e = ErrEOF then Some n else if e = WalPanic then None else count_loop n r'
      | (Inr _, r') \<Rightarrow> count_loop (n + 1) r')"

definition getEntryCount :: "bytes \<Rightarrow> nat option" where
  "getEntryCount content = count_loop 0 (OpenReader content)"

section \<open>Replaying a log image\<close>

text \<open>A logged entry as its writer saw it, and the bytes a sequence of them leaves in the file.\<close>

type_synonym append = "byte \<times> u64 \<times> bytes \<times> slice"

definition append_entry :: "append \<Rightarrow> wentry" where
  "append_entry a = (case a of (t, sq, key, value) \<Rightarrow> logged_entry t sq key value)"

definition append_ok :: "append \<Rightarrow> bool" where
  "append_ok a = (case a of (t, sq, key, value) \<Rightarrow> valid_entry_type t \<and> fits_u32 key value)"

definition log_image :: "append list \<Rightarrow> bytes" where
  "log_image es = concat (map (\<lambda>(t, sq, key, value). records_bytes (entry_records t sq key value)) es)"

lemma log_image_simps [simp]:
  "log_image [] = []"
  "log_image ((t, sq, key, value) # es) = records_bytes (entry_records t sq key value) @ log_image es"
  "log_image (es @ fs) = log_image es @ log_image fs"
  by (simp_all add: log_image_def)

text \<open>The reference replay: hand the entries to the handler one by one, stop at its first error.\<close>

fun feed :: "'s handler \<Rightarrow> recovery_stats \<Rightarrow> 's \<Rightarrow> wentry list \<Rightarrow> wal_error option \<times> recovery_stats \<times> 's" where
  "feed h stats s [] = (None, stats, s)"
| "feed h stats s (e # es) =
     (case h s e of
        (Some err, s') \<Rightarrow> (Some (ErrHandling err), stats, s')
      | (None, s') \<Rightarrow> feed h (stats\<lparr>EntriesProcessed := EntriesProcessed stats + 1\<rparr>) s' es)"

lemma feed_processed:
  "feed h stats s es = (None, stats', s') \<Longrightarrow>
     stats' = stats\<lparr>EntriesProcessed := EntriesProcessed stats + length es\<rparr>"
proof (induction es arbitrary: stats s)
  case Nil
  then show ?case by simp
next
  case (Cons e es)
  then obtain s1 where "h s e = (None, s1)"
    "feed h (stats\<lparr>EntriesProcessed := EntriesProcessed stats + 1\<rparr>) s1 es = (None, stats', s')"
    by (auto split: prod.splits option.splits)
  from Cons.IH [OF this(2)] show ?case by simp
qed

text \<open>A reader between two entries. One entry of the image is one step of the loop.\<close>

definition reader_at :: "bytes \<Rightarrow> byte \<Rightarrow> wal_reader" where
  "reader_at inp c = \<lparr>r_input = inp, r_fragments = [], r_currType = c\<rparr>"

lemma reader_at_simps [simp]:
  "r_input (reader_at inp c) = inp" "r_fragments (reader_at inp c) = []"
  "reader_at inp c\<lparr>r_input := inp', r_currType := c'\<rparr> = reader_at inp' c'"
  "OpenReader inp = reader_at inp 0"
  by (simp_all add: reader_at_def OpenReader_def)

lemma ReadEntry_image:
  assumes "append_ok a"
  obtains ct where "ReadEntry (reader_at (log_image [a] @ rest) c) = (Inr (append_entry a), reader_at rest ct)"
proof -
  obtain t sq key v where a: "a = (t, sq, key, v)" by (cases a)
  with assms have "\<exists>ct. ReadEntry (reader_at (log_image [a] @ rest) c) =
      (Inr (logged_entry t sq key v), reader_at (log_image [a] @ rest) c\<lparr>r_input := rest, r_currType := ct\<rparr>)"
    by (intro ReadEntry_entry_records) (simp_all add: append_ok_def)
  with a that show ?thesis by (auto simp: append_entry_def)
qed

lemma log_image_Cons: "log_image (a # es) @ rest = log_image [a] @ log_image es @ rest"
  by (cases a) simp

lemma replay_loop_image:
  assumes "list_all append_ok es"
  shows "\<exists>ct. replay_loop h stats s (reader_at (log_image es @ rest) c) =
    (case feed h stats s (map append_entry es) of
       (Some e, stats', s') \<Rightarrow> (Some e, stats', s')
     | (None, stats', s') \<Rightarrow> replay_loop h stats' s' (reader_at rest ct))"
  using assms
proof (induction es arbitrary: c stats s)
  case Nil
  then show ?case by auto
next
  case (Cons a es)
  from Cons.prems have ok: "append_ok a" by simp
  obtain ct where rd: "ReadEntry (reader_at (log_image (a # es) @ rest) c) =
      (Inr (append_entry a), reader_at (log_image es @ rest) ct)"
    using ReadEntry_image [OF ok, of "log_image es @ rest" c] log_image_Cons [of a es rest]
    by metis
  show ?case
  proof (cases "h s (append_entry a)")
    case (Pair x s')
    with Cons rd show ?thesis
      by (subst replay_loop.simps) (auto split: option.split)
  qed
qed

lemma ReadEntry_empty:
  "r_input r = [] \<Longrightarrow> r_fragments r = [] \<Longrightarrow> ReadEntry r = (Inl ErrEOF, r)"
  by (simp add: ReadEntry.simps [of r] readRecord_def ReadFull_def HeaderSize_def)

lemma replay_loop_end:
  "r_input r = [] \<Longrightarrow> r_fragments r = [] \<Longrightarrow> replay_loop h stats s r = (None, stats, s)"
  by (simp add: replay_loop.simps [of h stats s r] ReadEntry_empty)

text \<open>Replaying the image of a log is feeding its entries to the handler, in order, once each.\<close>

lemma ReplayWALFile_image:
  assumes "list_all append_ok es"
  shows "ReplayWALFile (log_image es) h s = feed h NewRecoveryStats s (map append_entry es)"
  using replay_loop_image [OF assms, of h NewRecoveryStats s "[]" 0]
  by (cases "feed h NewRecoveryStats s (map append_entry es)" rule: prod_cases3)
     (auto simp: ReplayWALFile_def replay_loop_end split: option.splits)

text \<open>A tail the loop cannot read decides the outcome after the image in front of it was fed.\<close>

lemma ReplayWALFile_tail:
  assumes "list_all append_ok es" and "feed h NewRecoveryStats s (map append_entry es) = (None, stats', s')"
  shows "\<exists>ct. ReplayWALFile (log_image es @ rest) h s = replay_loop h stats' s' (reader_at rest ct)"
  using replay_loop_image [OF assms(1), of h NewRecoveryStats s rest 0] assms(2)
  by (simp add: ReplayWALFile_def)

text \<open>Reading entries from a sequence number on keeps exactly those entries of the image.\<close>

lemma entries_loop_image:
  "list_all append_ok es \<Longrightarrow>
   entries_loop m acc (reader_at (log_image es) c) =
     (None, acc @ filter (\<lambda>e. we_seq e \<ge> m) (map append_entry es))"
proof (induction es arbitrary: c acc)
  case Nil
  then show ?case by (simp add: entries_loop.simps ReadEntry_empty)
next
  case (Cons a es)
  from Cons.prems have ok: "append_ok a" by simp
  obtain ct where "ReadEntry (reader_at (log_image (a # es)) c) =
      (Inr (append_entry a), reader_at (log_image es) ct)"
    using ReadEntry_image [OF ok, of "log_image es" c] log_image_Cons [of a es "[]"] by auto
  with Cons show ?case
    by (subst entries_loop.simps) simp
qed

section \<open>What a handler keeps\<close>

text \<open>A property of the handler's state that every call keeps holds after any replay.\<close>

lemma replay_loop_inv:
  assumes keep: "\<And>s e. I s \<Longrightarrow> I (snd (h s e))"
  shows "I s \<Longrightarrow> I (snd (snd (replay_loop h stats s r)))"
proof (induction "length (r_input r)" arbitrary: stats s r rule: less_induct)
  case less
  obtain res r' where rd: "ReadEntry r = (res, r')" by fastforce
  show ?case
  proof (cases res)
    case (Inl e)
    note progress = ReadEntry_corrupt_progress [OF rd [unfolded Inl]]
    show ?thesis
      using less.prems less.hyps progress
      by (subst replay_loop.simps) (auto simp: rd Inl recoverFromCorruption_def Let_def)
  next
    case (Inr entry)
    obtain err s' where h: "h s entry = (err, s')" by fastforce
    have "I s'" using keep [OF less.prems, of entry] h by simp
    with less.hyps ReadEntry_entry_progress [OF rd [unfolded Inr]] show ?thesis
      by (subst replay_loop.simps) (auto simp: rd Inr h split: option.split)
  qed
qed

lemma replay_files_inv:
  assumes keep: "\<And>s e. I s \<Longrightarrow> I (snd (h s e))"
  shows "I s \<Longrightarrow> I (snd (snd (replay_files h fs tot ok lastErr s)))"
proof (induction fs arbitrary: tot ok lastErr s)
  case Nil
  then show ?case by (simp split: option.split)
next
  case (Cons f fs)
  obtain err stats s' where r: "ReplayWALFile f h s = (err, stats, s')"
    by (metis prod_cases3)
  moreover have "I s'"
    using replay_loop_inv [of I h s NewRecoveryStats "OpenReader f"] keep Cons.prems r
    by (simp add: ReplayWALFile_def del: reader_at_simps)
  ultimately show ?case using Cons.IH by (simp split: option.split)
qed

lemma ReplayWALDir_inv:
  assumes "\<And>s e. I s \<Longrightarrow> I (snd (h s e))" and "I s"
  shows "I (snd (snd (ReplayWALDir files h s)))"
  using replay_files_inv [of I h s files] assms by (simp add: ReplayWALDir_def)

text \<open>
  A relation between the state and the entries handled so far, kept by every successful call,
  holds after a successful replay of log images, if no error of the handler on these entries
  reads as corruption.
\<close>

lemma feed_handled:
  assumes "\<And>s d e s'. J s d \<Longrightarrow> h s e = (None, s') \<Longrightarrow> J s' (d @ [e])"
  shows "J s d \<Longrightarrow> feed h stats s es = (None, stats', s') \<Longrightarrow> J s' (d @ es)"
proof (induction es arbitrary: stats s d)
  case Nil
  then show ?case by simp
next
  case (Cons e es)
  then obtain s1 where "h s e = (None, s1)"
    "feed h (stats\<lparr>EntriesProcessed := EntriesProcessed stats + 1\<rparr>) s1 es = (None, stats', s')"
    by (auto split: prod.splits option.splits)
  with Cons.IH [of s1 "d @ [e]"] assms [OF Cons.prems(1)] show ?case by simp
qed

lemma feed_error:
  "feed h stats s es = (Some err, stats', s') \<Longrightarrow>
     \<exists>e\<in>set es. \<exists>t x. fst (h t e) = Some x \<and> err = ErrHandling x"
proof (induction es arbitrary: stats s)
  case Nil
  then show ?case by simp
next
  case (Cons e es)
  obtain x s1 where h: "h s e = (x, s1)" by fastforce
  show ?case
  proof (cases x)
    case None
    then show ?thesis using Cons h by auto
  next
    case (Some y)
    then have "fst (h s e) = Some y \<and> err = ErrHandling y" using Cons.prems h by simp
    then show ?thesis by auto
  qed
qed

lemma replay_files_images:
  assumes step: "\<And>s d e s'. J s d \<Longrightarrow> h s e = (None, s') \<Longrightarrow> J s' (d @ [e])"
    and fatal: "\<And>s e x. e \<in> set (map append_entry (concat logs)) \<Longrightarrow> fst (h s e) = Some x \<Longrightarrow>
      \<not> mentions_corruption (ErrHandling x)"
    and "list_all (list_all append_ok) logs"
    and "J s d" and "replay_files h (map log_image logs) tot ok lastErr s = (None, stats, s')"
  shows "J s' (d @ map append_entry (concat logs))"
  using assms(2-)
proof (induction logs arbitrary: tot ok lastErr s d)
  case Nil
  then show ?case by (auto split: if_splits option.splits)
next
  case (Cons es logs)
  obtain err st s1 where f: "feed h NewRecoveryStats s (map append_entry es) = (err, st, s1)"
    by (metis prod_cases3)
  have img: "ReplayWALFile (log_image es) h s = (err, st, s1)"
    using Cons.prems(2) f by (simp add: ReplayWALFile_image)
  show ?case
  proof (cases err)
    case None
    then have "J s1 (d @ map append_entry es)"
      using feed_handled [of J h s d NewRecoveryStats] step Cons.prems(3) f by blast
    moreover have "replay_files h (map log_image logs) (add_stats tot st) (ok + 1) lastErr s1 = (None, stats, s')"
      using Cons.prems(4) img None by simp
    moreover have "\<not> mentions_corruption (ErrHandling x)"
      if "e \<in> set (map append_entry (concat logs))" "fst (h s e) = Some x" for s e x
      using Cons.prems(1) [of e s x] that by auto
    ultimately have "J s' ((d @ map append_entry es) @ map append_entry (concat logs))"
      using Cons.prems(2) Cons.IH [of s1 "d @ map append_entry es"] by simp
    then show ?thesis by simp
  next
    case (Some x)
    with feed_error [of h NewRecoveryStats s "map append_entry es"] f
    obtain e t y where "e \<in> set (map append_entry es)" "fst (h t e) = Some y" "x = ErrHandling y"
      by blast
    then have "\<not> mentions_corruption x" using Cons.prems(1) [of e t y] by auto
    then show ?thesis using Cons.prems(4) img Some by (simp split: if_splits)
  qed
qed

text \<open>Conversely, a handler that never fails on the entries is fed all of them.\<close>

lemma feed_success:
  assumes step: "\<And>s d e es. J s d \<Longrightarrow> all = d @ e # es \<Longrightarrow> \<exists>s'. h s e = (None, s') \<and> J s' (d @ [e])"
  shows "J s d \<Longrightarrow> all = d @ es @ rest \<Longrightarrow> \<exists>stats' s'. feed h stats s es = (None, stats', s') \<and> J s' (d @ es)"
proof (induction es arbitrary: stats s d)
  case Nil
  then show ?case by simp
next
  case (Cons e es)
  obtain s1 where "h s e = (None, s1)" "J s1 (d @ [e])"
    using step [OF Cons.prems(1)] Cons.prems(2) by auto
  with Cons.IH [of s1 "d @ [e]"] Cons.prems(2) show ?case by simp
qed

lemma replay_files_success:
  assumes step: "\<And>s d e es. J s d \<Longrightarrow> all = d @ e # es \<Longrightarrow> \<exists>s'. h s e = (None, s') \<and> J s' (d @ [e])"
    and "list_all (list_all append_ok) logs"
    and "J s d" and "all = d @ map append_entry (concat logs)"
  shows "\<exists>stats s'. replay_files h (map log_image logs) tot ok None s = (None, stats, s') \<and> J s' all"
  using assms(2-)
proof (induction logs arbitrary: tot ok s d)
  case Nil
  then show ?case by simp
next
  case (Cons es logs)
  obtain st s1 where f: "feed h NewRecoveryStats s (map append_entry es) = (None, st, s1)"
    "J s1 (d @ map append_entry es)"
    using feed_success [of J all h s d "map append_entry es" "map append_entry (concat logs)" NewRecoveryStats]
      step Cons.prems by auto
  with Cons.IH [of s1 "d @ map append_entry es"] Cons.prems show ?case
    by (simp add: ReplayWALFile_image)
qed

end
