(* ===== verification/Mem_Table.thy ===== *)
theory Mem_Table
  imports Skip_List Wal_Replay
begin

text \<open>
  The memtable of \<^verbatim>\<open>src/pkg/memtable/memtable.go\<close>, its iterator adapter
  (\<^verbatim>\<open>iterator_adapter.go\<close>), the pool of memtables (\<^verbatim>\<open>mempool.go\<close>) and recovery from the
  log (\<^verbatim>\<open>recovery.go\<close>). Results are options because the skip list's are. Times are nanoseconds
  on the clock \<open>now\<close> passed in by the caller; the locks make each operation atomic.
\<close>

section \<open>MemTable\<close>

record mem_table =
  mt_list :: skip_list
  mt_nextSeqNum :: u64
  mt_created :: int
  mt_immutable :: bool

definition NewMemTable :: "(nat \<Rightarrow> bool) \<Rightarrow> int \<Rightarrow> mem_table" where
  "NewMemTable rnd now =
     \<lparr>mt_list = NewSkipList rnd, mt_nextSeqNum = 0, mt_created = now, mt_immutable = False\<rparr>"

definition IsImmutable :: "mem_table \<Rightarrow> bool" where
  "IsImmutable m = mt_immutable m"

definition SetImmutable :: "mem_table \<Rightarrow> mem_table" where
  "SetImmutable m = m\<lparr>mt_immutable := True\<rparr>"

definition note_seq :: "u64 \<Rightarrow> mem_table \<Rightarrow> mem_table" where
  "note_seq sq m = (if sq > mt_nextSeqNum m then m\<lparr>mt_nextSeqNum := sq + 1\<rparr> else m)"

definition mem_Put :: "bytes \<Rightarrow> slice \<Rightarrow> u64 \<Rightarrow> mem_table \<Rightarrow> mem_table option" where
  "mem_Put key value sq m =
     (if IsImmutable m then Some m
      else case Insert (newEntry key value TypeValue sq) (mt_list m) of
             None \<Rightarrow> None
           | Some l \<Rightarrow> Some (note_seq sq (m\<lparr>mt_list := l\<rparr>)))"

definition mem_Delete :: "bytes \<Rightarrow> u64 \<Rightarrow> mem_table \<Rightarrow> mem_table option" where
  "mem_Delete key sq m =
     (if IsImmutable m then Some m
      else case Insert (newEntry key None TypeDeletion sq) (mt_list m) of
             None \<Rightarrow> None
           | Some l \<Rightarrow> Some (note_seq sq (m\<lparr>mt_list := l\<rparr>)))"

text \<open>Both branches of \<open>Get\<close> and \<open>Contains\<close> do the same; they differ in the lock they take.\<close>

definition mem_Get :: "bytes \<Rightarrow> mem_table \<Rightarrow> (slice \<times> bool) option" where
  "mem_Get key m =
     (case Find key (mt_list m) of
        None \<Rightarrow> None
      | Some None \<Rightarrow> Some (None, False)
      | Some (Some e) \<Rightarrow> Some (if me_type e = TypeDeletion then (None, True) else (me_value e, True)))"

definition mem_Contains :: "bytes \<Rightarrow> mem_table \<Rightarrow> bool option" where
  "mem_Contains key m = map_option (\<lambda>e. e \<noteq> None) (Find key (mt_list m))"

definition mem_ApproximateSize :: "mem_table \<Rightarrow> int" where
  "mem_ApproximateSize m = skip_ApproximateSize (mt_list m)"

definition mem_Age :: "int \<Rightarrow> mem_table \<Rightarrow> int" where
  "mem_Age now m = now - mt_created m"

definition mem_NewIterator :: "mem_table \<Rightarrow> skip_iter" where
  "mem_NewIterator m = NewIterator (mt_list m)"

definition mem_GetNextSequenceNumber :: "mem_table \<Rightarrow> u64" where
  "mem_GetNextSequenceNumber m = mt_nextSeqNum m"

fun apply_batch_ops :: "u64 \<Rightarrow> batch_op list \<Rightarrow> mem_table \<Rightarrow> mem_table option" where
  "apply_batch_ops sq [] m = Some m"
| "apply_batch_ops sq (bop # bops) m =
     (case (if bo_type bop = OpTypePut then mem_Put (bo_key bop) (bo_value bop) sq m
            else if bo_type bop = OpTypeDelete then mem_Delete (bo_key bop) sq m
            else Some m) of
        None \<Rightarrow> None
      | Some m' \<Rightarrow> apply_batch_ops (sq + 1) bops m')"

definition ProcessWALEntry :: "wentry \<Rightarrow> mem_table \<Rightarrow> wal_error option \<times> mem_table option" where
  "ProcessWALEntry entry m =
     (if we_type entry = OpTypePut then (None, mem_Put (we_key entry) (we_value entry) (we_seq entry) m)
      else if we_type entry = OpTypeDelete then (None, mem_Delete (we_key entry) (we_seq entry) m)
      else if we_type entry = OpTypeBatch then
        (case DecodeBatch entry of
           Inl e \<Rightarrow> (Some e, Some m)
         | Inr b \<Rightarrow> (None, apply_batch_ops (b_Seq b) (b_Operations b) m))
      else (None, Some m))"

section \<open>The iterator adapter\<close>

definition adapter_Valid :: "skip_list \<Rightarrow> skip_iter \<Rightarrow> bool" where
  "adapter_Valid s it = iter_Valid s it"

definition adapter_SeekToFirst :: "skip_list \<Rightarrow> skip_iter \<Rightarrow> skip_iter" where
  "adapter_SeekToFirst s it = iter_SeekToFirst s it"

text \<open>The scan of \<open>SeekToLast\<close>: the position reached and the last key seen.\<close>

partial_function (option) scan_last :: "skip_list \<Rightarrow> slice \<Rightarrow> skip_iter \<Rightarrow> (slice \<times> skip_iter) option" where
  "scan_last s lastKey it =
     (if iter_Valid s it then scan_last s (iter_Key s it) (iter_Next s it) else Some (lastKey, it))"

definition adapter_SeekToLast :: "skip_list \<Rightarrow> skip_iter \<Rightarrow> skip_iter option" where
  "adapter_SeekToLast s it =
     (let it1 = iter_SeekToFirst s it in
      if \<not> iter_Valid s it1 then Some it1
      else case scan_last s None it1 of
             None \<Rightarrow> None
           | Some (None, it2) \<Rightarrow> Some it2
           | Some (Some key, it2) \<Rightarrow> iter_Seek s key it2)"

definition adapter_Seek :: "skip_list \<Rightarrow> bytes \<Rightarrow> skip_iter \<Rightarrow> (bool \<times> skip_iter) option" where
  "adapter_Seek s target it = map_option (\<lambda>it'. (iter_Valid s it', it')) (iter_Seek s target it)"

definition adapter_Next :: "skip_list \<Rightarrow> skip_iter \<Rightarrow> bool \<times> skip_iter" where
  "adapter_Next s it =
     (if \<not> adapter_Valid s it then (False, it)
      else let it' = iter_Next s it in (iter_Valid s it', it'))"

definition adapter_Key :: "skip_list \<Rightarrow> skip_iter \<Rightarrow> slice" where
  "adapter_Key s it = (if \<not> adapter_Valid s it then None else iter_Key s it)"

definition adapter_IsTombstone :: "skip_list \<Rightarrow> skip_iter \<Rightarrow> bool" where
  "adapter_IsTombstone s it = iter_IsTombstone s it"

definition adapter_Value :: "skip_list \<Rightarrow> skip_iter \<Rightarrow> slice" where
  "adapter_Value s it =
     (if \<not> adapter_Valid s it then None
      else if iter_IsTombstone s it then None
      else iter_Value s it)"

section \<open>The pool\<close>

record mem_pool =
  mp_active :: mem_table
  mp_immutables :: "mem_table list"
  mp_maxAge :: int
  mp_maxSize :: int
  mp_flushPending :: bool

text \<open>\<open>make\<close> panics on a negative capacity, here \<open>MaxMemTables - 1\<close>.\<close>

definition NewMemTablePool :: "config \<Rightarrow> (nat \<Rightarrow> bool) \<Rightarrow> int \<Rightarrow> mem_pool option" where
  "NewMemTablePool cfg rnd now =
     (if MaxMemTables cfg - 1 < 0 then None
      else Some \<lparr>mp_active = NewMemTable rnd now, mp_immutables = [],
        mp_maxAge = MaxMemTableAge cfg * 10 ^ 9, mp_maxSize = MemTableSize cfg, mp_flushPending = False\<rparr>)"

definition checkFlushConditions :: "int \<Rightarrow> mem_pool \<Rightarrow> mem_pool" where
  "checkFlushConditions now p =
     (if mp_flushPending p then p
      else if mem_ApproximateSize (mp_active p) \<ge> mp_maxSize p \<or>
              (mp_maxAge p > 0 \<and> mem_Age now (mp_active p) > mp_maxAge p)
      then p\<lparr>mp_flushPending := True\<rparr> else p)"

definition pool_Put :: "int \<Rightarrow> bytes \<Rightarrow> slice \<Rightarrow> u64 \<Rightarrow> mem_pool \<Rightarrow> mem_pool option" where
  "pool_Put now key value sq p =
     (case mem_Put key value sq (mp_active p) of
        None \<Rightarrow> None
      | Some m \<Rightarrow> Some (checkFlushConditions now (p\<lparr>mp_active := m\<rparr>)))"

definition pool_Delete :: "int \<Rightarrow> bytes \<Rightarrow> u64 \<Rightarrow> mem_pool \<Rightarrow> mem_pool option" where
  "pool_Delete now key sq p =
     (case mem_Delete key sq (mp_active p) of
        None \<Rightarrow> None
      | Some m \<Rightarrow> Some (checkFlushConditions now (p\<lparr>mp_active := m\<rparr>)))"

text \<open>Reading tables one after the other, the first that knows the key answering.\<close>

fun tables_Get :: "bytes \<Rightarrow> mem_table list \<Rightarrow> (slice \<times> bool) option" where
  "tables_Get key [] = Some (None, False)"
| "tables_Get key (m # ms) =
     (case mem_Get key m of
        None \<Rightarrow> None
      | Some (value, found) \<Rightarrow> if found then Some (value, True) else tables_Get key ms)"

definition pool_Get :: "bytes \<Rightarrow> mem_pool \<Rightarrow> (slice \<times> bool) option" where
  "pool_Get key p = tables_Get key (mp_active p # rev (mp_immutables p))"

definition ImmutableCount :: "mem_pool \<Rightarrow> nat" where
  "ImmutableCount p = length (mp_immutables p)"

definition SwitchToNewMemTable :: "(nat \<Rightarrow> bool) \<Rightarrow> int \<Rightarrow> mem_pool \<Rightarrow> mem_table \<times> mem_pool" where
  "SwitchToNewMemTable rnd now p =
     (let oldActive = SetImmutable (mp_active p) in
      (oldActive,
       p\<lparr>mp_flushPending := False, mp_active := NewMemTable rnd now,
         mp_immutables := mp_immutables p @ [oldActive]\<rparr>))"

definition GetImmutablesForFlush :: "mem_pool \<Rightarrow> mem_table list \<times> mem_pool" where
  "GetImmutablesForFlush p = (mp_immutables p, p\<lparr>mp_immutables := []\<rparr>)"

definition IsFlushNeeded :: "mem_pool \<Rightarrow> bool" where
  "IsFlushNeeded p = mp_flushPending p"

definition pool_GetNextSequenceNumber :: "mem_pool \<Rightarrow> u64" where
  "pool_GetNextSequenceNumber p = mem_GetNextSequenceNumber (mp_active p)"

definition GetMemTables :: "mem_pool \<Rightarrow> mem_table list" where
  "GetMemTables p = mp_active p # mp_immutables p"

definition TotalSize :: "mem_pool \<Rightarrow> int" where
  "TotalSize p = mem_ApproximateSize (mp_active p) + (\<Sum>m\<leftarrow>mp_immutables p. mem_ApproximateSize m)"

definition SetActiveMemTable :: "mem_table \<Rightarrow> mem_pool \<Rightarrow> mem_pool" where
  "SetActiveMemTable m p =
     (let p' = (if mem_ApproximateSize (mp_active p) > 0
                then p\<lparr>mp_immutables := mp_immutables p @ [SetImmutable (mp_active p)]\<rparr> else p)
      in p'\<lparr>mp_active := m\<rparr>)"

section \<open>Recovery\<close>

record recovery_options =
  ro_MaxSequenceNumber :: u64
  ro_MaxMemTables :: int
  ro_MemTableSize :: int

definition DefaultRecoveryOptions :: "config \<Rightarrow> recovery_options" where
  "DefaultRecoveryOptions cfg =
     \<lparr>ro_MaxSequenceNumber = - 1, ro_MaxMemTables = MaxMemTables cfg, ro_MemTableSize = MemTableSize cfg\<rparr>"

text \<open>
  The state of the entry handler: the tables so far, oldest first (the last one is being filled),
  and the highest sequence number. \<open>rnds i\<close> and \<open>clock i\<close> are the coins and the creation time of
  the \<open>i\<close>-th table. The state is \<open>None\<close> after a handler call that did not return. \<open>RecoverFromWAL\<close> is
  \<open>None\<close> when it does not return, which includes a panic of the reader.
\<close>

type_synonym recovery = "(mem_table list \<times> u64) option"

definition entryHandler ::
  "recovery_options \<Rightarrow> (nat \<Rightarrow> nat \<Rightarrow> bool) \<Rightarrow> (nat \<Rightarrow> int) \<Rightarrow> recovery handler" where
  "entryHandler opts rnds clock st entry =
     (case st of
        None \<Rightarrow> (None, None)
      | Some (memTables, maxSeqNum) \<Rightarrow>
          if we_seq entry > ro_MaxSequenceNumber opts then (None, Some (memTables, maxSeqNum))
          else
            (let maxSeqNum' = (if we_seq entry > maxSeqNum then we_seq entry else maxSeqNum);
                 current = last memTables;
                 full = mem_ApproximateSize current \<ge> ro_MemTableSize opts
             in if full \<and> int (length memTables) \<ge> ro_MaxMemTables opts
                then (Some ErrMaxMemTables, Some (memTables, maxSeqNum'))
                else
                  (let (old, current') =
                         (if full
                          then (butlast memTables @ [SetImmutable current],
                                NewMemTable (rnds (length memTables)) (clock (length memTables)))
                          else (butlast memTables, current))
                   in case ProcessWALEntry entry current' of
                        (err, None) \<Rightarrow> (err, None)
                      | (err, Some m) \<Rightarrow> (err, Some (old @ [m], maxSeqNum')))))"

definition RecoverFromWAL ::
  "config \<Rightarrow> recovery_options option \<Rightarrow> (nat \<Rightarrow> nat \<Rightarrow> bool) \<Rightarrow> (nat \<Rightarrow> int) \<Rightarrow> bytes list
    \<Rightarrow> (wal_error + mem_table list \<times> u64) option" where
  "RecoverFromWAL cfg opt rnds clock files =
     (let opts = (case opt of None \<Rightarrow> DefaultRecoveryOptions cfg | Some r \<Rightarrow> r) in
      case ReplayWALDir files (entryHandler opts rnds clock) (Some ([NewMemTable (rnds 0) (clock 0)], 0)) of
        (_, _, None) \<Rightarrow> None
      | (Some e, _, _) \<Rightarrow> if e = WalPanic then None else Some (Inl e)
      | (None, _, Some (memTables, maxSeqNum)) \<Rightarrow>
          (let nextSeq = mem_GetNextSequenceNumber (last memTables) in
           Some (Inr (memTables, if nextSeq > maxSeqNum + 1 then nextSeq - 1 else maxSeqNum))))"

section \<open>A table as a version list\<close>

definition table_wf :: "mem_table \<Rightarrow> bool" where
  "table_wf m = skip_wf (mt_list m)"

definition table_entries :: "mem_table \<Rightarrow> mentry list" where
  "table_entries m = skip_entries (mt_list m)"

text \<open>A write is an entry: a put or, for \<open>TypeDeletion\<close>, a delete.\<close>

definition mem_write :: "mentry \<Rightarrow> mem_table \<Rightarrow> mem_table option" where
  "mem_write e m =
     (if me_type e = TypeValue then mem_Put (me_key e) (me_value e) (me_seq e) m
      else mem_Delete (me_key e) (me_seq e) m)"

definition proper :: "mentry \<Rightarrow> bool" where
  "proper e \<longleftrightarrow> (me_type e = TypeDeletion \<longrightarrow> me_value e = None)"

text \<open>What a reader is told of the newest version of a key.\<close>

definition answer :: "mentry option \<Rightarrow> slice \<times> bool" where
  "answer r = (case r of None \<Rightarrow> (None, False)
     | Some e \<Rightarrow> if me_type e = TypeDeletion then (None, True) else (me_value e, True))"

lemma answer_found [simp]: "snd (answer r) \<longleftrightarrow> r \<noteq> None"
  by (auto simp: answer_def split: option.splits)

lemma NewMemTable_ok [simp]:
  "table_wf (NewMemTable rnd now)" "table_entries (NewMemTable rnd now) = []"
  "\<not> mt_immutable (NewMemTable rnd now)" "mt_nextSeqNum (NewMemTable rnd now) = 0"
  "mem_ApproximateSize (NewMemTable rnd now) = 0"
  using NewSkipList_ok by (auto simp: table_wf_def table_entries_def NewMemTable_def
      mem_ApproximateSize_def skip_ApproximateSize_def NewSkipList_def)

lemma note_seq_simps [simp]:
  "mt_list (note_seq sq m) = mt_list m" "mt_immutable (note_seq sq m) = mt_immutable m"
  "mt_created (note_seq sq m) = mt_created m"
  by (simp_all add: note_seq_def)

lemma SetImmutable_simps [simp]:
  "table_wf (SetImmutable m) = table_wf m" "table_entries (SetImmutable m) = table_entries m"
  "mt_immutable (SetImmutable m)" "mem_Get key (SetImmutable m) = mem_Get key m"
  "mem_ApproximateSize (SetImmutable m) = mem_ApproximateSize m"
  by (simp_all add: SetImmutable_def table_wf_def table_entries_def mem_Get_def mem_ApproximateSize_def)

lemma mem_write_ok:
  assumes "table_wf m" and "proper e"
  shows "\<exists>m'. mem_write e m = Some m' \<and> table_wf m' \<and> mt_immutable m' = mt_immutable m \<and>
    table_entries m' = (if mt_immutable m then table_entries m else insert_version e (table_entries m)) \<and>
    mt_nextSeqNum m' = (if \<not> mt_immutable m \<and> me_seq e > mt_nextSeqNum m then me_seq e + 1 else mt_nextSeqNum m) \<and>
    mem_ApproximateSize m' = mem_ApproximateSize m + (if mt_immutable m then 0 else int (entry_size e))"
proof -
  have entry: "newEntry (me_key e) (if me_type e = TypeValue then me_value e else None) (me_type e) (me_seq e) = e"
    using assms(2) by (cases e; cases "me_type e") (auto simp: newEntry_def proper_def)
  obtain l where "Insert e (mt_list m) = Some l" "skip_wf l" "skip_entries l = insert_version e (skip_entries (mt_list m))"
    using Insert_ok assms(1) unfolding table_wf_def by blast
  moreover from this(1) have "sl_size l = sl_size (mt_list m) + int (entry_size e)"
    by (rule Insert_size)
  ultimately show ?thesis
    using assms(1) entry
    by (cases "me_type e")
       (auto simp: mem_write_def mem_Put_def mem_Delete_def IsImmutable_def table_wf_def table_entries_def
         note_seq_def mem_ApproximateSize_def skip_ApproximateSize_def)
qed

lemma mem_Get_ok: "table_wf m \<Longrightarrow> mem_Get key m = Some (answer (lookup_version key (table_entries m)))"
  by (simp add: mem_Get_def table_wf_def table_entries_def Find_ok answer_def split: option.splits)

lemma mem_Contains_ok:
  "table_wf m \<Longrightarrow> mem_Contains key m = Some (\<exists>e\<in>set (table_entries m). me_key e = key)"
  by (simp add: mem_Contains_def table_wf_def table_entries_def Find_ok lookup_version_none del: not_None_eq)

text \<open>A table that takes writes is itself a version list: the contract passes through.\<close>

definition table_ready :: "mem_table \<Rightarrow> bool" where
  "table_ready m \<longleftrightarrow> table_wf m \<and> \<not> mt_immutable m"

interpretation mt: version_list table_ready proper table_entries mem_write "\<lambda>key m. Find key (mt_list m)"
proof
  fix m e key
  assume m: "table_ready m"
  show "version_sorted (table_entries m)"
    using m skip_wf_sorted by (simp add: table_ready_def table_wf_def table_entries_def)
  show "Find key (mt_list m) = Some (lookup_version key (table_entries m))"
    using m by (simp add: table_ready_def table_wf_def table_entries_def Find_ok)
  show "\<exists>m'. mem_write e m = Some m' \<and> table_ready m' \<and> table_entries m' = insert_version e (table_entries m)"
    if "proper e"
    using m mem_write_ok [of m e] that by (auto simp: table_ready_def)
qed

text \<open>The writes a log entry makes to a table, numbered as \<open>ProcessWALEntry\<close> numbers them.\<close>

fun batch_writes :: "u64 \<Rightarrow> batch_op list \<Rightarrow> mentry list" where
  "batch_writes sq [] = []"
| "batch_writes sq (bop # bops) =
     (if bo_type bop = OpTypePut then [newEntry (bo_key bop) (bo_value bop) TypeValue sq]
      else if bo_type bop = OpTypeDelete then [newEntry (bo_key bop) None TypeDeletion sq]
      else []) @ batch_writes (sq + 1) bops"

definition entry_writes :: "wentry \<Rightarrow> mentry list" where
  "entry_writes entry =
     (if we_type entry = OpTypePut then [newEntry (we_key entry) (we_value entry) TypeValue (we_seq entry)]
      else if we_type entry = OpTypeDelete then [newEntry (we_key entry) None TypeDeletion (we_seq entry)]
      else if we_type entry = OpTypeBatch then
        (case DecodeBatch entry of Inl _ \<Rightarrow> [] | Inr b \<Rightarrow> batch_writes (b_Seq b) (b_Operations b))
      else [])"

lemma mem_Put_write: "mem_Put key v sq m = mem_write (newEntry key v TypeValue sq) m"
  and mem_Delete_write: "mem_Delete key sq m = mem_write (newEntry key None TypeDeletion sq) m"
  by (simp_all add: mem_write_def newEntry_def)

lemma proper_new [simp]: "proper (newEntry key v TypeValue sq)" "proper (newEntry key None t sq)"
  by (simp_all add: proper_def newEntry_def)

lemma batch_writes_proper: "list_all proper (batch_writes sq bops)"
  by (induction sq bops rule: batch_writes.induct) auto

lemma entry_writes_proper: "list_all proper (entry_writes e)"
  using batch_writes_proper by (auto simp: entry_writes_def split: sum.splits)

lemma apply_batch_ops_writes: "apply_batch_ops sq bops m = run_all mem_write (batch_writes sq bops) m"
  by (induction bops arbitrary: sq m) (auto simp: mem_Put_write mem_Delete_write split: option.splits)

lemma ProcessWALEntry_writes:
  "snd (ProcessWALEntry entry m) = run_all mem_write (entry_writes entry) m"
  by (auto simp: ProcessWALEntry_def entry_writes_def apply_batch_ops_writes mem_Put_write
      mem_Delete_write split: option.splits sum.splits)

end
