(* ===== verification/Wal_Correct.thy ===== *)
theory Wal_Correct
  imports Wal_Replay
begin

text \<open>
  Properties of the write-ahead log as a whole: what is appended is what is replayed, what a
  damaged or batched tail does to recovery, and the invariant of every reachable log.
\<close>

section \<open>Appending and replaying\<close>

text \<open>A client that appends a list of operations and stops at the first error.\<close>

fun append_all :: "(byte \<times> bytes \<times> slice) list \<Rightarrow> u64 list wal_op" where
  "append_all [] = ret []"
| "append_all ((t, key, value) # xs) =
     bind_op (Append t key value) (\<lambda>sq. bind_op (append_all xs) (\<lambda>sqs. ret (sq # sqs)))"

text \<open>The entries it logs when the first sequence number is \<open>sq\<close>.\<close>

fun number_appends :: "u64 \<Rightarrow> (byte \<times> bytes \<times> slice) list \<Rightarrow> append list" where
  "number_appends sq [] = []"
| "number_appends sq ((t, key, value) # xs) = (t, sq, key, value) # number_appends (sq + 1) xs"

lemma append_all_ok:
  "append_all xs w = (Inr sqs, w') \<Longrightarrow>
     w_stream w' = w_stream w @ log_image (number_appends (w_nextSequence w) xs) \<and>
     sqs = map (\<lambda>(t, sq, key, value). sq) (number_appends (w_nextSequence w) xs) \<and>
     w_nextSequence w' = w_nextSequence w + of_nat (length xs) \<and>
     w_cfg w' = w_cfg w \<and>
     list_all (\<lambda>(t, key, value). valid_append_type t) xs \<and>
     (xs \<noteq> [] \<and> WALSyncMode (w_cfg w) = SyncImmediate \<longrightarrow> w_synced w' = length (w_stream w'))"
proof (induction xs arbitrary: w sqs)
  case Nil
  then show ?case by simp
next
  case (Cons x xs)
  obtain t key v where x: "x = (t, key, v)" by (cases x)
  with Cons.prems obtain sq w1 sqs' where app: "Append t key v w = (Inr sq, w1)"
    and rest: "append_all xs w1 = (Inr sqs', w')" and sqs: "sqs = sq # sqs'"
    by (auto simp: status_iff)
  note a = Append_ok [OF app]
  from Cons.IH [OF rest] show ?case
    using a rest by (cases "xs = []") (auto simp: x sqs)
qed

lemma append_all_active:
  "append_all xs w = (Inr sqs, w') \<Longrightarrow> w_status w = WALStatusActive \<Longrightarrow> w_status w' = WALStatusActive"
proof (induction xs arbitrary: w sqs)
  case (Cons x xs)
  then obtain sq w1 sqs' where "Append (fst x) (fst (snd x)) (snd (snd x)) w = (Inr sq, w1)"
    "append_all xs w1 = (Inr sqs', w')"
    by (cases x) (auto simp: status_iff)
  with Cons.IH show ?case using Append_ok(4) by blast
qed simp

lemma number_appends_ok:
  "list_all (\<lambda>(t, key, value). valid_append_type t \<and> fits_u32 key value) xs \<Longrightarrow>
   list_all append_ok (number_appends sq xs)"
  by (induction xs arbitrary: sq)
     (auto simp: append_ok_def valid_append_type_def valid_entry_type_def)

lemma number_appends_seqs:
  "map (\<lambda>(t, sq, key, value). sq) (number_appends sq xs) = map (\<lambda>i. sq + of_nat i) [0..<length xs]"
proof (induction xs arbitrary: sq)
  case Nil
  then show ?case by simp
next
  case (Cons x xs)
  obtain t key v where x: "x = (t, key, v)" by (cases x)
  have "map (\<lambda>i. sq + of_nat i) [0..<length (x # xs)] =
      sq # map (\<lambda>i. (sq + 1) + of_nat i) [0..<length xs]"
    by (simp add: upt_conv_Cons map_Suc_upt [symmetric] add.assoc del: upt_Suc)
  with Cons show ?case by (simp add: x)
qed

text \<open>What is durable when the log was synced, or closed, after its last write.\<close>

lemma sync_durable:
  assumes "wal_Sync w = (Inr u, w')"
  shows "durable w' = w_stream w"
  using syncLocked_ok [OF assms [unfolded wal_Sync_def]] by (simp add: durable_def same_log_def)

lemma close_durable:
  assumes "wal_Close w = (Inr u, w')" and "w_status w \<noteq> WALStatusClosed"
  shows "durable w' = w_stream w" "log_file w' = w_stream w"
proof -
  let ?tail = "bind_op (modify (\<lambda>w. w\<lparr>w_status := WALStatusRotating\<rparr>)) (\<lambda>_.
           bind_op file_Close (\<lambda>_. modify (\<lambda>w. w\<lparr>w_status := WALStatusClosed\<rparr>)))"
  obtain w1 w2 where "writer_Flush w = (Inr (), w1)" "file_Sync w1 = (Inr (), w2)" "?tail w2 = (Inr u, w')"
    using assms by (simp only: wal_Close_def bind_op_ok_iff if_False) (metis old.unit.exhaust)
  then show "durable w' = w_stream w" "log_file w' = w_stream w"
    by (auto simp: status_iff writer_Flush_def file_Sync_def file_Close_def durable_def log_file_def)
qed

text \<open>
  C18: if every \<open>Append\<close> of a run on a new log reported success, whichever later calls into the device
  fail, then the sequence numbers handed out are 1, 2, 3, ..., and replaying what a crash leaves of the
  file hands exactly the appended operations to the handler, in order and once each (large entries
  reassembled from their fragments) as soon as the log has been synced: at once in immediate mode, where
  every \<open>Append\<close> flushes the buffer and syncs the file, and in every mode after a successful \<open>Sync\<close> or \<open>Close\<close>.
  (In the other modes the entries of the run may be in the 64 KB buffer only until then.)
\<close>

theorem wal_append_replay_roundtrip:
  assumes "append_all xs (NewWAL cfg fault) = (Inr sqs, w)"
    and "list_all (\<lambda>(t, key, value). fits_u32 key value) xs"
  shows "sqs = map (\<lambda>i. 1 + of_nat i) [0..<length xs] \<and>
    (WALSyncMode cfg = SyncImmediate \<longrightarrow>
       ReplayWALFile (durable w) h s = feed h NewRecoveryStats s (map append_entry (number_appends 1 xs))) \<and>
    (\<forall>w'. wal_Sync w = (Inr (), w') \<or> wal_Close w = (Inr (), w') \<longrightarrow>
       ReplayWALFile (durable w') h s = feed h NewRecoveryStats s (map append_entry (number_appends 1 xs)))"
proof (intro conjI impI allI)
  note a = append_all_ok [OF assms(1)]
  have "list_all (\<lambda>(t, key, value). valid_append_type t \<and> fits_u32 key value) xs"
    using a assms(2) by (auto simp: list_all_iff)
  then have "list_all append_ok (number_appends 1 xs)"
    by (rule number_appends_ok)
  moreover have "w_stream w = log_image (number_appends 1 xs)"
    using a by (simp add: NewWAL_def)
  ultimately have replay: "ReplayWALFile (w_stream w) h s =
      feed h NewRecoveryStats s (map append_entry (number_appends 1 xs))"
    by (simp add: ReplayWALFile_image)
  show "sqs = map (\<lambda>i. 1 + of_nat i) [0..<length xs]"
    using a by (simp add: NewWAL_def number_appends_seqs)
  show "ReplayWALFile (durable w) h s = feed h NewRecoveryStats s (map append_entry (number_appends 1 xs))"
    if "WALSyncMode cfg = SyncImmediate"
  proof -
    have "w_synced w = length (w_stream w)"
      using a assms(1) that by (cases "xs = []") (auto simp: NewWAL_def)
    with replay show ?thesis by (simp add: durable_def)
  qed
  show "ReplayWALFile (durable w') h s = feed h NewRecoveryStats s (map append_entry (number_appends 1 xs))"
    if "wal_Sync w = (Inr (), w') \<or> wal_Close w = (Inr (), w')" for w'
    using that replay sync_durable close_durable append_all_active [OF assms(1)]
    by (auto simp: NewWAL_def)
qed

text \<open>On a device that does not fail such a run always completes.\<close>

lemma healthy_append_all:
  "list_all (\<lambda>(t, key, value). valid_append_type t) xs \<Longrightarrow> healthy active (append_all xs)"
  by (induction xs) (auto intro!: healthy_bind healthy_Append)

lemma append_all_completes:
  assumes "list_all (\<lambda>(t, key, value). valid_append_type t) xs"
  obtains sqs w where "append_all xs (NewWAL cfg None) = (Inr sqs, w)"
  using healthyD [OF healthy_append_all [OF assms], of "NewWAL cfg None"] by (auto simp: NewWAL_def)

definition sample_ops :: "(byte \<times> bytes \<times> slice) list" where
  "sample_ops = [(OpTypePut, [107], Some [118, 49]), (OpTypeDelete, [107], None)]"

definition collect :: "wentry list handler" where
  "collect s e = (None, s @ [e])"

theorem wal_append_replay_roundtrip_witness:
  "\<exists>sqs w. append_all sample_ops (NewWAL (NewDefaultConfig ''wal'' ''sst'') None) = (Inr sqs, w) \<and>
     sqs = [1, 2] \<and> ReplayWALFile (durable w) collect [] =
       (None, \<lparr>EntriesProcessed = 2, EntriesSkipped = 0\<rparr>,
        [logged_entry OpTypePut 1 [107] (Some [118, 49]), logged_entry OpTypeDelete 2 [107] None])"
proof -
  have ty: "list_all (\<lambda>(t, key, value). valid_append_type t) sample_ops"
    by (simp add: sample_ops_def valid_append_type_def)
  obtain sqs w where run:
    "append_all sample_ops (NewWAL (NewDefaultConfig ''wal'' ''sst'') None) = (Inr sqs, w)"
    by (rule append_all_completes [OF ty])
  have fits: "list_all (\<lambda>(t, key, value). fits_u32 key value) sample_ops"
    by (simp add: sample_ops_def fits_u32_def)
  show ?thesis
    using run wal_append_replay_roundtrip [OF run fits, of collect "[]"]
    by (auto simp: sample_ops_def NewDefaultConfig_def collect_def append_entry_def NewRecoveryStats_def)
qed

section \<open>Damaged tails\<close>

text \<open>A record cut short: an empty payload after a whole header reads as a clean end of file.\<close>

lemma readRecord_torn:
  assumes "RecordTypeFull \<le> rt" "rt \<le> RecordTypeLast" "length d < 2 ^ 16"
    and "0 < k" "k < HeaderSize + length d"
  shows "fst (readRecord (reader_at (take k (record_bytes rt d)) c)) =
    Inl (if k = HeaderSize then ErrEOF else ErrUnexpectedEOF)"
proof (cases "k < HeaderSize")
  case True
  moreover have "record_bytes rt d \<noteq> []"
    by (simp add: record_bytes_def record_header_def)
  ultimately show ?thesis
    using assms(4) by (simp add: readRecord_def ReadFull_def)
next
  case False
  then have inp: "take k (record_bytes rt d) = record_header rt d @ take (k - HeaderSize) d"
    by (simp add: record_bytes_def)
  have "ReadFull HeaderSize (record_header rt d @ take (k - HeaderSize) d) =
      (Inr (record_header rt d), take (k - HeaderSize) d)"
    by (simp add: ReadFull_def)
  moreover have "unat (of_nat (length d) :: u16) = length d"
    using assms(3) by (rule unat_u16_len)
  moreover have "ReadFull (length d) (take (k - HeaderSize) d) =
      (Inl (if k = HeaderSize then ErrEOF else ErrUnexpectedEOF), [])"
    using assms(5) False by (auto simp: ReadFull_def)
  ultimately show ?thesis
    using assms(1,2) unfolding inp by (cases "k = HeaderSize")
      (simp_all add: readRecord_def Let_def record_bytes_fields not_less)
qed

text \<open>
  C20: a crash that cuts the last record anywhere but exactly behind its header makes replay of
  the file fail with an unexpected end of file, which is not classified as corruption: all intact
  entries in front were handled, yet the call returns an error and the directory replay stops
  with a fatal one.
\<close>

theorem wal_torn_tail_is_fatal:
  assumes "list_all append_ok es"
    and "feed h NewRecoveryStats s (map append_entry es) = (None, stats', s')"
    and "RecordTypeFull \<le> rt" "rt \<le> RecordTypeLast" "length d < 2 ^ 16"
    and "0 < k" "k < HeaderSize + length d" "k \<noteq> HeaderSize"
  shows "ReplayWALFile (log_image es @ take k (record_bytes rt d)) h s =
      (Some (ErrReadingEntry ErrUnexpectedEOF), stats', s') \<and>
    ReplayWALDir [log_image es @ take k (record_bytes rt d)] h s =
      (Some (ErrFatalReplay (ErrReadingEntry ErrUnexpectedEOF)), stats', s')"
proof -
  let ?tail = "take k (record_bytes rt d)"
  obtain ct where tail: "ReplayWALFile (log_image es @ ?tail) h s =
      replay_loop h stats' s' (reader_at ?tail ct)"
    using ReplayWALFile_tail [OF assms(1,2)] by blast
  obtain r' where "readRecord (reader_at ?tail ct) = (Inl ErrUnexpectedEOF, r')"
    using readRecord_torn [OF assms(3-7), of ct] assms(8) by (cases "readRecord (reader_at ?tail ct)") auto
  then have "ReadEntry (reader_at ?tail ct) = (Inl ErrUnexpectedEOF, r')"
    by (simp add: ReadEntry.simps [of "reader_at ?tail ct"])
  then have replayed: "ReplayWALFile (log_image es @ ?tail) h s =
      (Some (ErrReadingEntry ErrUnexpectedEOF), stats', s')"
    unfolding tail by (subst replay_loop.simps) simp
  then show ?thesis
    by (simp add: ReplayWALDir_def add_stats_def NewRecoveryStats_def)
qed

theorem wal_torn_tail_is_fatal_witness:
  "ReplayWALDir [log_image [(OpTypePut, 1, [107], Some [118])] @
                 take 9 (record_bytes RecordTypeFull (encode_payload OpTypeDelete 2 [107] None))]
     collect [] =
   (Some (ErrFatalReplay (ErrReadingEntry ErrUnexpectedEOF)),
    \<lparr>EntriesProcessed = 1, EntriesSkipped = 0\<rparr>, [logged_entry OpTypePut 1 [107] (Some [118])])"
proof -
  let ?es = "[(OpTypePut, 1, [107], Some [118])] :: append list"
  have "list_all append_ok ?es"
    by (simp add: append_ok_def valid_entry_type_def fits_u32_def)
  moreover have "feed collect NewRecoveryStats [] (map append_entry ?es) =
      (None, \<lparr>EntriesProcessed = 1, EntriesSkipped = 0\<rparr>, [logged_entry OpTypePut 1 [107] (Some [118])])"
    by (simp add: collect_def NewRecoveryStats_def append_entry_def)
  ultimately show ?thesis
    using wal_torn_tail_is_fatal [of ?es collect "[]" _ _ RecordTypeFull
        "encode_payload OpTypeDelete 2 [107] None" 9]
    by (simp add: record_type_defs payloadSize_def HeaderSize_def)
qed

section \<open>Batches in the log\<close>

text \<open>The header \<open>AppendBatch\<close> writes is a payload whose key length runs past its end.\<close>

lemma parse_batch_header:
  assumes "0 < n" and "n < 2 ^ 32"
  shows "parseEntryData (batch_header sq n) = Inl ErrCorruptRecord"
proof -
  have f: "batch_header sq n ! 0 = OpTypeBatch" "length (batch_header sq n) = 13"
    "take 4 (drop 9 (batch_header sq n)) = put_u32 (of_nat n)"
    by (simp_all add: batch_header_def drop_Cons')
  have "unat (of_nat n :: u32) = n"
    using assms(2) by (rule unat_u32_len)
  with assms(1) show ?thesis
    by (simp add: parseEntryData_def f Let_def valid_entry_type_def)
qed

lemma ReadEntry_batch_header:
  assumes "0 < n" "n < 2 ^ 32"
  shows "ReadEntry (reader_at (record_bytes RecordTypeFull (batch_header sq n) @ rest) ct) =
    (Inl ErrCorruptRecord, reader_at rest ct)"
proof -
  let ?r = "reader_at (record_bytes RecordTypeFull (batch_header sq n) @ rest) ct"
  have "readRecord ?r = (Inr (RecordTypeFull, batch_header sq n), ?r\<lparr>r_input := rest\<rparr>)"
    by (rule readRecord_record_bytes) (auto simp: record_type_defs batch_header_def)
  then show ?thesis
    using assms by (simp add: ReadEntry.simps [of ?r] parse_batch_header) (simp add: reader_at_def)
qed

text \<open>
  Replay stops trusting the file there: the scan for the next record throws 32 KB away.
\<close>

lemma replay_batch_header:
  assumes "list_all append_ok es"
    and "feed h NewRecoveryStats s (map append_entry es) = (None, stats', s')"
    and "0 < n" "n < 2 ^ 32" "length rest < 32 * 1024"
  shows "ReplayWALFile (log_image es @ record_bytes RecordTypeFull (batch_header sq n) @ rest) h s =
    (None, stats'\<lparr>EntriesSkipped := 1\<rparr>, s')"
proof -
  let ?tail = "record_bytes RecordTypeFull (batch_header sq n) @ rest"
  obtain ct where tail: "ReplayWALFile (log_image es @ ?tail) h s =
      replay_loop h stats' s' (reader_at ?tail ct)"
    using ReplayWALFile_tail [OF assms(1,2)] by blast
  note ReadEntry_batch_header [OF assms(3,4), of sq rest ct]
  moreover have "EntriesSkipped stats' = 0"
    using feed_processed [OF assms(2)] by (simp add: NewRecoveryStats_def)
  ultimately show ?thesis
    using assms(5) unfolding tail
    by (subst replay_loop.simps) (simp add: recoverFromCorruption_def Let_def)
qed

text \<open>\<open>AppendBatch\<close> writes that header and then one record per entry.\<close>

definition batch_entry_record :: "u64 \<Rightarrow> wentry \<Rightarrow> byte \<times> bytes" where
  "batch_entry_record sq e =
     (RecordTypeFull, encode_payload (if we_value e = None then OpTypeDelete else OpTypePut) sq
        (we_key e) (we_value e))"

fun batch_records :: "u64 \<Rightarrow> wentry list \<Rightarrow> (byte \<times> bytes) list" where
  "batch_records sq [] = []"
| "batch_records sq (e # es) = batch_entry_record sq e # batch_records (sq + 1) es"

lemma write_batch_entries_ok:
  "write_batch_entries sq es w = (Inr u, w') \<Longrightarrow> \<exists>f. w' = wrote (batch_records sq es) f w"
proof (induction es arbitrary: sq w)
  case Nil
  then show ?case by (auto intro: exI [of _ "(w_fault w, w_flushed w)"] wrote_Nil [symmetric])
next
  case (Cons e es)
  then show ?case
    by (cases "we_value e")
       (force simp: status_iff batch_entry_record_def dest!: writeRecord_ok)+
qed

lemma AppendBatch_ok:
  assumes "AppendBatch es w = (Inr sq, w')" and "es \<noteq> []"
  shows "sq = w_nextSequence w" "w_nextSequence w' = sq + of_nat (length es)"
    "w_stream w' = w_stream w @ record_bytes RecordTypeFull (batch_header sq (length es)) @
       records_bytes (batch_records sq es)"
proof -
  let ?sq = "w_nextSequence w"
  obtain w1 w2 w3 where w: "writeRawRecord RecordTypeFull (batch_header ?sq (length es)) w = (Inr (), w1)"
    "write_batch_entries ?sq es w1 = (Inr (), w2)"
    "notify (BatchWritten ?sq es) (w2\<lparr>w_nextSequence := ?sq + of_nat (length es)\<rparr>) = (Inr (), w3)"
    "maybeSync w3 = (Inr (), w')" and sq: "sq = ?sq"
    using assms by (auto simp: AppendBatch_def status_iff Let_def notifyBatchObservers_def)
  obtain f1 where w1: "w1 = wrote [(RecordTypeFull, batch_header ?sq (length es))] f1 w"
    using writeRawRecord_ok [OF w(1)] ..
  obtain f2 where w2: "w2 = wrote (batch_records ?sq es) f2 w1"
    using write_batch_entries_ok [OF w(2)] ..
  show "sq = w_nextSequence w" "w_nextSequence w' = sq + of_nat (length es)"
    "w_stream w' = w_stream w @ record_bytes RecordTypeFull (batch_header sq (length es)) @
       records_bytes (batch_records sq es)"
    using notify_ok [OF w(3)] maybeSync_ok [OF w(4)] by (auto simp: same_log_def w1 w2 sq)
qed

lemma healthy_batch_entries:
  "list_all (\<lambda>e. payloadSize OpTypePut (we_key e) (we_value e) \<le> MaxRecordSize) es \<Longrightarrow>
   healthy active (write_batch_entries sq es)"
  by (induction es arbitrary: sq)
     (auto intro!: healthy_bind healthy_record simp: payloadSize_def split: option.split)

lemma healthy_AppendBatch:
  assumes "list_all (\<lambda>e. payloadSize OpTypePut (we_key e) (we_value e) \<le> MaxRecordSize) es"
  shows "healthy active (AppendBatch es)"
proof -
  have "healthy active (\<lambda>w. if es = [] then (Inr (w_nextSequence w), w)
       else let startSeqNum = w_nextSequence w in
         bind_op (writeRawRecord RecordTypeFull (batch_header startSeqNum (length es))) (\<lambda>_.
         bind_op (write_batch_entries startSeqNum es) (\<lambda>_.
         bind_op (modify (\<lambda>w. w\<lparr>w_nextSequence := startSeqNum + of_nat (length es)\<rparr>)) (\<lambda>_.
         bind_op (notifyBatchObservers startSeqNum es) (\<lambda>_.
         bind_op maybeSync (\<lambda>_. ret startSeqNum))))) w)"
    (is "healthy active (\<lambda>w. if es = [] then _ w else let sq = w_nextSequence w in ?body sq w)")
  proof (cases "es = []")
    case False
    have "healthy active (?body sq)" for sq
      unfolding notifyBatchObservers_def using assms(1)
      by (intro healthy_bind healthy_raw healthy_batch_entries healthy_modify healthy_notify healthy_maybeSync
          healthy_ret)
         (auto simp: batch_header_def MaxRecordSize_def)
    then have "healthy active (\<lambda>w. ?body (w_nextSequence w) w)"
      by (rule healthy_read)
    with False show ?thesis by (simp only: Let_def if_False)
  qed (simp add: healthy_def)
  then show ?thesis
    unfolding AppendBatch_def by (intro healthy_bind healthy_check)
qed

lemma AppendBatch_completes:
  assumes "list_all (\<lambda>e. payloadSize OpTypePut (we_key e) (we_value e) \<le> MaxRecordSize) es"
    and "w_fault w = None" "active w"
  obtains sq w' where "AppendBatch es w = (Inr sq, w')" "w_fault w' = None" "active w'"
  using healthyD [OF healthy_AppendBatch [OF assms(1)] assms(2,3)] that by blast

text \<open>
  C21: a batch that \<open>AppendBatch\<close> has logged successfully is not replayed. Its header record reads
  as corrupt and the scan for the next record throws away the 32 KB behind it, so when the batch
  is smaller than that the handler sees only the entries logged in front of it, and the replay
  still reports success, with one skipped entry. (The stream is the content of the file once the
  buffered writer has been flushed.)
\<close>

theorem wal_append_batch_not_replayed:
  assumes "AppendBatch batch w = (Inr sq, w')" and "batch \<noteq> []" and "length batch < 2 ^ 32"
    and "length (records_bytes (batch_records sq batch)) < 32 * 1024"
    and "w_stream w = log_image es" and "list_all append_ok es"
    and "feed h NewRecoveryStats s (map append_entry es) = (None, stats', s')"
  shows "ReplayWALFile (w_stream w') h s = (None, stats'\<lparr>EntriesSkipped := 1\<rparr>, s')"
  using replay_batch_header [OF assms(6,7), of "length batch" "records_bytes (batch_records sq batch)" sq]
    AppendBatch_ok [OF assms(1,2)] assms(2-5) by simp

theorem wal_append_batch_not_replayed_witness:
  "\<exists>w'. AppendBatch [new_entry 0 OpTypePut [107] (Some [118])] (NewWAL (NewDefaultConfig ''wal'' ''sst'') None) = (Inr 1, w') \<and>
     ReplayWALFile (w_stream w') collect [] = (None, \<lparr>EntriesProcessed = 0, EntriesSkipped = 1\<rparr>, [])"
proof -
  let ?b = "[new_entry 0 OpTypePut [107] (Some [118])]"
  let ?w = "NewWAL (NewDefaultConfig ''wal'' ''sst'') None"
  obtain sq w' where run: "AppendBatch ?b ?w = (Inr sq, w')"
    by (rule AppendBatch_completes [of ?b ?w])
       (simp_all add: new_entry_def payloadSize_def MaxRecordSize_def NewWAL_def)
  have sq: "sq = 1" using AppendBatch_ok(1) [OF run] by (simp add: NewWAL_def)
  have "ReplayWALFile (w_stream w') collect [] = (None, NewRecoveryStats\<lparr>EntriesSkipped := 1\<rparr>, [])"
    by (rule wal_append_batch_not_replayed [OF run, where es = "[]"])
       (simp_all add: NewWAL_def batch_entry_record_def new_entry_def payloadSize_def HeaderSize_def)
  with run sq show ?thesis by (simp add: NewRecoveryStats_def)
qed

lemma five_bytes_per_op: "5 * length ops \<le> sum_list (map op_size ops)"
  by (induction ops) (auto simp: op_size_def)

text \<open>A successful \<open>Batch.Write\<close> logs one batch entry that decodes to the batch.\<close>

lemma batch_Write_logged:
  assumes "batch_Write b w = (Inr u, b', w')" and "list_all op_encodable (b_Operations b)"
  defines "a \<equiv> (OpTypeBatch, w_nextSequence w, serialize_batch (w_nextSequence w) (b_Operations b), None)"
  shows "w_stream w' = w_stream w @ log_image [a]" and "append_ok a"
    and "DecodeBatch (append_entry a) =
      Inr \<lparr>b_Operations = map logged_op (b_Operations b), b_Seq = w_nextSequence w\<rparr>"
    and "w_nextSequence w' = w_nextSequence w + of_nat (length (b_Operations b))"
proof -
  note ok = batch_Write_ok [OF assms(1)]
  have size: "batch_Size b \<le> MaxRecordSize"
    using assms(1) by (auto simp: batch_Write_def split: if_splits)
  have "5 * length (b_Operations b) \<le> sum_list (map op_size (b_Operations b))"
    by (rule five_bytes_per_op)
  then have few: "length (b_Operations b) < 2 ^ 32"
    using size by (simp add: batch_Size_def MaxRecordSize_def)
  have "length (serialize_batch (w_nextSequence w) (b_Operations b)) < 2 ^ 32"
    using size by (simp add: length_serialize_batch batch_Size_def MaxRecordSize_def)
  then show "append_ok a"
    by (simp add: a_def append_ok_def valid_entry_type_def fits_u32_def)
  show "w_stream w' = w_stream w @ log_image [a]"
    using ok(1) by (simp add: a_def)
  show "DecodeBatch (append_entry a) =
      Inr \<lparr>b_Operations = map logged_op (b_Operations b), b_Seq = w_nextSequence w\<rparr>"
    unfolding a_def using assms(2) few
    by (intro decode_serialized) (simp_all add: append_entry_def logged_entry_def)
  show "w_nextSequence w' = w_nextSequence w + of_nat (length (b_Operations b))"
    using ok(2) .
qed

text \<open>
  A batch written with \<open>Batch.Write\<close> does survive: replay hands one batch entry to the handler
  behind everything logged before it, and decoding that entry gives back the operations in order
  with the base sequence number the log reserved for them, one number per operation.
\<close>

lemma wal_batch_write_roundtrip:
  assumes "batch_Write b w = (Inr u, b', w')"
    and "list_all op_encodable (b_Operations b)"
    and "w_stream w = log_image es" and "list_all append_ok es"
  shows "\<exists>e. ReplayWALFile (w_stream w') h s =
        feed h NewRecoveryStats s (map append_entry es @ [e]) \<and>
      DecodeBatch e = Inr \<lparr>b_Operations = map logged_op (b_Operations b), b_Seq = w_nextSequence w\<rparr> \<and>
      w_nextSequence w' = w_nextSequence w + of_nat (length (b_Operations b))"
proof -
  let ?a = "(OpTypeBatch, w_nextSequence w, serialize_batch (w_nextSequence w) (b_Operations b), None) :: append"
  note logged = batch_Write_logged [OF assms(1,2)]
  have "w_stream w' = log_image (es @ [?a])"
    using logged(1) assms(3) by simp
  moreover have "list_all append_ok (es @ [?a])"
    using logged(2) assms(4) by simp
  ultimately have "ReplayWALFile (w_stream w') h s =
      feed h NewRecoveryStats s (map append_entry es @ [append_entry ?a])"
    by (simp only: ReplayWALFile_image) simp
  with logged(3,4) show ?thesis by blast
qed

definition sample_batch :: batch where
  "sample_batch = batch_Delete [108] (batch_Put [107] (Some [118]) NewBatch)"

lemma sample_batch_ops:
  "b_Operations sample_batch = [\<lparr>bo_type = OpTypePut, bo_key = [107], bo_value = Some [118]\<rparr>,
      \<lparr>bo_type = OpTypeDelete, bo_key = [108], bo_value = None\<rparr>]"
  "list_all op_encodable (b_Operations sample_batch)"
  "map logged_op (b_Operations sample_batch) = b_Operations sample_batch"
  by (simp_all add: sample_batch_def batch_Delete_def batch_Put_def NewBatch_def op_encodable_def
      valid_append_type_def fits_u32_def logged_op_def OpTypeDelete_def OpTypePut_def)

lemma sample_batch_written:
  obtains w' where "batch_Write sample_batch (NewWAL (NewDefaultConfig ''wal'' ''sst'') None) =
    (Inr (), sample_batch\<lparr>b_Seq := 1\<rparr>, w')"
proof -
  let ?w = "NewWAL (NewDefaultConfig ''wal'' ''sst'') None"
  let ?ops = "b_Operations sample_batch"
  note ops = sample_batch_ops(1)
  have "healthy active (bind_op (writeRecord RecordTypeFull OpTypeBatch 1 (serialize_batch 1 ?ops) None)
      (\<lambda>_. maybeSync))"
    by (intro healthy_bind healthy_record healthy_maybeSync)
       (simp add: payloadSize_def length_serialize_batch ops op_size_def BatchHeaderSize_def
         MaxRecordSize_def OpTypeBatch_def OpTypeDelete_def OpTypePut_def)
  from healthyD [OF this, of "?w\<lparr>w_nextSequence := 1 + of_nat (length ?ops)\<rparr>"] obtain w' where
    "bind_op (writeRecord RecordTypeFull OpTypeBatch 1 (serialize_batch 1 ?ops) None) (\<lambda>_. maybeSync)
       (?w\<lparr>w_nextSequence := 1 + of_nat (length ?ops)\<rparr>) = (Inr (), w')"
    by (auto simp: NewWAL_def)
  then have "batch_Write sample_batch ?w = (Inr (), sample_batch\<lparr>b_Seq := 1\<rparr>, w')"
    by (simp add: batch_Write_def Let_def NewWAL_def batch_Size_def BatchHeaderSize_def
        MaxRecordSize_def ops op_size_def OpTypeDelete_def OpTypePut_def)
  then show thesis by (rule that)
qed

section \<open>Retrieval\<close>

text \<open>
  \<open>GetEntriesFrom\<close> returns exactly the entries with a sequence number of at least the one
  asked for, from the older files and then from the current one, in log order.
\<close>

lemma wal_get_entries_from:
  assumes "w_status w \<noteq> WALStatusClosed" and "w_fault w = None" and "from < w_nextSequence w"
    and "list_all (list_all append_ok) olds" and "list_all append_ok es"
    and "w_stream w = log_image es"
  shows "fst (GetEntriesFrom (map log_image olds) from w) =
    Inr (filter (\<lambda>e. we_seq e \<ge> from) (map append_entry (concat olds @ es)))"
proof -
  have old: "concat (map (\<lambda>f. case getEntriesFromFile f from of (None, es) \<Rightarrow> es | (Some _, _) \<Rightarrow> [])
        (map log_image olds)) = filter (\<lambda>e. we_seq e \<ge> from) (map append_entry (concat olds))"
    using assms(4) by (induction olds) (simp_all add: getEntriesFromFile_def entries_loop_image)
  have flush: "writer_Flush w = (Inr (), w\<lparr>w_flushed := length (w_stream w)\<rparr>)"
    using assms(2) by (simp add: writer_Flush_def device_call_def)
  have nopanic: "\<not> list_ex (\<lambda>r. fst r = Some WalPanic) (map (\<lambda>f. getEntriesFromFile f from) (map log_image olds))"
    using assms(4) by (induction olds) (simp_all add: getEntriesFromFile_def entries_loop_image)
  from assms old nopanic show ?thesis
    by (simp add: GetEntriesFrom_def getEntriesFromFile_def entries_loop_image not_le [symmetric] flush
        log_file_def Let_def comp_def)
qed

section \<open>What the reader accepts\<close>

text \<open>
  C19: the reader accepts no damaged record: a physical record is only returned when the bytes in
  front of the reader are exactly the image of that record, with its length, type and checksum.
\<close>

theorem wal_read_record_sound:
  "readRecord r = (Inr (rt, d), r') \<longleftrightarrow>
     r_input r = record_bytes rt d @ r_input r' \<and> r' = r\<lparr>r_input := r_input r'\<rparr> \<and>
     RecordTypeFull \<le> rt \<and> rt \<le> RecordTypeLast \<and> length d < 2 ^ 16"
  (is "?read \<longleftrightarrow> ?image")
proof
  assume ?read
  then obtain header inp where h: "ReadFull HeaderSize (r_input r) = (Inr header, inp)"
    by (auto simp: readRecord_def split: prod.splits sum.splits)
  then have len: "length header = 7" and inp: "r_input r = header @ inp"
    by (auto simp: ReadFull_Inr HeaderSize_def)
  let ?n = "unat (get_u16 (take 2 (drop 4 header)))"
  from \<open>?read\<close> h have d: "d = take ?n inp" "?n \<le> length inp" "r' = r\<lparr>r_input := drop ?n inp\<rparr>"
    and rt: "rt = header ! 6" "RecordTypeFull \<le> rt" "rt \<le> RecordTypeLast"
    and crc: "crc32_ieee d = get_u32 (take 4 header)"
    by (auto simp: readRecord_def Let_def ReadFull_def not_less split: if_splits)
  have n: "length d = ?n" using d(1,2) by simp
  have "header = take 4 header @ take 2 (drop 4 header) @ [header ! 6]"
    using len by (auto simp: length_Suc_conv numeral_eq_Suc)
  moreover have "put_u32 (crc32_ieee d) = take 4 header"
    unfolding crc using len by (simp add: put_u32_get)
  moreover have "put_u16 (of_nat (length d)) = take 2 (drop 4 header)"
    unfolding n using len by (simp add: put_u16_get)
  ultimately have "record_header rt d = header"
    by (simp add: record_header_def rt(1))
  then show ?image
    using inp d n rt by (simp add: record_bytes_def)
next
  assume ?image
  then have "readRecord r = (Inr (rt, d), r\<lparr>r_input := r_input r'\<rparr>)"
    by (intro readRecord_record_bytes) auto
  with \<open>?image\<close> show ?read by metis
qed

end
