(* ===== verification/Mem_Correct.thy ===== *)
theory Mem_Correct
  imports Mem_Table Wal_Correct
begin

text \<open>
  Properties of the memtable, of the pool and of recovery: reads give the newest write, whatever
  the table switches, and what was logged is what recovery reads back.
\<close>

section \<open>Tables that hold a history\<close>

definition writes_size :: "mentry list \<Rightarrow> int" where
  "writes_size ws = (\<Sum>e\<leftarrow>ws. int (entry_size e))"

lemma writes_size_simps [simp]:
  "writes_size [] = 0" "writes_size (e # ws) = int (entry_size e) + writes_size ws"
  "writes_size (ws @ vs) = writes_size ws + writes_size vs"
  by (simp_all add: writes_size_def)

lemma writes_size_nonneg [simp]: "0 \<le> writes_size ws"
  by (induction ws) auto

definition holds :: "mem_table \<Rightarrow> mentry list \<Rightarrow> bool" where
  "holds m ws \<longleftrightarrow> table_wf m \<and> table_entries m = fold insert_version ws [] \<and>
     mem_ApproximateSize m = writes_size ws"

lemma holds_new [simp]: "holds (NewMemTable rnd now) []"
  by (simp add: holds_def)

lemma holds_SetImmutable [simp]: "holds (SetImmutable m) ws = holds m ws"
  by (simp add: holds_def)

lemma holds_Get: "holds m ws \<Longrightarrow> mem_Get key m = Some (answer (newest_write key ws))"
  by (simp add: holds_def mem_Get_ok lookup_fold_insert_version)

lemma holds_write:
  assumes "holds m ws" and "\<not> mt_immutable m" and "proper e"
  shows "\<exists>m'. mem_write e m = Some m' \<and> holds m' (ws @ [e]) \<and> \<not> mt_immutable m' \<and>
    mt_nextSeqNum m' = (if me_seq e > mt_nextSeqNum m then me_seq e + 1 else mt_nextSeqNum m)"
  using mem_write_ok [of m e] assms by (auto simp: holds_def)

text \<open>The sequence number a table hands out next, after writes with the numbers given.\<close>

definition next_after :: "u64 \<Rightarrow> u64 \<Rightarrow> u64" where
  "next_after sq n = (if sq > n then sq + 1 else n)"

lemma holds_writes_next:
  assumes "holds m ws" and "\<not> mt_immutable m" and "list_all proper es"
  shows "\<exists>m'. run_all mem_write es m = Some m' \<and> holds m' (ws @ es) \<and> \<not> mt_immutable m' \<and>
    mt_nextSeqNum m' = fold next_after (map me_seq es) (mt_nextSeqNum m)"
  using assms
proof (induction es arbitrary: m ws)
  case Nil
  then show ?case by simp
next
  case (Cons e es)
  from holds_write [OF Cons.prems(1,2)] Cons.prems(3) obtain m1 where
    "mem_write e m = Some m1" "holds m1 (ws @ [e])" "\<not> mt_immutable m1"
    "mt_nextSeqNum m1 = next_after (me_seq e) (mt_nextSeqNum m)" by (auto simp: next_after_def)
  with Cons.IH [of m1 "ws @ [e]"] Cons.prems(3) show ?case by auto
qed

lemmas holds_writes = holds_writes_next

lemma tables_Get_holds:
  "list_all2 holds ms segs \<Longrightarrow> tables_Get key ms = Some (answer (first_write key segs))"
  by (induction rule: list_all2_induct) (auto simp: holds_Get answer_def split: option.splits)

section \<open>The memtable\<close>

text \<open>
  Reads of a memtable see exactly the newest write: after any sequence of puts and deletes on
  a new table \<open>Get\<close> returns the value of the put with the highest sequence number (the later one
  on a tie), (nil, true) when that write is a delete, and (nil, false) for a key never written.
\<close>

lemma memtable_get_newest:
  assumes "list_all proper ws"
  shows "\<exists>m. run_all mem_write ws (NewMemTable rnd now) = Some m \<and>
    mem_Get key m = Some (answer (newest_write key ws)) \<and>
    mem_Contains key m = Some (\<exists>e\<in>set ws. me_key e = key)"
proof -
  obtain m where m: "run_all mem_write ws (NewMemTable rnd now) = Some m" "holds m ws"
    using holds_writes [OF holds_new _ assms] by auto
  have "set (fold insert_version ws []) = set ws"
    by (metis add.right_neutral mset.simps(1) mset_fold_insert_version set_mset_mset)
  with m show ?thesis
    by (simp add: holds_Get) (simp add: holds_def mem_Contains_ok)
qed

text \<open>
  An immutable memtable never changes: every put, delete and replayed log entry leaves it as
  it is.
\<close>

lemma memtable_immutable_frozen:
  assumes "IsImmutable m"
  shows "mem_Put key v sq m = Some m \<and> mem_Delete key sq m = Some m \<and>
    snd (ProcessWALEntry entry m) = Some m"
proof -
  have "run_all mem_write es m = Some m" for es
    using assms by (induction es) (simp_all add: mem_write_def mem_Put_def mem_Delete_def)
  then show ?thesis
    using assms by (simp add: mem_Put_def mem_Delete_def ProcessWALEntry_writes)
qed

section \<open>The pool\<close>

datatype pool_op =
    PoolPut int bytes slice u64
  | PoolDelete int bytes u64
  | PoolSwitch "nat \<Rightarrow> bool" int

fun pool_exec :: "pool_op \<Rightarrow> mem_pool \<Rightarrow> mem_pool option" where
  "pool_exec (PoolPut now key v sq) p = pool_Put now key v sq p"
| "pool_exec (PoolDelete now key sq) p = pool_Delete now key sq p"
| "pool_exec (PoolSwitch rnd now) p = Some (snd (SwitchToNewMemTable rnd now p))"

fun pool_writes :: "pool_op \<Rightarrow> mentry list" where
  "pool_writes (PoolPut now key v sq) = [newEntry key v TypeValue sq]"
| "pool_writes (PoolDelete now key sq) = [newEntry key None TypeDeletion sq]"
| "pool_writes (PoolSwitch rnd now) = []"

definition pool_inv :: "mem_pool \<Rightarrow> mentry list list \<Rightarrow> mentry list \<Rightarrow> bool" where
  "pool_inv p segs ws \<longleftrightarrow> list_all2 holds (mp_immutables p) segs \<and> holds (mp_active p) ws \<and>
     \<not> mt_immutable (mp_active p) \<and> list_all mt_immutable (mp_immutables p)"

lemma checkFlushConditions_simps [simp]:
  "mp_active (checkFlushConditions now p) = mp_active p"
  "mp_immutables (checkFlushConditions now p) = mp_immutables p"
  by (simp_all add: checkFlushConditions_def)

lemma pool_write_inv:
  assumes "pool_inv p segs ws" and "proper e"
  shows "\<exists>m. mem_write e (mp_active p) = Some m \<and>
    pool_inv (checkFlushConditions now (p\<lparr>mp_active := m\<rparr>)) segs (ws @ [e])"
  using holds_write [of "mp_active p" ws e] assms by (auto simp: pool_inv_def)

lemma pool_exec_inv:
  assumes "pool_inv p segs ws"
  shows "\<exists>p' segs' ws'. pool_exec x p = Some p' \<and> pool_inv p' segs' ws' \<and>
    concat segs' @ ws' = concat segs @ ws @ pool_writes x"
proof (cases x)
  case (PoolPut now key v sq)
  then show ?thesis
    using pool_write_inv [OF assms, of "newEntry key v TypeValue sq" now]
    by (fastforce simp: pool_Put_def mem_Put_write)
next
  case (PoolDelete now key sq)
  then show ?thesis
    using pool_write_inv [OF assms, of "newEntry key None TypeDeletion sq" now]
    by (fastforce simp: pool_Delete_def mem_Delete_write)
next
  case (PoolSwitch rnd now)
  then have "pool_inv (snd (SwitchToNewMemTable rnd now p)) (segs @ [ws]) []"
    using assms by (auto simp: pool_inv_def SwitchToNewMemTable_def Let_def list_all2_appendI)
  with PoolSwitch show ?thesis by fastforce
qed

lemma pool_run_inv:
  assumes "pool_inv p segs ws"
  shows "\<exists>p' segs' ws'. run_all pool_exec ops p = Some p' \<and> pool_inv p' segs' ws' \<and>
    concat segs' @ ws' = concat segs @ ws @ concat (map pool_writes ops)"
  using assms
proof (induction ops arbitrary: p segs ws)
  case Nil
  then show ?case by auto
next
  case (Cons x ops)
  from pool_exec_inv [OF Cons.prems, of x] obtain p1 segs1 ws1 where 1:
    "pool_exec x p = Some p1" "pool_inv p1 segs1 ws1" "concat segs1 @ ws1 = concat segs @ ws @ pool_writes x"
    by blast
  from Cons.IH [OF 1(2)] 1 show ?case by (metis (no_types, lifting) append.assoc concat.simps(2)
        list.simps(9) option.simps(5) run_all.simps(2))
qed

lemma pool_inv_Get:
  "pool_inv p segs ws \<Longrightarrow> pool_Get key p = Some (answer (first_write key (ws # rev segs)))"
  unfolding pool_Get_def by (rule tables_Get_holds) (auto simp: pool_inv_def)

text \<open>
  C23: the pool reads the newest write across the active and the immutable tables: after any
  interleaving of puts, deletes and table switches whose sequence numbers do not decrease, \<open>Get\<close>
  answers with the newest write to the key.
\<close>

theorem pool_get_newest:
  assumes "NewMemTablePool cfg rnd now = Some p0"
    and "sorted (map me_seq (concat (map pool_writes ops)))"
  shows "\<exists>p. run_all pool_exec ops p0 = Some p \<and>
    pool_Get key p = Some (answer (newest_write key (concat (map pool_writes ops))))"
proof -
  have "pool_inv p0 [] []"
    using assms(1) by (auto simp: NewMemTablePool_def pool_inv_def split: if_splits)
  from pool_run_inv [OF this] obtain p segs ws where p: "run_all pool_exec ops p0 = Some p"
    "pool_inv p segs ws" "concat segs @ ws = concat (map pool_writes ops)" by fastforce
  then have "first_write key (ws # rev segs) = newest_write key (concat (map pool_writes ops))"
    using assms(2) first_write_newest [of "ws # rev segs" key] by simp
  with p pool_inv_Get show ?thesis by fastforce
qed

definition sample_pool_ops :: "pool_op list" where
  "sample_pool_ops = [PoolPut 0 [107] (Some [1]) 1, PoolPut 0 [108] (Some [2]) 2,
     PoolSwitch (\<lambda>_. True) 0, PoolDelete 0 [107] 3]"

theorem pool_get_newest_witness:
  "\<exists>p0 p. NewMemTablePool (NewDefaultConfig ''wal'' ''sst'') (\<lambda>_. False) 0 = Some p0 \<and>
     run_all pool_exec sample_pool_ops p0 = Some p \<and>
     pool_Get [107] p = Some (None, True) \<and> pool_Get [108] p = Some (Some [2], True)"
proof -
  let ?cfg = "NewDefaultConfig ''wal'' ''sst''"
  obtain p0 where p0: "NewMemTablePool ?cfg (\<lambda>_. False) 0 = Some p0"
    by (simp add: NewMemTablePool_def NewDefaultConfig_def)
  have "sorted (map me_seq (concat (map pool_writes sample_pool_ops)))"
    by (simp add: sample_pool_ops_def newEntry_def word_le_nat_alt)
  from pool_get_newest [OF p0 this, of "[107]"] pool_get_newest [OF p0 this, of "[108]"] p0
  show ?thesis
    by (auto simp: sample_pool_ops_def newEntry_def newest_write_def supersedes_def answer_def)
qed

section \<open>Recovery\<close>





lemma if_option_Inr [simp]: "(if b then None else Some (Inl e)) \<noteq> Some (Inr y)"
  by simp




text \<open>The first table of a recovery was made when it began.\<close>

lemma mem_write_created: "mem_Put key v sq m = Some m' \<Longrightarrow> mt_created m' = mt_created m"
  "mem_Delete key sq m = Some m' \<Longrightarrow> mt_created m' = mt_created m"
  by (auto simp: mem_Put_def mem_Delete_def note_seq_def split: if_splits option.splits)

lemma apply_batch_ops_created: "apply_batch_ops sq bops m = Some m' \<Longrightarrow> mt_created m' = mt_created m"
  by (induction bops arbitrary: sq m) (auto split: option.splits if_splits dest: mem_write_created)

lemma ProcessWALEntry_created: "ProcessWALEntry e m = (err, Some m') \<Longrightarrow> mt_created m' = mt_created m"
  by (auto simp: ProcessWALEntry_def split: if_splits sum.splits dest: mem_write_created apply_batch_ops_created)

definition first_made :: "int \<Rightarrow> recovery \<Rightarrow> bool" where
  "first_made t st \<longleftrightarrow> (case st of None \<Rightarrow> True | Some (ts, _) \<Rightarrow> ts \<noteq> [] \<and> mt_created (hd ts) = t)"

lemma entryHandler_first_made:
  assumes "first_made t st"
  shows "first_made t (snd (entryHandler opts rnds clock st e))"
proof (cases st)
  case (Some tm)
  obtain ts mx where tm: "tm = (ts, mx)" by (cases tm)
  obtain m ms where ts: "ts = m # ms" using assms Some tm by (cases ts) (auto simp: first_made_def)
  have "mt_created m = t" using assms Some tm ts by (simp add: first_made_def)
  then show ?thesis
    using Some tm ts
    by (cases ms) (auto simp: entryHandler_def first_made_def Let_def SetImmutable_def split: option.splits prod.splits
        dest!: ProcessWALEntry_created)
qed (simp add: entryHandler_def first_made_def)

lemma recovery_first_made:
  assumes "RecoverFromWAL cfg opt rnds clock files = Some (Inr (ts, mx))"
  shows "mt_created (hd ts) = clock 0"
proof -
  let ?h = "entryHandler (case opt of None \<Rightarrow> DefaultRecoveryOptions cfg | Some r \<Rightarrow> r) rnds clock"
  let ?s0 = "Some ([NewMemTable (rnds 0) (clock 0)], 0)"
  have "first_made (clock 0) (snd (snd (ReplayWALDir files ?h ?s0)))"
    by (rule ReplayWALDir_inv) (simp_all add: entryHandler_first_made, simp add: first_made_def NewMemTable_def)
  with assms show ?thesis
    by (auto simp: RecoverFromWAL_def first_made_def Let_def split: prod.splits option.splits)
qed

text \<open>The tables and the highest sequence number after handling the entries \<open>d\<close>.\<close>

definition max_seq :: "wentry list \<Rightarrow> u64" where
  "max_seq d = fold (\<lambda>e mx. if we_seq e > mx then we_seq e else mx) d 0"

definition recovered :: "recovery \<Rightarrow> wentry list \<Rightarrow> bool" where
  "recovered st d \<longleftrightarrow> (\<exists>ts segs. st = Some (ts, max_seq d) \<and> ts \<noteq> [] \<and>
     list_all2 holds ts segs \<and> \<not> mt_immutable (last ts) \<and>
     concat segs = concat (map entry_writes d))"

lemma max_seq_snoc [simp]: "max_seq (d @ [e]) = (if we_seq e > max_seq d then we_seq e else max_seq d)"
  by (simp add: max_seq_def)

lemma max_seq_Nil [simp]: "max_seq [] = 0"
  by (simp add: max_seq_def)

lemma ProcessWALEntry_holds:
  assumes "holds m ws" and "\<not> mt_immutable m"
  shows "\<exists>err m'. ProcessWALEntry entry m = (err, Some m') \<and> holds m' (ws @ entry_writes entry) \<and>
    \<not> mt_immutable m'"
  using holds_writes [OF assms entry_writes_proper, of entry] ProcessWALEntry_writes [of entry m]
  by (metis prod.collapse)

lemma entryHandler_recovered:
  assumes "recovered st d"
    and "entryHandler (DefaultRecoveryOptions cfg) rnds clock st e = (None, st')"
  shows "recovered st' (d @ [e])"
proof -
  obtain ts segs where st: "st = Some (ts, max_seq d)" "ts \<noteq> []" "list_all2 holds ts segs"
    "\<not> mt_immutable (last ts)" "concat segs = concat (map entry_writes d)"
    using assms(1) by (auto simp: recovered_def)
  have "segs \<noteq> []" using st(2,3) by auto
  have old: "list_all2 holds (butlast ts) (butlast segs)" and cur: "holds (last ts) (last segs)"
    using st(2,3) \<open>segs \<noteq> []\<close> by (auto simp: list_all2_conv_all_nth nth_butlast last_conv_nth)
  have segs: "concat (butlast segs) @ last segs = concat (map entry_writes d)"
    using st(5) \<open>segs \<noteq> []\<close> by (metis append_butlast_last_id concat_append concat.simps append_Nil2)
  have max: "\<not> we_seq e > ro_MaxSequenceNumber (DefaultRecoveryOptions cfg)"
    by (simp add: DefaultRecoveryOptions_def not_less)
  show ?thesis
  proof (cases "mem_ApproximateSize (last ts) \<ge> ro_MemTableSize (DefaultRecoveryOptions cfg)")
    case True
    let ?new = "NewMemTable (rnds (length ts)) (clock (length ts))"
    obtain err m' where "ProcessWALEntry e ?new = (err, Some m')" "holds m' (entry_writes e)" "\<not> mt_immutable m'"
      using ProcessWALEntry_holds [of ?new "[]" e] by auto
    then have "st' = Some ((butlast ts @ [SetImmutable (last ts)]) @ [m'], max_seq (d @ [e]))"
      using assms(2) st max True by (auto simp: entryHandler_def Let_def split: if_splits)
    moreover have "list_all2 holds ((butlast ts @ [SetImmutable (last ts)]) @ [m'])
        ((butlast segs @ [last segs]) @ [entry_writes e])"
      using old cur \<open>holds m' (entry_writes e)\<close> by (intro list_all2_appendI) simp_all
    moreover have "concat ((butlast segs @ [last segs]) @ [entry_writes e]) = concat (map entry_writes (d @ [e]))"
      using segs by simp
    ultimately show ?thesis
      using \<open>\<not> mt_immutable m'\<close> unfolding recovered_def by (metis last_snoc snoc_eq_iff_butlast)
  next
    case False
    obtain err m' where "ProcessWALEntry e (last ts) = (err, Some m')"
      "holds m' (last segs @ entry_writes e)" "\<not> mt_immutable m'"
      using ProcessWALEntry_holds [OF cur st(4), of e] by auto
    then have "st' = Some (butlast ts @ [m'], max_seq (d @ [e]))"
      using assms(2) st max False by (auto simp: entryHandler_def Let_def split: if_splits)
    moreover have "list_all2 holds (butlast ts @ [m']) (butlast segs @ [last segs @ entry_writes e])"
      using old \<open>holds m' (last segs @ entry_writes e)\<close> by (intro list_all2_appendI) simp_all
    moreover have "concat (butlast segs @ [last segs @ entry_writes e]) = concat (map entry_writes (d @ [e]))"
      using segs by simp
    ultimately show ?thesis
      using \<open>\<not> mt_immutable m'\<close> unfolding recovered_def by (metis last_snoc snoc_eq_iff_butlast)
  qed
qed

definition decodable :: "wentry \<Rightarrow> bool" where
  "decodable e \<longleftrightarrow> (we_type e = OpTypeBatch \<longrightarrow> is_ok (DecodeBatch e))"

text \<open>On decodable entries the handler has one error, which ends the replay.\<close>

lemma ProcessWALEntry_decodable: "decodable e \<Longrightarrow> fst (ProcessWALEntry e m) = None"
  by (auto simp: decodable_def ProcessWALEntry_def is_ok_def split: sum.splits)

lemma entryHandler_error:
  assumes "decodable e" and "fst (entryHandler opts rnds clock st e) = Some x"
  shows "x = ErrMaxMemTables"
  using assms ProcessWALEntry_decodable [OF assms(1)]
  by (auto simp: entryHandler_def Let_def split: option.splits prod.splits if_splits)
     (metis fst_conv option.distinct(1))+

lemma recover_images:
  assumes "list_all (list_all append_ok) logs"
    and "list_all decodable (map append_entry (concat logs))"
    and "RecoverFromWAL cfg None rnds clock (map log_image logs) = Some (Inr (ts, mx))"
    and "\<And>st d e st'. J st d \<Longrightarrow>
      entryHandler (DefaultRecoveryOptions cfg) rnds clock st e = (None, st') \<Longrightarrow> J st' (d @ [e])"
    and "J (Some ([NewMemTable (rnds 0) (clock 0)], 0)) []"
  shows "\<exists>mx'. J (Some (ts, mx')) (map append_entry (concat logs)) \<and>
    mx = (let nextSeq = mt_nextSeqNum (last ts) in if nextSeq > mx' + 1 then nextSeq - 1 else mx')"
proof -
  let ?h = "entryHandler (DefaultRecoveryOptions cfg) rnds clock"
  let ?s0 = "Some ([NewMemTable (rnds 0) (clock 0)], 0)"
  obtain stats mx' where r: "ReplayWALDir (map log_image logs) ?h ?s0 = (None, stats, Some (ts, mx'))"
    and mx: "mx = (let nextSeq = mt_nextSeqNum (last ts) in if nextSeq > mx' + 1 then nextSeq - 1 else mx')"
    using assms(3) by (auto simp: RecoverFromWAL_def mem_GetNextSequenceNumber_def Let_def
        split: prod.splits option.splits)
  have "J (Some (ts, mx')) ([] @ map append_entry (concat logs))"
  proof (rule replay_files_images [where h = ?h])
    show "replay_files ?h (map log_image logs) NewRecoveryStats 0 None ?s0 = (None, stats, Some (ts, mx'))"
      using r by (simp add: ReplayWALDir_def)
    show "\<not> mentions_corruption (ErrHandling x)"
      if "e \<in> set (map append_entry (concat logs))" "fst (?h st e) = Some x" for st e x
      using that assms(2) entryHandler_error [of e "DefaultRecoveryOptions cfg" rnds clock st x]
      by (auto simp: list_all_iff)
  qed (use assms in auto)
  with mx show ?thesis by auto
qed

lemma recovered_start: "recovered (Some ([NewMemTable rnd now], 0)) []"
  unfolding recovered_def by (intro exI [of _ "[NewMemTable rnd now]"] exI [of _ "[[]]"]) simp

text \<open>The writes the entries of some log files make, in order.\<close>

abbreviation logged_writes :: "append list list \<Rightarrow> mentry list" where
  "logged_writes logs \<equiv> concat (map (entry_writes \<circ> append_entry) (concat logs))"

text \<open>
  C22: recovery restores what was logged. From log files that hold any number of puts, deletes and
  decodable batches with sequence numbers that do not decrease, a recovery that succeeds returns
  tables in which reading from the newest table to the oldest answers every key with its newest
  logged write.
\<close>

theorem recovery_restores:
  assumes "list_all (list_all append_ok) logs"
    and "list_all decodable (map append_entry (concat logs))"
    and "sorted (map me_seq (logged_writes logs))"
    and "RecoverFromWAL cfg None rnds clock (map log_image logs) = Some (Inr (ts, mx))"
  shows "tables_Get key (rev ts) =
    Some (answer (newest_write key (logged_writes logs)))"
proof -
  obtain mx' where "recovered (Some (ts, mx')) (map append_entry (concat logs))"
    using recover_images [OF assms(1,2,4), of recovered] entryHandler_recovered recovered_start by blast
  then obtain segs where segs: "list_all2 holds ts segs"
    "concat segs = logged_writes logs"
    by (auto simp: recovered_def)
  then have "tables_Get key (rev ts) = Some (answer (first_write key (rev segs)))"
    by (intro tables_Get_holds) simp
  moreover have "first_write key (rev segs) = newest_write key (concat segs)"
    using first_write_newest [of "rev segs" key] assms(3) segs(2) by simp
  ultimately show ?thesis using segs(2) by simp
qed

text \<open>When all writes fit into one table, recovery succeeds with one table.\<close>

definition one_table :: "recovery \<Rightarrow> wentry list \<Rightarrow> bool" where
  "one_table st d \<longleftrightarrow> (\<exists>m. st = Some ([m], max_seq d) \<and> holds m (concat (map entry_writes d)) \<and>
     \<not> mt_immutable m \<and> mt_nextSeqNum m = fold next_after (map me_seq (concat (map entry_writes d))) 0)"

lemma entryHandler_one_table:
  assumes "one_table st d" and "decodable e"
    and "writes_size (concat (map entry_writes d)) < MemTableSize cfg"
  shows "\<exists>st'. entryHandler (DefaultRecoveryOptions cfg) rnds clock st e = (None, st') \<and> one_table st' (d @ [e])"
proof -
  obtain m where m: "st = Some ([m], max_seq d)" "holds m (concat (map entry_writes d))" "\<not> mt_immutable m"
    "mt_nextSeqNum m = fold next_after (map me_seq (concat (map entry_writes d))) 0"
    using assms(1) by (auto simp: one_table_def)
  have "\<not> we_seq e > ro_MaxSequenceNumber (DefaultRecoveryOptions cfg)"
    by (simp add: DefaultRecoveryOptions_def not_less)
  moreover have "\<not> mem_ApproximateSize m \<ge> ro_MemTableSize (DefaultRecoveryOptions cfg)"
    using m(2) assms(3) by (simp add: holds_def DefaultRecoveryOptions_def)
  moreover obtain m' where "ProcessWALEntry e m = (None, Some m')"
    "holds m' (concat (map entry_writes (d @ [e])))" "\<not> mt_immutable m'"
    "mt_nextSeqNum m' = fold next_after (map me_seq (concat (map entry_writes (d @ [e])))) 0"
    using holds_writes [OF m(2,3) entry_writes_proper, of e] ProcessWALEntry_decodable [OF assms(2), of m]
      ProcessWALEntry_writes [of e m] m(4) by (auto simp: prod_eq_iff)
  ultimately show ?thesis
    using m(1) by (auto simp: entryHandler_def one_table_def Let_def)
qed

lemma writes_size_prefix:
  "writes_size (concat (map entry_writes (d @ es))) < n \<Longrightarrow> writes_size (concat (map entry_writes d)) < n"
  using writes_size_nonneg [of "concat (map entry_writes es)"] by (simp del: writes_size_nonneg)

lemma replay_one_table:
  assumes "list_all (list_all append_ok) logs"
    and "list_all decodable (map append_entry (concat logs))"
    and "writes_size (logged_writes logs) < MemTableSize cfg"
  obtains stats m where
    "ReplayWALDir (map log_image logs) (entryHandler (DefaultRecoveryOptions cfg) rnds clock)
       (Some ([NewMemTable (rnds 0) (clock 0)], 0)) =
     (None, stats, Some ([m], max_seq (map append_entry (concat logs))))"
    and "holds m (logged_writes logs)"
    and "\<not> mt_immutable m" and "mt_nextSeqNum m = fold next_after (map me_seq (logged_writes logs)) 0"
proof -
  let ?h = "entryHandler (DefaultRecoveryOptions cfg) rnds clock"
  let ?all = "map append_entry (concat logs)"
  let ?s0 = "Some ([NewMemTable (rnds 0) (clock 0)], 0)"
  have "\<exists>st'. ?h st e = (None, st') \<and> one_table st' (d @ [e])"
    if "one_table st d" "?all = d @ e # es" for st d e es
  proof (rule entryHandler_one_table [OF that(1)])
    have "e \<in> set ?all" unfolding that(2) by simp
    then show "decodable e" using assms(2) by (auto simp: list_all_iff)
    have "writes_size (concat (map entry_writes (d @ e # es))) < MemTableSize cfg"
      using assms(3) unfolding that(2) [symmetric] by (simp add: comp_def)
    then show "writes_size (concat (map entry_writes d)) < MemTableSize cfg"
      by (rule writes_size_prefix)
  qed
  then obtain stats st where "ReplayWALDir (map log_image logs) ?h ?s0 = (None, stats, st)"
    and "one_table st ?all"
    using replay_files_success [of one_table ?all ?h logs ?s0 "[]" NewRecoveryStats 0] assms(1)
    by (auto simp: ReplayWALDir_def one_table_def)
  then show thesis
    using that by (auto simp: one_table_def comp_def)
qed

text \<open>
  When the logged writes fit into one memtable, recovery succeeds: it builds one table that
  holds exactly the logged writes, and the sequence number it reports is the highest of the log's
  entries, raised to one less than the table's next number when that is higher.
\<close>

lemma recovery_succeeds:
  assumes "list_all (list_all append_ok) logs"
    and "list_all decodable (map append_entry (concat logs))"
    and "writes_size (logged_writes logs) < MemTableSize cfg"
  shows "\<exists>m. RecoverFromWAL cfg None rnds clock (map log_image logs) =
      Some (Inr ([m], let mx = max_seq (map append_entry (concat logs));
                          nextSeq = fold next_after (map me_seq (logged_writes logs)) 0
                      in if nextSeq > mx + 1 then nextSeq - 1 else mx)) \<and>
    holds m (logged_writes logs)"
proof -
  obtain stats m where
    "ReplayWALDir (map log_image logs) (entryHandler (DefaultRecoveryOptions cfg) rnds clock)
       (Some ([NewMemTable (rnds 0) (clock 0)], 0)) =
     (None, stats, Some ([m], max_seq (map append_entry (concat logs))))"
    and "holds m (logged_writes logs)"
    and "\<not> mt_immutable m" and "mt_nextSeqNum m = fold next_after (map me_seq (logged_writes logs)) 0"
    by (rule replay_one_table [OF assms])
  then show ?thesis
    by (simp add: RecoverFromWAL_def mem_GetNextSequenceNumber_def Let_def)
qed

definition sample_logs :: "append list list" where
  "sample_logs = [[(OpTypePut, 1, [107], Some [1]), (OpTypePut, 2, [108], Some [2])],
     [(OpTypeDelete, 3, [107], None)]]"

lemma sample_logs_ok:
  "list_all (list_all append_ok) sample_logs"
  "list_all decodable (map append_entry (concat sample_logs))"
  "writes_size (logged_writes sample_logs) < MemTableSize (NewDefaultConfig ''wal'' ''sst'')"
  "logged_writes sample_logs = [newEntry [107] (Some [1]) TypeValue 1, newEntry [108] (Some [2]) TypeValue 2,
     newEntry [107] None TypeDeletion 3]"
  "max_seq (map append_entry (concat sample_logs)) = 3"
  by (simp_all add: sample_logs_def append_ok_def valid_entry_type_def fits_u32_def decodable_def
      append_entry_def logged_entry_def entry_writes_def OpTypePut_def OpTypeDelete_def OpTypeBatch_def
      newEntry_def entry_size_def NewDefaultConfig_def max_seq_def)

theorem recovery_restores_witness:
  "\<exists>ts. RecoverFromWAL (NewDefaultConfig ''wal'' ''sst'') None (\<lambda>_ _. True) (\<lambda>_. 0)
      (map log_image sample_logs) = Some (Inr (ts, 3)) \<and>
    tables_Get [107] (rev ts) = Some (None, True) \<and> tables_Get [108] (rev ts) = Some (Some [2], True)"
proof -
  let ?cfg = "NewDefaultConfig ''wal'' ''sst''"
  obtain ts where ts: "RecoverFromWAL ?cfg None (\<lambda>_ _. True) (\<lambda>_. 0) (map log_image sample_logs) =
      Some (Inr (ts, 3))"
    by (rule replay_one_table [OF sample_logs_ok(1-3), of "\<lambda>_ _. True" "\<lambda>_. 0", unfolded sample_logs_ok])
       (simp add: RecoverFromWAL_def mem_GetNextSequenceNumber_def next_after_def newEntry_def Let_def)
  have "sorted (map me_seq (logged_writes sample_logs))"
    unfolding sample_logs_ok by (simp add: newEntry_def word_le_nat_alt)
  note r = recovery_restores [OF sample_logs_ok(1,2) this ts, unfolded sample_logs_ok(4)]
  from r [of "[107]"] r [of "[108]"] ts show ?thesis
    by (auto simp: newEntry_def newest_write_def supersedes_def answer_def)
qed

text \<open>
  The sequence number recovery reports after a batch can be one that is in use. A batch of two
  operations written to a new log takes the numbers 1 and 2 and the log continues with 3, but
  recovery reports 1 as the highest number (\<open>Put\<close> and \<open>Delete\<close> do not raise the table's next
  number when it equals the written one), so the number that follows, 2, belongs to a recovered write.
\<close>

lemma recovery_batch_number_in_use:
  assumes "batch_Write b (NewWAL cfg fault) = (Inr u, b', w')"
    and "list_all op_encodable (b_Operations b)" and "b_Operations b = [o1, o2]"
    and "{bo_type o1, bo_type o2} \<subseteq> {OpTypePut, OpTypeDelete}"
    and "writes_size (batch_writes 1 (map logged_op (b_Operations b))) < MemTableSize cfg"
  shows "\<exists>m. RecoverFromWAL cfg None rnds clock [w_stream w'] = Some (Inr ([m], 1)) \<and>
    w_nextSequence w' = 3 \<and> (\<exists>e\<in>set (table_entries m). me_seq e = 1 + 1)"
proof -
  let ?a = "(OpTypeBatch, 1, serialize_batch 1 (b_Operations b), None) :: append"
  have new: "w_nextSequence (NewWAL cfg fault) = 1" "w_stream (NewWAL cfg fault) = []"
    by (simp_all add: NewWAL_def)
  note logged = batch_Write_logged [OF assms(1,2), unfolded new]
  have ws: "logged_writes [[?a]] = batch_writes 1 (map logged_op (b_Operations b))"
    using logged(3) by (simp add: entry_writes_def append_entry_def logged_entry_def
        OpTypeBatch_def OpTypePut_def OpTypeDelete_def)
  have seqs: "map me_seq (batch_writes 1 (map logged_op (b_Operations b))) = [1, 2]"
    using assms(3,4) by (auto simp: logged_op_def newEntry_def)
  have img: "list_all (list_all append_ok) [[?a]]" "list_all decodable (map append_entry (concat [[?a]]))"
    "writes_size (logged_writes [[?a]]) < MemTableSize cfg"
    unfolding ws using logged(2,3) assms(5) by (simp_all add: decodable_def)
  obtain stats m where r:
    "ReplayWALDir (map log_image [[?a]]) (entryHandler (DefaultRecoveryOptions cfg) rnds clock)
       (Some ([NewMemTable (rnds 0) (clock 0)], 0)) =
     (None, stats, Some ([m], max_seq (map append_entry (concat [[?a]]))))"
    and m: "holds m (logged_writes [[?a]])"
    and "\<not> mt_immutable m" and nxt: "mt_nextSeqNum m = fold next_after (map me_seq (logged_writes [[?a]])) 0"
    by (rule replay_one_table [OF img])
  have "max_seq (map append_entry (concat [[?a]])) = 1"
    by (simp add: max_seq_def append_entry_def logged_entry_def)
  moreover have "mt_nextSeqNum m = 2"
    unfolding nxt ws seqs by (simp add: next_after_def)
  moreover have "set (table_entries m) = set (batch_writes 1 (map logged_op (b_Operations b)))"
    using m unfolding ws holds_def
    by (metis add.right_neutral mset.simps(1) mset_fold_insert_version set_mset_mset)
  then have "\<exists>e\<in>set (table_entries m). me_seq e = 1 + 1"
    using seqs by (metis (no_types, lifting) image_iff list.set_intros(1,2) one_add_one set_map)
  ultimately show ?thesis
    using r logged(1,4) assms(3)
    by (simp add: RecoverFromWAL_def mem_GetNextSequenceNumber_def)
qed

end
