(* ===== verification/Iterators.thy ===== *)
theory Iterators
  imports Kevo_Prelude "HOL-Library.Sublist"
begin

text \<open>
  The interface \<open>Iterator\<close> of \<^verbatim>\<open>src/pkg/common/iterator/iterator.go\<close> and the bounded iterator of
  \<^verbatim>\<open>src/pkg/common/iterator/bounded/bounded.go\<close>. A Go interface value is a state with a table of
  methods: \<open>iter_ops\<close> is that table, and code written against the interface takes it as an
  argument. Operations that move an iterator return an option, \<open>None\<close> for not returning. The
  locales say what a well-behaved iterator promises, and the bounded iterator is proved to keep
  the promise for the range it is bounded to.
\<close>

section \<open>The interface\<close>

type_synonym item = "bytes \<times> slice \<times> bool"

record 's iter_ops =
  op_SeekToFirst :: "'s \<Rightarrow> 's option"
  op_SeekToLast :: "'s \<Rightarrow> 's option"
  op_Seek :: "bytes \<Rightarrow> 's \<Rightarrow> (bool \<times> 's) option"
  op_Next :: "'s \<Rightarrow> (bool \<times> 's) option"
  op_Key :: "'s \<Rightarrow> slice"
  op_Value :: "'s \<Rightarrow> slice"
  op_Valid :: "'s \<Rightarrow> bool"
  op_IsTombstone :: "'s \<Rightarrow> bool"

text \<open>The items a client sees that reads the current item and calls \<open>Next\<close>, at most \<open>n\<close> times.\<close>

fun iter_collect :: "'s iter_ops \<Rightarrow> nat \<Rightarrow> 's \<Rightarrow> item list option" where
  "iter_collect ops 0 s = Some []"
| "iter_collect ops (Suc n) s =
     (if op_Valid ops s then
        case op_Next ops s of
          None \<Rightarrow> None
        | Some (_, s') \<Rightarrow>
            map_option (\<lambda>is. (the (op_Key ops s), op_Value ops s, op_IsTombstone ops s) # is)
              (iter_collect ops n s')
      else Some [])"

text \<open>
  A forward iterator ranges over \<open>items\<close>, sorted by key (a key may occur several times), and
  stands before \<open>rest\<close>. Nothing is promised of \<open>Next\<close> on an iterator that is not valid: some
  implementations stay, the transaction buffer's starts over.
\<close>

locale forward_iterator =
  fixes ops :: "'s iter_ops"
    and inv :: "'s \<Rightarrow> bool"
    and items :: "'s \<Rightarrow> item list"
    and rest :: "'s \<Rightarrow> item list"
  assumes items_sorted: "inv s \<Longrightarrow> sorted (map fst (items s))"
    and rest_suffix: "inv s \<Longrightarrow> suffix (rest s) (items s)"
    and valid_iff: "inv s \<Longrightarrow> op_Valid ops s \<longleftrightarrow> rest s \<noteq> []"
    and current: "inv s \<Longrightarrow> rest s = (k, v, t) # r \<Longrightarrow>
      op_Key ops s = Some k \<and> op_Value ops s = v \<and> op_IsTombstone ops s = t"
    and first: "inv s \<Longrightarrow>
      \<exists>s'. op_SeekToFirst ops s = Some s' \<and> inv s' \<and> items s' = items s \<and> rest s' = items s"
    and step: "inv s \<Longrightarrow> rest s \<noteq> [] \<Longrightarrow> \<exists>s'. op_Next ops s = Some (rest s' \<noteq> [], s') \<and> inv s' \<and> items s' = items s \<and>
      rest s' = tl (rest s)"
begin

lemma iter_collect_rest: "inv s \<Longrightarrow> length (rest s) \<le> n \<Longrightarrow> iter_collect ops n s = Some (rest s)"
proof (induction n arbitrary: s)
  case 0
  then show ?case by simp
next
  case (Suc n)
  show ?case
  proof (cases "rest s")
    case Nil
    with Suc.prems show ?thesis by (simp add: valid_iff)
  next
    case (Cons i r)
    obtain k v t where i: "i = (k, v, t)" by (cases i)
    obtain s' where "op_Next ops s = Some (rest s' \<noteq> [], s')" "inv s'" "rest s' = r"
      using step [OF Suc.prems(1)] Cons by auto
    with Suc i Cons current [OF Suc.prems(1), of k v t r] show ?thesis
      by (simp add: valid_iff)
  qed
qed

lemma valid_current:
  assumes "inv s" and "op_Valid ops s"
  obtains k v t r where "rest s = (k, v, t) # r" "op_Key ops s = Some k" "op_Value ops s = v"
    "op_IsTombstone ops s = t"
proof -
  obtain i r where "rest s = i # r" using assms valid_iff by (cases "rest s") auto
  moreover obtain k v t where "i = (k, v, t)" by (cases i)
  ultimately show thesis using that current [OF assms(1)] by blast
qed

lemma rest_sorted: "inv s \<Longrightarrow> sorted (map fst (rest s))"
  using items_sorted rest_suffix by (fastforce simp: suffix_def sorted_append)

end

text \<open>A full iterator also seeks, to a key and to the last key.\<close>

locale iterator = forward_iterator +
  assumes seek: "inv s \<Longrightarrow> \<exists>s'. op_Seek ops target s = Some (rest s' \<noteq> [], s') \<and> inv s' \<and>
      items s' = items s \<and> rest s' = dropWhile (\<lambda>i. fst i < target) (items s)"
    and last: "inv s \<Longrightarrow> \<exists>s'. op_SeekToLast ops s = Some s' \<and> inv s' \<and> items s' = items s \<and>
      rest s' = dropWhile (\<lambda>i. fst i < fst (last (items s))) (items s)"

section \<open>The bounded iterator\<close>

record 's bounded =
  bi_iter :: 's
  bi_start :: slice
  bi_end :: slice

definition NewBoundedIterator :: "'s \<Rightarrow> slice \<Rightarrow> slice \<Rightarrow> 's bounded" where
  "NewBoundedIterator it startKey endKey = \<lparr>bi_iter = it, bi_start = startKey, bi_end = endKey\<rparr>"

definition checkBounds :: "'s iter_ops \<Rightarrow> 's bounded \<Rightarrow> bool" where
  "checkBounds ops b \<longleftrightarrow>
     (if \<not> op_Valid ops (bi_iter b) then False
      else if bi_start b \<noteq> None \<and>
              bytes_compare (bytes_of (op_Key ops (bi_iter b))) (bytes_of (bi_start b)) < 0 then False
      else if bi_end b \<noteq> None \<and>
              bytes_compare (bytes_of (op_Key ops (bi_iter b))) (bytes_of (bi_end b)) \<ge> 0 then False
      else True)"

text \<open>\<open>SetBounds\<close> calls \<open>checkBounds\<close>, which has no effect.\<close>

definition SetBounds :: "slice \<Rightarrow> slice \<Rightarrow> 's bounded \<Rightarrow> 's bounded" where
  "SetBounds start endk b = b\<lparr>bi_start := start, bi_end := endk\<rparr>"

definition bounded_SeekToFirst :: "'s iter_ops \<Rightarrow> 's bounded \<Rightarrow> 's bounded option" where
  "bounded_SeekToFirst ops b =
     (case bi_start b of
        Some start \<Rightarrow> map_option (\<lambda>(_, it). b\<lparr>bi_iter := it\<rparr>) (op_Seek ops start (bi_iter b))
      | None \<Rightarrow> map_option (\<lambda>it. b\<lparr>bi_iter := it\<rparr>) (op_SeekToFirst ops (bi_iter b)))"

text \<open>The scan for the last key before the end bound.\<close>

partial_function (option) scan_before ::
  "'s iter_ops \<Rightarrow> bytes \<Rightarrow> slice \<Rightarrow> 's \<Rightarrow> (slice \<times> 's) option" where
  "scan_before ops endk lastKey it =
     (if op_Valid ops it \<and> bytes_compare (bytes_of (op_Key ops it)) endk < 0 then
        (case op_Next ops it of
           None \<Rightarrow> None
         | Some (_, it') \<Rightarrow> scan_before ops endk (op_Key ops it) it')
      else Some (lastKey, it))"

definition bounded_SeekToLast :: "'s iter_ops \<Rightarrow> 's bounded \<Rightarrow> 's bounded option" where
  "bounded_SeekToLast ops b =
     map_option (\<lambda>it. b\<lparr>bi_iter := it\<rparr>)
      (case bi_end b of
         None \<Rightarrow> op_SeekToLast ops (bi_iter b)
       | Some endk \<Rightarrow>
           (case op_Seek ops endk (bi_iter b) of
              None \<Rightarrow> None
            | Some (_, it) \<Rightarrow>
                if op_Valid ops it \<and> bytes_of (op_Key ops it) = endk then
                  (case op_SeekToFirst ops it of
                     None \<Rightarrow> None
                   | Some it1 \<Rightarrow>
                       (case scan_before ops endk None it1 of
                          None \<Rightarrow> None
                        | Some (Some key, it2) \<Rightarrow> map_option snd (op_Seek ops key it2)
                        | Some (None, it2) \<Rightarrow> op_SeekToFirst ops it2))
                else Some it))"

definition bounded_Seek :: "'s iter_ops \<Rightarrow> bytes \<Rightarrow> 's bounded \<Rightarrow> (bool \<times> 's bounded) option" where
  "bounded_Seek ops target b =
     (let target' = (if bi_start b \<noteq> None \<and> bytes_compare target (bytes_of (bi_start b)) < 0
                     then bytes_of (bi_start b) else target)
      in if bi_end b \<noteq> None \<and> bytes_compare target' (bytes_of (bi_end b)) \<ge> 0 then Some (False, b)
         else case op_Seek ops target' (bi_iter b) of
                None \<Rightarrow> None
              | Some (found, it) \<Rightarrow>
                  let b' = b\<lparr>bi_iter := it\<rparr> in Some (found \<and> checkBounds ops b', b'))"

definition bounded_Next :: "'s iter_ops \<Rightarrow> 's bounded \<Rightarrow> (bool \<times> 's bounded) option" where
  "bounded_Next ops b =
     (if \<not> checkBounds ops b then Some (False, b)
      else case op_Next ops (bi_iter b) of
             None \<Rightarrow> None
           | Some (ok, it) \<Rightarrow>
               let b' = b\<lparr>bi_iter := it\<rparr> in Some (ok \<and> checkBounds ops b', b'))"

definition bounded_Valid :: "'s iter_ops \<Rightarrow> 's bounded \<Rightarrow> bool" where
  "bounded_Valid ops b \<longleftrightarrow> op_Valid ops (bi_iter b) \<and> checkBounds ops b"

definition bounded_Key :: "'s iter_ops \<Rightarrow> 's bounded \<Rightarrow> slice" where
  "bounded_Key ops b = (if \<not> bounded_Valid ops b then None else op_Key ops (bi_iter b))"

definition bounded_Value :: "'s iter_ops \<Rightarrow> 's bounded \<Rightarrow> slice" where
  "bounded_Value ops b = (if \<not> bounded_Valid ops b then None else op_Value ops (bi_iter b))"

definition bounded_IsTombstone :: "'s iter_ops \<Rightarrow> 's bounded \<Rightarrow> bool" where
  "bounded_IsTombstone ops b = (if \<not> bounded_Valid ops b then False else op_IsTombstone ops (bi_iter b))"

definition bounded_ops :: "'s iter_ops \<Rightarrow> 's bounded iter_ops" where
  "bounded_ops ops =
     \<lparr>op_SeekToFirst = bounded_SeekToFirst ops, op_SeekToLast = bounded_SeekToLast ops,
      op_Seek = bounded_Seek ops, op_Next = bounded_Next ops, op_Key = bounded_Key ops,
      op_Value = bounded_Value ops, op_Valid = bounded_Valid ops,
      op_IsTombstone = bounded_IsTombstone ops\<rparr>"

section \<open>The range of a bounded iterator\<close>

definition from_start :: "slice \<Rightarrow> bytes \<Rightarrow> bool" where
  "from_start start k \<longleftrightarrow> (case start of None \<Rightarrow> True | Some s \<Rightarrow> s \<le> k)"

definition before_end :: "slice \<Rightarrow> bytes \<Rightarrow> bool" where
  "before_end endk k \<longleftrightarrow> (case endk of None \<Rightarrow> True | Some e \<Rightarrow> k < e)"

definition in_bounds :: "slice \<Rightarrow> slice \<Rightarrow> bytes \<Rightarrow> bool" where
  "in_bounds start endk k \<longleftrightarrow> from_start start k \<and> before_end endk k"

text \<open>What is left of a range when the underlying iterator stands before \<open>r\<close>.\<close>

definition clip :: "slice \<Rightarrow> slice \<Rightarrow> item list \<Rightarrow> item list" where
  "clip start endk r =
     (if r \<noteq> [] \<and> from_start start (fst (hd r)) then takeWhile (\<lambda>i. before_end endk (fst i)) r else [])"

lemma from_start_mono: "from_start start k \<Longrightarrow> k \<le> k' \<Longrightarrow> from_start start k'"
  by (auto simp: from_start_def split: option.splits)

lemma before_end_mono: "before_end endk k' \<Longrightarrow> k \<le> k' \<Longrightarrow> before_end endk k"
  by (auto simp: before_end_def split: option.splits)

lemma clip_Nil [simp]: "clip start endk [] = []"
  by (simp add: clip_def)

lemma clip_Cons:
  "clip start endk (i # r) = (if in_bounds start endk (fst i) then i # takeWhile (\<lambda>i. before_end endk (fst i)) r else [])"
  by (simp add: clip_def in_bounds_def)

lemma sorted_clip_rest:
  assumes "sorted (map fst (i # r))" and "in_bounds start endk (fst i)"
  shows "clip start endk r = takeWhile (\<lambda>i. before_end endk (fst i)) r"
  using assms from_start_mono by (cases r) (auto simp: clip_def in_bounds_def)

text \<open>A sorted list cut at both ends is the filtered list.\<close>

lemma sorted_cut:
  assumes "sorted (map fst is)"
  shows "takeWhile (\<lambda>i. before_end endk (fst i)) is = filter (\<lambda>i. before_end endk (fst i)) is"
    and "dropWhile (\<lambda>i. \<not> from_start start (fst i)) is = filter (\<lambda>i. from_start start (fst i)) is"
proof -
  have s: "sorted_wrt (\<lambda>i j. fst i \<le> fst j) is" using assms by (simp add: sorted_wrt_map)
  show "takeWhile (\<lambda>i. before_end endk (fst i)) is = filter (\<lambda>i. before_end endk (fst i)) is"
    using s by (rule sorted_takeWhile_filter) (auto intro: before_end_mono)
  have "dropWhile (\<lambda>i. \<not> from_start start (fst i)) is = filter (\<lambda>i. \<not> \<not> from_start start (fst i)) is"
    using s by (rule sorted_takeWhile_filter) (auto dest: from_start_mono)
  then show "dropWhile (\<lambda>i. \<not> from_start start (fst i)) is = filter (\<lambda>i. from_start start (fst i)) is"
    by simp
qed

definition range_items :: "slice \<Rightarrow> slice \<Rightarrow> item list \<Rightarrow> item list" where
  "range_items start endk is = filter (\<lambda>i. in_bounds start endk (fst i)) is"

lemma clip_range_items:
  assumes "sorted (map fst r)" and "\<forall>j\<in>set r. from_start start (fst j)"
  shows "clip start endk r = range_items start endk r"
proof -
  have "range_items start endk r = takeWhile (\<lambda>i. before_end endk (fst i)) r"
    unfolding sorted_cut(1) [OF assms(1)] range_items_def
    using assms(2) by (intro filter_cong) (auto simp: in_bounds_def)
  then show ?thesis using assms(2) by (cases r) (auto simp: clip_def)
qed

lemma clip_dropWhile:
  assumes "sorted (map fst is)"
  shows "clip start endk (dropWhile (\<lambda>i. \<not> from_start start (fst i)) is) = range_items start endk is"
proof -
  have "clip start endk (filter (\<lambda>i. from_start start (fst i)) is) =
      range_items start endk (filter (\<lambda>i. from_start start (fst i)) is)"
    using assms by (intro clip_range_items) (simp_all add: sorted_filter)
  also have "\<dots> = range_items start endk is"
    by (auto simp: range_items_def in_bounds_def intro: filter_cong)
  finally show ?thesis using sorted_cut(2) [OF assms] by simp
qed

lemma suffix_clip:
  assumes "sorted (map fst is)" and "suffix r is"
  shows "suffix (clip start endk r) (range_items start endk is)"
proof (cases r)
  case Nil
  then show ?thesis by simp
next
  case (Cons i r')
  obtain p where p: "is = p @ r" using assms(2) by (auto simp: suffix_def)
  then have r: "sorted (map fst r)" using assms(1) by (simp add: sorted_append)
  show ?thesis
  proof (cases "from_start start (fst i)")
    case True
    then have "\<forall>j\<in>set r. from_start start (fst j)"
      using r Cons from_start_mono by fastforce
    then have "clip start endk r = range_items start endk r"
      by (rule clip_range_items [OF r])
    then show ?thesis by (simp add: p range_items_def suffix_def)
  next
    case False
    then show ?thesis by (simp add: clip_def Cons)
  qed
qed

section \<open>A bounded iterator is a forward iterator\<close>

context iterator
begin

definition b_inv :: "'a bounded \<Rightarrow> bool" where
  "b_inv b \<longleftrightarrow> inv (bi_iter b)"

definition b_items :: "'a bounded \<Rightarrow> item list" where
  "b_items b = range_items (bi_start b) (bi_end b) (items (bi_iter b))"

definition b_rest :: "'a bounded \<Rightarrow> item list" where
  "b_rest b = clip (bi_start b) (bi_end b) (rest (bi_iter b))"

lemma checkBounds_iff: "b_inv b \<Longrightarrow> checkBounds ops b \<longleftrightarrow> b_rest b \<noteq> []"
proof -
  assume b: "b_inv b"
  then have i: "inv (bi_iter b)" by (simp add: b_inv_def)
  show ?thesis
  proof (cases "rest (bi_iter b)")
    case Nil
    with i show ?thesis by (simp add: checkBounds_def b_rest_def valid_iff)
  next
    case (Cons x r)
    obtain k v t where x: "x = (k, v, t)" by (cases x)
    have "op_Key ops (bi_iter b) = Some k" using current [OF i] Cons x by simp
    with i Cons x show ?thesis
      by (auto simp: checkBounds_def b_rest_def valid_iff clip_Cons in_bounds_def from_start_def
          before_end_def not_less split: option.splits)
  qed
qed

lemma b_rest_Cons:
  assumes "b_inv b" and "b_rest b = x # r"
  shows "\<exists>r'. rest (bi_iter b) = x # r' \<and> r = takeWhile (\<lambda>i. before_end (bi_end b) (fst i)) r' \<and>
    in_bounds (bi_start b) (bi_end b) (fst x) \<and> clip (bi_start b) (bi_end b) r' = r"
proof (cases "rest (bi_iter b)")
  case Nil
  with assms show ?thesis by (simp add: b_rest_def)
next
  case (Cons y r')
  then have "sorted (map fst (y # r'))"
    using rest_sorted [of "bi_iter b"] assms(1) by (simp add: b_inv_def)
  with Cons assms(2) sorted_clip_rest [of y r'] show ?thesis
    by (auto simp: b_rest_def clip_Cons split: if_splits)
qed

lemma bounded_forward: "forward_iterator (bounded_ops ops) b_inv b_items b_rest"
proof
  fix b
  assume b: "b_inv b"
  then have i: "inv (bi_iter b)" by (simp add: b_inv_def)
  note cb = checkBounds_iff [OF b]
  have valid: "bounded_Valid ops b \<longleftrightarrow> b_rest b \<noteq> []"
    using cb by (auto simp: bounded_Valid_def checkBounds_def split: if_splits)
  show "sorted (map fst (b_items b))"
    using items_sorted [OF i] by (simp add: b_items_def range_items_def sorted_filter)
  show "suffix (b_rest b) (b_items b)"
    using suffix_clip [OF items_sorted [OF i] rest_suffix [OF i]] by (simp add: b_items_def b_rest_def)
  show "op_Valid (bounded_ops ops) b = (b_rest b \<noteq> [])"
    using valid by (simp add: bounded_ops_def)
  show "op_Key (bounded_ops ops) b = Some k \<and> op_Value (bounded_ops ops) b = v \<and>
      op_IsTombstone (bounded_ops ops) b = t" if "b_rest b = (k, v, t) # r" for k v t r
    using b_rest_Cons [OF b that] that current [OF i] valid
    by (auto simp: bounded_ops_def bounded_Key_def bounded_Value_def bounded_IsTombstone_def)
  show "\<exists>b'. op_SeekToFirst (bounded_ops ops) b = Some b' \<and> b_inv b' \<and> b_items b' = b_items b \<and>
      b_rest b' = b_items b"
  proof (cases "bi_start b")
    case None
    obtain s' where "op_SeekToFirst ops (bi_iter b) = Some s'" "inv s'"
      "items s' = items (bi_iter b)" "rest s' = items (bi_iter b)"
      using first [OF i] by blast
    moreover have "clip None (bi_end b) (items (bi_iter b)) = range_items None (bi_end b) (items (bi_iter b))"
      using items_sorted [OF i] by (intro clip_range_items) (simp_all add: from_start_def)
    ultimately show ?thesis
      using None by (auto simp: bounded_ops_def bounded_SeekToFirst_def b_inv_def b_items_def b_rest_def)
  next
    case (Some start)
    obtain s' where "op_Seek ops start (bi_iter b) = Some (rest s' \<noteq> [], s')" "inv s'"
      "items s' = items (bi_iter b)" "rest s' = dropWhile (\<lambda>i. fst i < start) (items (bi_iter b))"
      using seek [OF i] by blast
    moreover have "(\<lambda>i. fst i < start) = (\<lambda>i :: item. \<not> from_start (Some start) (fst i))"
      by (auto simp: from_start_def)
    ultimately show ?thesis
      using Some clip_dropWhile [OF items_sorted [OF i], of "Some start" "bi_end b"]
      by (auto simp: bounded_ops_def bounded_SeekToFirst_def b_inv_def b_items_def b_rest_def)
  qed
  show "\<exists>b'. op_Next (bounded_ops ops) b = Some (b_rest b' \<noteq> [], b') \<and> b_inv b' \<and>
      b_items b' = b_items b \<and> b_rest b' = tl (b_rest b)" if "b_rest b \<noteq> []"
  proof -
    from that obtain x r where Cons: "b_rest b = x # r" by (cases "b_rest b") auto
    obtain r' where r': "rest (bi_iter b) = x # r'" "clip (bi_start b) (bi_end b) r' = r"
      using b_rest_Cons [OF b Cons] by blast
    obtain s' where s': "op_Next ops (bi_iter b) = Some (rest s' \<noteq> [], s')" "inv s'"
      "items s' = items (bi_iter b)" "rest s' = r'"
      using step [OF i] r'(1) by auto
    let ?b' = "b\<lparr>bi_iter := s'\<rparr>"
    have b': "b_inv ?b'" "b_items ?b' = b_items b" "b_rest ?b' = r"
      using s' r' by (simp_all add: b_inv_def b_items_def b_rest_def)
    then have "checkBounds ops ?b' \<longleftrightarrow> r \<noteq> []" using checkBounds_iff by simp
    moreover have "r \<noteq> [] \<Longrightarrow> rest s' \<noteq> []" using r' s'(4) by auto
    ultimately show ?thesis
      using b' Cons cb s'(1) by (auto simp: bounded_ops_def bounded_Next_def Let_def)
  qed
qed

text \<open>Seeking in a range.\<close>

lemma bounded_Seek_ok:
  assumes b: "b_inv b"
  shows "\<exists>found b'. bounded_Seek ops target b = Some (found, b') \<and> b_inv b' \<and> b_items b' = b_items b \<and>
    (found \<longleftrightarrow> (\<exists>i\<in>set (b_items b). target \<le> fst i)) \<and>
    (found \<longrightarrow> b_rest b' = filter (\<lambda>i. target \<le> fst i) (b_items b))"
proof -
  from b have i: "inv (bi_iter b)" by (simp add: b_inv_def)
  define t where "t = (if bi_start b \<noteq> None \<and> bytes_compare target (bytes_of (bi_start b)) < 0
      then bytes_of (bi_start b) else target)"
  have t: "t \<le> k \<longleftrightarrow> target \<le> k \<and> from_start (bi_start b) k" if "target \<le> t" for k
    using that by (auto simp: t_def from_start_def split: option.splits if_splits)
  have le: "target \<le> t" by (auto simp: t_def)
  note t = t [OF le]
  show ?thesis
  proof (cases "bi_end b \<noteq> None \<and> bytes_compare t (bytes_of (bi_end b)) \<ge> 0")
    case True
    have "\<not> target \<le> fst i" if "i \<in> set (b_items b)" for i
    proof
      assume "target \<le> fst i"
      with that t have "t \<le> fst i" "before_end (bi_end b) (fst i)"
        by (auto simp: b_items_def range_items_def in_bounds_def)
      with True show False by (auto simp: before_end_def)
    qed
    then have "\<not> (\<exists>i\<in>set (b_items b). target \<le> fst i)" by blast
    with True b show ?thesis by (auto simp: bounded_Seek_def Let_def t_def)
  next
    case False
    obtain s' where s': "op_Seek ops t (bi_iter b) = Some (rest s' \<noteq> [], s')" "inv s'"
      "items s' = items (bi_iter b)" "rest s' = dropWhile (\<lambda>i. fst i < t) (items (bi_iter b))"
      using seek [OF i] by blast
    let ?b' = "b\<lparr>bi_iter := s'\<rparr>"
    have b': "b_inv ?b'" "b_items ?b' = b_items b" using s' by (simp_all add: b_inv_def b_items_def)
    have "dropWhile (\<lambda>i. fst i < t) (items (bi_iter b)) = filter (\<lambda>i. t \<le> fst i) (items (bi_iter b))"
      using sorted_cut(2) [OF items_sorted [OF i], of "Some t"] by (simp add: from_start_def not_le)
    then have r: "rest s' = filter (\<lambda>i. t \<le> fst i) (items (bi_iter b))" using s'(4) by simp
    have "b_rest ?b' = range_items (bi_start b) (bi_end b) (rest s')"
      unfolding b_rest_def using items_sorted [OF i] t
      by (simp, intro clip_range_items) (auto simp: r sorted_filter)
    also have "\<dots> = filter (\<lambda>i. target \<le> fst i) (b_items b)"
      using t by (auto simp: r range_items_def b_items_def in_bounds_def intro!: filter_cong)
    finally have rb: "b_rest ?b' = filter (\<lambda>i. target \<le> fst i) (b_items b)" .
    have cb: "checkBounds ops ?b' \<longleftrightarrow> (\<exists>i\<in>set (b_items b). target \<le> fst i)"
      using checkBounds_iff [OF b'(1)] by (auto simp: rb filter_empty_conv)
    have "bounded_Seek ops target b = Some (rest s' \<noteq> [] \<and> checkBounds ops ?b', ?b')"
      using False s'(1) by (auto simp: bounded_Seek_def Let_def t_def)
    moreover have "checkBounds ops ?b' \<Longrightarrow> rest s' \<noteq> []"
      using checkBounds_iff [OF b'(1)] by (auto simp: b_rest_def)
    ultimately show ?thesis using b' rb cb by blast
  qed
qed

text \<open>\<open>SeekToLast\<close> fails on a range whose end key is not itself an item.\<close>

lemma bounded_SeekToLast_gap:
  assumes b: "b_inv b" and e: "bi_end b = Some e" and gap: "\<forall>i\<in>set (items (bi_iter b)). fst i \<noteq> e"
  shows "\<exists>b'. bounded_SeekToLast ops b = Some b' \<and> \<not> bounded_Valid ops b'"
proof -
  from b have i: "inv (bi_iter b)" by (simp add: b_inv_def)
  obtain s' where s': "op_Seek ops e (bi_iter b) = Some (rest s' \<noteq> [], s')" "inv s'"
    "rest s' = dropWhile (\<lambda>i. fst i < e) (items (bi_iter b))"
    using seek [OF i] by blast
  have "op_Valid ops s' \<longrightarrow> e < bytes_of (op_Key ops s')"
  proof
    assume "op_Valid ops s'"
    then obtain k v t r where r: "rest s' = (k, v, t) # r"
      using valid_iff [OF s'(2)] by (metis neq_Nil_conv prod_cases3)
    then have "\<not> k < e" using s'(3) by (metis dropWhile_eq_Cons_conv fst_conv)
    moreover have "(k, v, t) \<in> set (items (bi_iter b))"
      using r s'(3) set_dropWhileD by (metis list.set_intros(1))
    ultimately show "e < bytes_of (op_Key ops s')"
      using gap current [OF s'(2) r] by fastforce
  qed
  moreover have "bounded_SeekToLast ops b = Some (b\<lparr>bi_iter := s'\<rparr>)"
    using calculation s'(1) e by (auto simp: bounded_SeekToLast_def)
  ultimately show ?thesis
    using e by (auto simp: bounded_Valid_def checkBounds_def)
qed

end

sublocale iterator \<subseteq> bnd: forward_iterator "bounded_ops ops" b_inv b_items b_rest
  by (rule bounded_forward)

end
