(* ===== verification/Hierarchical.thy ===== *)
theory Hierarchical
  imports Iterators
begin

text \<open>
  The merging iterator of \<^verbatim>\<open>src/pkg/common/iterator/composite/hierarchical.go\<close>: sources are given from
  newest to oldest, every key is visited once, with the value of the newest source that has it.
  The specification \<open>merged\<close> is the sorted list of all keys of the sources with these values, and
  the iterator is shown to be an iterator over it, for any sources that keep the interface's
  promises.
\<close>

section \<open>The code\<close>

record 's hier =
  h_iterators :: "'s list"
  h_key :: slice
  h_value :: slice
  h_valid :: bool

definition NewHierarchicalIterator :: "'s list \<Rightarrow> 's hier" where
  "NewHierarchicalIterator iterators =
     \<lparr>h_iterators = iterators, h_key = None, h_value = None, h_valid = False\<rparr>"

text \<open>The inner loop that moves a source past \<open>prevKey\<close>.\<close>

partial_function (option) skip_past :: "'s iter_ops \<Rightarrow> bytes \<Rightarrow> 's \<Rightarrow> 's option" where
  "skip_past ops prevKey it =
     (if op_Valid ops it \<and> bytes_compare (bytes_of (op_Key ops it)) prevKey \<le> 0 then
        (case op_Next ops it of
           None \<Rightarrow> None
         | Some (ok, it') \<Rightarrow> if ok then skip_past ops prevKey it' else Some it')
      else Some it)"

text \<open>The best candidate so far: its source, key and value; \<open>None\<close> is \<open>bestIterIdx = -1\<close>.\<close>

type_synonym best = "(nat \<times> slice \<times> slice) option"

definition improve :: "'s iter_ops \<Rightarrow> nat \<Rightarrow> 's \<Rightarrow> best \<Rightarrow> best" where
  "improve ops i it best =
     (case best of
        None \<Rightarrow> Some (i, op_Key ops it, op_Value ops it)
      | Some (_, bestKey, _) \<Rightarrow>
          if bytes_compare (bytes_of (op_Key ops it)) (bytes_of bestKey) < 0
          then Some (i, op_Key ops it, op_Value ops it) else best)"

definition skip_source :: "'s iter_ops \<Rightarrow> slice \<Rightarrow> 's \<Rightarrow> 's option" where
  "skip_source ops prevKey it =
     (case prevKey of
        None \<Rightarrow> Some it
      | Some p \<Rightarrow> if bytes_compare (bytes_of (op_Key ops it)) p \<le> 0 then skip_past ops p it else Some it)"

fun next_pass :: "'s iter_ops \<Rightarrow> slice \<Rightarrow> nat \<Rightarrow> 's list \<Rightarrow> best \<Rightarrow> ('s list \<times> best) option" where
  "next_pass ops prevKey i [] best = Some ([], best)"
| "next_pass ops prevKey i (it # its) best =
     (if \<not> op_Valid ops it
      then map_option (\<lambda>(its', best'). (it # its', best')) (next_pass ops prevKey (Suc i) its best)
      else case skip_source ops prevKey it of
             None \<Rightarrow> None
           | Some it' \<Rightarrow>
               map_option (\<lambda>(its', best'). (it' # its', best'))
                 (next_pass ops prevKey (Suc i) its
                    (if op_Valid ops it' then improve ops i it' best else best)))"

text \<open>The second pass: the first newer source on the same key would supply the value.\<close>

fun newer_value :: "'s iter_ops \<Rightarrow> bytes \<Rightarrow> 's list \<Rightarrow> slice \<Rightarrow> slice" where
  "newer_value ops bestKey [] bestValue = bestValue"
| "newer_value ops bestKey (it # its) bestValue =
     (if op_Valid ops it \<and> bytes_of (op_Key ops it) = bestKey then op_Value ops it
      else newer_value ops bestKey its bestValue)"

definition settle :: "'s iter_ops \<Rightarrow> 's list \<Rightarrow> best \<Rightarrow> 's hier \<Rightarrow> bool \<times> 's hier" where
  "settle ops its best h =
     (case best of
        None \<Rightarrow> (False, h\<lparr>h_iterators := its, h_valid := False\<rparr>)
      | Some (i, bestKey, bestValue) \<Rightarrow>
          (True, h\<lparr>h_iterators := its, h_key := bestKey,
                   h_value := newer_value ops (bytes_of bestKey) (take i its) bestValue,
                   h_valid := True\<rparr>))"

definition findNextUniqueKey :: "'s iter_ops \<Rightarrow> slice \<Rightarrow> 's hier \<Rightarrow> (bool \<times> 's hier) option" where
  "findNextUniqueKey ops prevKey h =
     map_option (\<lambda>(its, best). settle ops its best h) (next_pass ops prevKey 0 (h_iterators h) None)"

definition hier_SeekToFirst :: "'s iter_ops \<Rightarrow> 's hier \<Rightarrow> 's hier option" where
  "hier_SeekToFirst ops h =
     (case those (map (op_SeekToFirst ops) (h_iterators h)) of
        None \<Rightarrow> None
      | Some its \<Rightarrow> map_option snd (findNextUniqueKey ops None (h\<lparr>h_iterators := its\<rparr>)))"

fun last_pass :: "'s iter_ops \<Rightarrow> 's list \<Rightarrow> slice \<times> slice \<times> bool \<Rightarrow> slice \<times> slice \<times> bool" where
  "last_pass ops [] acc = acc"
| "last_pass ops (it # its) (maxKey, maxValue, found) =
     last_pass ops its
       (if op_Valid ops it \<and>
           (maxKey = None \<or> bytes_compare (bytes_of (op_Key ops it)) (bytes_of maxKey) > 0)
        then (op_Key ops it, op_Value ops it, True) else (maxKey, maxValue, found))"

definition hier_SeekToLast :: "'s iter_ops \<Rightarrow> 's hier \<Rightarrow> 's hier option" where
  "hier_SeekToLast ops h =
     map_option (\<lambda>its.
        case last_pass ops its (None, None, False) of
          (maxKey, maxValue, found) \<Rightarrow>
            if found
            then h\<lparr>h_iterators := its, h_key := maxKey, h_value := maxValue, h_valid := True\<rparr>
            else h\<lparr>h_iterators := its, h_valid := False\<rparr>)
       (those (map (op_SeekToLast ops) (h_iterators h)))"

fun seek_pass :: "'s iter_ops \<Rightarrow> bytes \<Rightarrow> nat \<Rightarrow> 's list \<Rightarrow> best \<Rightarrow> best" where
  "seek_pass ops target i [] best = best"
| "seek_pass ops target i (it # its) best =
     seek_pass ops target (Suc i) its
       (if op_Valid ops it \<and> \<not> bytes_compare (bytes_of (op_Key ops it)) target < 0
        then improve ops i it best else best)"

definition hier_Seek :: "'s iter_ops \<Rightarrow> bytes \<Rightarrow> 's hier \<Rightarrow> (bool \<times> 's hier) option" where
  "hier_Seek ops target h =
     map_option (\<lambda>its. settle ops its (seek_pass ops target 0 its None) h)
       (those (map (\<lambda>it. map_option snd (op_Seek ops target it)) (h_iterators h)))"

definition hier_Next :: "'s iter_ops \<Rightarrow> 's hier \<Rightarrow> (bool \<times> 's hier) option" where
  "hier_Next ops h = (if \<not> h_valid h then Some (False, h) else findNextUniqueKey ops (h_key h) h)"

definition hier_Key :: "'s hier \<Rightarrow> slice" where
  "hier_Key h = (if \<not> h_valid h then None else h_key h)"

definition hier_Value :: "'s hier \<Rightarrow> slice" where
  "hier_Value h = (if \<not> h_valid h then None else h_value h)"

definition hier_Valid :: "'s hier \<Rightarrow> bool" where
  "hier_Valid h = h_valid h"

definition hier_IsTombstone :: "'s hier \<Rightarrow> bool" where
  "hier_IsTombstone h = (if \<not> h_valid h then False else h_value h = None)"

definition NumSources :: "'s hier \<Rightarrow> nat" where
  "NumSources h = length (h_iterators h)"

definition GetSourceIterators :: "'s hier \<Rightarrow> 's list" where
  "GetSourceIterators h = h_iterators h"

definition hier_ops :: "'s iter_ops \<Rightarrow> 's hier iter_ops" where
  "hier_ops ops =
     \<lparr>op_SeekToFirst = hier_SeekToFirst ops, op_SeekToLast = hier_SeekToLast ops,
      op_Seek = hier_Seek ops, op_Next = hier_Next ops, op_Key = hier_Key, op_Value = hier_Value,
      op_Valid = hier_Valid, op_IsTombstone = hier_IsTombstone\<rparr>"

section \<open>The specification\<close>

definition source_keys :: "item list list \<Rightarrow> bytes set" where
  "source_keys srcs = (\<Union>src\<in>set srcs. fst ` set src)"

text \<open>The value of the newest source that has the key; \<open>map_of\<close> takes its first item.\<close>

fun source_value :: "bytes \<Rightarrow> item list list \<Rightarrow> slice" where
  "source_value k [] = None"
| "source_value k (src # srcs) =
     (case map_of src k of Some (v, _) \<Rightarrow> v | None \<Rightarrow> source_value k srcs)"

definition merged_item :: "item list list \<Rightarrow> bytes \<Rightarrow> item" where
  "merged_item srcs k = (k, source_value k srcs, source_value k srcs = None)"

definition merged :: "item list list \<Rightarrow> item list" where
  "merged srcs = map (merged_item srcs) (sorted_list_of_set (source_keys srcs))"

lemma finite_source_keys [simp]: "finite (source_keys srcs)"
  by (simp add: source_keys_def)

lemma source_keys_nth: "k \<in> source_keys srcs \<longleftrightarrow> (\<exists>j<length srcs. k \<in> fst ` set (srcs ! j))"
proof -
  have "(\<exists>src\<in>set srcs. k \<in> fst ` set src) \<longleftrightarrow> (\<exists>j<length srcs. k \<in> fst ` set (srcs ! j))"
    by (metis in_set_conv_nth)
  then show ?thesis by (simp only: source_keys_def UN_iff)
qed

lemma source_value_nth:
  assumes "i < length srcs" and "map_of (srcs ! i) k = Some (v, t)"
    and "\<And>j. j < i \<Longrightarrow> k \<notin> fst ` set (srcs ! j)"
  shows "source_value k srcs = v"
  using assms
proof (induction srcs arbitrary: i)
  case Nil
  then show ?case by simp
next
  case (Cons src srcs)
  show ?case
  proof (cases i)
    case 0
    with Cons.prems show ?thesis by simp
  next
    case (Suc n)
    have "map_of src k = None" using Cons.prems(3) [of 0] Suc by (simp add: map_of_eq_None_iff)
    moreover have "source_value k srcs = v"
      using Cons.prems Suc by (intro Cons.IH [of n]) fastforce+
    ultimately show ?thesis by simp
  qed
qed

text \<open>The merged items from a key on.\<close>

definition merged_from :: "item list list \<Rightarrow> (bytes \<Rightarrow> bool) \<Rightarrow> item list" where
  "merged_from srcs P = map (merged_item srcs) (sorted_list_of_set {k \<in> source_keys srcs. P k})"

lemma sorted_list_of_set_filter:
  "finite A \<Longrightarrow> sorted_list_of_set {k \<in> A. P k} = filter P (sorted_list_of_set A)"
  by (rule sorted_distinct_set_unique) (auto simp: sorted_filter [of id, simplified])

lemma merged_from_filter: "merged_from srcs P = filter (\<lambda>i. P (fst i)) (merged srcs)"
  by (simp add: merged_from_def merged_def sorted_list_of_set_filter filter_map comp_def merged_item_def)

lemma merged_Nil [simp]: "merged [] = []"
  by (simp add: merged_def source_keys_def)

lemma merged_sorted: "sorted (map fst (merged srcs))"
  by (simp add: merged_def merged_item_def comp_def)

lemma merged_suffix: "suffix (merged_from srcs (\<lambda>k. c \<le> k)) (merged srcs)"
  using sorted_cut(2) [OF merged_sorted, of "Some c"] suffix_dropWhile
  by (metis (no_types, lifting) filter_cong from_start_def merged_from_filter option.simps(5))

lemma merged_from_all: "merged_from srcs (\<lambda>k. True) = merged srcs"
  by (simp add: merged_from_filter)

text \<open>The least key of a set of keys heads the list.\<close>

lemma merged_from_least:
  assumes "\<And>k. k \<in> source_keys srcs \<Longrightarrow> P k \<longleftrightarrow> c \<le> k"
  shows "merged_from srcs P = merged_from srcs (\<lambda>k. c \<le> k)"
proof -
  have "{k \<in> source_keys srcs. P k} = {k \<in> source_keys srcs. c \<le> k}" using assms by blast
  then show ?thesis by (simp add: merged_from_def)
qed

lemma merged_from_Cons:
  assumes "c \<in> source_keys srcs"
  shows "merged_from srcs (\<lambda>k. c \<le> k) = merged_item srcs c # merged_from srcs (\<lambda>k. c < k)"
proof -
  let ?A = "{k \<in> source_keys srcs. c \<le> k}"
  have "Min ?A = c" using assms by (intro Min_eqI) auto
  moreover have "?A - {c} = {k \<in> source_keys srcs. c < k}" by auto
  ultimately have "sorted_list_of_set ?A = c # sorted_list_of_set {k \<in> source_keys srcs. c < k}"
    using sorted_list_of_set_nonempty [of ?A] assms by auto
  then show ?thesis by (simp add: merged_from_def)
qed

lemma merged_from_empty: "(\<And>k. k \<in> source_keys srcs \<Longrightarrow> \<not> P k) \<Longrightarrow> merged_from srcs P = []"
proof -
  assume "\<And>k. k \<in> source_keys srcs \<Longrightarrow> \<not> P k"
  then have "{k \<in> source_keys srcs. P k} = {}" by blast
  then show ?thesis unfolding merged_from_def by simp
qed

lemma map_of_filter_key: "P k \<Longrightarrow> map_of (filter (\<lambda>i. P (fst i)) xs) k = map_of xs k"
  by (induction xs) auto

section \<open>The passes\<close>

text \<open>Keys that a source is moved past.\<close>

definition passed :: "slice \<Rightarrow> bytes \<Rightarrow> bool" where
  "passed prevKey k \<longleftrightarrow> (case prevKey of None \<Rightarrow> False | Some p \<Rightarrow> k \<le> p)"

lemma passed_mono: "passed prevKey k' \<Longrightarrow> k \<le> k' \<Longrightarrow> passed prevKey k"
  by (auto simp: passed_def split: option.splits)

context forward_iterator
begin

text \<open>\<open>best\<close> is the least key among the heads of the sources, at its newest source.\<close>

definition best_of :: "'s list \<Rightarrow> best \<Rightarrow> bool" where
  "best_of its best \<longleftrightarrow>
     (case best of
        None \<Rightarrow> \<forall>it\<in>set its. rest it = []
      | Some (i, key, v) \<Rightarrow>
          i < length its \<and>
          (\<exists>k t r. key = Some k \<and> rest (its ! i) = (k, v, t) # r \<and>
             (\<forall>it\<in>set its. rest it \<noteq> [] \<longrightarrow> k \<le> fst (hd (rest it))) \<and>
             (\<forall>it\<in>set (take i its). rest it \<noteq> [] \<longrightarrow> k < fst (hd (rest it)))))"

lemma best_of_skip: "best_of its best \<Longrightarrow> rest it = [] \<Longrightarrow> best_of (its @ [it]) best"
  by (auto simp: best_of_def nth_append split: option.splits)

lemma best_of_improve:
  assumes "best_of its best" and "inv it" and "rest it \<noteq> []"
  shows "best_of (its @ [it]) (improve ops (length its) it best)"
proof -
  obtain k v t r where r: "rest it = (k, v, t) # r"
    using assms(3) by (metis neq_Nil_conv prod_cases3)
  note cur = current [OF assms(2) r]
  show ?thesis
  proof (cases best)
    case None
    then show ?thesis using assms(1) cur r by (auto simp: best_of_def improve_def)
  next
    case (Some b)
    then obtain i key v' where b: "best = Some (i, key, v')" by (cases b) auto
    then obtain k' t' r' where k': "key = Some k'" "i < length its" "rest (its ! i) = (k', v', t') # r'"
      "\<forall>it\<in>set its. rest it \<noteq> [] \<longrightarrow> k' \<le> fst (hd (rest it))"
      "\<forall>it\<in>set (take i its). rest it \<noteq> [] \<longrightarrow> k' < fst (hd (rest it))"
      using assms(1) by (auto simp: best_of_def)
    show ?thesis
    proof (cases "k < k'")
      case True
      then have "improve ops (length its) it best = Some (length its, Some k, v)"
        using cur k'(1) b by (simp add: improve_def)
      then show ?thesis using r True k'(4) by (fastforce simp: best_of_def)
    next
      case False
      then have "improve ops (length its) it best = Some (i, Some k', v')"
        using cur k'(1) b by (simp add: improve_def)
      then show ?thesis using r False k' by (auto simp: best_of_def nth_append)
    qed
  qed
qed

lemma skip_past_ok:
  "inv it \<Longrightarrow> \<exists>it'. skip_past ops p it = Some it' \<and> inv it' \<and> items it' = items it \<and>
     rest it' = dropWhile (\<lambda>i. fst i \<le> p) (rest it)"
proof (induction "rest it" arbitrary: it)
  case Nil
  then show ?case by (subst skip_past.simps) (auto simp: valid_iff)
next
  case (Cons x r)
  obtain k v t where x: "x = (k, v, t)" by (cases x)
  have cur: "op_Key ops it = Some k" "op_Valid ops it"
    using current [OF Cons.prems, of k v t r] Cons.hyps(2) x valid_iff [OF Cons.prems] by auto
  obtain it1 where it1: "op_Next ops it = Some (rest it1 \<noteq> [], it1)" "inv it1" "items it1 = items it" "rest it1 = r"
    using step [OF Cons.prems] Cons.hyps(2) by (metis list.distinct(1) list.sel(3))
  show ?case
  proof (cases "k \<le> p")
    case True
    obtain it2 where it2: "skip_past ops p it1 = Some it2" "inv it2" "items it2 = items it1"
      "rest it2 = dropWhile (\<lambda>i. fst i \<le> p) (rest it1)"
      using Cons.hyps(1) [of it1] it1 by auto
    then show ?thesis
      using True cur it1 Cons.hyps(2) [symmetric] x by (cases r; subst skip_past.simps) simp_all
  next
    case False
    then show ?thesis
      using cur Cons.hyps(2) [symmetric] Cons.prems x by (subst skip_past.simps) auto
  qed
qed

lemma skip_source_ok:
  assumes "inv it" and "op_Valid ops it"
  shows "\<exists>it'. skip_source ops prevKey it = Some it' \<and> inv it' \<and> items it' = items it \<and>
    rest it' = dropWhile (\<lambda>i. passed prevKey (fst i)) (rest it)"
proof (cases prevKey)
  case None
  then show ?thesis using assms by (simp add: skip_source_def passed_def)
next
  case (Some p)
  obtain k v t r where r: "rest it = (k, v, t) # r" "op_Key ops it = Some k"
    by (rule valid_current [OF assms])
  with Some r assms skip_past_ok [OF assms(1), of p] show ?thesis
    by (auto simp: skip_source_def passed_def)
qed

lemma next_pass_ok:
  assumes "list_all inv its" and "best_of done best"
  shows "\<exists>its' best'. next_pass ops prevKey (length done) its best = Some (its', best') \<and>
    list_all2 (\<lambda>it it'. inv it' \<and> items it' = items it \<and>
      rest it' = dropWhile (\<lambda>i. passed prevKey (fst i)) (rest it)) its its' \<and>
    best_of (done @ its') best'"
  using assms
proof (induction its arbitrary: "done" best)
  case Nil
  then show ?case by simp
next
  case (Cons it its)
  then have it: "inv it" by simp
  show ?case
  proof (cases "op_Valid ops it")
    case False
    then have off: "rest it = []" using valid_iff [OF it] by simp
    then have "best_of (done @ [it]) best" using Cons.prems(2) by (intro best_of_skip)
    from Cons.IH [OF _ this] Cons.prems(1) False it off show ?thesis by fastforce
  next
    case True
    obtain it' where it': "skip_source ops prevKey it = Some it'" "inv it'" "items it' = items it"
      "rest it' = dropWhile (\<lambda>i. passed prevKey (fst i)) (rest it)"
      using skip_source_ok [OF it True] by blast
    let ?best = "if op_Valid ops it' then improve ops (length done) it' best else best"
    have "best_of (done @ [it']) ?best"
      using Cons.prems(2) it'(2) valid_iff [OF it'(2)] by (simp add: best_of_skip best_of_improve)
    from Cons.IH [OF _ this] Cons.prems(1) obtain its' best' where
      "next_pass ops prevKey (Suc (length done)) its ?best = Some (its', best')"
      "list_all2 (\<lambda>it it'. inv it' \<and> items it' = items it \<and>
        rest it' = dropWhile (\<lambda>i. passed prevKey (fst i)) (rest it)) its its'"
      "best_of (done @ it' # its') best'" by auto
    with True it' show ?thesis by auto
  qed
qed

text \<open>The second pass finds nothing, since the best source is already the newest.\<close>

lemma newer_value_best:
  assumes "list_all inv its" and "\<forall>it\<in>set its. rest it \<noteq> [] \<longrightarrow> k < fst (hd (rest it))"
  shows "newer_value ops k its v = v"
  using assms
proof (induction its)
  case Nil
  then show ?case by simp
next
  case (Cons it its)
  then have it: "inv it" by simp
  have "bytes_of (op_Key ops it) \<noteq> k" if v: "op_Valid ops it"
  proof -
    obtain k' v' t r where "rest it = (k', v', t) # r" "op_Key ops it = Some k'"
      by (rule valid_current [OF it v])
    then show ?thesis using Cons.prems(2) by auto
  qed
  with Cons show ?case by auto
qed

section \<open>Positions of the merging iterator\<close>

definition h_inv :: "'s hier \<Rightarrow> bool" where
  "h_inv h \<longleftrightarrow> list_all inv (h_iterators h) \<and>
     (h_valid h \<longrightarrow>
       (\<exists>k. h_key h = Some k \<and> k \<in> source_keys (map items (h_iterators h)) \<and>
          h_value h = source_value k (map items (h_iterators h)) \<and>
          (\<forall>it\<in>set (h_iterators h). filter (\<lambda>i. k < fst i) (rest it) = filter (\<lambda>i. k < fst i) (items it))))"

definition h_items :: "'s hier \<Rightarrow> item list" where
  "h_items h = merged (map items (h_iterators h))"

definition h_rest :: "'s hier \<Rightarrow> item list" where
  "h_rest h = (if h_valid h then merged_from (map items (h_iterators h)) (\<lambda>k. the (h_key h) \<le> k) else [])"

text \<open>
  Settling on the best of sources that stand before all their items \<open>P\<close> gives the least key that
  satisfies \<open>P\<close>.
\<close>

lemma settle_ok:
  assumes its: "list_all inv its" and best: "best_of its best"
    and ahead: "\<forall>it\<in>set its. rest it = filter (\<lambda>i. P (fst i)) (items it)"
    and up: "\<And>k k'. P k \<Longrightarrow> k \<le> k' \<Longrightarrow> P k'"
  shows "\<exists>h'. settle ops its best h = (h_rest h' \<noteq> [], h') \<and> h_inv h' \<and> h_iterators h' = its \<and>
    h_rest h' = merged_from (map items its) P"
proof (cases best)
  case None
  then have "\<forall>it\<in>set its. filter (\<lambda>i. P (fst i)) (items it) = []"
    using best ahead by (simp add: best_of_def)
  then have "merged_from (map items its) P = []"
    by (intro merged_from_empty) (fastforce simp: source_keys_def filter_empty_conv)
  with None its show ?thesis by (simp add: settle_def h_inv_def h_rest_def)
next
  case (Some b)
  then obtain i key v where b: "best = Some (i, key, v)" by (cases b) auto
  then obtain k t r where k: "key = Some k" "i < length its" "rest (its ! i) = (k, v, t) # r"
    "\<forall>it\<in>set its. rest it \<noteq> [] \<longrightarrow> k \<le> fst (hd (rest it))"
    "\<forall>it\<in>set (take i its). rest it \<noteq> [] \<longrightarrow> k < fst (hd (rest it))"
    using best by (auto simp: best_of_def)
  let ?srcs = "map items its"
  have sorted: "sorted (map fst (rest it))" if "it \<in> set its" for it
    using that its rest_sorted by (auto simp: list_all_iff)
  have lower: "k \<le> fst x" if "it \<in> set its" "x \<in> set (items it)" "P (fst x)" for it x
  proof -
    have x: "x \<in> set (rest it)" using that ahead by auto
    then have "rest it \<noteq> []" by auto
    then have "k \<le> fst (hd (rest it))" "fst (hd (rest it)) \<le> fst x"
      using k(4) that(1) x sorted [OF that(1)] by (cases "rest it"; auto)+
    then show ?thesis by simp
  qed
  have ki: "(k, v, t) # r = filter (\<lambda>i. P (fst i)) (items (its ! i))"
    using ahead k(2,3) by (metis nth_mem)
  then have "(k, v, t) \<in> set (filter (\<lambda>i. P (fst i)) (items (its ! i)))"
    by (metis list.set_intros(1))
  then have Pk: "P k" and mem: "(k, v, t) \<in> set (items (its ! i))" by simp_all
  have key: "k \<in> source_keys ?srcs"
    using mem k(2) by (force simp: source_keys_nth)
  have P_iff: "P k' \<longleftrightarrow> k \<le> k'" if "k' \<in> source_keys ?srcs" for k'
    using that lower up [OF Pk] by (fastforce simp: source_keys_def)
  have "map_of (filter (\<lambda>i. P (fst i)) (items (its ! i))) k = Some (v, t)"
    unfolding ki [symmetric] by simp
  then have first: "map_of (items (its ! i)) k = Some (v, t)"
    using map_of_filter_key [of P k "items (its ! i)"] Pk by simp
  have none: "k \<notin> fst ` set (?srcs ! j)" if "j < i" for j
  proof
    let ?it = "its ! j"
    have it: "?it \<in> set (take i its)" "?it \<in> set its"
      using that k(2) by (metis length_take min.absorb4 nth_mem nth_take) (use that k(2) in simp)
    have "?srcs ! j = items ?it" using that k(2) by simp
    moreover assume "k \<in> fst ` set (?srcs ! j)"
    ultimately obtain x where x: "x \<in> set (rest ?it)" "fst x = k"
      using that k(2) ahead it(2) Pk by auto
    then have "rest ?it \<noteq> []" by auto
    then have "k < fst (hd (rest ?it))" "fst (hd (rest ?it)) \<le> fst x"
      using k(5) it x(1) sorted [OF it(2)] by (cases "rest ?it"; auto)+
    with x(2) show False by simp
  qed
  have "source_value k ?srcs = v"
    using first none k(2) by (intro source_value_nth [of i]) auto
  moreover have "newer_value ops k (take i its) v = v"
    using its k(5) by (intro newer_value_best) (auto simp: list_all_iff dest: in_set_takeD)
  moreover have "filter (\<lambda>i. k < fst i) (rest it) = filter (\<lambda>i. k < fst i) (items it)" if "it \<in> set its" for it
    using that ahead up [OF Pk] by (auto intro!: filter_cong simp: order_less_imp_le)
  moreover have "merged_from ?srcs P = merged_from ?srcs (\<lambda>k'. k \<le> k')"
    using P_iff by (rule merged_from_least)
  ultimately show ?thesis
    using b k(1) its key merged_from_Cons [OF key] by (auto simp: settle_def h_inv_def h_rest_def)
qed

lemma findNextUniqueKey_ok:
  assumes "list_all inv (h_iterators h)"
    and "\<forall>it\<in>set (h_iterators h).
      filter (\<lambda>i. \<not> passed prevKey (fst i)) (rest it) = filter (\<lambda>i. \<not> passed prevKey (fst i)) (items it)"
  shows "\<exists>h'. findNextUniqueKey ops prevKey h = Some (h_rest h' \<noteq> [], h') \<and> h_inv h' \<and>
    map items (h_iterators h') = map items (h_iterators h) \<and>
    h_rest h' = merged_from (map items (h_iterators h)) (\<lambda>k. \<not> passed prevKey k)"
proof -
  have "best_of [] None" by (simp add: best_of_def)
  from next_pass_ok [OF assms(1) this, of prevKey] obtain its best where
    pass: "next_pass ops prevKey 0 (h_iterators h) None = Some (its, best)"
    and all2: "list_all2 (\<lambda>it it'. inv it' \<and> items it' = items it \<and>
      rest it' = dropWhile (\<lambda>i. passed prevKey (fst i)) (rest it)) (h_iterators h) its"
    and best: "best_of its best" by auto
  have its: "list_all inv its" "map items its = map items (h_iterators h)"
    using all2 by (auto simp: list_all2_conv_all_nth list_all_length intro!: nth_equalityI)
  have "rest it' = filter (\<lambda>i. \<not> passed prevKey (fst i)) (items it')" if mem: "it' \<in> set its" for it'
  proof -
    obtain j where j: "j < length its" "it' = its ! j" using mem by (auto simp: in_set_conv_nth)
    define it where "it = h_iterators h ! j"
    have it: "it \<in> set (h_iterators h)" "items it' = items it"
      "rest it' = dropWhile (\<lambda>i. passed prevKey (fst i)) (rest it)"
      using all2 j by (simp_all add: it_def list_all2_conv_all_nth)
    have "sorted_wrt (\<lambda>i j. fst i \<le> fst j) (rest it)"
      using it(1) assms(1) rest_sorted [of it] by (simp add: list_all_iff sorted_wrt_map)
    then have "dropWhile (\<lambda>i. passed prevKey (fst i)) (rest it) = filter (\<lambda>i. \<not> passed prevKey (fst i)) (rest it)"
      by (rule sorted_takeWhile_filter) (rule passed_mono)
    with it assms(2) show ?thesis by simp
  qed
  with settle_ok [OF its(1) best, of "\<lambda>k. \<not> passed prevKey k" h] passed_mono its(2) pass show ?thesis
    by (fastforce simp: findNextUniqueKey_def)
qed

text \<open>Moving every source.\<close>

lemma those_map_ok:
  assumes "list_all inv its" and "\<And>it. inv it \<Longrightarrow> \<exists>it'. f it = Some it' \<and> inv it' \<and> Q it it'"
  shows "\<exists>its'. those (map f its) = Some its' \<and> list_all inv its' \<and> list_all2 Q its its'"
  using assms(1)
proof (induction its)
  case Nil
  then show ?case by simp
next
  case (Cons it its)
  then show ?case using assms(2) [of it] by fastforce
qed

lemma items_all2: "list_all2 (\<lambda>it it'. items it' = items it \<and> P it it') its its' \<Longrightarrow> map items its' = map items its"
  by (induction rule: list_all2_induct) auto

lemma rest_all2:
  "list_all2 (\<lambda>it it'. items it' = items it \<and> rest it' = f (items it)) its its' \<Longrightarrow>
     \<forall>it'\<in>set its'. rest it' = f (items it')"
  by (induction rule: list_all2_induct) auto

lemma hier_first:
  assumes "h_inv h"
  shows "\<exists>h'. hier_SeekToFirst ops h = Some h' \<and> h_inv h' \<and> h_items h' = h_items h \<and> h_rest h' = h_items h"
proof -
  have inv: "list_all inv (h_iterators h)" using assms by (simp add: h_inv_def)
  obtain its where its: "those (map (op_SeekToFirst ops) (h_iterators h)) = Some its" "list_all inv its"
    "list_all2 (\<lambda>it it'. items it' = items it \<and> rest it' = items it) (h_iterators h) its"
    using those_map_ok [OF inv, of "op_SeekToFirst ops" "\<lambda>it it'. items it' = items it \<and> rest it' = items it"]
      first by blast
  have "\<forall>it\<in>set its. rest it = items it" "map items its = map items (h_iterators h)"
    using rest_all2 [of "\<lambda>x. x", OF its(3)] items_all2 [OF its(3)] by simp_all
  with findNextUniqueKey_ok [of "h\<lparr>h_iterators := its\<rparr>" None] its(1,2) show ?thesis
    by (auto simp: hier_SeekToFirst_def h_items_def passed_def merged_from_all)
qed

lemma hier_next:
  assumes "h_inv h"
  shows "\<exists>h'. hier_Next ops h = Some (h_rest h' \<noteq> [], h') \<and> h_inv h' \<and> h_items h' = h_items h \<and>
    h_rest h' = tl (h_rest h)"
proof (cases "h_valid h")
  case False
  then show ?thesis using assms by (auto simp: hier_Next_def h_rest_def)
next
  case True
  then obtain k where k: "h_key h = Some k" "k \<in> source_keys (map items (h_iterators h))"
    "\<forall>it\<in>set (h_iterators h). filter (\<lambda>i. k < fst i) (rest it) = filter (\<lambda>i. k < fst i) (items it)"
    using assms by (auto simp: h_inv_def)
  obtain h' where "findNextUniqueKey ops (h_key h) h = Some (h_rest h' \<noteq> [], h')" "h_inv h'"
    "map items (h_iterators h') = map items (h_iterators h)"
    "h_rest h' = merged_from (map items (h_iterators h)) (\<lambda>x. k < x)"
    using findNextUniqueKey_ok [of h "h_key h"] assms k by (auto simp: h_inv_def passed_def not_le)
  moreover have "h_rest h = merged_item (map items (h_iterators h)) k #
      merged_from (map items (h_iterators h)) (\<lambda>x. k < x)"
    using True k merged_from_Cons [OF k(2)] by (simp add: h_rest_def)
  ultimately show ?thesis using True by (simp add: hier_Next_def h_items_def)
qed

lemma hier_current:
  assumes "h_inv h" and "h_rest h = (k, v, t) # r"
  shows "hier_Key h = Some k \<and> hier_Value h = v \<and> hier_IsTombstone h = t"
proof -
  have valid: "h_valid h" using assms(2) by (auto simp: h_rest_def split: if_splits)
  then obtain c where c: "h_key h = Some c" "c \<in> source_keys (map items (h_iterators h))"
    "h_value h = source_value c (map items (h_iterators h))"
    using assms(1) by (auto simp: h_inv_def)
  then show ?thesis
    using assms(2) valid merged_from_Cons [OF c(2)]
    by (auto simp: h_rest_def merged_item_def hier_Key_def hier_Value_def hier_IsTombstone_def)
qed

lemma hier_valid: "h_inv h \<Longrightarrow> hier_Valid h \<longleftrightarrow> h_rest h \<noteq> []"
proof -
  assume "h_inv h"
  then have "h_valid h \<Longrightarrow> \<exists>c. h_key h = Some c \<and> c \<in> source_keys (map items (h_iterators h))"
    by (auto simp: h_inv_def)
  then show ?thesis by (auto simp: hier_Valid_def h_rest_def merged_from_Cons)
qed

lemma hier_forward: "forward_iterator (hier_ops ops) h_inv h_items h_rest"
proof
  fix h
  assume h: "h_inv h"
  show "sorted (map fst (h_items h))" by (simp add: h_items_def merged_sorted)
  show "suffix (h_rest h) (h_items h)" by (simp add: h_rest_def h_items_def merged_suffix)
  show "op_Valid (hier_ops ops) h = (h_rest h \<noteq> [])"
    using hier_valid [OF h] by (simp add: hier_ops_def)
  show "op_Key (hier_ops ops) h = Some k \<and> op_Value (hier_ops ops) h = v \<and> op_IsTombstone (hier_ops ops) h = t"
    if "h_rest h = (k, v, t) # r" for k v t r
    using hier_current [OF h that] by (simp add: hier_ops_def)
  show "\<exists>h'. op_SeekToFirst (hier_ops ops) h = Some h' \<and> h_inv h' \<and> h_items h' = h_items h \<and>
      h_rest h' = h_items h"
    using hier_first [OF h] by (simp add: hier_ops_def)
  show "\<exists>h'. op_Next (hier_ops ops) h = Some (h_rest h' \<noteq> [], h') \<and> h_inv h' \<and> h_items h' = h_items h \<and>
      h_rest h' = tl (h_rest h)" if "h_rest h \<noteq> []"
    using hier_next [OF h] by (simp add: hier_ops_def)
qed

end

sublocale iterator \<subseteq> hier: forward_iterator "hier_ops ops" h_inv h_items h_rest
  by (rule hier_forward)

section \<open>Seeking\<close>

context iterator
begin

lemma seek_pass_ok:
  assumes "list_all inv its" and "\<forall>it\<in>set its. \<forall>i\<in>set (rest it). target \<le> fst i" and "best_of done best"
  shows "best_of (done @ its) (seek_pass ops target (length done) its best)"
  using assms
proof (induction its arbitrary: "done" best)
  case Nil
  then show ?case by simp
next
  case (Cons it its)
  then have it: "inv it" by simp
  let ?best = "if op_Valid ops it \<and> \<not> bytes_compare (bytes_of (op_Key ops it)) target < 0
      then improve ops (length done) it best else best"
  have "best_of (done @ [it]) ?best"
  proof (cases "op_Valid ops it")
    case True
    obtain k v t r where "rest it = (k, v, t) # r" "op_Key ops it = Some k"
      by (rule valid_current [OF it True])
    with True Cons.prems it show ?thesis by (auto simp: best_of_improve not_less)
  next
    case False
    with Cons.prems it valid_iff [OF it] show ?thesis by (simp add: best_of_skip)
  qed
  with Cons.IH [of "done @ [it]" ?best] Cons.prems show ?case by simp
qed

lemma hier_seek:
  assumes "h_inv h"
  shows "\<exists>h'. hier_Seek ops target h = Some (h_rest h' \<noteq> [], h') \<and> h_inv h' \<and> h_items h' = h_items h \<and>
    h_rest h' = filter (\<lambda>i. target \<le> fst i) (h_items h)"
proof -
  have inv: "list_all inv (h_iterators h)" using assms by (simp add: h_inv_def)
  let ?f = "\<lambda>is. dropWhile (\<lambda>i. fst i < target) is"
  obtain its where its: "those (map (\<lambda>it. map_option snd (op_Seek ops target it)) (h_iterators h)) = Some its"
    "list_all inv its" "list_all2 (\<lambda>it it'. items it' = items it \<and> rest it' = ?f (items it)) (h_iterators h) its"
    using those_map_ok [OF inv, of "\<lambda>it. map_option snd (op_Seek ops target it)"
        "\<lambda>it it'. items it' = items it \<and> rest it' = ?f (items it)"] seek by fastforce
  have rest: "\<forall>it\<in>set its. rest it = filter (\<lambda>i. target \<le> fst i) (items it)"
  proof
    fix it assume it: "it \<in> set its"
    then have "sorted (map fst (items it))" using its(2) items_sorted by (auto simp: list_all_iff)
    then have "?f (items it) = filter (\<lambda>i. target \<le> fst i) (items it)"
      using sorted_cut(2) [of "items it" "Some target"] by (simp add: from_start_def not_le)
    then show "rest it = filter (\<lambda>i. target \<le> fst i) (items it)"
      using rest_all2 [OF its(3)] it by simp
  qed
  have "best_of its (seek_pass ops target 0 its None)"
    using seek_pass_ok [OF its(2), of target "[]" None] rest by (simp add: best_of_def)
  from settle_ok [OF its(2) this rest, of h] order_trans obtain h' where
    "settle ops its (seek_pass ops target 0 its None) h = (h_rest h' \<noteq> [], h')" "h_inv h'"
    "h_iterators h' = its" "h_rest h' = merged_from (map items its) (\<lambda>k. target \<le> k)" by blast
  with items_all2 [OF its(3)] its(1) show ?thesis
    by (simp add: hier_Seek_def h_items_def merged_from_filter)
qed

text \<open>\<open>SeekToLast\<close>: the greatest of the last keys, at its newest source.\<close>

definition last_of :: "'a list \<Rightarrow> slice \<times> slice \<times> bool \<Rightarrow> bool" where
  "last_of its acc \<longleftrightarrow>
     (case acc of (key, v, found) \<Rightarrow>
        (found \<longleftrightarrow> key \<noteq> None) \<and>
        (case key of
           None \<Rightarrow> \<forall>it\<in>set its. rest it = []
         | Some k \<Rightarrow> \<exists>i<length its. \<exists>t r. rest (its ! i) = (k, v, t) # r \<and>
             (\<forall>it\<in>set its. rest it \<noteq> [] \<longrightarrow> fst (hd (rest it)) \<le> k) \<and>
             (\<forall>it\<in>set (take i its). rest it \<noteq> [] \<longrightarrow> fst (hd (rest it)) < k)))"

lemma last_pass_step:
  assumes "last_of its (key, v, found)" and it: "inv it"
  shows "last_of (its @ [it])
    (if op_Valid ops it \<and> (key = None \<or> bytes_compare (bytes_of (op_Key ops it)) (bytes_of key) > 0)
     then (op_Key ops it, op_Value ops it, True) else (key, v, found))"
proof (cases "op_Valid ops it")
  case False
  then have "rest it = []" using valid_iff [OF it] by simp
  with False assms(1) show ?thesis by (auto simp: last_of_def nth_append split: option.splits)
next
  case True
  obtain k' v' t' r' where r': "rest it = (k', v', t') # r'" "op_Key ops it = Some k'" "op_Value ops it = v'"
    by (rule valid_current [OF it True])
  show ?thesis
  proof (cases key)
    case None
    then show ?thesis using True r' assms(1) by (auto simp: last_of_def)
  next
    case (Some k)
    then obtain i t r where i: "i < length its" "rest (its ! i) = (k, v, t) # r"
      "\<forall>it\<in>set its. rest it \<noteq> [] \<longrightarrow> fst (hd (rest it)) \<le> k"
      "\<forall>it\<in>set (take i its). rest it \<noteq> [] \<longrightarrow> fst (hd (rest it)) < k" and found
      using assms(1) by (auto simp: last_of_def)
    show ?thesis
    proof (cases "k < k'")
      case True
      have "\<forall>it\<in>set its. rest it \<noteq> [] \<longrightarrow> fst (hd (rest it)) < k'"
        using i(3) True by fastforce
      then have "last_of (its @ [it]) (Some k', v', True)"
        using r'(1) by (auto simp: last_of_def intro!: exI [of _ "length its"] order_less_imp_le)
      with True Some r' \<open>op_Valid ops it\<close> show ?thesis by simp
    next
      case False
      then have "last_of (its @ [it]) (Some k, v, True)"
        using r'(1) i by (auto simp: last_of_def nth_append intro!: exI [of _ i])
      with False Some r' \<open>found\<close> show ?thesis by simp
    qed
  qed
qed

lemma last_pass_ok:
  "list_all inv its \<Longrightarrow> last_of done acc \<Longrightarrow> last_of (done @ its) (last_pass ops its acc)"
proof (induction its arbitrary: "done" acc)
  case Nil
  then show ?case by simp
next
  case (Cons it its)
  obtain key v found where acc: "acc = (key, v, found)" by (cases acc)
  from Cons.prems have "inv it" "last_of done (key, v, found)" by (simp_all add: acc)
  from Cons.IH [OF _ last_pass_step [OF this(2,1)]] Cons.prems(1) show ?case by (simp add: acc)
qed

text \<open>The items a source keeps in front of it after \<open>SeekToLast\<close>.\<close>

lemma last_rest:
  assumes "inv it" and "rest it = dropWhile (\<lambda>i. fst i < fst (last (items it))) (items it)"
  shows "rest it = [] \<longleftrightarrow> items it = []"
    and "x \<in> set (items it) \<Longrightarrow> fst x \<le> fst (hd (rest it))"
    and "rest it = filter (\<lambda>i. fst (hd (rest it)) \<le> fst i) (items it)"
proof -
  let ?l = "fst (last (items it))"
  have sorted: "sorted (map fst (items it))" using items_sorted [OF assms(1)] .
  have f: "rest it = filter (\<lambda>i. ?l \<le> fst i) (items it)"
    using assms(2) sorted_cut(2) [OF sorted, of "Some ?l"] by (simp add: from_start_def not_le)
  have mx: "fst x \<le> ?l" if x: "x \<in> set (items it)" for x
  proof -
    have ys: "items it = butlast (items it) @ [last (items it)]" using x by (cases "items it") auto
    then have "sorted (map fst (butlast (items it) @ [last (items it)]))" using sorted by simp
    then have "\<forall>y\<in>set (butlast (items it)). fst y \<le> ?l" by (auto simp: sorted_append)
    moreover have "x \<in> set (butlast (items it) @ [last (items it)])" using x ys by simp
    ultimately show ?thesis by auto
  qed
  have ne: "last (items it) \<in> set (rest it)" if "items it \<noteq> []" using f that by simp
  show nil: "rest it = [] \<longleftrightarrow> items it = []"
  proof
    show "items it = []" if "rest it = []" using ne that by (metis empty_iff empty_set)
  qed (simp add: f)
  have hd: "fst (hd (rest it)) = ?l" if "items it \<noteq> []"
  proof -
    have "hd (rest it) \<in> set (rest it)" using nil that by simp
    then have "?l \<le> fst (hd (rest it))" "hd (rest it) \<in> set (items it)" using f by auto
    with mx show ?thesis by (simp add: antisym)
  qed
  show "fst x \<le> fst (hd (rest it))" if "x \<in> set (items it)" for x
    using hd mx [OF that] that by fastforce
  show "rest it = filter (\<lambda>i. fst (hd (rest it)) \<le> fst i) (items it)"
    using hd f by (cases "items it = []") auto
qed

lemma merged_last:
  assumes "k \<in> source_keys srcs" and "\<And>k'. k' \<in> source_keys srcs \<Longrightarrow> k' \<le> k"
  shows "dropWhile (\<lambda>i. fst i < fst (last (merged srcs))) (merged srcs) = merged_from srcs (\<lambda>x. k \<le> x)"
proof -
  let ?ks = "sorted_list_of_set (source_keys srcs)"
  have ne: "?ks \<noteq> []" using assms(1) by (metis empty_iff finite_source_keys sorted_list_of_set_eq_Nil_iff)
  have "last ?ks \<in> source_keys srcs" using ne by (metis finite_source_keys last_in_set set_sorted_list_of_set)
  moreover have "k \<le> last ?ks"
  proof -
    obtain ys where ys: "?ks = ys @ [last ?ks]" using ne by (metis append_butlast_last_id)
    have "sorted (ys @ [last ?ks])" using ys by (metis sorted_sorted_list_of_set)
    moreover have "k \<in> set (ys @ [last ?ks])"
      using ys assms(1) by (metis finite_source_keys set_sorted_list_of_set)
    ultimately show ?thesis by (auto simp: sorted_append)
  qed
  ultimately have "last ?ks = k" using assms(2) by (simp add: antisym)
  then have "fst (last (merged srcs)) = k"
    using ne by (simp add: merged_def last_map merged_item_def)
  then show ?thesis
    using sorted_cut(2) [OF merged_sorted, of "Some k" srcs]
    by (simp add: merged_from_filter from_start_def not_le)
qed

lemma hier_last:
  assumes "h_inv h"
  shows "\<exists>h'. hier_SeekToLast ops h = Some h' \<and> h_inv h' \<and> h_items h' = h_items h \<and>
    h_rest h' = dropWhile (\<lambda>i. fst i < fst (last (h_items h))) (h_items h)"
proof -
  have inv: "list_all inv (h_iterators h)" using assms by (simp add: h_inv_def)
  let ?f = "\<lambda>is. dropWhile (\<lambda>i. fst i < fst (List.last is)) is"
  obtain its where its: "those (map (op_SeekToLast ops) (h_iterators h)) = Some its"
    "list_all inv its" "list_all2 (\<lambda>it it'. items it' = items it \<and> rest it' = ?f (items it)) (h_iterators h) its"
    using those_map_ok [OF inv, of "op_SeekToLast ops"
        "\<lambda>it it'. items it' = items it \<and> rest it' = ?f (items it)"] last by blast
  note eq = items_all2 [OF its(3)]
  have lr: "inv it" "rest it = ?f (items it)" if "it \<in> set its" for it
    using that its(2) rest_all2 [OF its(3)] by (simp_all add: list_all_iff)
  obtain key v found where acc: "last_pass ops its (None, None, False) = (key, v, found)"
    by (metis prod_cases3)
  have lo: "last_of its (key, v, found)"
    using last_pass_ok [OF its(2), of "[]" "(None, None, False)"] by (simp add: acc last_of_def)
  show ?thesis
  proof (cases key)
    case None
    then have "\<forall>it\<in>set its. items it = []" and "\<not> found"
      using lo last_rest(1) [OF lr] by (auto simp: last_of_def)
    then have "merged (map items its) = []"
      using merged_from_empty [of "map items its" "\<lambda>_. True"]
      by (auto simp: merged_from_all source_keys_def)
    with \<open>\<not> found\<close> its(1,2) eq acc show ?thesis
      by (simp add: hier_SeekToLast_def h_inv_def h_items_def h_rest_def)
  next
    case (Some k)
    then obtain i t r where i: "i < length its" "rest (its ! i) = (k, v, t) # r"
      "\<forall>it\<in>set its. rest it \<noteq> [] \<longrightarrow> fst (hd (rest it)) \<le> k"
      "\<forall>it\<in>set (take i its). rest it \<noteq> [] \<longrightarrow> fst (hd (rest it)) < k" and found: found
      using lo by (auto simp: last_of_def)
    let ?srcs = "map items its"
    have mem: "its ! i \<in> set its" using i(1) by simp
    have fi: "rest (its ! i) = filter (\<lambda>j. k \<le> fst j) (items (its ! i))"
      using last_rest(3) [OF lr [OF mem]] i(2) by simp
    have "map_of (filter (\<lambda>j. k \<le> fst j) (items (its ! i))) k = Some (v, t)"
      using i(2) fi by (metis map_of_Cons_code(2))
    then have first: "map_of (items (its ! i)) k = Some (v, t)"
      using map_of_filter_key [of "\<lambda>x. k \<le> x" k "items (its ! i)"] by simp
    have head: "rest it \<noteq> []" "fst x \<le> fst (hd (rest it))" if "it \<in> set its" "x \<in> set (items it)" for it x
      using last_rest(1,2) [OF lr [OF that(1)]] that(2) by auto
    have upper: "fst x \<le> k" if "it \<in> set its" "x \<in> set (items it)" for it x
      using head [OF that] i(3) that(1) by fastforce
    have none: "k \<notin> fst ` set (?srcs ! j)" if "j < i" for j
    proof
      have it: "its ! j \<in> set (take i its)" "its ! j \<in> set its" "?srcs ! j = items (its ! j)"
        using that i(1) by (metis length_take min.absorb4 nth_mem nth_take) (use that i(1) in simp_all)
      assume "k \<in> fst ` set (?srcs ! j)"
      then obtain x where "x \<in> set (items (its ! j))" "fst x = k" using it(3) by auto
      with head [OF it(2), of x] i(4) it(1) show False by fastforce
    qed
    have "fst (k, v, t) \<in> fst ` set (items (its ! i))" using map_of_SomeD [OF first] by (rule imageI)
    then have "k \<in> fst ` set (?srcs ! i)" using i(1) by simp
    then have key: "k \<in> source_keys ?srcs" using i(1) by (auto simp only: source_keys_nth length_map)
    have "source_value k ?srcs = v"
      using first none i(1) by (intro source_value_nth [of i]) auto
    moreover have "k' \<le> k" if "k' \<in> source_keys ?srcs" for k'
      using that upper by (auto simp: source_keys_def)
    moreover have "filter (\<lambda>j. k < fst j) (rest it) = filter (\<lambda>j. k < fst j) (items it)" if it: "it \<in> set its" for it
    proof -
      obtain zs where zs: "items it = zs @ rest it"
        using rest_suffix [OF lr(1) [OF it]] by (auto simp: suffix_def)
      have "filter (\<lambda>j. k < fst j) (items it) = []"
        using upper [OF it] by (auto simp: filter_empty_conv not_less)
      then show ?thesis unfolding zs by simp
    qed
    ultimately show ?thesis
      using Some found its(1,2) eq acc key merged_last [OF key]
      by (auto simp: hier_SeekToLast_def h_inv_def h_items_def h_rest_def)
  qed
qed

text \<open>So the merging iterator is again an iterator, and can itself be a source.\<close>

lemma hier_iterator: "iterator (hier_ops ops) h_inv h_items h_rest"
proof (rule iterator.intro [OF hier_forward], rule iterator_axioms.intro)
  fix h target
  assume h: "h_inv h"
  have "filter (\<lambda>i. target \<le> fst i) (h_items h) = dropWhile (\<lambda>i. fst i < target) (h_items h)"
    using sorted_cut(2) [OF merged_sorted, of "Some target"] by (simp add: h_items_def from_start_def not_le)
  then show "\<exists>h'. op_Seek (hier_ops ops) target h = Some (h_rest h' \<noteq> [], h') \<and> h_inv h' \<and>
      h_items h' = h_items h \<and> h_rest h' = dropWhile (\<lambda>i. fst i < target) (h_items h)"
    using hier_seek [OF h, of target] by (simp add: hier_ops_def)
  show "\<exists>h'. op_SeekToLast (hier_ops ops) h = Some h' \<and> h_inv h' \<and> h_items h' = h_items h \<and>
      h_rest h' = dropWhile (\<lambda>i. fst i < fst (List.last (h_items h))) (h_items h)"
    using hier_last [OF h] by (simp add: hier_ops_def)
qed

end

end
