(* ===== verification/Mem_Iterator.thy ===== *)
theory Mem_Iterator
  imports Mem_Table Hierarchical
begin

text \<open>
  The memtable's iterator adapter (\<^verbatim>\<open>src/pkg/memtable/iterator_adapter.go\<close>) keeps the promises of the
  iterator interface: it ranges over all entries of the skip list, newest version first within a
  key. Its state is the list it reads and its current node.
\<close>

section \<open>The method table\<close>

type_synonym mem_iter = "skip_list \<times> skip_iter"

definition mem_iter_ops :: "mem_iter iter_ops" where
  "mem_iter_ops =
     \<lparr>op_SeekToFirst = (\<lambda>(s, it). Some (s, adapter_SeekToFirst s it)),
      op_SeekToLast = (\<lambda>(s, it). map_option (\<lambda>it'. (s, it')) (adapter_SeekToLast s it)),
      op_Seek = (\<lambda>target (s, it). map_option (\<lambda>(found, it'). (found, (s, it'))) (adapter_Seek s target it)),
      op_Next = (\<lambda>(s, it). Some (let (ok, it') = adapter_Next s it in (ok, (s, it')))),
      op_Key = (\<lambda>(s, it). adapter_Key s it),
      op_Value = (\<lambda>(s, it). adapter_Value s it),
      op_Valid = (\<lambda>(s, it). adapter_Valid s it),
      op_IsTombstone = (\<lambda>(s, it). adapter_IsTombstone s it)\<rparr>"

definition NewIteratorAdapter :: "mem_table \<Rightarrow> mem_iter" where
  "NewIteratorAdapter m = (mt_list m, mem_NewIterator m)"

section \<open>Positions\<close>

definition entry_item :: "mentry \<Rightarrow> item" where
  "entry_item e = (me_key e, if me_type e = TypeDeletion then None else me_value e, me_type e = TypeDeletion)"

definition mi_items :: "mem_iter \<Rightarrow> item list" where
  "mi_items = (\<lambda>(s, it). map entry_item (skip_entries s))"

definition mi_rest :: "mem_iter \<Rightarrow> item list" where
  "mi_rest = (\<lambda>(s, it). map entry_item (walk (length (sl_nodes s)) s it))"

definition mi_inv :: "mem_iter \<Rightarrow> bool" where
  "mi_inv = (\<lambda>(s, it). \<exists>ps. threaded s ps \<and> (case it of None \<Rightarrow> True | Some p \<Rightarrow> p = head \<or> p \<in> set ps))"

text \<open>On a node of the list the walk gives the entries from there on.\<close>

lemma walk_off [simp]: "walk n s None = []" "walk n s (Some head) = []"
  by (cases n; simp add: iter_Entry_def iter_Valid_def)+

lemma walk_at:
  assumes "threaded s ps" and "ps = xs @ p # ys"
  shows "walk (length (sl_nodes s)) s (Some p) = map (entry_at s) (p # ys)"
    and "linked s 0 p ys" and "iter_Entry s (Some p) = Some (entry_at s p)"
proof -
  have "linked s 0 (last (head # xs)) (p # ys)"
    using threaded_linked0 [OF assms(1)] assms(2) by (intro linked_append) simp
  moreover have nodes: "\<forall>q\<in>set (p # ys). q \<noteq> head \<and> sn_entry (sl_nodes s ! q) \<noteq> None"
    using threaded_nodes [OF assms(1)] assms(2) by auto
  moreover have "length (p # ys) \<le> length (sl_nodes s)"
    using threaded_length [OF assms(1)] assms(2) by simp
  ultimately show "walk (length (sl_nodes s)) s (Some p) = map (entry_at s) (p # ys)" "linked s 0 p ys"
    using walk_linked [of s "last (head # xs)" "p # ys"] by simp_all
  show "iter_Entry s (Some p) = Some (entry_at s p)"
    using nodes by (auto simp: iter_Entry_def iter_Valid_def entry_at_def)
qed

lemma linked_next: "linked s 0 p ys \<Longrightarrow> getNext s p 0 = (case ys of [] \<Rightarrow> None | y # _ \<Rightarrow> Some y)"
  by (cases ys) auto

text \<open>The scan to the end of the list remembers the key of the last node.\<close>

lemma scan_last_linked:
  assumes "threaded s ps" and "ps = xs @ p # ys"
  shows "scan_last s key (Some p) = Some (Some (me_key (entry_at s (last (p # ys)))), None)"
  using assms
proof (induction ys arbitrary: xs p key)
  case Nil
  note at = walk_at [OF Nil]
  have "iter_Valid s (Some p)" "iter_Key s (Some p) = Some (me_key (entry_at s p))"
    using at(3) by (auto simp: iter_Key_def iter_Entry_def split: if_splits)
  moreover have "iter_Next s (Some p) = None" using at(2) by (simp add: iter_Next_def)
  moreover have "scan_last s k None = Some (k, None)" for k
    by (subst scan_last.simps) (simp add: iter_Valid_def)
  ultimately show ?case by (subst scan_last.simps) simp
next
  case (Cons y ys)
  note at = walk_at [OF Cons.prems]
  have "iter_Valid s (Some p)" "iter_Key s (Some p) = Some (me_key (entry_at s p))"
    using at(3) by (auto simp: iter_Key_def iter_Entry_def split: if_splits)
  moreover have "iter_Next s (Some p) = Some y" using at(2) by (simp add: iter_Next_def)
  moreover have "scan_last s (Some (me_key (entry_at s p))) (Some y) =
      Some (Some (me_key (entry_at s (last (y # ys)))), None)"
    using Cons.prems by (intro Cons.IH [of "xs @ [p]"]) simp_all
  ultimately show ?case by (subst scan_last.simps) simp
qed

lemma Seek_position:
  assumes "threaded s ps"
  shows "\<exists>it'. iter_Seek s key it = Some it' \<and> mi_inv (s, it') \<and>
    mi_rest (s, it') = dropWhile (\<lambda>i. fst i < key) (mi_items (s, it))"
proof -
  obtain it' where it': "iter_Seek s key it = Some it'"
    "walk (length (sl_nodes s)) s it' = dropWhile (\<lambda>e. me_key e < key) (map (entry_at s) ps)"
    using Seek_threaded [OF assms] by blast
  let ?below = "\<lambda>x. entry_compare x key < 0"
  obtain prev where "descend s ?below (getCurrentHeight s) head (replicate MaxHeight None) =
      Some (pred_at s ?below ps 0, prev)"
    by (rule search_pred [OF assms downward_key])
  then have "it' = getNext s (pred_at s ?below ps 0) 0"
    using it'(1) by (simp add: iter_Seek_def)
  moreover define ds where "ds = dropWhile (\<lambda>p. ?below (entry_at s p)) ps"
  ultimately have "it' = (case ds of [] \<Rightarrow> None | y # _ \<Rightarrow> Some y)"
    using linked_next [OF search_next [OF assms downward_key, of key]] by simp
  moreover have "set ds \<subseteq> set ps" using set_dropWhileD by (fastforce simp: ds_def)
  ultimately have "case it' of None \<Rightarrow> True | Some p \<Rightarrow> p = head \<or> p \<in> set ps"
    by (cases ds) auto
  with assms it' show ?thesis
    by (auto simp: mi_inv_def mi_rest_def mi_items_def skip_entries_threaded dropWhile_map comp_def
        entry_item_def)
qed

section \<open>The adapter is an iterator\<close>

text \<open>An iterator is off the list or on one of its nodes.\<close>

lemma mi_position:
  assumes "mi_inv (s, it)"
  obtains (off) ps where "threaded s ps" "mi_rest (s, it) = []" "\<not> iter_Valid s it"
  | (at) ps xs p ys where "threaded s ps" "it = Some p" "ps = xs @ p # ys" "iter_Valid s it"
      "mi_rest (s, it) = map entry_item (map (entry_at s) (p # ys))"
proof -
  obtain ps where ps: "threaded s ps" and pos: "case it of None \<Rightarrow> True | Some p \<Rightarrow> p = head \<or> p \<in> set ps"
    using assms by (auto simp: mi_inv_def)
  show thesis
  proof (cases "it = None \<or> it = Some head")
    case True
    then show ?thesis using ps by (intro off) (auto simp: mi_rest_def iter_Valid_def)
  next
    case False
    then obtain p where p: "it = Some p" "p \<noteq> head" "p \<in> set ps" using pos by (cases it) auto
    from split_list [OF p(3)] obtain xs ys where split: "ps = xs @ p # ys" by blast
    with p walk_at(1) [OF ps split] show ?thesis
      by (intro at [OF ps]) (simp_all add: mi_rest_def iter_Valid_def)
  qed
qed

lemma mi_valid: "mi_inv (s, it) \<Longrightarrow> iter_Valid s it \<longleftrightarrow> mi_rest (s, it) \<noteq> []"
  by (erule mi_position) auto

lemma mi_items_threaded: "threaded s ps \<Longrightarrow> mi_items (s, it) = map entry_item (map (entry_at s) ps)"
  by (simp add: mi_items_def skip_entries_threaded)

lemma mi_sorted:
  assumes "mi_inv (s, it)"
  shows "sorted (map fst (mi_items (s, it)))"
proof -
  have "sorted_wrt (\<lambda>a b. \<not> precedes b a) (skip_entries s)"
    using assms skip_wf_sorted by (auto simp: mi_inv_def skip_wf_def version_sorted_def)
  then have "sorted_wrt (\<lambda>a b. me_key a \<le> me_key b) (skip_entries s)"
    by (rule sorted_wrt_mono_rel [rotated]) (auto simp: precedes_iff not_less)
  then show ?thesis by (simp add: mi_items_def sorted_wrt_map entry_item_def comp_def)
qed

lemma mi_suffix:
  assumes "mi_inv (s, it)"
  shows "suffix (mi_rest (s, it)) (mi_items (s, it))"
  using assms by (rule mi_position) (auto simp: mi_items_threaded suffix_def)

lemma mi_current:
  assumes "mi_inv (s, it)" and "mi_rest (s, it) = (k, v, t) # r"
  shows "adapter_Key s it = Some k \<and> adapter_Value s it = v \<and> adapter_IsTombstone s it = t"
  using assms(1)
proof (rule mi_position)
  fix ps xs p ys
  assume at: "threaded s ps" "it = Some p" "ps = xs @ p # ys" "iter_Valid s it"
    "mi_rest (s, it) = map entry_item (map (entry_at s) (p # ys))"
  with assms(2) walk_at(3) [OF at(1,3)] show ?thesis
    by (auto simp: adapter_Valid_def adapter_Key_def adapter_Value_def adapter_IsTombstone_def
        iter_Key_def iter_Value_def iter_IsTombstone_def iter_ValueType_def entry_item_def)
qed (use assms(2) in simp)

lemma mi_first:
  assumes "mi_inv (s, it)"
  shows "mi_inv (s, adapter_SeekToFirst s it) \<and> mi_rest (s, adapter_SeekToFirst s it) = mi_items (s, it)"
proof -
  obtain ps where ps: "threaded s ps" using assms by (auto simp: mi_inv_def)
  have "getNext s head 0 = (case ps of [] \<Rightarrow> None | y # _ \<Rightarrow> Some y)"
    by (rule linked_next [OF threaded_linked0 [OF ps]])
  then have "mi_inv (s, getNext s head 0)"
    using ps by (cases ps) (auto simp: mi_inv_def)
  moreover have "mi_rest (s, getNext s head 0) = mi_items (s, it)"
    by (simp add: mi_rest_def mi_items_def skip_entries_def iter_SeekToFirst_def)
  ultimately show ?thesis by (simp add: adapter_SeekToFirst_def iter_SeekToFirst_def)
qed

lemma mi_next:
  assumes "mi_inv (s, it)"
  shows "\<exists>it'. adapter_Next s it = (mi_rest (s, it') \<noteq> [], it') \<and> mi_inv (s, it') \<and>
    mi_rest (s, it') = tl (mi_rest (s, it))"
  using assms
proof (rule mi_position)
  fix ps
  assume "threaded s ps" "mi_rest (s, it) = []" "\<not> iter_Valid s it"
  with assms show ?thesis by (auto simp: adapter_Next_def adapter_Valid_def)
next
  fix ps xs p ys
  assume at: "threaded s ps" "it = Some p" "ps = xs @ p # ys" "iter_Valid s it"
    "mi_rest (s, it) = map entry_item (map (entry_at s) (p # ys))"
  let ?it' = "getNext s p 0"
  have nx: "?it' = (case ys of [] \<Rightarrow> None | y # _ \<Rightarrow> Some y)"
    using walk_at(2) [OF at(1,3)] by (rule linked_next)
  have rest: "mi_rest (s, ?it') = map entry_item (map (entry_at s) ys)"
  proof (cases ys)
    case (Cons y zs)
    then show ?thesis
      using nx walk_at(1) [OF at(1), of "xs @ [p]" y zs] at(3) by (simp add: mi_rest_def)
  qed (simp add: nx mi_rest_def)
  have inv': "mi_inv (s, ?it')"
    using at(1,3) nx by (cases ys) (auto simp: mi_inv_def)
  with mi_valid have "iter_Valid s ?it' \<longleftrightarrow> mi_rest (s, ?it') \<noteq> []" by blast
  with at(2,4,5) rest inv' show ?thesis
    by (simp add: adapter_Next_def adapter_Valid_def iter_Next_def)
qed

lemma mi_seek:
  assumes "mi_inv (s, it)"
  shows "\<exists>it'. iter_Seek s key it = Some it' \<and> mi_inv (s, it') \<and>
    mi_rest (s, it') = dropWhile (\<lambda>i. fst i < key) (mi_items (s, it))"
  using assms Seek_position by (auto simp: mi_inv_def)

lemma mi_last:
  assumes "mi_inv (s, it)"
  shows "\<exists>it'. adapter_SeekToLast s it = Some it' \<and> mi_inv (s, it') \<and>
    mi_rest (s, it') = dropWhile (\<lambda>i. fst i < fst (last (mi_items (s, it)))) (mi_items (s, it))"
proof -
  obtain ps where ps: "threaded s ps" using assms by (auto simp: mi_inv_def)
  let ?f = "iter_SeekToFirst s it"
  have f: "mi_inv (s, ?f)" "mi_rest (s, ?f) = mi_items (s, it)"
    using mi_first [OF assms] by (simp_all add: adapter_SeekToFirst_def)
  have fst: "?f = (case ps of [] \<Rightarrow> None | y # _ \<Rightarrow> Some y)"
    unfolding iter_SeekToFirst_def by (rule linked_next [OF threaded_linked0 [OF ps]])
  show ?thesis
  proof (cases ps)
    case Nil
    then have "mi_items (s, it) = []" by (simp add: mi_items_threaded [OF ps])
    with f mi_valid [OF f(1)] show ?thesis by (simp add: adapter_SeekToLast_def Let_def)
  next
    case (Cons p ys)
    let ?key = "me_key (entry_at s (last ps))"
    have "scan_last s None ?f = Some (Some ?key, None)"
      using scan_last_linked [OF ps, of "[]" p ys] Cons fst by simp
    moreover have "iter_Valid s ?f"
      using mi_valid [OF f(1)] f(2) Cons by (simp add: mi_items_threaded [OF ps])
    ultimately have "adapter_SeekToLast s it = iter_Seek s ?key None"
      by (simp add: adapter_SeekToLast_def Let_def)
    moreover have "fst (last (mi_items (s, it))) = ?key"
      using Cons by (simp add: mi_items_threaded [OF ps] last_map entry_item_def)
    moreover have "mi_inv (s, None)" using ps by (auto simp: mi_inv_def)
    moreover have "mi_items (s, None) = mi_items (s, it)" by (simp add: mi_items_def)
    ultimately show ?thesis using mi_seek [of s None ?key] by simp
  qed
qed

lemma mi_items_fixed: "mi_items (s, it') = mi_items (s, it)"
  by (simp add: mi_items_def)

interpretation mi: iterator mem_iter_ops mi_inv mi_items mi_rest
proof
  fix st :: mem_iter
  assume inv: "mi_inv st"
  obtain s it where st [simp]: "st = (s, it)" by (cases st)
  note inv = inv [unfolded st]
  show "sorted (map fst (mi_items st))" "suffix (mi_rest st) (mi_items st)"
    using mi_sorted [OF inv] mi_suffix [OF inv] by simp_all
  show "op_Valid mem_iter_ops st = (mi_rest st \<noteq> [])"
    using mi_valid [OF inv] by (simp add: mem_iter_ops_def adapter_Valid_def)
  show "op_Key mem_iter_ops st = Some k \<and> op_Value mem_iter_ops st = v \<and> op_IsTombstone mem_iter_ops st = t"
    if "mi_rest st = (k, v, t) # r" for k v t r
    using mi_current [OF inv] that by (simp add: mem_iter_ops_def)
  show "\<exists>st'. op_SeekToFirst mem_iter_ops st = Some st' \<and> mi_inv st' \<and> mi_items st' = mi_items st \<and>
      mi_rest st' = mi_items st"
    using mi_first [OF inv] by (auto simp: mem_iter_ops_def intro: mi_items_fixed)
  show "\<exists>st'. op_Next mem_iter_ops st = Some (mi_rest st' \<noteq> [], st') \<and> mi_inv st' \<and>
      mi_items st' = mi_items st \<and> mi_rest st' = tl (mi_rest st)"
    using mi_next [OF inv] by (auto simp: mem_iter_ops_def intro: mi_items_fixed)
  show "\<exists>st'. op_Seek mem_iter_ops target st = Some (mi_rest st' \<noteq> [], st') \<and> mi_inv st' \<and>
      mi_items st' = mi_items st \<and> mi_rest st' = dropWhile (\<lambda>i. fst i < target) (mi_items st)" for target
    using mi_seek [OF inv, of target] mi_valid mi_items_fixed
    by (fastforce simp: mem_iter_ops_def adapter_Seek_def)
  show "\<exists>st'. op_SeekToLast mem_iter_ops st = Some st' \<and> mi_inv st' \<and> mi_items st' = mi_items st \<and>
      mi_rest st' = dropWhile (\<lambda>i. fst i < fst (last (mi_items st))) (mi_items st)"
    using mi_last [OF inv] mi_items_fixed by (fastforce simp: mem_iter_ops_def)
qed

end
