(* ===== verification/Tx_Buffer.thy ===== *)
theory Tx_Buffer
  imports Hierarchical "HOL-Library.AList"
begin

text \<open>
  The write buffer of a transaction (\<^verbatim>\<open>src/pkg/transaction/buffer.go\<close>) and its iterator. The Go map
  from key strings to operations is an association list with distinct keys; its order is never
  observed, since every enumeration is sorted first.
\<close>

section \<open>The buffer\<close>

record operation =
  o_Key :: bytes
  o_Value :: slice
  o_IsDelete :: bool

type_synonym buffer = "(bytes \<times> operation) list"

definition NewBuffer :: buffer where
  "NewBuffer = []"

definition buffer_Put :: "bytes \<Rightarrow> slice \<Rightarrow> buffer \<Rightarrow> buffer" where
  "buffer_Put key value b =
     AList.update key \<lparr>o_Key = key, o_Value = Some (bytes_of value), o_IsDelete = False\<rparr> b"

definition buffer_Delete :: "bytes \<Rightarrow> buffer \<Rightarrow> buffer" where
  "buffer_Delete key b = AList.update key \<lparr>o_Key = key, o_Value = None, o_IsDelete = True\<rparr> b"

definition buffer_Get :: "bytes \<Rightarrow> buffer \<Rightarrow> slice \<times> bool" where
  "buffer_Get key b =
     (case map_of b key of
        None \<Rightarrow> (None, False)
      | Some bop \<Rightarrow> if o_IsDelete bop then (None, True) else (Some (bytes_of (o_Value bop)), True))"

definition Operations :: "buffer \<Rightarrow> operation list" where
  "Operations b = sort_key o_Key (map snd b)"

definition buffer_Clear :: "buffer \<Rightarrow> buffer" where
  "buffer_Clear b = []"

definition SizeInBytes :: "buffer \<Rightarrow> int" where
  "SizeInBytes b =
     (\<Sum>(k, bop)\<leftarrow>b. int (length k) + int (length (o_Key bop)) + int (len_slice (o_Value bop)) + 1)"

definition NumberOfQueuedOperations :: "buffer \<Rightarrow> nat" where
  "NumberOfQueuedOperations b = length b"

section \<open>The iterator\<close>

record buffer_iter =
  bf_operations :: "operation list"
  bf_position :: int

definition buffer_NewIterator :: "buffer \<Rightarrow> buffer_iter" where
  "buffer_NewIterator b = \<lparr>bf_operations = Operations b, bf_position = -1\<rparr>"

definition bf_SeekToFirst :: "buffer_iter \<Rightarrow> buffer_iter" where
  "bf_SeekToFirst it = it\<lparr>bf_position := if length (bf_operations it) > 0 then 0 else -1\<rparr>"

definition bf_SeekToLast :: "buffer_iter \<Rightarrow> buffer_iter" where
  "bf_SeekToLast it =
     it\<lparr>bf_position := if length (bf_operations it) > 0 then int (length (bf_operations it)) - 1 else -1\<rparr>"

definition bf_Valid :: "buffer_iter \<Rightarrow> bool" where
  "bf_Valid it \<longleftrightarrow> bf_position it \<ge> 0 \<and> bf_position it < int (length (bf_operations it))"

definition bf_Seek :: "bytes \<Rightarrow> buffer_iter \<Rightarrow> bool \<times> buffer_iter" where
  "bf_Seek target it =
     (if length (bf_operations it) = 0 then (False, it)
      else
        let i = sort_search (\<lambda>i. bytes_compare (o_Key (bf_operations it ! i)) target \<ge> 0) 0
                  (length (bf_operations it))
        in if i \<ge> length (bf_operations it) then (False, it\<lparr>bf_position := -1\<rparr>)
           else (True, it\<lparr>bf_position := int i\<rparr>))"

definition bf_Next :: "buffer_iter \<Rightarrow> bool \<times> buffer_iter" where
  "bf_Next it =
     (if bf_position it < 0 then let it' = bf_SeekToFirst it in (bf_Valid it', it')
      else if bf_position it \<ge> int (length (bf_operations it)) - 1
      then (False, it\<lparr>bf_position := -1\<rparr>)
      else (True, it\<lparr>bf_position := bf_position it + 1\<rparr>))"

definition bf_Key :: "buffer_iter \<Rightarrow> slice" where
  "bf_Key it = (if \<not> bf_Valid it then None else Some (o_Key (bf_operations it ! nat (bf_position it))))"

definition bf_Value :: "buffer_iter \<Rightarrow> slice" where
  "bf_Value it = (if \<not> bf_Valid it then None else o_Value (bf_operations it ! nat (bf_position it)))"

definition bf_IsTombstone :: "buffer_iter \<Rightarrow> bool" where
  "bf_IsTombstone it = (if \<not> bf_Valid it then False else o_IsDelete (bf_operations it ! nat (bf_position it)))"

definition buffer_iter_ops :: "buffer_iter iter_ops" where
  "buffer_iter_ops =
     \<lparr>op_SeekToFirst = (\<lambda>it. Some (bf_SeekToFirst it)), op_SeekToLast = (\<lambda>it. Some (bf_SeekToLast it)),
      op_Seek = (\<lambda>target it. Some (bf_Seek target it)), op_Next = (\<lambda>it. Some (bf_Next it)),
      op_Key = bf_Key, op_Value = bf_Value, op_Valid = bf_Valid, op_IsTombstone = bf_IsTombstone\<rparr>"

section \<open>The buffer as a map\<close>

definition buffer_wf :: "buffer \<Rightarrow> bool" where
  "buffer_wf b \<longleftrightarrow> distinct (map fst b) \<and>
     (\<forall>(k, bop)\<in>set b. o_Key bop = k \<and> (o_IsDelete bop \<longleftrightarrow> o_Value bop = None))"

text \<open>The abstract buffer: \<open>Some None\<close> is a pending delete.\<close>

definition pending :: "buffer \<Rightarrow> bytes \<rightharpoonup> slice" where
  "pending b = (\<lambda>k. map_option o_Value (map_of b k))"

lemma NewBuffer_wf: "buffer_wf NewBuffer"
  by (simp add: buffer_wf_def NewBuffer_def)

lemma update_wf:
  assumes "buffer_wf b" and "o_Key bop = key" and "o_IsDelete bop \<longleftrightarrow> o_Value bop = None"
  shows "buffer_wf (AList.update key bop b)"
proof -
  have sub: "set (AList.update key bop b) \<subseteq> insert (key, bop) (set b)"
    by (induction b) (auto split: if_splits)
  have all: "\<forall>(k, x)\<in>insert (key, bop) (set b). o_Key x = k \<and> (o_IsDelete x \<longleftrightarrow> o_Value x = None)"
    using assms unfolding buffer_wf_def by simp
  have "\<forall>(k, x)\<in>set (AList.update key bop b). o_Key x = k \<and> (o_IsDelete x \<longleftrightarrow> o_Value x = None)"
    by (rule ballI) (rule bspec [OF all], rule subsetD [OF sub])
  with assms(1) show ?thesis unfolding buffer_wf_def by (simp add: distinct_update)
qed

lemma buffer_Put_wf: "buffer_wf b \<Longrightarrow> buffer_wf (buffer_Put key v b)"
  and buffer_Delete_wf: "buffer_wf b \<Longrightarrow> buffer_wf (buffer_Delete key b)"
  by (simp_all add: buffer_Put_def buffer_Delete_def update_wf)

lemma pending_Put: "pending (buffer_Put key v b) = (pending b)(key \<mapsto> Some (bytes_of v))"
  and pending_Delete: "pending (buffer_Delete key b) = (pending b)(key \<mapsto> None)"
  by (auto simp: pending_def buffer_Put_def buffer_Delete_def update_conv)

lemma buffer_Get_pending:
  assumes "buffer_wf b"
  shows "buffer_Get key b = (case pending b key of None \<Rightarrow> (None, False) | Some v \<Rightarrow> (v, True))"
proof (cases "map_of b key")
  case (Some bop)
  with assms have "o_IsDelete bop \<longleftrightarrow> o_Value bop = None"
    by (auto simp: buffer_wf_def dest!: map_of_SomeD)
  with Some show ?thesis by (auto simp: buffer_Get_def pending_def)
qed (simp add: buffer_Get_def pending_def)

text \<open>The sorted operations: one per key, in strictly increasing key order.\<close>

lemma Operations_sorted:
  assumes "buffer_wf b"
  shows "sorted_wrt (\<lambda>x y. o_Key x < o_Key y) (Operations b)"
proof -
  have "map o_Key (map snd b) = map fst b"
    using assms by (auto simp: buffer_wf_def)
  then have "distinct (map o_Key (map snd b))"
    using assms unfolding buffer_wf_def by metis
  then have "distinct (map o_Key (Operations b))"
    unfolding Operations_def by (metis distinct_map distinct_sort set_sort)
  moreover have "sorted (map o_Key (Operations b))" by (simp add: Operations_def)
  ultimately have "sorted_wrt (<) (map o_Key (Operations b))" unfolding strict_sorted_iff by blast
  then show ?thesis by (simp add: sorted_wrt_map)
qed

lemma Operations_set:
  assumes "buffer_wf b"
  shows "bop \<in> set (Operations b) \<longleftrightarrow> pending b (o_Key bop) = Some (o_Value bop) \<and>
    (o_IsDelete bop \<longleftrightarrow> o_Value bop = None)"
proof -
  have "bop \<in> set (Operations b) \<longleftrightarrow> (o_Key bop, bop) \<in> set b"
    using assms by (force simp: Operations_def buffer_wf_def)
  also have "\<dots> \<longleftrightarrow> map_of b (o_Key bop) = Some bop"
    using assms by (auto simp: buffer_wf_def)
  also have "\<dots> \<longleftrightarrow> pending b (o_Key bop) = Some (o_Value bop) \<and> (o_IsDelete bop \<longleftrightarrow> o_Value bop = None)"
    (is "?l \<longleftrightarrow> ?r")
  proof
    show ?l if r: ?r
    proof -
      obtain x where x: "map_of b (o_Key bop) = Some x" "o_Value x = o_Value bop"
        using r by (auto simp: pending_def)
      moreover have "o_Key x = o_Key bop" "o_IsDelete x \<longleftrightarrow> o_Value x = None"
        using assms x(1) by (auto simp: buffer_wf_def dest!: map_of_SomeD)
      ultimately show ?thesis using r by (cases x; cases bop) auto
    qed
    show ?r if ?l
      using that assms by (auto simp: pending_def buffer_wf_def dest!: map_of_SomeD)
  qed
  finally show ?thesis .
qed

section \<open>The buffer iterator is an iterator\<close>

definition operation_item :: "operation \<Rightarrow> item" where
  "operation_item bop = (o_Key bop, o_Value bop, o_IsDelete bop)"

definition bf_items :: "buffer_iter \<Rightarrow> item list" where
  "bf_items it = map operation_item (bf_operations it)"

definition bf_rest :: "buffer_iter \<Rightarrow> item list" where
  "bf_rest it = (if bf_position it < 0 then [] else drop (nat (bf_position it)) (bf_items it))"

definition bf_inv :: "buffer_iter \<Rightarrow> bool" where
  "bf_inv it \<longleftrightarrow> sorted (map o_Key (bf_operations it)) \<and> distinct (map o_Key (bf_operations it))"

lemma bf_items_simps [simp]:
  "bf_items (it\<lparr>bf_position := p\<rparr>) = bf_items it" "bf_inv (it\<lparr>bf_position := p\<rparr>) = bf_inv it"
  "length (bf_items it) = length (bf_operations it)"
  by (simp_all add: bf_items_def bf_inv_def)

lemma bf_valid: "bf_Valid it \<longleftrightarrow> bf_rest it \<noteq> []"
  by (auto simp: bf_Valid_def bf_rest_def)

lemma bf_current:
  assumes "bf_rest it = (k, v, t) # r"
  shows "bf_Key it = Some k \<and> bf_Value it = v \<and> bf_IsTombstone it = t"
proof -
  have v: "bf_Valid it" using assms by (simp add: bf_valid)
  then have "bf_items it ! nat (bf_position it) = (k, v, t)"
    using assms by (metis bf_rest_def bf_Valid_def bf_items_simps(3) hd_drop_conv_nth list.sel(1) linorder_not_less nat_less_iff)
  with v show ?thesis
    by (simp add: bf_Key_def bf_Value_def bf_IsTombstone_def bf_items_def operation_item_def bf_Valid_def nat_less_iff)
qed

lemma bf_next:
  assumes "bf_rest it \<noteq> []"
  shows "\<exists>it'. bf_Next it = (bf_rest it' \<noteq> [], it') \<and> bf_inv it' = bf_inv it \<and> bf_items it' = bf_items it \<and>
    bf_rest it' = tl (bf_rest it)"
proof -
  have v: "0 \<le> bf_position it" "bf_position it < int (length (bf_operations it))"
    using assms by (auto simp: bf_valid [symmetric] bf_Valid_def)
  then have "nat (bf_position it + 1) = Suc (nat (bf_position it))" by simp
  moreover have "tl (drop (nat (bf_position it)) (bf_items it)) = drop (Suc (nat (bf_position it))) (bf_items it)"
    by (simp add: drop_Suc tl_drop)
  ultimately show ?thesis using v
    by (auto simp: bf_Next_def bf_rest_def)
qed

lemma bf_seek:
  assumes "bf_inv it"
  shows "\<exists>it'. bf_Seek target it = (bf_rest it' \<noteq> [], it') \<and> bf_inv it' \<and> bf_items it' = bf_items it \<and>
    bf_rest it' = dropWhile (\<lambda>i. fst i < target) (bf_items it)"
proof (cases "length (bf_operations it) = 0")
  case True
  then show ?thesis using assms by (auto simp: bf_Seek_def bf_rest_def bf_items_def)
next
  case False
  define n where "n = length (takeWhile (\<lambda>i. fst i < target) (bf_items it))"
  have "sorted_wrt (\<lambda>x y. o_Key x \<le> o_Key y) (bf_operations it)"
    using assms by (simp add: bf_inv_def sorted_wrt_map)
  then have "sort_search (\<lambda>i. target \<le> o_Key (bf_operations it ! i)) 0 (length (bf_operations it)) =
      length (takeWhile (\<lambda>x. \<not> target \<le> o_Key x) (bf_operations it))"
    by (rule sort_search_takeWhile) auto
  also have "\<dots> = n"
    by (simp add: n_def bf_items_def takeWhile_map comp_def operation_item_def not_le)
  finally have s: "sort_search (\<lambda>i. target \<le> o_Key (bf_operations it ! i)) 0 (length (bf_operations it)) = n" .
  have d: "dropWhile (\<lambda>i. fst i < target) (bf_items it) = drop n (bf_items it)"
    by (simp add: n_def dropWhile_eq_drop)
  show ?thesis
    unfolding d using assms False s by (auto simp: bf_Seek_def bf_rest_def Let_def)
qed

lemma bf_last:
  assumes "bf_inv it"
  shows "bf_rest (bf_SeekToLast it) = dropWhile (\<lambda>i. fst i < fst (last (bf_items it))) (bf_items it)"
proof (cases "bf_operations it" rule: rev_cases)
  case Nil
  then show ?thesis by (simp add: bf_SeekToLast_def bf_rest_def bf_items_def)
next
  case (snoc ys y)
  have "\<forall>x\<in>set ys. o_Key x < o_Key y"
    using assms snoc by (auto simp: bf_inv_def sorted_append less_le image_iff)
  then have "dropWhile (\<lambda>i. fst i < o_Key y) (map operation_item ys @ [operation_item y]) = [operation_item y]"
    by (subst dropWhile_append2) (auto simp: operation_item_def)
  then show ?thesis
    using snoc by (simp add: bf_SeekToLast_def bf_rest_def bf_items_def operation_item_def)
qed

interpretation buf: iterator buffer_iter_ops bf_inv bf_items bf_rest
proof
  fix it
  assume it: "bf_inv it"
  show "sorted (map fst (bf_items it))"
    using it by (simp add: bf_inv_def bf_items_def operation_item_def comp_def)
  show "suffix (bf_rest it) (bf_items it)"
    by (simp add: bf_rest_def suffix_drop)
  show "op_Valid buffer_iter_ops it = (bf_rest it \<noteq> [])"
    by (simp add: buffer_iter_ops_def bf_valid)
  show "op_Key buffer_iter_ops it = Some k \<and> op_Value buffer_iter_ops it = v \<and> op_IsTombstone buffer_iter_ops it = t"
    if "bf_rest it = (k, v, t) # r" for k v t r
    using bf_current [OF that] by (simp add: buffer_iter_ops_def)
  show "\<exists>it'. op_SeekToFirst buffer_iter_ops it = Some it' \<and> bf_inv it' \<and> bf_items it' = bf_items it \<and>
      bf_rest it' = bf_items it"
    using it by (auto simp: buffer_iter_ops_def bf_SeekToFirst_def bf_rest_def) (simp add: bf_items_def)
  show "\<exists>it'. op_Next buffer_iter_ops it = Some (bf_rest it' \<noteq> [], it') \<and> bf_inv it' \<and>
      bf_items it' = bf_items it \<and> bf_rest it' = tl (bf_rest it)" if "bf_rest it \<noteq> []"
    using bf_next [OF that] it by (auto simp: buffer_iter_ops_def)
  show "\<exists>it'. op_Seek buffer_iter_ops target it = Some (bf_rest it' \<noteq> [], it') \<and> bf_inv it' \<and>
      bf_items it' = bf_items it \<and> bf_rest it' = dropWhile (\<lambda>i. fst i < target) (bf_items it)" for target
    using bf_seek [OF it] by (auto simp: buffer_iter_ops_def)
  show "\<exists>it'. op_SeekToLast buffer_iter_ops it = Some it' \<and> bf_inv it' \<and> bf_items it' = bf_items it \<and>
      bf_rest it' = dropWhile (\<lambda>i. fst i < fst (last (bf_items it))) (bf_items it)"
    using bf_last [OF it] it by (auto simp: buffer_iter_ops_def bf_SeekToLast_def)
qed

end
