(* ===== verification/Iter_Factory.thy ===== *)
theory Iter_Factory
  imports Mem_Correct Mem_Iterator Tx_Buffer
begin

text \<open>
  The iterators of the engine (\<^verbatim>\<open>src/pkg/engine/iterator/factory.go\<close>): a merging iterator over the
  memtables and the sstables, and the same limited to a range. Sources of different kinds live in
  one list, so a source is a value of a sum type whose methods dispatch on the kind. Sstable
  iterators enter through their method table \<open>sst_ops\<close>.
\<close>

section \<open>Sources of two kinds\<close>

definition sum_ops :: "'a iter_ops \<Rightarrow> 'b iter_ops \<Rightarrow> ('a + 'b) iter_ops" where
  "sum_ops oa ob =
     \<lparr>op_SeekToFirst = case_sum (map_option Inl \<circ> op_SeekToFirst oa) (map_option Inr \<circ> op_SeekToFirst ob),
      op_SeekToLast = case_sum (map_option Inl \<circ> op_SeekToLast oa) (map_option Inr \<circ> op_SeekToLast ob),
      op_Seek = (\<lambda>t. case_sum (map_option (map_prod id Inl) \<circ> op_Seek oa t)
                              (map_option (map_prod id Inr) \<circ> op_Seek ob t)),
      op_Next = case_sum (map_option (map_prod id Inl) \<circ> op_Next oa)
                         (map_option (map_prod id Inr) \<circ> op_Next ob),
      op_Key = case_sum (op_Key oa) (op_Key ob), op_Value = case_sum (op_Value oa) (op_Value ob),
      op_Valid = case_sum (op_Valid oa) (op_Valid ob),
      op_IsTombstone = case_sum (op_IsTombstone oa) (op_IsTombstone ob)\<rparr>"

locale two_forward =
  A: forward_iterator oa ia ja ra + B: forward_iterator ob ib jb rb
  for oa :: "'a iter_ops" and ia ja ra and ob :: "'b iter_ops" and ib jb rb
begin

lemma sum_forward: "forward_iterator (sum_ops oa ob) (case_sum ia ib) (case_sum ja jb) (case_sum ra rb)"
proof
  fix s
  assume s: "case_sum ia ib s"
  show "sorted (map fst (case_sum ja jb s))" "suffix (case_sum ra rb s) (case_sum ja jb s)"
    using s by (cases s; simp add: A.items_sorted A.rest_suffix B.items_sorted B.rest_suffix)+
  show "op_Valid (sum_ops oa ob) s = (case_sum ra rb s \<noteq> [])"
    using s by (cases s) (simp_all add: sum_ops_def A.valid_iff B.valid_iff)
  show "op_Key (sum_ops oa ob) s = Some k \<and> op_Value (sum_ops oa ob) s = v \<and> op_IsTombstone (sum_ops oa ob) s = t"
    if "case_sum ra rb s = (k, v, t) # r" for k v t r
    using s that A.current B.current by (cases s) (auto simp: sum_ops_def)
  show "\<exists>s'. op_SeekToFirst (sum_ops oa ob) s = Some s' \<and> case_sum ia ib s' \<and>
      case_sum ja jb s' = case_sum ja jb s \<and> case_sum ra rb s' = case_sum ja jb s"
    using s A.first B.first by (cases s) (fastforce simp: sum_ops_def)+
  show "\<exists>s'. op_Next (sum_ops oa ob) s = Some (case_sum ra rb s' \<noteq> [], s') \<and> case_sum ia ib s' \<and>
      case_sum ja jb s' = case_sum ja jb s \<and> case_sum ra rb s' = tl (case_sum ra rb s)"
    if "case_sum ra rb s \<noteq> []"
    using s that A.step B.step by (cases s) (fastforce simp: sum_ops_def)+
qed

end

locale two_iterators =
  A: iterator oa ia ja ra + B: iterator ob ib jb rb
  for oa :: "'a iter_ops" and ia ja ra and ob :: "'b iter_ops" and ib jb rb

sublocale two_iterators \<subseteq> both: two_forward ..

context two_iterators
begin

lemma sum_iterator: "iterator (sum_ops oa ob) (case_sum ia ib) (case_sum ja jb) (case_sum ra rb)"
proof (rule iterator.intro [OF both.sum_forward], unfold_locales)
  fix s
  assume s: "case_sum ia ib s"
  show "\<exists>s'. op_Seek (sum_ops oa ob) target s = Some (case_sum ra rb s' \<noteq> [], s') \<and> case_sum ia ib s' \<and>
      case_sum ja jb s' = case_sum ja jb s \<and>
      case_sum ra rb s' = dropWhile (\<lambda>i. fst i < target) (case_sum ja jb s)" for target
    using s A.seek [of _ target] B.seek [of _ target] by (cases s) (fastforce simp: sum_ops_def)+
  show "\<exists>s'. op_SeekToLast (sum_ops oa ob) s = Some s' \<and> case_sum ia ib s' \<and>
      case_sum ja jb s' = case_sum ja jb s \<and>
      case_sum ra rb s' = dropWhile (\<lambda>i. fst i < fst (last (case_sum ja jb s))) (case_sum ja jb s)"
    using s A.last B.last by (cases s) (fastforce simp: sum_ops_def)+
qed

end

section \<open>The factory\<close>

text \<open>The empty iterator is \<open>None\<close>.\<close>

definition base_ops :: "'s iter_ops \<Rightarrow> 's option iter_ops" where
  "base_ops ops =
     \<lparr>op_SeekToFirst = case_option (Some None) (map_option Some \<circ> op_SeekToFirst ops),
      op_SeekToLast = case_option (Some None) (map_option Some \<circ> op_SeekToLast ops),
      op_Seek = (\<lambda>t. case_option (Some (False, None)) (map_option (map_prod id Some) \<circ> op_Seek ops t)),
      op_Next = case_option (Some (False, None)) (map_option (map_prod id Some) \<circ> op_Next ops),
      op_Key = case_option None (op_Key ops), op_Value = case_option None (op_Value ops),
      op_Valid = case_option False (op_Valid ops),
      op_IsTombstone = case_option False (op_IsTombstone ops)\<rparr>"

type_synonym 'i engine_iter = "(mem_iter + 'i) hier option"

definition createBaseIterator :: "mem_table list \<Rightarrow> 'i list \<Rightarrow> 'i engine_iter" where
  "createBaseIterator memTables ssTables =
     (if length memTables = 0 \<and> length ssTables = 0 then None
      else Some (NewHierarchicalIterator
             (map (\<lambda>mt. Inl (NewIteratorAdapter mt)) memTables @ map Inr (rev ssTables))))"

definition CreateIterator :: "mem_table list \<Rightarrow> 'i list \<Rightarrow> 'i engine_iter" where
  "CreateIterator memTables ssTables = createBaseIterator memTables ssTables"

definition CreateRangeIterator :: "mem_table list \<Rightarrow> 'i list \<Rightarrow> slice \<Rightarrow> slice \<Rightarrow> 'i engine_iter bounded" where
  "CreateRangeIterator memTables ssTables startKey endKey =
     NewBoundedIterator (createBaseIterator memTables ssTables) startKey endKey"

definition engine_ops :: "'i iter_ops \<Rightarrow> 'i engine_iter iter_ops" where
  "engine_ops sst_ops = base_ops (hier_ops (sum_ops mem_iter_ops sst_ops))"

context forward_iterator
begin

definition o_inv :: "'s option \<Rightarrow> bool" where "o_inv = case_option True inv"
definition o_items :: "'s option \<Rightarrow> item list" where "o_items = case_option [] items"
definition o_rest :: "'s option \<Rightarrow> item list" where "o_rest = case_option [] rest"

lemmas base_defs = o_inv_def o_items_def o_rest_def base_ops_def

lemma base_forward: "forward_iterator (base_ops ops) o_inv o_items o_rest"
proof
  fix s
  assume s: "o_inv s"
  show "sorted (map fst (o_items s))" "suffix (o_rest s) (o_items s)"
    using s by (cases s; simp add: base_defs items_sorted rest_suffix)+
  show "op_Valid (base_ops ops) s = (o_rest s \<noteq> [])"
    using s by (cases s) (simp_all add: base_defs valid_iff)
  show "op_Key (base_ops ops) s = Some k \<and> op_Value (base_ops ops) s = v \<and> op_IsTombstone (base_ops ops) s = t"
    if "o_rest s = (k, v, t) # r" for k v t r
    using s that current by (cases s) (auto simp: base_defs)
  show "\<exists>s'. op_SeekToFirst (base_ops ops) s = Some s' \<and> o_inv s' \<and> o_items s' = o_items s \<and>
      o_rest s' = o_items s"
    using s first by (cases s) (fastforce simp: base_defs)+
  show "\<exists>s'. op_Next (base_ops ops) s = Some (o_rest s' \<noteq> [], s') \<and> o_inv s' \<and> o_items s' = o_items s \<and>
      o_rest s' = tl (o_rest s)" if "o_rest s \<noteq> []"
    using s that step by (cases s) (fastforce simp: base_defs)+
qed

end

context iterator
begin

lemma base_iterator: "iterator (base_ops ops) o_inv o_items o_rest"
proof (rule iterator.intro [OF base_forward], unfold_locales)
  fix s
  assume s: "o_inv s"
  show "\<exists>s'. op_Seek (base_ops ops) target s = Some (o_rest s' \<noteq> [], s') \<and> o_inv s' \<and>
      o_items s' = o_items s \<and> o_rest s' = dropWhile (\<lambda>i. fst i < target) (o_items s)" for target
    using s seek [of _ target] by (cases s) (fastforce simp: base_defs)+
  show "\<exists>s'. op_SeekToLast (base_ops ops) s = Some s' \<and> o_inv s' \<and> o_items s' = o_items s \<and>
      o_rest s' = dropWhile (\<lambda>i. fst i < fst (List.last (o_items s))) (o_items s)"
    using s last by (cases s) (fastforce simp: base_defs)+
qed

end

section \<open>Scanning the memtables\<close>

definition table_items :: "mem_table \<Rightarrow> item list" where
  "table_items m = map entry_item (table_entries m)"

text \<open>The laws of an iterator with no states, for the kind of source that does not occur.\<close>

lemma no_iterator: "iterator ops (\<lambda>_. False) (\<lambda>_. []) (\<lambda>_. [])"
  by unfold_locales simp_all

interpretation msrc: two_iterators mem_iter_ops mi_inv mi_items mi_rest buffer_iter_ops bf_inv bf_items bf_rest
  by (intro two_iterators.intro mi.iterator_axioms buf.iterator_axioms)

lemma mem_sum_iterator:
  "iterator (sum_ops mem_iter_ops sst_ops) (case_sum mi_inv (\<lambda>_. False)) (case_sum mi_items (\<lambda>_. []))
     (case_sum mi_rest (\<lambda>_. []))"
  by (rule two_iterators.sum_iterator [OF two_iterators.intro [OF mi.iterator_axioms no_iterator]])

lemma adapter_inv:
  assumes "table_wf m"
  shows "mi_inv (NewIteratorAdapter m)" and "mi_items (NewIteratorAdapter m) = table_items m"
  using assms by (auto simp: mi_inv_def mi_items_def NewIteratorAdapter_def mem_NewIterator_def
      NewIterator_def table_wf_def skip_wf_def table_items_def table_entries_def)

lemma engine_iterator:
  fixes sst_ops :: "'i iter_ops"
  obtains i j r where "iterator (engine_ops sst_ops) i j r"
    and "\<And>ms. list_all table_wf ms \<Longrightarrow>
      i (createBaseIterator ms ([] :: 'i list)) \<and> j (createBaseIterator ms ([] :: 'i list)) = merged (map table_items ms)"
proof -
  note S = mem_sum_iterator [of sst_ops]
  note F = iterator.axioms(1) [OF S]
  note H = iterator.hier_iterator [OF S]
  note HF = iterator.axioms(1) [OF H]
  note B = iterator.base_iterator [OF H]
  show thesis
  proof (rule that [OF B [folded engine_ops_def]])
    fix ms
    assume ms: "list_all table_wf ms"
    let ?its = "map (\<lambda>mt. Inl (NewIteratorAdapter mt)) ms :: (mem_iter + 'i) list"
    have inv: "list_all (case_sum mi_inv (\<lambda>_. False)) ?its"
      using ms adapter_inv(1) by (auto simp: list_all_iff)
    have items: "map (case_sum mi_items (\<lambda>_. [])) ?its = map table_items ms"
      using ms adapter_inv(2) by (auto simp: list_all_iff)
    show "forward_iterator.o_inv (forward_iterator.h_inv (case_sum mi_inv (\<lambda>_. False)) (case_sum mi_items (\<lambda>_. []))
          (case_sum mi_rest (\<lambda>_. []))) (createBaseIterator ms ([] :: 'i list)) \<and>
        forward_iterator.o_items (forward_iterator.h_items (case_sum mi_items (\<lambda>_. []))) (createBaseIterator ms ([] :: 'i list)) =
          merged (map table_items ms)"
      using inv items
      by (cases "ms = []")
         (simp_all add: forward_iterator.o_inv_def [OF HF] forward_iterator.o_items_def [OF HF] createBaseIterator_def
          forward_iterator.h_inv_def [OF F] forward_iterator.h_items_def [OF F] NewHierarchicalIterator_def
          del: map_map)
  qed
qed

text \<open>Reading the tables of a list one after the other finds what the scan shows.\<close>

lemma table_items_lookup:
  "map_of (table_items m) key =
     map_option (\<lambda>e. snd (entry_item e)) (lookup_version key (table_entries m))"
proof -
  have "map_of (map entry_item es) key = map_option (\<lambda>e. snd (entry_item e)) (lookup_version key es)" for es
    by (induction es) (auto simp: entry_item_def)
  then show ?thesis by (simp add: table_items_def)
qed

lemma tables_Get_source:
  "list_all table_wf ms \<Longrightarrow>
     tables_Get key ms = Some (source_value key (map table_items ms), key \<in> source_keys (map table_items ms))"
proof (induction ms)
  case Nil
  then show ?case by (simp add: source_keys_def)
next
  case (Cons m ms)
  have "key \<in> fst ` set (table_items m) \<longleftrightarrow> lookup_version key (table_entries m) \<noteq> None"
    using table_items_lookup [of m key] map_of_eq_None_iff [of "table_items m" key] by auto
  with Cons show ?case
    by (auto simp: mem_Get_ok table_items_lookup answer_def entry_item_def source_keys_def
        split: option.splits)
qed

text \<open>
  Scans and point reads agree: the scan of a list of tables shows a key with a value exactly
  when reading the tables in the same order finds the key with that value.
\<close>

lemma scan_agrees_with_get:
  assumes "list_all table_wf ms"
  shows "(k, v, t) \<in> set (merged (map table_items ms)) \<longleftrightarrow>
    tables_Get k ms = Some (v, True) \<and> t = (v = None)"
  using tables_Get_source [OF assms, of k] by (auto simp: merged_def merged_item_def)

section \<open>Scanning a range\<close>

text \<open>
  C26: a range iterator over memtables alone, while there are no tables on disk, visits exactly the part of the
  full scan with keys from the start key (inclusive) to the end key (exclusive); a missing bound does not limit it.
  (With tables it is false: \<open>Seek\<close> in a table can skip or repeat entries.)
\<close>

theorem engine_range_scan:
  assumes "list_all table_wf ms" and "length (merged (map table_items ms)) \<le> n"
  shows "\<exists>it. op_SeekToFirst (bounded_ops (engine_ops sst_ops)) (CreateRangeIterator ms [] startKey endKey) = Some it \<and>
    iter_collect (bounded_ops (engine_ops sst_ops)) n it =
      Some (filter (\<lambda>(k, v, t). (startKey \<noteq> None \<longrightarrow> the startKey \<le> k) \<and> (endKey \<noteq> None \<longrightarrow> k < the endKey))
        (merged (map table_items ms)))"
proof -
  obtain i j r where it: "iterator (engine_ops sst_ops) i j r"
    and ms: "i (createBaseIterator ms [])" "j (createBaseIterator ms []) = merged (map table_items ms)"
    by (rule engine_iterator) (use assms(1) in blast)
  note F = iterator.bounded_forward [OF it]
  let ?b = "CreateRangeIterator ms [] startKey endKey"
  have b: "iterator.b_inv i ?b"
    using ms(1) by (simp add: iterator.b_inv_def [OF it] CreateRangeIterator_def NewBoundedIterator_def)
  obtain b' where b': "op_SeekToFirst (bounded_ops (engine_ops sst_ops)) ?b = Some b'" "iterator.b_inv i b'"
    "iterator.b_rest r b' = iterator.b_items j ?b"
    using forward_iterator.first [OF F b] by auto
  have items: "iterator.b_items j ?b = range_items startKey endKey (merged (map table_items ms))"
    using ms(2) by (simp add: iterator.b_items_def [OF it] CreateRangeIterator_def NewBoundedIterator_def)
  also have "\<dots> = filter (\<lambda>(k, v, t). (startKey \<noteq> None \<longrightarrow> the startKey \<le> k) \<and> (endKey \<noteq> None \<longrightarrow> k < the endKey))
        (merged (map table_items ms))"
    unfolding range_items_def
    by (intro filter_cong) (auto simp: in_bounds_def from_start_def before_end_def split: option.splits)
  finally have "iterator.b_rest r b' = filter (\<lambda>(k, v, t). (startKey \<noteq> None \<longrightarrow> the startKey \<le> k) \<and>
      (endKey \<noteq> None \<longrightarrow> k < the endKey)) (merged (map table_items ms))" (is "_ = ?range")
    using b'(3) by simp
  moreover have "length ?range \<le> n" using assms(2) length_filter_le order_trans by blast
  ultimately show ?thesis
    using forward_iterator.iter_collect_rest [OF F b'(2), of n] b'(1) by simp
qed

text \<open>A table with three keys, for the witnesses.\<close>

definition sample_writes :: "mentry list" where
  "sample_writes = [newEntry [98] (Some [1]) TypeValue 1, newEntry [100] (Some [2]) TypeValue 2,
     newEntry [102] None TypeDeletion 3]"

lemma sample_table:
  obtains m where "run_all mem_write sample_writes (NewMemTable (\<lambda>_. False) 0) = Some m" "table_wf m"
    "table_items m = [([98], Some [1], False), ([100], Some [2], False), ([102], None, True)]"
    "merged (map table_items [m]) = [([98], Some [1], False), ([100], Some [2], False), ([102], None, True)]"
proof -
  obtain m where m: "run_all mem_write sample_writes (NewMemTable (\<lambda>_. False) 0) = Some m" "holds m sample_writes"
    using holds_writes [OF holds_new [of "\<lambda>_. False" 0], of sample_writes] by (auto simp: sample_writes_def)
  have items: "table_items m = [([98], Some [1], False), ([100], Some [2], False), ([102], None, True)]"
    using m(2) by (simp add: holds_def table_items_def sample_writes_def newEntry_def precedes_iff entry_item_def)
  moreover have "sorted_list_of_set {[98 :: byte], [100], [102]} = [[98], [100], [102]]"
    by (simp add: sorted_list_of_set_insert)
  ultimately have "merged (map table_items [m]) = [([98], Some [1], False), ([100], Some [2], False), ([102], None, True)]"
    by (simp add: merged_def source_keys_def merged_item_def)
  with m items show thesis by (intro that) (auto simp: holds_def)
qed

theorem engine_range_scan_witness:
  "\<exists>m it. run_all mem_write sample_writes (NewMemTable (\<lambda>_. False) 0) = Some m \<and>
     op_SeekToFirst (bounded_ops (engine_ops buffer_iter_ops)) (CreateRangeIterator [m] [] (Some [99]) (Some [102])) = Some it \<and>
     iter_collect (bounded_ops (engine_ops buffer_iter_ops)) 9 it = Some [([100], Some [2], False)]"
proof -
  obtain m where m: "run_all mem_write sample_writes (NewMemTable (\<lambda>_. False) 0) = Some m" "table_wf m"
    "merged (map table_items [m]) = [([98], Some [1], False), ([100], Some [2], False), ([102], None, True)]"
    by (rule sample_table)
  have "list_all table_wf [m]" using m(2) by simp
  from engine_range_scan [OF this, of 9 buffer_iter_ops "Some [99]" "Some [102]", unfolded m(3)] m(1)
  show ?thesis by auto
qed

text \<open>
  \<open>SeekToLast\<close> on a range whose end key is not itself stored leaves the iterator invalid, even
  when the range has keys: the code seeks to the end key and steps back only when it lands exactly
  on it.
\<close>

lemma range_seek_last_misses:
  fixes sst_ops :: "'i iter_ops"
  assumes "list_all table_wf ms" and "\<forall>(k, v, t)\<in>set (merged (map table_items ms)). k \<noteq> endKey"
  shows "\<exists>it. op_SeekToLast (bounded_ops (engine_ops sst_ops))
      (CreateRangeIterator ms [] startKey (Some endKey)) = Some it \<and>
    \<not> op_Valid (bounded_ops (engine_ops sst_ops)) it"
proof -
  obtain i j r where it: "iterator (engine_ops sst_ops) i j r"
    and ms: "i (createBaseIterator ms [])" "j (createBaseIterator ms []) = merged (map table_items ms)"
    by (rule engine_iterator) (use assms(1) in blast)
  let ?b = "CreateRangeIterator ms ([] :: 'i list) startKey (Some endKey)"
  have b: "iterator.b_inv i ?b" "bi_end ?b = Some endKey" "bi_iter ?b = createBaseIterator ms []"
    using ms(1) by (simp_all add: iterator.b_inv_def [OF it] CreateRangeIterator_def NewBoundedIterator_def)
  have "\<forall>x\<in>set (j (bi_iter ?b)). fst x \<noteq> endKey"
    using assms(2) ms(2) b(3) by auto
  from iterator.bounded_SeekToLast_gap [OF it b(1,2) this] show ?thesis
    by (simp add: bounded_ops_def)
qed

section \<open>Scanning the pool\<close>

text \<open>Two writes to one key with a table switch after each.\<close>

lemma pool_two_switches:
  assumes "NewMemTablePool cfg rnd now = Some p0"
  shows "\<exists>p m1 m2. run_all pool_exec [PoolPut now key v1 s1, PoolSwitch rnd now, PoolPut now key v2 s2,
        PoolSwitch rnd now] p0 = Some p \<and>
    mp_active p = NewMemTable rnd now \<and> mp_immutables p = [m1, m2] \<and>
    holds m1 [newEntry key v1 TypeValue s1] \<and> holds m2 [newEntry key v2 TypeValue s2]"
proof -
  let ?new = "NewMemTable rnd now"
  have w: "\<exists>m. mem_Put key v sq ?new = Some m \<and> holds m [newEntry key v TypeValue sq]" for v sq
    using holds_write [OF holds_new, of rnd now "newEntry key v TypeValue sq"] by (auto simp: mem_Put_write)
  obtain m1 m2 where m: "mem_Put key v1 s1 ?new = Some m1" "holds m1 [newEntry key v1 TypeValue s1]"
    "mem_Put key v2 s2 ?new = Some m2" "holds m2 [newEntry key v2 TypeValue s2]"
    using w by blast
  have p0: "mp_active p0 = ?new" "mp_immutables p0 = []"
    using assms by (auto simp: NewMemTablePool_def split: if_splits)
  show ?thesis
    using m p0 by (simp add: pool_Put_def SwitchToNewMemTable_def Let_def)
qed

text \<open>
  C27: the scan of the pool disagrees with its point reads once two tables are immutable. The pool
  hands its tables to the iterator as the active table followed by the immutable ones from oldest
  to newest, but the iterator takes earlier sources to be newer: after writing a key, switching,
  writing it again and switching again, \<open>Get\<close> returns the second value and the scan the first.
\<close>

theorem pool_scan_stale:
  assumes "NewMemTablePool cfg rnd now = Some p0" and "0 < n"
  shows "\<exists>p it. run_all pool_exec [PoolPut now key (Some v1) s1, PoolSwitch rnd now,
        PoolPut now key (Some v2) s2, PoolSwitch rnd now] p0 = Some p \<and>
    pool_Get key p = Some (Some v2, True) \<and>
    op_SeekToFirst (engine_ops sst_ops) (CreateIterator (GetMemTables p) []) = Some it \<and>
    iter_collect (engine_ops sst_ops) n it = Some [(key, Some v1, False)]"
proof -
  obtain p m1 m2 where p: "run_all pool_exec [PoolPut now key (Some v1) s1, PoolSwitch rnd now,
      PoolPut now key (Some v2) s2, PoolSwitch rnd now] p0 = Some p"
    "mp_active p = NewMemTable rnd now" "mp_immutables p = [m1, m2]"
    and m: "holds m1 [newEntry key (Some v1) TypeValue s1]" "holds m2 [newEntry key (Some v2) TypeValue s2]"
    using pool_two_switches [OF assms(1)] by blast
  have tables: "GetMemTables p = [NewMemTable rnd now, m1, m2]" using p by (simp add: GetMemTables_def)
  have wf: "list_all table_wf (GetMemTables p)" using m by (simp add: tables holds_def)
  have items: "map table_items (GetMemTables p) = [[], [(key, Some v1, False)], [(key, Some v2, False)]]"
    using m by (simp add: tables table_items_def holds_def newEntry_def entry_item_def)
  have merged: "merged (map table_items (GetMemTables p)) = [(key, Some v1, False)]"
    unfolding items by (simp add: merged_def source_keys_def merged_item_def)
  have get: "pool_Get key p = Some (Some v2, True)"
    using p(2,3) m holds_Get [OF holds_new] by (simp add: pool_Get_def holds_Get answer_def newest_write_def newEntry_def supersedes_def)
  obtain i j r where it: "iterator (engine_ops sst_ops) i j r"
    and all: "\<And>ms. list_all table_wf ms \<Longrightarrow>
      i (createBaseIterator ms []) \<and> j (createBaseIterator ms []) = merged (map table_items ms)"
    by (rule engine_iterator [of sst_ops]) blast
  have start: "i (createBaseIterator (GetMemTables p) [])"
    "j (createBaseIterator (GetMemTables p) []) = [(key, Some v1, False)]"
    using all [OF wf] merged by simp_all
  note F = iterator.axioms(1) [OF it]
  obtain it' where "op_SeekToFirst (engine_ops sst_ops) (createBaseIterator (GetMemTables p) []) = Some it'" "i it'"
    "r it' = [(key, Some v1, False)]"
    using forward_iterator.first [OF F start(1)] start(2) by auto
  with forward_iterator.iter_collect_rest [OF F, of it' n] assms(2) p(1) get show ?thesis
    by (simp add: CreateIterator_def)
qed

theorem pool_scan_stale_witness:
  "\<exists>p0 p it. NewMemTablePool (NewDefaultConfig ''wal'' ''sst'') (\<lambda>_. True) 0 = Some p0 \<and>
    run_all pool_exec [PoolPut 0 [107] (Some [1]) 1, PoolSwitch (\<lambda>_. True) 0,
        PoolPut 0 [107] (Some [2]) 2, PoolSwitch (\<lambda>_. True) 0] p0 = Some p \<and>
    pool_Get [107] p = Some (Some [2], True) \<and>
    op_SeekToFirst (engine_ops buffer_iter_ops) (CreateIterator (GetMemTables p) []) = Some it \<and>
    iter_collect (engine_ops buffer_iter_ops) 5 it = Some [([107], Some [1], False)]"
proof -
  obtain p0 where p0: "NewMemTablePool (NewDefaultConfig ''wal'' ''sst'') (\<lambda>_. True) 0 = Some p0"
    by (simp add: NewMemTablePool_def NewDefaultConfig_def)
  from pool_scan_stale [OF p0, of 5 "[107]" "[1]" 1 "[2]" 2 buffer_iter_ops] p0 show ?thesis by simp
qed

end
