(* ===== verification/Sst_Block.thy ===== *)
theory Sst_Block
  imports Kevo_Prelude
begin

text \<open>
  Data and index blocks (\<open>src/pkg/sstable/block\<close>): the builder, the serialised form with
  prefix-compressed keys and a full key at every sixteenth entry, and the reader that checks and
  opens it. \<open>xx\<close> is the third-party checksum \<open>xxhash.Sum64\<close>. Lengths are cut off to 16 and 32
  bits as the conversions of the code do. The layout lemmas say where each entry of a block lies.
\<close>

section \<open>Builder\<close>

definition RestartInterval :: nat where "RestartInterval = 16"
definition BlockFooterSize :: nat where "BlockFooterSize = 12"

record block_entry =
  be_key :: bytes
  be_value :: bytes

datatype block_error =
    KeysNotIncreasing | EmptyBlock | IncompleteUnshared nat nat
  | BlockTooSmall nat | BlockChecksumMismatch u64 u64 | InvalidRestartOffset

record builder =
  bb_entries :: "block_entry list"
  bb_restartPoints :: "u32 list"
  bb_currentSize :: u32
  bb_lastKey :: bytes
  bb_restartIdx :: nat

definition NewBuilder :: builder where
  "NewBuilder = \<lparr>bb_entries = [], bb_restartPoints = [], bb_currentSize = 0, bb_lastKey = [], bb_restartIdx = 0\<rparr>"

definition builder_Add :: "bytes \<Rightarrow> bytes \<Rightarrow> builder \<Rightarrow> (block_error + unit) \<times> builder" where
  "builder_Add key value b =
     (if bb_entries b \<noteq> [] \<and> bytes_compare key (bb_lastKey b) \<le> 0 then (Inl KeysNotIncreasing, b)
      else let b1 = b\<lparr>bb_entries := bb_entries b @ [\<lparr>be_key = key, be_value = value\<rparr>]\<rparr>;
               b2 = (if bb_restartIdx b1 = 0 \<or> bb_restartIdx b1 \<ge> RestartInterval
                     then b1\<lparr>bb_restartPoints := bb_restartPoints b1 @ [bb_currentSize b1], bb_restartIdx := 0\<rparr>
                     else b1)
           in (Inr (), b2\<lparr>bb_restartIdx := bb_restartIdx b2 + 1,
                          bb_currentSize := bb_currentSize b2 + of_nat (length key + length value + 8),
                          bb_lastKey := key\<rparr>))"

definition builder_Reset :: "builder \<Rightarrow> builder" where
  "builder_Reset b = NewBuilder"

definition EstimatedSize :: "builder \<Rightarrow> u32" where
  "EstimatedSize b =
     (if bb_entries b = [] then 0
      else bb_currentSize b + of_nat (length (bb_restartPoints b) * 4) + of_nat BlockFooterSize)"

definition Entries :: "builder \<Rightarrow> nat" where
  "Entries b = length (bb_entries b)"

section \<open>Serialisation\<close>

text \<open>The loop that replaces an entry by the next one when their keys are equal.\<close>

fun dedupe_loop :: "block_entry list \<Rightarrow> slice \<Rightarrow> block_entry list \<Rightarrow> block_entry list" where
  "dedupe_loop [] prev unique = unique"
| "dedupe_loop (e # es) prev unique =
     (if prev = Some (be_key e)
      then dedupe_loop es (Some (be_key e)) (unique[length unique - 1 := e])
      else dedupe_loop es (Some (be_key e)) (unique @ [e]))"

fun common_prefix :: "bytes \<Rightarrow> bytes \<Rightarrow> nat" where
  "common_prefix (x # xs) (y # ys) = (if x \<noteq> y then 0 else Suc (common_prefix xs ys))"
| "common_prefix _ _ = 0"

definition value_bytes :: "block_entry \<Rightarrow> bytes" where
  "value_bytes e = put_u32 (of_nat (length (be_value e))) @ be_value e"

definition full_bytes :: "block_entry \<Rightarrow> bytes" where
  "full_bytes e = put_u16 (of_nat (length (be_key e))) @ be_key e @ value_bytes e"

definition delta_bytes :: "bytes \<Rightarrow> block_entry \<Rightarrow> bytes" where
  "delta_bytes prevKey e =
     (let commonPrefix = common_prefix prevKey (be_key e) in
      put_u16 (of_nat commonPrefix) @ put_u16 (of_nat (length (be_key e) - commonPrefix)) @
      drop commonPrefix (be_key e) @ value_bytes e)"

text \<open>
  The loop over the entries: entry number \<open>i\<close>, the entries since the last restart, the previous
  key, the buffer and the restart points.
\<close>

fun write_entries ::
  "block_entry list \<Rightarrow> nat \<Rightarrow> nat \<Rightarrow> bytes \<Rightarrow> bytes \<Rightarrow> u32 list \<Rightarrow> block_error + bytes \<times> u32 list" where
  "write_entries [] i restartOffset prevKey buffer restartPoints = Inr (buffer, restartPoints)"
| "write_entries (e # es) i restartOffset prevKey buffer restartPoints =
     (if i = 0 \<or> restartOffset \<ge> RestartInterval
      then write_entries es (Suc i) 1 (be_key e) (buffer @ full_bytes e)
             (if i > 0 then restartPoints @ [of_nat (length buffer)] else restartPoints)
      else let unshared = length (be_key e) - common_prefix prevKey (be_key e);
               unsharedLen = unat (of_nat unshared :: u16)
           in if unshared \<noteq> unsharedLen then Inl (IncompleteUnshared unshared unsharedLen)
              else write_entries es (Suc i) (restartOffset + 1) (be_key e)
                     (buffer @ delta_bytes prevKey e) restartPoints)"

definition block_bytes :: "(bytes \<Rightarrow> u64) \<Rightarrow> bytes \<Rightarrow> u32 list \<Rightarrow> bytes" where
  "block_bytes xx buffer restartPoints =
     (let data = buffer @ concat (map put_u32 restartPoints) @ put_u32 (of_nat (length restartPoints))
      in data @ put_u64 (xx data))"

definition builder_Finish :: "(bytes \<Rightarrow> u64) \<Rightarrow> builder \<Rightarrow> (block_error + bytes) \<times> builder" where
  "builder_Finish xx b =
     (if bb_entries b = [] then (Inl EmptyBlock, b)
      else let es = (if length (bb_entries b) > 1 then dedupe_loop (bb_entries b) None [] else bb_entries b)
           in case write_entries es 0 0 [] [] [0] of
                Inl e \<Rightarrow> (Inl e, b\<lparr>bb_entries := es\<rparr>)
              | Inr (buffer, restartPoints) \<Rightarrow>
                  (Inr (block_bytes xx buffer restartPoints),
                   b\<lparr>bb_entries := es, bb_restartPoints := restartPoints\<rparr>))"

section \<open>Reader\<close>

record block_reader =
  br_data :: bytes
  br_restartPoints :: "u32 list"
  br_numRestarts :: u32
  br_checksum :: u64

definition block_NewReader :: "(bytes \<Rightarrow> u64) \<Rightarrow> bytes \<Rightarrow> block_error + block_reader" where
  "block_NewReader xx data =
     (if length data < BlockFooterSize then Inl (BlockTooSmall (length data))
      else let footerOffset = length data - BlockFooterSize;
               numRestarts = get_u32 (drop footerOffset data);
               checksum = get_u64 (drop (footerOffset + 4) data);
               computedChecksum = xx (take (length data - 8) data)
           in if computedChecksum \<noteq> checksum then Inl (BlockChecksumMismatch checksum computedChecksum)
              else if footerOffset < unat numRestarts * 4 then Inl InvalidRestartOffset
              else let restartOffset = footerOffset - unat numRestarts * 4 in
                   Inr \<lparr>br_data = data,
                        br_restartPoints =
                          map (\<lambda>i. get_u32 (drop (restartOffset + i * 4) data)) [0..<unat numRestarts],
                        br_numRestarts = numRestarts, br_checksum = checksum\<rparr>)"

section \<open>Layout\<close>

text \<open>The image of entry \<open>i\<close> of a block and its offset.\<close>

definition entry_image :: "block_entry list \<Rightarrow> nat \<Rightarrow> bytes" where
  "entry_image es i =
     (if i mod 16 = 0 then full_bytes (es ! i) else delta_bytes (be_key (es ! (i - 1))) (es ! i))"

definition entries_image :: "block_entry list \<Rightarrow> nat \<Rightarrow> bytes" where
  "entries_image es n = concat (map (entry_image es) [0..<n])"

abbreviation entry_offset :: "block_entry list \<Rightarrow> nat \<Rightarrow> nat" where
  "entry_offset es i \<equiv> length (entries_image es i)"

definition num_restarts :: "nat \<Rightarrow> nat" where
  "num_restarts n = max 1 ((n + 15) div 16)"

definition restart_offsets :: "block_entry list \<Rightarrow> nat \<Rightarrow> u32 list" where
  "restart_offsets es n = map (\<lambda>r. of_nat (entry_offset es (16 * r))) [0..<num_restarts n]"

text \<open>Entries that fit the field widths, sorted by key; empty keys are not legal.\<close>

definition legal_entries :: "block_entry list \<Rightarrow> bool" where
  "legal_entries es \<longleftrightarrow> es \<noteq> [] \<and> sorted_wrt (<) (map be_key es) \<and>
     (\<forall>e \<in> set es. be_key e \<noteq> [] \<and> length (be_key e) < 2 ^ 16 \<and> length (be_value e) < 2 ^ 32)"

lemma entries_image_Suc: "entries_image es (Suc i) = entries_image es i @ entry_image es i"
  by (simp add: entries_image_def)

lemma entries_image_0 [simp]: "entries_image es 0 = []"
  by (simp add: entries_image_def)

lemma div_16_up: "(i + 15) div 16 = (if i mod 16 = 0 then i div 16 else Suc (i div 16 :: nat))"
proof -
  define q r where "q = i div 16" and "r = i mod 16"
  have i: "i = 16 * q + r" "r < 16" by (simp_all add: q_def r_def)
  have "(i + 15) div 16 = (if r = 0 then q else Suc q)"
    using i by (intro div_nat_eqI) auto
  then show ?thesis by (simp add: q_def r_def)
qed

lemma num_restarts_eq: "num_restarts i = (if i mod 16 = 0 \<and> 0 < i then i div 16 else Suc (i div 16))"
proof (cases "i mod 16 = 0 \<and> 0 < i")
  case True
  then have "16 dvd i" "0 < i" by auto
  then have "0 < i div 16" by (auto simp: dvd_def)
  with True show ?thesis by (simp add: num_restarts_def div_16_up)
qed (auto simp: num_restarts_def div_16_up)

lemma mod_16_Suc:
  "Suc i mod 16 = (if i mod 16 = 15 then 0 else Suc (i mod 16))"
  "Suc i div 16 = (if i mod 16 = 15 then Suc (i div 16) else i div (16 :: nat))"
  by (simp_all add: mod_Suc div_Suc)

lemma num_restarts_Suc:
  "num_restarts (Suc i) = (if 0 < i \<and> i mod 16 = 0 then Suc (num_restarts i) else num_restarts i)"
  by (auto simp: num_restarts_eq mod_16_Suc)

lemma restart_position: "0 < i \<Longrightarrow> i mod 16 = 0 \<Longrightarrow> 16 * num_restarts i = i"
  by (auto simp: num_restarts_eq)

lemma restart_offsets_Suc:
  "restart_offsets es (Suc i) =
     (if 0 < i \<and> i mod 16 = 0 then restart_offsets es i @ [of_nat (entry_offset es i)] else restart_offsets es i)"
  using restart_position [of i] by (auto simp: restart_offsets_def num_restarts_Suc)

definition since_restart :: "nat \<Rightarrow> nat" where
  "since_restart i = (if i = 0 then 0 else (i - 1) mod 16 + 1)"

lemma since_restart_step:
  "i = 0 \<or> since_restart i \<ge> RestartInterval \<longleftrightarrow> i mod 16 = 0"
  "since_restart (Suc i) = (if i mod 16 = 0 then 1 else since_restart i + 1)"
proof -
  have *: "(i - 1) mod 16 = (if i mod 16 = 0 then 15 else i mod 16 - 1)" if "0 < i"
    using mod_16_Suc(1) [of "i - 1"] that by (auto split: if_splits)
  have "i mod 16 < 16" by simp
  with * show "i = 0 \<or> since_restart i \<ge> RestartInterval \<longleftrightarrow> i mod 16 = 0"
    by (auto simp: since_restart_def RestartInterval_def)
  from * show "since_restart (Suc i) = (if i mod 16 = 0 then 1 else since_restart i + 1)"
    by (auto simp: since_restart_def)
qed

lemma write_entries_image:
  assumes "\<forall>e \<in> set es. length (be_key e) < 2 ^ 16" "i \<le> length es"
  shows "write_entries (drop i es) i (since_restart i) (if i = 0 then [] else be_key (es ! (i - 1)))
      (entries_image es i) (restart_offsets es i) =
    Inr (entries_image es (length es), restart_offsets es (length es))"
  using assms(2)
proof (induction "length es - i" arbitrary: i)
  case 0
  then show ?case by simp
next
  case (Suc n)
  then have i: "i < length es" by simp
  have drop: "drop i es = es ! i # drop (Suc i) es" using i by (simp add: Cons_nth_drop_Suc)
  have key: "length (be_key (es ! i)) < 2 ^ 16" using assms(1) i by simp
  have "unat (of_nat (length (be_key (es ! i)) - m) :: u16) = length (be_key (es ! i)) - m" for m
    using key by (simp add: unat_u16_len)
  moreover have "n = length es - Suc i" "Suc i \<le> length es" using Suc.hyps(2) i by auto
  note IH = Suc.hyps(1) [OF this]
  ultimately show ?case
    using IH since_restart_step [of i]
    by (auto simp: drop Let_def entries_image_Suc entry_image_def restart_offsets_Suc split: if_splits)
qed

definition block_image :: "(bytes \<Rightarrow> u64) \<Rightarrow> block_entry list \<Rightarrow> bytes" where
  "block_image xx es =
     block_bytes xx (entries_image es (length es)) (restart_offsets es (length es))"

text \<open>Strictly increasing keys have no duplicates to merge.\<close>

lemma dedupe_sorted:
  assumes "sorted_wrt (<) (map be_key es)" "\<forall>k. prev = Some k \<longrightarrow> (\<forall>e \<in> set es. k < be_key e)"
  shows "dedupe_loop es prev unique = unique @ es"
  using assms
proof (induction es arbitrary: prev unique)
  case (Cons e es)
  then have "prev \<noteq> Some (be_key e)" by auto
  with Cons show ?case by auto
qed simp

lemma legal_entriesD:
  assumes "legal_entries es"
  shows "es \<noteq> []" "sorted_wrt (<) (map be_key es)"
    "i < length es \<Longrightarrow> be_key (es ! i) \<noteq> []" "i < length es \<Longrightarrow> length (be_key (es ! i)) < 2 ^ 16"
    "i < length es \<Longrightarrow> length (be_value (es ! i)) < 2 ^ 32"
  using assms by (auto simp: legal_entries_def)

lemma Finish_image:
  assumes "legal_entries (bb_entries b)"
  shows "fst (builder_Finish xx b) = Inr (block_image xx (bb_entries b))"
proof -
  let ?es = "bb_entries b"
  have "dedupe_loop ?es None [] = ?es" using dedupe_sorted [of ?es None "[]"] legal_entriesD(2) [OF assms] by simp
  moreover have "write_entries ?es 0 0 [] [] [0] =
      Inr (entries_image ?es (length ?es), restart_offsets ?es (length ?es))"
    using write_entries_image [of ?es 0] assms
    by (simp add: legal_entries_def since_restart_def restart_offsets_def num_restarts_def)
  ultimately show ?thesis using legal_entriesD(1) [OF assms]
    by (simp add: builder_Finish_def Let_def block_image_def)
qed

lemma builder_Add_all:
  assumes "sorted_wrt (<) (map be_key es)"
  shows "\<exists>b. run_all (\<lambda>e b. case builder_Add (be_key e) (be_value e) b of (Inl _, _) \<Rightarrow> None | (Inr _, b') \<Rightarrow> Some b')
      es NewBuilder = Some b \<and> bb_entries b = es \<and> (es \<noteq> [] \<longrightarrow> bb_lastKey b = be_key (last es))"
  using assms
proof (induction es rule: rev_induct)
  case Nil
  then show ?case by (simp add: NewBuilder_def)
next
  case (snoc e es)
  then obtain b where b: "run_all (\<lambda>e b. case builder_Add (be_key e) (be_value e) b of (Inl _, _) \<Rightarrow> None | (Inr _, b') \<Rightarrow> Some b')
      es NewBuilder = Some b" "bb_entries b = es" "es \<noteq> [] \<longrightarrow> bb_lastKey b = be_key (last es)"
    by (auto simp: sorted_wrt_append)
  have "be_key (last es) < be_key e" if "es \<noteq> []"
    using snoc.prems that by (simp add: sorted_wrt_append)
  with b show ?case by (auto simp: run_all_append builder_Add_def Let_def)
qed

section \<open>Opening a block\<close>

lemma length_concat_put [simp]: "length (concat (map put_u32 ws)) = 4 * length ws"
  by (induction ws) simp_all

lemma drop_concat_put: "i < length ws \<Longrightarrow> get_u32 (drop (4 * i) (concat (map put_u32 ws) @ r)) = ws ! i"
proof (induction ws arbitrary: i)
  case (Cons w ws)
  then show ?case by (cases i) simp_all
qed simp

lemma value_bytes_length [simp]: "length (value_bytes e) = 4 + length (be_value e)"
  by (simp add: value_bytes_def)

lemma entry_image_length: "6 \<le> length (entry_image es i)"
  by (simp add: entry_image_def full_bytes_def delta_bytes_def Let_def)

lemma entry_offset_mono: "i < j \<Longrightarrow> entry_offset es i < entry_offset es j"
proof (induction j)
  case (Suc j)
  have "entry_offset es j < entry_offset es (Suc j)"
    using entry_image_length [of es j] by (auto simp: entries_image_Suc)
  with Suc show ?case by (cases "i = j") auto
qed simp

lemma entry_offset_less_iff [simp]: "entry_offset es i < entry_offset es j \<longleftrightarrow> i < j"
  by (metis entry_offset_mono linorder_neq_iff order_less_asym)

lemma entry_offset_eq_iff [simp]: "entry_offset es i = entry_offset es j \<longleftrightarrow> i = j"
  by (metis entry_offset_mono linorder_neq_iff)

lemma entry_offset_le_iff [simp]: "entry_offset es i \<le> entry_offset es j \<longleftrightarrow> i \<le> j"
  by (simp flip: not_less)

lemma entry_offset_ge: "i \<le> entry_offset es i"
proof (induction i)
  case (Suc i)
  then show ?case using entry_offset_mono [of i "Suc i" es] by linarith
qed simp

lemma length_restart_offsets [simp]: "length (restart_offsets es n) = num_restarts n"
  by (simp add: restart_offsets_def)

lemma num_restarts_le: "0 < n \<Longrightarrow> num_restarts n \<le> n"
  by (auto simp: num_restarts_def)

lemma NewReader_image:
  assumes "es \<noteq> []" "entry_offset es (length es) < 2 ^ 32"
  shows "block_NewReader xx (block_image xx es) =
    Inr \<lparr>br_data = block_image xx es, br_restartPoints = restart_offsets es (length es),
         br_numRestarts = of_nat (num_restarts (length es)),
         br_checksum = xx (take (length (block_image xx es) - 8) (block_image xx es))\<rparr>"
proof -
  let ?b = "entries_image es (length es)" and ?rs = "restart_offsets es (length es)"
  let ?R = "num_restarts (length es)"
  let ?d = "?b @ concat (map put_u32 ?rs) @ put_u32 (of_nat ?R)"
  have img: "block_image xx es = ?d @ put_u64 (xx ?d)"
    by (simp add: block_image_def block_bytes_def Let_def)
  have len: "length (block_image xx es) = length ?b + 4 * ?R + 12" by (simp add: img)
  have "?R < 2 ^ 32"
    using num_restarts_le [of "length es"] entry_offset_ge [of "length es" es] assms by simp
  then have R: "unat (of_nat ?R :: u32) = ?R" by (simp add: unat_u32_len)
  have cnt: "drop (length ?b + 4 * ?R) (block_image xx es) = put_u32 (of_nat ?R) @ put_u64 (xx ?d)"
    by (simp add: img)
  have sum: "drop (length ?b + 4 * ?R + 4) (block_image xx es) = put_u64 (xx ?d)"
    by (simp add: img)
  have body: "take (length (block_image xx es) - 8) (block_image xx es) = ?d"
    by (simp add: img)
  have pts: "get_u32 (drop (length ?b + i * 4) (block_image xx es)) = ?rs ! i" if "i < ?R" for i
    using drop_concat_put [of i ?rs "put_u32 (of_nat ?R) @ put_u64 (xx ?d)"] that
    by (simp add: img mult.commute)
  have "map (\<lambda>i. get_u32 (drop (length ?b + i * 4) (block_image xx es))) [0..<?R] = ?rs"
    by (rule nth_equalityI) (simp_all add: pts)
  then show ?thesis
    by (simp add: block_NewReader_def BlockFooterSize_def len Let_def cnt sum R body [unfolded len, simplified] body)
qed

text \<open>A reader that opens any bytes has verified their checksum and its restart points lie inside.\<close>

lemma block_reader_checked:
  "block_NewReader xx data = Inr r \<Longrightarrow>
     br_data r = data \<and> br_checksum r = xx (take (length data - 8) data) \<and>
     length (br_restartPoints r) = unat (br_numRestarts r) \<and>
     BlockFooterSize + 4 * length (br_restartPoints r) \<le> length data"
  by (auto simp: block_NewReader_def Let_def split: if_splits)

end
