(* ===== verification/Sst_Block_Iter.thy ===== *)
theory Sst_Block_Iter
  imports Sst_Block Iterators
begin

text \<open>
  The iterator of a block (\<open>src/pkg/sstable/block/block_iterator.go\<close>). Positions are \<open>uint32\<close>: sums
  are written modulo \<open>2 ^ 32\<close>. The loops that decode until the end of the data are partial in the
  model, \<open>None\<close> standing for a panic or for not returning.
\<close>

section \<open>The iterator\<close>

record block_iter =
  bk_reader :: block_reader
  bk_pos :: nat
  bk_key :: slice
  bk_val :: slice
  bk_restartIdx :: nat
  bk_initialized :: bool
  bk_dataEnd :: nat

definition block_Iterator :: "block_reader \<Rightarrow> block_iter" where
  "block_Iterator r =
     \<lparr>bk_reader = r, bk_pos = 0, bk_key = None, bk_val = None, bk_restartIdx = 0, bk_initialized = False,
      bk_dataEnd = (length (br_data r) - BlockFooterSize - 4 * length (br_restartPoints r)) mod 2 ^ 32\<rparr>"

definition read_value :: "bytes \<Rightarrow> bytes option" where
  "read_value data =
     (if length data < 4 then None
      else let valueLen = unat (get_u32 data); data' = drop 4 data in
           if length data' mod 2 ^ 32 < valueLen then None else Some (take valueLen data'))"

definition read_full_key :: "bytes \<Rightarrow> (bytes \<times> bytes) option" where
  "read_full_key data =
     (if length data < 2 then None
      else let keyLen = unat (get_u16 data); data' = drop 2 data in
           if length data' mod 2 ^ 32 < keyLen then None else Some (take keyLen data', drop keyLen data'))"

definition decodeCurrent :: "block_iter \<Rightarrow> (bytes \<times> bytes) option \<times> block_iter" where
  "decodeCurrent it =
     (if bk_pos it \<ge> bk_dataEnd it then (None, it)
      else case read_full_key (drop (bk_pos it) (br_data (bk_reader it))) of
             None \<Rightarrow> (None, it)
           | Some (key, data) \<Rightarrow>
               (case read_value data of
                  None \<Rightarrow> (None, it)
                | Some v \<Rightarrow> (Some (key, v), it\<lparr>bk_key := Some key, bk_val := Some v\<rparr>)))"

text \<open>The search for the current position among the restart points.\<close>

fun find_restart :: "nat \<Rightarrow> u32 list \<Rightarrow> nat \<Rightarrow> nat option" where
  "find_restart pos [] i = None"
| "find_restart pos (offset # rest) i = (if unat offset = pos then Some i else find_restart pos rest (Suc i))"

definition finish_entry :: "bytes \<Rightarrow> bytes \<Rightarrow> block_iter \<Rightarrow> (bytes \<times> bytes) option \<times> block_iter" where
  "finish_entry key data it =
     (case read_value data of
        None \<Rightarrow> (None, it)
      | Some v \<Rightarrow> (Some (key, v), it\<lparr>bk_pos := (bk_pos it + 4 + length v) mod 2 ^ 32\<rparr>))"

text \<open>
  \<open>decodeNext\<close>: a full key at a restart point, otherwise a shared prefix of the current key. The
  sum of the two 16-bit lengths may wrap around, and then slicing the new key panics.
\<close>

definition decodeNext :: "block_iter \<Rightarrow> ((bytes \<times> bytes) option \<times> block_iter) option" where
  "decodeNext it =
     (if bk_pos it \<ge> bk_dataEnd it then Some (None, it)
      else
        let data = drop (bk_pos it) (br_data (bk_reader it));
            restart = find_restart (bk_pos it) (br_restartPoints (bk_reader it)) 0;
            it1 = (case restart of None \<Rightarrow> it | Some i \<Rightarrow> it\<lparr>bk_restartIdx := i\<rparr>)
        in case (restart, bk_key it1) of
             (None, Some currentKey) \<Rightarrow>
               if length data < 4 then Some (None, it1)
               else let sharedLen = unat (get_u16 data); unsharedLen = unat (get_u16 (drop 2 data));
                        data' = drop 4 data
                    in if sharedLen > length currentKey mod 2 ^ 16 \<or> length data' mod 2 ^ 32 < unsharedLen
                       then Some (None, it1)
                       else if sharedLen + unsharedLen \<ge> 2 ^ 16 then None
                       else Some (finish_entry (take sharedLen currentKey @ take unsharedLen data')
                              (drop unsharedLen data')
                              (it1\<lparr>bk_pos := (bk_pos it1 + 4 + unsharedLen) mod 2 ^ 32\<rparr>))
           | _ \<Rightarrow>
               (case read_full_key data of
                  None \<Rightarrow> Some (None, it1)
                | Some (key, data') \<Rightarrow>
                    Some (finish_entry key data' (it1\<lparr>bk_pos := (bk_pos it1 + 2 + length key) mod 2 ^ 32\<rparr>))))"

definition set_current :: "bytes \<times> bytes \<Rightarrow> block_iter \<Rightarrow> block_iter" where
  "set_current kv it = it\<lparr>bk_key := Some (fst kv), bk_val := Some (snd kv)\<rparr>"

definition clear_current :: "block_iter \<Rightarrow> block_iter" where
  "clear_current it = it\<lparr>bk_key := None, bk_val := None\<rparr>"

definition bk_SeekToFirst :: "block_iter \<Rightarrow> block_iter" where
  "bk_SeekToFirst it =
     (if br_restartPoints (bk_reader it) = [] then (clear_current it)\<lparr>bk_initialized := True\<rparr>
      else case decodeCurrent (it\<lparr>bk_pos := 0, bk_restartIdx := 0, bk_initialized := True\<rparr>) of
             (Some kv, it') \<Rightarrow> set_current kv it'
           | (None, it') \<Rightarrow> clear_current it')"

partial_function (option) last_loop :: "block_iter \<Rightarrow> block_iter option" where
  "last_loop it =
     (case decodeNext it of
        None \<Rightarrow> None
      | Some r \<Rightarrow>
          (case fst r of
             None \<Rightarrow> Some ((snd r)\<lparr>bk_pos := bk_pos it, bk_key := bk_key it, bk_val := bk_val it\<rparr>)
           | Some kv \<Rightarrow> last_loop (set_current kv (snd r))))"

definition bk_SeekToLast :: "block_iter \<Rightarrow> block_iter option" where
  "bk_SeekToLast it =
     (if br_restartPoints (bk_reader it) = [] then Some ((clear_current it)\<lparr>bk_initialized := True\<rparr>)
      else let idx = length (br_restartPoints (bk_reader it)) - 1 in
           case decodeCurrent (it\<lparr>bk_restartIdx := idx, bk_pos := unat (br_restartPoints (bk_reader it) ! idx),
                                 bk_initialized := True\<rparr>) of
             (None, it') \<Rightarrow> Some (clear_current it')
           | (Some kv, it') \<Rightarrow> last_loop (set_current kv it'))"

function seek_search :: "bytes \<Rightarrow> nat \<Rightarrow> nat \<Rightarrow> block_iter \<Rightarrow> nat option \<times> block_iter" where
  "seek_search target left right it =
     (if left < right
      then let mid = (left + right) div 2 in
           case decodeCurrent (it\<lparr>bk_restartIdx := mid, bk_pos := unat (br_restartPoints (bk_reader it) ! mid)\<rparr>) of
             (None, it') \<Rightarrow> (None, it')
           | (Some kv, it') \<Rightarrow>
               if bytes_compare (fst kv) target < 0 then seek_search target (mid + 1) right it'
               else seek_search target left mid it'
      else (Some left, it))"
  by pat_completeness auto

termination
  by (relation "measure (\<lambda>(t, l, r, it). r - l)") auto

declare seek_search.simps [simp del]

partial_function (option) seek_scan :: "bytes \<Rightarrow> block_iter \<Rightarrow> (bool \<times> block_iter) option" where
  "seek_scan target it =
     (case decodeNext it of
        None \<Rightarrow> None
      | Some r \<Rightarrow>
          (case fst r of
             None \<Rightarrow>
               (case decodeCurrent ((snd r)\<lparr>bk_pos := bk_pos it\<rparr>) of
                  (Some kv, it') \<Rightarrow> Some (True, set_current kv it')
                | (None, it') \<Rightarrow> Some (False, it'))
           | Some kv \<Rightarrow>
               if bytes_compare (fst kv) target \<ge> 0 then Some (True, set_current kv (snd r))
               else seek_scan target (set_current kv (snd r))))"

definition bk_Seek :: "bytes \<Rightarrow> block_iter \<Rightarrow> (bool \<times> block_iter) option" where
  "bk_Seek target it =
     (if br_restartPoints (bk_reader it) = [] then Some (False, it)
      else case seek_search target 0 (length (br_restartPoints (bk_reader it)) - 1) it of
             (None, it1) \<Rightarrow> Some (False, it1)
           | (Some left, it1) \<Rightarrow>
               (case decodeCurrent (it1\<lparr>bk_restartIdx := left,
                        bk_pos := unat (br_restartPoints (bk_reader it1) ! left), bk_initialized := True\<rparr>) of
                  (None, it2) \<Rightarrow> Some (False, it2)
                | (Some kv, it2) \<Rightarrow>
                    if bytes_compare (fst kv) target \<ge> 0 then Some (True, set_current kv it2)
                    else seek_scan target it2))"

definition bk_Valid :: "block_iter \<Rightarrow> bool" where
  "bk_Valid it \<longleftrightarrow> bk_key it \<noteq> None \<and> len_slice (bk_key it) > 0"

definition bk_Next :: "block_iter \<Rightarrow> (bool \<times> block_iter) option" where
  "bk_Next it =
     (if \<not> bk_initialized it then let it' = bk_SeekToFirst it in Some (bk_Valid it', it')
      else if bk_key it = None then Some (False, it)
      else case decodeNext it of
             None \<Rightarrow> None
           | Some (None, it') \<Rightarrow> Some (False, clear_current it')
           | Some (Some kv, it') \<Rightarrow> Some (True, set_current kv it'))"

definition bk_IsTombstone :: "block_iter \<Rightarrow> bool" where
  "bk_IsTombstone it \<longleftrightarrow> bk_Valid it \<and> bk_val it = None"

definition block_iter_ops :: "block_iter iter_ops" where
  "block_iter_ops =
     \<lparr>op_SeekToFirst = (\<lambda>it. Some (bk_SeekToFirst it)), op_SeekToLast = bk_SeekToLast, op_Seek = bk_Seek,
      op_Next = bk_Next, op_Key = bk_key, op_Value = bk_val, op_Valid = bk_Valid,
      op_IsTombstone = bk_IsTombstone\<rparr>"

section \<open>Decoding a serialised block\<close>

definition block_ok :: "block_entry list \<Rightarrow> bool" where
  "block_ok es \<longleftrightarrow> legal_entries es \<and>
     entry_offset es (length es) + 4 * num_restarts (length es) + 12 < 2 ^ 32"

definition opened :: "(bytes \<Rightarrow> u64) \<Rightarrow> block_entry list \<Rightarrow> block_reader" where
  "opened xx es =
     \<lparr>br_data = block_image xx es, br_restartPoints = restart_offsets es (length es),
      br_numRestarts = of_nat (num_restarts (length es)),
      br_checksum = xx (take (length (block_image xx es) - 8) (block_image xx es))\<rparr>"

lemma NewReader_opened: "block_ok es \<Longrightarrow> block_NewReader xx (block_image xx es) = Inr (opened xx es)"
  using NewReader_image [of es xx] by (simp add: block_ok_def opened_def legal_entries_def)

definition over :: "(bytes \<Rightarrow> u64) \<Rightarrow> block_entry list \<Rightarrow> block_iter \<Rightarrow> bool" where
  "over xx es it \<longleftrightarrow> block_ok es \<and> bk_reader it = opened xx es \<and> bk_dataEnd it = entry_offset es (length es)"

lemma block_image_length: "length (block_image xx es) = entry_offset es (length es) + 4 * num_restarts (length es) + 12"
  by (simp add: block_image_def block_bytes_def Let_def)

lemma Iterator_over: "block_ok es \<Longrightarrow> over xx es (block_Iterator (opened xx es))"
  by (simp add: over_def block_Iterator_def opened_def block_image_length BlockFooterSize_def block_ok_def)

lemma over_update [simp]:
  "over xx es (it\<lparr>bk_pos := p\<rparr>) = over xx es it" "over xx es (it\<lparr>bk_key := k\<rparr>) = over xx es it"
  "over xx es (it\<lparr>bk_val := v\<rparr>) = over xx es it" "over xx es (it\<lparr>bk_restartIdx := i\<rparr>) = over xx es it"
  "over xx es (it\<lparr>bk_initialized := b\<rparr>) = over xx es it"
  by (simp_all add: over_def)

lemma over_restarts [simp]: "over xx es it \<Longrightarrow> br_restartPoints (bk_reader it) = restart_offsets es (length es)"
  by (simp add: over_def opened_def)

text \<open>What lies at the offset of an entry.\<close>

lemma image_at:
  assumes "i < length es"
  obtains r where "drop (entry_offset es i) (block_image xx es) = entry_image es i @ r"
    "length (entry_image es i @ r) \<le> length (block_image xx es)"
proof -
  have "[0..<length es] = [0..<i] @ i # [Suc i..<length es]"
    using assms by (metis upt_conv_Cons upt_add_eq_append zero_le le_add_diff_inverse less_imp_le)
  then have "entries_image es (length es) = entries_image es i @ entry_image es i @ concat (map (entry_image es) [Suc i..<length es])"
    by (simp add: entries_image_def)
  then have "\<exists>r. block_image xx es = entries_image es i @ entry_image es i @ r"
    by (simp add: block_image_def block_bytes_def Let_def)
  then obtain r where "block_image xx es = entries_image es i @ entry_image es i @ r" by blast
  then show ?thesis by (intro that [of r]) simp_all
qed

lemma common_prefix_le: "common_prefix p k \<le> length p" "common_prefix p k \<le> length k"
  by (induction p k rule: common_prefix.induct) auto

lemma common_prefix_take: "take (common_prefix p k) p = take (common_prefix p k) k"
  by (induction p k rule: common_prefix.induct) auto

lemma read_value_at:
  assumes "length (be_value e) < 2 ^ 32" "length (value_bytes e @ r) < 2 ^ 32"
  shows "read_value (value_bytes e @ r) = Some (be_value e)"
  using assms by (simp add: read_value_def value_bytes_def unat_of_nat)

lemma read_full_key_at:
  assumes "length (be_key e) < 2 ^ 16" "length (full_bytes e @ r) < 2 ^ 32"
  shows "read_full_key (full_bytes e @ r) = Some (be_key e, value_bytes e @ r)"
  using assms by (simp add: read_full_key_def full_bytes_def unat_of_nat)

lemma restart_nth:
  "r < num_restarts n \<Longrightarrow> restart_offsets es n ! r = of_nat (entry_offset es (16 * r))"
  by (simp add: restart_offsets_def)

lemma restart_lt: "r < num_restarts n \<Longrightarrow> 0 < n \<Longrightarrow> 16 * r < n"
  by (auto simp: num_restarts_def)

lemma lt_restarts:
  assumes "16 * r < n"
  shows "r < num_restarts n"
proof -
  have "Suc r = (16 * Suc r) div 16" by simp
  also have "\<dots> \<le> (n + 15) div 16" using assms by (intro div_le_mono) simp
  finally show ?thesis by (simp add: num_restarts_def)
qed

lemma entry_offset_small:
  "block_ok es \<Longrightarrow> i \<le> length es \<Longrightarrow> entry_offset es i < 2 ^ 32"
  using entry_offset_le_iff [of es i "length es"] unfolding block_ok_def by linarith

lemma unat_restart:
  assumes "block_ok es" "r < num_restarts (length es)"
  shows "unat (restart_offsets es (length es) ! r) = entry_offset es (16 * r)"
proof -
  have "es \<noteq> []" using assms(1) by (simp add: block_ok_def legal_entries_def)
  then have "16 * r < length es" using restart_lt [OF assms(2)] by simp
  then show ?thesis using entry_offset_small [OF assms(1), of "16 * r"]
    by (simp add: restart_nth [OF assms(2)] unat_u32_len)
qed

lemma find_restart_Some: "find_restart pos rs i = Some j \<Longrightarrow> i \<le> j \<and> j - i < length rs \<and> unat (rs ! (j - i)) = pos"
  by (induction rs arbitrary: i) (fastforce split: if_splits simp: nth_Cons')+

lemma find_restart_None: "find_restart pos rs i = None \<longleftrightarrow> (\<forall>w \<in> set rs. unat w \<noteq> pos)"
  by (induction rs arbitrary: i) auto

lemma find_restart_iff:
  assumes "block_ok es" "i < length es"
  shows "find_restart (entry_offset es i) (restart_offsets es (length es)) 0 \<noteq> None \<longleftrightarrow> i mod 16 = 0"
proof
  assume "find_restart (entry_offset es i) (restart_offsets es (length es)) 0 \<noteq> None"
  then obtain r where "r < num_restarts (length es)" "unat (restart_offsets es (length es) ! r) = entry_offset es i"
    using find_restart_Some by fastforce
  with unat_restart [OF assms(1)] show "i mod 16 = 0" by auto
next
  assume "i mod 16 = 0"
  then obtain r where r: "i = 16 * r" by auto
  then have "r < num_restarts (length es)" using assms(2) lt_restarts by simp
  then have "restart_offsets es (length es) ! r \<in> set (restart_offsets es (length es))"
    "unat (restart_offsets es (length es) ! r) = entry_offset es i"
    using unat_restart [OF assms(1)] r by auto
  then show "find_restart (entry_offset es i) (restart_offsets es (length es)) 0 \<noteq> None"
    using find_restart_None by blast
qed

text \<open>\<open>decodeCurrent\<close> reads the entry at a restart point, \<open>decodeNext\<close> any entry after its predecessor.\<close>

definition entry_kv :: "block_entry \<Rightarrow> bytes \<times> bytes" where
  "entry_kv e = (be_key e, be_value e)"

lemma decodeCurrent_at:
  assumes "over xx es it" "bk_pos it = entry_offset es i" "i < length es" "i mod 16 = 0"
  shows "decodeCurrent it = (Some (entry_kv (es ! i)), set_current (entry_kv (es ! i)) it)"
proof -
  have ok: "block_ok es" and le: "legal_entries es" using assms(1) by (auto simp: over_def block_ok_def)
  obtain r where r: "drop (entry_offset es i) (block_image xx es) = full_bytes (es ! i) @ r"
    "length (full_bytes (es ! i) @ r) \<le> length (block_image xx es)"
    using image_at [OF assms(3), of xx] assms(4) by (auto simp: entry_image_def)
  have len: "length (full_bytes (es ! i) @ r) < 2 ^ 32"
    using r(2) ok by (simp add: block_image_length block_ok_def)
  then have "read_value (value_bytes (es ! i) @ r) = Some (be_value (es ! i))"
    using read_value_at [of "es ! i" r] legal_entriesD(5) [OF le assms(3)] by (simp add: full_bytes_def)
  with read_full_key_at [OF legal_entriesD(4) [OF le assms(3)] len] r(1) assms(1-3) show ?thesis
    by (simp add: decodeCurrent_def over_def opened_def entry_kv_def set_current_def)
qed

lemma decodeCurrent_end:
  "over xx es it \<Longrightarrow> bk_pos it = entry_offset es (length es) \<Longrightarrow> decodeCurrent it = (None, it)"
  by (simp add: decodeCurrent_def over_def)

lemma decodeNext_end:
  "over xx es it \<Longrightarrow> bk_pos it = entry_offset es (length es) \<Longrightarrow> decodeNext it = Some (None, it)"
  by (simp add: decodeNext_def over_def)

lemma finish_entry_at:
  assumes "length (be_value e) < 2 ^ 32" "length (value_bytes e @ r) < 2 ^ 32"
    "bk_pos it + 4 + length (be_value e) < 2 ^ 32"
  shows "finish_entry key (value_bytes e @ r) it =
    (Some (key, be_value e), it\<lparr>bk_pos := bk_pos it + 4 + length (be_value e)\<rparr>)"
  using assms read_value_at [OF assms(1,2)] by (simp add: finish_entry_def)

lemma decodeNext_at:
  assumes "over xx es it" "bk_pos it = entry_offset es i" "i < length es"
    and prev: "i mod 16 = 0 \<or> bk_key it = Some (be_key (es ! (i - 1)))"
  shows "\<exists>idx. decodeNext it = Some (Some (entry_kv (es ! i)),
     it\<lparr>bk_restartIdx := idx, bk_pos := entry_offset es (Suc i)\<rparr>)"
proof -
  have ok: "block_ok es" and le: "legal_entries es" using assms(1) by (auto simp: over_def block_ok_def)
  let ?e = "es ! i"
  obtain r where r: "drop (entry_offset es i) (block_image xx es) = entry_image es i @ r"
    "length (entry_image es i @ r) \<le> length (block_image xx es)"
    using image_at [OF assms(3)] by blast
  have len: "length (entry_image es i @ r) < 2 ^ 32" using r(2) ok by (simp add: block_image_length block_ok_def)
  have fin: "entry_offset es i + length (entry_image es i) < 2 ^ 32"
    using entry_offset_small [OF ok, of "Suc i"] assms(3) by (simp add: entries_image_Suc)
  have pos: "bk_pos it < bk_dataEnd it" using assms(1-3) by (simp add: over_def)
  have data: "drop (bk_pos it) (br_data (bk_reader it)) = entry_image es i @ r"
    using assms(1,2) r(1) by (simp add: over_def opened_def)
  have rs: "br_restartPoints (bk_reader it) = restart_offsets es (length es)" using assms(1) by simp
  note kl = legal_entriesD(4) [OF le assms(3)] and vl = legal_entriesD(5) [OF le assms(3)]
  show ?thesis
  proof (cases "i mod 16 = 0")
    case True
    then obtain j where j: "find_restart (bk_pos it) (restart_offsets es (length es)) 0 = Some j"
      using find_restart_iff [OF ok assms(3)] assms(2) by auto
    have img: "entry_image es i = full_bytes ?e" using True by (simp add: entry_image_def)
    have "finish_entry (be_key ?e) (value_bytes ?e @ r) (it\<lparr>bk_restartIdx := j, bk_pos := bk_pos it + 2 + length (be_key ?e)\<rparr>) =
      (Some (entry_kv ?e), it\<lparr>bk_restartIdx := j, bk_pos := entry_offset es (Suc i)\<rparr>)"
      using finish_entry_at [OF vl, of r "it\<lparr>bk_restartIdx := j, bk_pos := bk_pos it + 2 + length (be_key ?e)\<rparr>"] len fin assms(2)
      by (simp add: img full_bytes_def entry_kv_def entries_image_Suc)
    then show ?thesis
      using pos data j read_full_key_at [OF kl, of r] len fin assms(2)
      by (intro exI [of _ j]) (simp add: decodeNext_def rs Let_def img full_bytes_def)
  next
    case False
    define p c suf where "p = be_key (es ! (i - 1))" and "c = common_prefix p (be_key ?e)"
      and "suf = drop c (be_key ?e)"
    have none: "find_restart (bk_pos it) (restart_offsets es (length es)) 0 = None"
      using find_restart_iff [OF ok assms(3)] assms(2) False by auto
    have sl: "length (be_key ?e) - c = length suf" by (simp add: suf_def)
    have img: "entry_image es i = put_u16 (of_nat c) @ put_u16 (of_nat (length suf)) @ suf @ value_bytes ?e"
      using False by (simp add: entry_image_def delta_bytes_def Let_def p_def c_def suf_def)
    have key: "take c p @ suf = be_key ?e"
      using common_prefix_take [of p "be_key ?e"] by (simp add: suf_def c_def)
    have cl: "c \<le> length p" "length p < 2 ^ 16"
      using common_prefix_le legal_entriesD(4) [OF le, of "i - 1"] assms(3) by (auto simp: c_def p_def)
    then have kc: "c + length suf < 2 ^ 16" using kl key [THEN arg_cong, of length] by simp
    then have w: "unat (of_nat c :: u16) = c" "unat (of_nat (length suf) :: u16) = length suf"
      by (intro unat_u16_len; simp)+
    have cur: "bk_key it = Some p" using prev False by (simp add: p_def)
    have "finish_entry (be_key ?e) (value_bytes ?e @ r) (it\<lparr>bk_pos := bk_pos it + 4 + length suf\<rparr>) =
      (Some (entry_kv ?e), it\<lparr>bk_pos := entry_offset es (Suc i)\<rparr>)"
      using finish_entry_at [OF vl, of r "it\<lparr>bk_pos := bk_pos it + 4 + length suf\<rparr>"] len fin assms(2)
      by (simp add: img entry_kv_def entries_image_Suc)
    moreover have "length (suf @ value_bytes ?e @ r) < 2 ^ 32" "bk_pos it + 4 + length suf < 2 ^ 32"
      using len fin assms(2) by (simp_all add: img)
    ultimately have "decodeNext it = Some (Some (entry_kv ?e), it\<lparr>bk_pos := entry_offset es (Suc i)\<rparr>)"
      using pos data none cur cl w key kc by (simp add: decodeNext_def rs Let_def img)
    then show ?thesis by (intro exI [of _ "bk_restartIdx it"]) simp
  qed
qed

section \<open>Positions\<close>

text \<open>
  The iterator shows entry \<open>j\<close> and will decode entry \<open>i\<close> next. After \<open>Next\<close> that is the successor;
  after a seek that lands on a restart point it is the shown entry itself, because
  \<open>decodeCurrent\<close> does not advance the position.
\<close>

definition on :: "(bytes \<Rightarrow> u64) \<Rightarrow> block_entry list \<Rightarrow> nat \<Rightarrow> nat \<Rightarrow> block_iter \<Rightarrow> bool" where
  "on xx es j i it \<longleftrightarrow>
     over xx es it \<and> bk_initialized it \<and> bk_key it = Some (be_key (es ! j)) \<and>
     bk_val it = Some (be_value (es ! j)) \<and> bk_pos it = entry_offset es i \<and> j < length es \<and>
     (i = Suc j \<or> i = j \<and> j mod 16 = 0)"

definition exhausted :: "(bytes \<Rightarrow> u64) \<Rightarrow> block_entry list \<Rightarrow> block_iter \<Rightarrow> bool" where
  "exhausted xx es it \<longleftrightarrow> over xx es it \<and> bk_initialized it \<and> bk_key it = None \<and> bk_val it = None"

definition item_of :: "block_entry \<Rightarrow> item" where
  "item_of e = (be_key e, Some (be_value e), False)"

lemma over_nonempty: "over xx es it \<Longrightarrow> es \<noteq> [] \<and> restart_offsets es (length es) \<noteq> []"
  by (auto simp: over_def block_ok_def legal_entries_def restart_offsets_def num_restarts_def)

lemma on_valid: "on xx es j i it \<Longrightarrow> bk_Valid it"
  using legal_entriesD(3) [of es j] by (auto simp: on_def over_def block_ok_def bk_Valid_def)

lemma set_current_fields [simp]:
  "bk_reader (set_current kv it) = bk_reader it" "bk_pos (set_current kv it) = bk_pos it"
  "bk_key (set_current kv it) = Some (fst kv)" "bk_val (set_current kv it) = Some (snd kv)"
  "bk_initialized (set_current kv it) = bk_initialized it"
  "over xx es (set_current kv it) = over xx es it"
  by (simp_all add: set_current_def over_def)

lemma entry_kv_simps [simp]: "fst (entry_kv e) = be_key e" "snd (entry_kv e) = be_value e"
  by (simp_all add: entry_kv_def)

lemma SeekToFirst_on: "over xx es it \<Longrightarrow> on xx es 0 0 (bk_SeekToFirst it)"
  using over_nonempty [of xx es it]
    decodeCurrent_at [of xx es "it\<lparr>bk_pos := 0, bk_restartIdx := 0, bk_initialized := True\<rparr>" 0]
  by (auto simp: bk_SeekToFirst_def on_def)

lemma Next_on:
  assumes "on xx es j i it"
  shows "i < length es \<Longrightarrow> \<exists>it'. bk_Next it = Some (True, it') \<and> on xx es i (Suc i) it'"
    "i = length es \<Longrightarrow> \<exists>it'. bk_Next it = Some (False, it') \<and> exhausted xx es it'"
proof -
  have o: "over xx es it" "bk_initialized it" "bk_key it = Some (be_key (es ! j))" "bk_pos it = entry_offset es i"
    using assms by (auto simp: on_def)
  show "\<exists>it'. bk_Next it = Some (True, it') \<and> on xx es i (Suc i) it'" if "i < length es"
  proof -
    have "i mod 16 = 0 \<or> bk_key it = Some (be_key (es ! (i - 1)))" using assms by (auto simp: on_def)
    from decodeNext_at [OF o(1,4) that this] o that show ?thesis
      by (auto simp: bk_Next_def on_def)
  qed
  show "\<exists>it'. bk_Next it = Some (False, it') \<and> exhausted xx es it'" if "i = length es"
    using decodeNext_end [of xx es it] o that by (auto simp: bk_Next_def exhausted_def clear_current_def)
qed

lemma Next_exhausted: "exhausted xx es it \<Longrightarrow> bk_Next it = Some (False, it)"
  by (simp add: exhausted_def bk_Next_def)

lemma exhausted_invalid: "exhausted xx es it \<Longrightarrow> \<not> bk_Valid it"
  by (simp add: exhausted_def bk_Valid_def)

text \<open>What a client of the iterator sees from a position on.\<close>

lemma collect_on:
  "on xx es j i it \<Longrightarrow> length es - i < n \<Longrightarrow>
     iter_collect block_iter_ops n it = Some (map item_of (es ! j # drop i es))"
proof (induction n arbitrary: j i it)
  case (Suc n)
  have le: "i \<le> length es" using Suc.prems(1) by (auto simp: on_def)
  have cur: "bk_key it = Some (be_key (es ! j))" "bk_val it = Some (be_value (es ! j))"
    using Suc.prems(1) by (auto simp: on_def)
  have tomb: "\<not> bk_IsTombstone it" using cur by (simp add: bk_IsTombstone_def)
  show ?case
  proof (cases "i < length es")
    case True
    obtain it' where n: "bk_Next it = Some (True, it')" "on xx es i (Suc i) it'"
      using Next_on(1) [OF Suc.prems(1) True] by blast
    have "iter_collect block_iter_ops n it' = Some (map item_of (es ! i # drop (Suc i) es))"
      using Suc.IH [OF n(2)] Suc.prems(2) True by simp
    then show ?thesis using n cur tomb on_valid [OF Suc.prems(1)] True
      by (simp add: block_iter_ops_def item_of_def Cons_nth_drop_Suc)
  next
    case False
    with le have "i = length es" by simp
    with Next_on(2) [OF Suc.prems(1)] obtain it' where n: "bk_Next it = Some (False, it')" "exhausted xx es it'" by blast
    then have "iter_collect block_iter_ops n it' = Some []"
      using exhausted_invalid [OF n(2)] by (cases n) (simp_all add: block_iter_ops_def)
    then show ?thesis using n cur tomb on_valid [OF Suc.prems(1)] \<open>i = length es\<close>
      by (simp add: block_iter_ops_def item_of_def)
  qed
qed simp

section \<open>Seeking\<close>

abbreviation bkey :: "block_entry list \<Rightarrow> nat \<Rightarrow> bytes" where
  "bkey es i \<equiv> be_key (es ! i)"

lemma bkey_mono: "legal_entries es \<Longrightarrow> i < j \<Longrightarrow> j < length es \<Longrightarrow> bkey es i < bkey es j"
  using sorted_wrt_nth_less [of "(<)" "map be_key es" i j] by (simp add: legal_entries_def)

lemma restart_decode:
  assumes "over xx es it" "r < num_restarts (length es)"
    "it' = it\<lparr>bk_restartIdx := r, bk_pos := unat (br_restartPoints (bk_reader it) ! r)\<rparr>"
  shows "decodeCurrent it' = (Some (entry_kv (es ! (16 * r))), set_current (entry_kv (es ! (16 * r))) it')"
proof -
  have ok: "block_ok es" using assms(1) by (simp add: over_def)
  have "16 * r < length es" using restart_lt [OF assms(2)] over_nonempty [OF assms(1)] by simp
  with unat_restart [OF ok assms(2)] assms show ?thesis
    by (intro decodeCurrent_at [of xx]) simp_all
qed

lemma seek_search_left:
  assumes "over xx es it" "left \<le> right" "right < num_restarts (length es)"
    "\<forall>r < left. bkey es (16 * r) < target"
    "right = num_restarts (length es) - 1 \<or> target \<le> bkey es (16 * right)"
  shows "\<exists>l it'. seek_search target left right it = (Some l, it') \<and> over xx es it' \<and>
     l < num_restarts (length es) \<and> (\<forall>r < l. bkey es (16 * r) < target) \<and>
     (l = num_restarts (length es) - 1 \<or> target \<le> bkey es (16 * l))"
  using assms
proof (induction target left right it rule: seek_search.induct)
  case (1 target left right it)
  show ?case
  proof (cases "left < right")
    case False
    with 1(3-) show ?thesis by (subst seek_search.simps) auto
  next
    case True
    define mid where "mid = (left + right) div 2"
    let ?it = "it\<lparr>bk_restartIdx := mid, bk_pos := unat (br_restartPoints (bk_reader it) ! mid)\<rparr>"
    let ?it' = "set_current (entry_kv (es ! (16 * mid))) ?it"
    have m: "left \<le> mid" "mid < right" using True by (auto simp: mid_def)
    have d: "decodeCurrent ?it = (Some (entry_kv (es ! (16 * mid))), ?it')"
      using restart_decode [OF 1(3), of mid] m 1(5) by simp
    have unfold: "seek_search target left right it =
        (if bkey es (16 * mid) < target then seek_search target (mid + 1) right ?it' else seek_search target left mid ?it')"
      using True d by (subst seek_search.simps) (simp add: Let_def flip: mid_def)
    have o: "over xx es ?it'" using 1(3) by simp
    have n: "16 * mid < length es" using restart_lt [of mid "length es"] m 1(5) over_nonempty [OF 1(3)] by simp
    have mono: "bkey es (16 * r) \<le> bkey es (16 * mid)" if "r \<le> mid" for r
      using bkey_mono [of es "16 * r" "16 * mid"] that n 1(3) by (cases "r = mid") (auto simp: over_def block_ok_def)
    show ?thesis
    proof (cases "bkey es (16 * mid) < target")
      case lt: True
      have "\<forall>r < mid + 1. bkey es (16 * r) < target"
        using mono lt by (auto simp: less_Suc_eq_le intro: le_less_trans)
      then have "\<exists>l it'. seek_search target (mid + 1) right ?it' = (Some l, it') \<and> over xx es it' \<and>
          l < num_restarts (length es) \<and> (\<forall>r < l. bkey es (16 * r) < target) \<and>
          (l = num_restarts (length es) - 1 \<or> target \<le> bkey es (16 * l))"
        using 1(1) [OF True mid_def d [symmetric] refl] lt o m 1(5,7) by simp
      with lt unfold show ?thesis by simp
    next
      case ge: False
      then have "\<exists>l it'. seek_search target left mid ?it' = (Some l, it') \<and> over xx es it' \<and>
          l < num_restarts (length es) \<and> (\<forall>r < l. bkey es (16 * r) < target) \<and>
          (l = num_restarts (length es) - 1 \<or> target \<le> bkey es (16 * l))"
        using 1(2) [OF True mid_def d [symmetric] refl] o m 1(5,6) by (simp add: not_less)
      with ge unfold show ?thesis by simp
    qed
  qed
qed

text \<open>The linear scan finds the first entry from the next one on whose key is at least the target.\<close>

lemma on_decodeNext:
  assumes "on xx es j i it" "i < length es"
  obtains it' where "decodeNext it = Some (Some (entry_kv (es ! i)), it')"
    "on xx es i (Suc i) (set_current (entry_kv (es ! i)) it')"
proof -
  have "i mod 16 = 0 \<or> bk_key it = Some (bkey es (i - 1))" using assms(1) by (auto simp: on_def)
  from decodeNext_at [OF _ _ assms(2) this, of xx] assms that show thesis by (auto simp: on_def)
qed

lemma seek_scan_found:
  assumes "on xx es j i it" "i \<le> k" "k < length es" "target \<le> bkey es k" "\<forall>m \<in> {i..<k}. bkey es m < target"
  shows "\<exists>it'. seek_scan target it = Some (True, it') \<and> on xx es k (Suc k) it'"
  using assms(1,2,5)
proof (induction "k - i" arbitrary: j i it)
  case 0
  then have "i = k" by simp
  obtain it' where d: "decodeNext it = Some (Some (entry_kv (es ! k)), it')"
    "on xx es k (Suc k) (set_current (entry_kv (es ! k)) it')"
    using on_decodeNext [OF 0(2)] \<open>i = k\<close> assms(3) by auto
  then have "seek_scan target it = Some (True, set_current (entry_kv (es ! k)) it')"
    using assms(4) by (subst seek_scan.simps) simp
  with d(2) show ?case by simp
next
  case (Suc n)
  obtain it' where d: "decodeNext it = Some (Some (entry_kv (es ! i)), it')"
    "on xx es i (Suc i) (set_current (entry_kv (es ! i)) it')"
  proof (rule on_decodeNext [OF Suc(3)])
    show "i < length es" using Suc.hyps(2) assms(3) by simp
  qed
  have "\<not> target \<le> bkey es i" using Suc.prems(3) [rule_format, of i] Suc.hyps(2) by (simp add: not_le)
  then have "seek_scan target it = seek_scan target (set_current (entry_kv (es ! i)) it')"
    using d by (subst seek_scan.simps) simp
  moreover have "\<exists>it''. seek_scan target (set_current (entry_kv (es ! i)) it') = Some (True, it'') \<and> on xx es k (Suc k) it''"
    using Suc.hyps(1) [OF _ d(2)] Suc.hyps(2) Suc.prems(3) by auto
  ultimately show ?case by simp
qed

lemma seek_scan_none:
  assumes "on xx es j i it" "\<forall>m \<in> {i..<length es}. bkey es m < target"
  shows "\<exists>it'. seek_scan target it = Some (False, it') \<and> on xx es (length es - 1) (length es) it'"
  using assms
proof (induction "length es - i" arbitrary: j i it)
  case 0
  then have "i = length es" and pos: "over xx es it" "bk_pos it = entry_offset es (length es)"
    by (auto simp: on_def)
  have "it\<lparr>bk_pos := entry_offset es (length es)\<rparr> = it" using pos(2) by (cases it) simp
  then have "decodeCurrent (it\<lparr>bk_pos := entry_offset es (length es)\<rparr>) = (None, it)"
    using decodeCurrent_end [OF pos] by metis
  then have "seek_scan target it = Some (False, it)"
    using decodeNext_end [OF pos] pos(2) by (subst seek_scan.simps) simp
  with 0 \<open>i = length es\<close> show ?case by (auto simp: on_def)
next
  case (Suc n)
  obtain it' where d: "decodeNext it = Some (Some (entry_kv (es ! i)), it')"
    "on xx es i (Suc i) (set_current (entry_kv (es ! i)) it')"
  proof (rule on_decodeNext [OF Suc(3)])
    show "i < length es" using Suc.hyps(2) by simp
  qed
  have "\<not> target \<le> bkey es i" using Suc.prems(2) [rule_format, of i] Suc.hyps(2) by (simp add: not_le)
  then have "seek_scan target it = seek_scan target (set_current (entry_kv (es ! i)) it')"
    using d by (subst seek_scan.simps) simp
  moreover have "\<exists>it''. seek_scan target (set_current (entry_kv (es ! i)) it') = Some (False, it'') \<and>
      on xx es (length es - 1) (length es) it''"
    using Suc.hyps(1) [OF _ d(2)] Suc.hyps(2) Suc.prems(2) by auto
  ultimately show ?case by simp
qed

text \<open>
  The entries a seek can land on: those with a full key, and all entries of the last interval.
\<close>

definition landing :: "block_entry list \<Rightarrow> nat list" where
  "landing es = (let R = num_restarts (length es) in
     map (\<lambda>r. 16 * r) [0..<R - 1] @ [16 * (R - 1)..<length es])"

lemma landing_length: "length (landing es) = num_restarts (length es) - 1 + (length es - 16 * (num_restarts (length es) - 1))"
  by (simp add: landing_def Let_def)

lemma landing_nth:
  "i < length (landing es) \<Longrightarrow> landing es ! i =
     (if i < num_restarts (length es) - 1 then 16 * i
      else 16 * (num_restarts (length es) - 1) + (i - (num_restarts (length es) - 1)))"
  by (auto simp: landing_def Let_def nth_append)

lemma landing_restart:
  assumes "r < num_restarts (length es)" "es \<noteq> []"
  shows "r < length (landing es) \<and> landing es ! r = 16 * r"
proof -
  have l: "r < length (landing es)"
    using restart_lt [OF assms(1)] assms by (cases "r = num_restarts (length es) - 1") (auto simp: landing_length)
  show ?thesis using landing_nth [OF l] l assms(1) by (cases "r = num_restarts (length es) - 1") auto
qed

lemma Seek_landing:
  assumes "over xx es it"
  shows "case List.find (\<lambda>j. target \<le> bkey es j) (landing es) of
      Some j \<Rightarrow> \<exists>i it'. bk_Seek target it = Some (True, it') \<and> on xx es j i it'
    | None \<Rightarrow> \<exists>it'. bk_Seek target it = Some (False, it') \<and> on xx es (length es - 1) (length es) it'"
proof -
  let ?R = "num_restarts (length es)"
  have R: "0 < ?R" by (simp add: num_restarts_def)
  have ne: "restart_offsets es (length es) \<noteq> []" "es \<noteq> []" using over_nonempty [OF assms] by auto
  obtain l it1 where s: "seek_search target 0 (?R - 1) it = (Some l, it1)" "over xx es it1" "l < ?R"
    "\<forall>r < l. bkey es (16 * r) < target" "l = ?R - 1 \<or> target \<le> bkey es (16 * l)"
    using seek_search_left [OF assms, of 0 "?R - 1" target] R by auto
  define it2 where "it2 = it1\<lparr>bk_restartIdx := l, bk_pos := unat (br_restartPoints (bk_reader it1) ! l), bk_initialized := True\<rparr>"
  have l16: "16 * l < length es" using restart_lt [OF s(3)] ne(2) by simp
  have pos: "bk_pos it2 = entry_offset es (16 * l)" "over xx es it2"
    using unat_restart [of es l] s(2,3) over_restarts [OF s(2)] by (auto simp: it2_def, simp add: over_def)
  note d = decodeCurrent_at [OF pos(2,1) l16]
  have on2: "on xx es (16 * l) (16 * l) (set_current (entry_kv (es ! (16 * l))) it2)"
    using pos l16 by (auto simp: on_def it2_def)
  have seek: "bk_Seek target it = (if target \<le> bkey es (16 * l)
      then Some (True, set_current (entry_kv (es ! (16 * l))) it2)
      else seek_scan target (set_current (entry_kv (es ! (16 * l))) it2))"
    using s(1) d assms ne by (simp add: bk_Seek_def flip: it2_def) (simp add: set_current_def)
  show ?thesis
  proof (cases "target \<le> bkey es (16 * l)")
    case True
    then have "List.find (\<lambda>j. target \<le> bkey es j) (landing es) = Some (16 * l)"
      using s(3,4) landing_restart [OF _ ne(2)]
      by (subst find_Some_iff, intro exI [of _ l]) (auto simp: not_le)
    with seek True on2 show ?thesis by auto
  next
    case False
    with s(5) have l: "l = ?R - 1" by simp
    note seek = seek [unfolded if_not_P [OF False]]
    show ?thesis
    proof (cases "List.find (\<lambda>j. target \<le> bkey es j) (landing es)")
      case None
      then have "\<forall>j \<in> set (landing es). bkey es j < target" by (auto simp: find_None_iff not_le)
      then have "\<forall>m \<in> {16 * l..<length es}. bkey es m < target" by (auto simp: landing_def Let_def l)
      with seek_scan_none [OF on2] seek None show ?thesis by simp
    next
      case (Some j)
      then obtain i where i: "i < length (landing es)" "target \<le> bkey es j" "j = landing es ! i"
        "\<forall>m < i. bkey es (landing es ! m) < target" by (auto simp: find_Some_iff not_le)
      have il: "l \<le> i"
      proof (rule ccontr)
        assume "\<not> l \<le> i"
        then have "landing es ! i = 16 * i" using landing_restart [OF _ ne(2), of i] s(3) by simp
        with i(2,3) s(4) [rule_format, of i] \<open>\<not> l \<le> i\<close> show False by (simp add: not_le)
      qed
      have at: "landing es ! m = 16 * l + (m - l)" if "l \<le> m" "m < length (landing es)" for m
        using landing_nth [of m es] that l by auto
      have "\<forall>m \<in> {16 * l..<j}. bkey es m < target"
      proof
        fix m assume m: "m \<in> {16 * l..<j}"
        then have "l + (m - 16 * l) < i" using at [OF il i(1)] i(3) il by auto
        with i(1,4) at [of "l + (m - 16 * l)"] m show "bkey es m < target" by force
      qed
      moreover have ll: "length (landing es) = l + (length es - 16 * l)" by (simp add: landing_length l)
      have "16 * l \<le> j" "j < length es" using at [OF il i(1)] i(1,3) ll il by linarith+
      ultimately show ?thesis using seek_scan_found [OF on2 _ _ i(2)] seek Some by auto
    qed
  qed
qed

lemma last_loop_on:
  "on xx es j i it \<Longrightarrow> \<exists>it'. last_loop it = Some it' \<and> on xx es (length es - 1) (length es) it'"
proof (induction "length es - i" arbitrary: j i it)
  case 0
  then have "i = length es" and pos: "over xx es it" "bk_pos it = entry_offset es (length es)"
    by (auto simp: on_def)
  then have "last_loop it = Some it"
    using decodeNext_end [OF pos] by (subst last_loop.simps) simp
  with 0 \<open>i = length es\<close> show ?case by (auto simp: on_def)
next
  case (Suc n)
  obtain it' where d: "decodeNext it = Some (Some (entry_kv (es ! i)), it')"
    "on xx es i (Suc i) (set_current (entry_kv (es ! i)) it')"
  proof (rule on_decodeNext [OF Suc(3)])
    show "i < length es" using Suc.hyps(2) by simp
  qed
  then have "last_loop it = last_loop (set_current (entry_kv (es ! i)) it')"
    by (subst last_loop.simps) simp
  moreover have "\<exists>it''. last_loop (set_current (entry_kv (es ! i)) it') = Some it'' \<and> on xx es (length es - 1) (length es) it''"
    using Suc.hyps(1) [OF _ d(2)] Suc.hyps(2) by auto
  ultimately show ?case by simp
qed

lemma SeekToLast_on:
  assumes "over xx es it"
  shows "\<exists>it'. bk_SeekToLast it = Some it' \<and> on xx es (length es - 1) (length es) it'"
proof -
  let ?l = "num_restarts (length es) - 1"
  define it1 where "it1 = it\<lparr>bk_restartIdx := ?l, bk_pos := unat (restart_offsets es (length es) ! ?l), bk_initialized := True\<rparr>"
  have ne: "restart_offsets es (length es) \<noteq> []" "es \<noteq> []" using over_nonempty [OF assms] by auto
  have l: "?l < num_restarts (length es)" by (simp add: num_restarts_def)
  then have l16: "16 * ?l < length es" using restart_lt ne(2) by blast
  have pos: "bk_pos it1 = entry_offset es (16 * ?l)" "over xx es it1"
    using unat_restart [of es ?l] l over_restarts [OF assms] assms by (auto simp: it1_def, simp add: over_def)
  have "on xx es (16 * ?l) (16 * ?l) (set_current (entry_kv (es ! (16 * ?l))) it1)"
    using pos l16 by (auto simp: on_def it1_def)
  moreover have "bk_SeekToLast it = last_loop (set_current (entry_kv (es ! (16 * ?l))) it1)"
    using decodeCurrent_at [OF pos(2,1) l16] ne over_restarts [OF assms]
    by (simp add: bk_SeekToLast_def Let_def it1_def) (simp add: set_current_def)
  ultimately show ?thesis using last_loop_on by metis
qed

text \<open>In a block with one restart interval every entry can be landed on.\<close>

lemma landing_single: "es \<noteq> [] \<Longrightarrow> length es \<le> 16 \<Longrightarrow> landing es = [0..<length es]"
proof -
  assume "es \<noteq> []" "length es \<le> 16"
  then have "num_restarts (length es) = 1" unfolding num_restarts_def by (auto intro: div_nat_eqI simp: Suc_le_eq)
  then show ?thesis by (simp add: landing_def)
qed

section \<open>Properties\<close>

text \<open>
  A block survives serialisation: entries with increasing, non-empty keys that fit the field
  widths can all be added, the finished bytes can be opened, and iterating from the first entry
  shows every entry with its key and value in order, the first one twice.
\<close>

lemma block_roundtrip:
  assumes "block_ok es"
  shows "\<exists>b data r. run_all (\<lambda>e b. case builder_Add (be_key e) (be_value e) b of (Inl _, _) \<Rightarrow> None | (Inr _, b') \<Rightarrow> Some b')
      es NewBuilder = Some b \<and> fst (builder_Finish xx b) = Inr data \<and> block_NewReader xx data = Inr r \<and>
    iter_collect block_iter_ops (Suc (length es)) (bk_SeekToFirst (block_Iterator r)) =
      Some (map item_of (hd es # es))"
proof -
  have le: "legal_entries es" using assms by (simp add: block_ok_def)
  obtain b where b: "run_all (\<lambda>e b. case builder_Add (be_key e) (be_value e) b of (Inl _, _) \<Rightarrow> None | (Inr _, b') \<Rightarrow> Some b')
      es NewBuilder = Some b" "bb_entries b = es"
    using builder_Add_all [OF legal_entriesD(2) [OF le]] by blast
  have "on xx es 0 0 (bk_SeekToFirst (block_Iterator (opened xx es)))"
    using SeekToFirst_on [OF Iterator_over [OF assms]] .
  from collect_on [OF this, of "Suc (length es)"] legal_entriesD(1) [OF le]
  have "iter_collect block_iter_ops (Suc (length es)) (bk_SeekToFirst (block_Iterator (opened xx es))) =
      Some (map item_of (hd es # es))" by (simp add: hd_conv_nth)
  with b Finish_image [of b xx] le NewReader_opened [OF assms, of xx] show ?thesis by auto
qed

text \<open>
  A seek in a serialised block lands on the first entry whose key is at least the target among
  those it can land on: the entries that store a full key, one in sixteen, and the entries of the
  last interval. When there is none it returns false. In a block of at most sixteen entries these
  are all entries, in a larger one a stored key can be passed over.
\<close>

lemma block_seek_lands:
  assumes "block_ok es" "block_NewReader xx (block_image xx es) = Inr r"
  shows "case List.find (\<lambda>j. target \<le> be_key (es ! j)) (landing es) of
      Some j \<Rightarrow> \<exists>it. bk_Seek target (block_Iterator r) = Some (True, it) \<and>
        bk_key it = Some (be_key (es ! j)) \<and> bk_val it = Some (be_value (es ! j))
    | None \<Rightarrow> \<exists>it. bk_Seek target (block_Iterator r) = Some (False, it)"
proof -
  have r: "r = opened xx es" using assms NewReader_opened [OF assms(1), of xx] by simp
  show ?thesis using Seek_landing [OF Iterator_over [OF assms(1)], of target xx]
    by (auto simp: r on_def split: option.splits)
qed

text \<open>A block of twenty entries: the key of the sixth is passed over.\<close>

definition twenty :: "block_entry list" where
  "twenty = map (\<lambda>i. \<lparr>be_key = [of_nat (Suc i)], be_value = [of_nat i]\<rparr>) [0..<20]"

lemma twenty_upt: "[0..<20] = [0, 1, 2, 3, 4, 5, 6, 7, 8, 9, 10, 11, 12, 13, 14, 15, 16, 17, 18, 19 :: nat]"
  by (simp add: upt_rec)

lemma twenty_ok: "block_ok twenty"
  by (simp add: block_ok_def legal_entries_def twenty_def twenty_upt entries_image_def entry_image_def
      full_bytes_def delta_bytes_def value_bytes_def num_restarts_def)

lemma twenty_landing: "landing twenty = [0, 16, 17, 18, 19]"
  by (simp add: landing_def twenty_def num_restarts_def upt_rec)

lemma twenty_keys: "i < 20 \<Longrightarrow> be_key (twenty ! i) = [of_nat (Suc i)]"
  by (simp add: twenty_def)

end
