(* ===== verification/Sst_Footer.thy ===== *)
theory Sst_Footer
  imports Kevo_Prelude
begin

text \<open>
  The footer of a table file (\<open>src/pkg/sstable/footer/footer.go\<close>): 68 bytes with a checksum over
  the first 60. The checksum function is the third-party \<open>xxhash.Sum64\<close>, an argument \<open>xx\<close> of the
  definitions; nothing is assumed of it. The signed time stamp is its 64-bit pattern.
\<close>

definition FooterSize :: nat where "FooterSize = 68"
definition FooterMagic :: u64 where "FooterMagic = 0xFACEFEEDFACEFEED"
definition CurrentVersion :: u32 where "CurrentVersion = 2"

record footer =
  ft_Magic :: u64
  ft_Version :: u32
  ft_Timestamp :: u64
  ft_IndexOffset :: u64
  ft_IndexSize :: u32
  ft_NumEntries :: u32
  ft_MinKeyOffset :: u32
  ft_MaxKeyOffset :: u32
  ft_BloomFilterOffset :: u64
  ft_BloomFilterSize :: u32
  ft_Checksum :: u64

definition NewFooter :: "u64 \<Rightarrow> u64 \<Rightarrow> u32 \<Rightarrow> u32 \<Rightarrow> u32 \<Rightarrow> u32 \<Rightarrow> u64 \<Rightarrow> u32 \<Rightarrow> footer" where
  "NewFooter now indexOffset indexSize numEntries minKeyOffset maxKeyOffset bloomFilterOffset bloomFilterSize =
     \<lparr>ft_Magic = FooterMagic, ft_Version = CurrentVersion, ft_Timestamp = now,
      ft_IndexOffset = indexOffset, ft_IndexSize = indexSize, ft_NumEntries = numEntries,
      ft_MinKeyOffset = minKeyOffset, ft_MaxKeyOffset = maxKeyOffset,
      ft_BloomFilterOffset = bloomFilterOffset, ft_BloomFilterSize = bloomFilterSize, ft_Checksum = 0\<rparr>"

text \<open>The first 60 bytes; four bytes of padding stay zero.\<close>

definition footer_fields :: "footer \<Rightarrow> bytes" where
  "footer_fields f =
     put_u64 (ft_Magic f) @ put_u32 (ft_Version f) @ put_u64 (ft_Timestamp f) @
     put_u64 (ft_IndexOffset f) @ put_u32 (ft_IndexSize f) @ put_u32 (ft_NumEntries f) @
     put_u32 (ft_MinKeyOffset f) @ put_u32 (ft_MaxKeyOffset f) @ put_u64 (ft_BloomFilterOffset f) @
     put_u32 (ft_BloomFilterSize f) @ replicate 4 0"

definition footer_Encode :: "(bytes \<Rightarrow> u64) \<Rightarrow> footer \<Rightarrow> bytes \<times> footer" where
  "footer_Encode xx f =
     (let result = footer_fields f; f' = f\<lparr>ft_Checksum := xx result\<rparr>
      in (result @ put_u64 (ft_Checksum f'), f'))"

datatype footer_error = FooterTooSmall nat | InvalidFooterMagic u64 | FooterChecksumMismatch u64 u64

definition footer_Decode :: "(bytes \<Rightarrow> u64) \<Rightarrow> bytes \<Rightarrow> footer_error + footer" where
  "footer_Decode xx data =
     (if length data < FooterSize then Inl (FooterTooSmall (length data))
      else let version = get_u32 (drop 8 data);
               v2 = version \<ge> 2;
               f = \<lparr>ft_Magic = get_u64 data, ft_Version = version, ft_Timestamp = get_u64 (drop 12 data),
                    ft_IndexOffset = get_u64 (drop 20 data), ft_IndexSize = get_u32 (drop 28 data),
                    ft_NumEntries = get_u32 (drop 32 data), ft_MinKeyOffset = get_u32 (drop 36 data),
                    ft_MaxKeyOffset = get_u32 (drop 40 data),
                    ft_BloomFilterOffset = (if v2 then get_u64 (drop 44 data) else 0),
                    ft_BloomFilterSize = (if v2 then get_u32 (drop 52 data) else 0),
                    ft_Checksum = get_u64 (drop (if v2 then 60 else 44) data)\<rparr>;
               expectedChecksum = xx (take (if v2 then 60 else 44) data)
           in if ft_Magic f \<noteq> FooterMagic then Inl (InvalidFooterMagic (ft_Magic f))
              else if ft_Checksum f \<noteq> expectedChecksum
              then Inl (FooterChecksumMismatch (ft_Checksum f) expectedChecksum)
              else Inr f)"

lemma length_footer_fields [simp]: "length (footer_fields f) = 60"
  by (simp add: footer_fields_def)

lemma length_footer_Encode [simp]: "length (fst (footer_Encode xx f)) = FooterSize"
  by (simp add: footer_Encode_def Let_def FooterSize_def)

text \<open>The fields sit where the decoder looks for them.\<close>

lemma footer_fields_at:
  "get_u64 (footer_fields f @ r) = ft_Magic f"
  "get_u32 (drop 8 (footer_fields f) @ r) = ft_Version f"
  "get_u64 (drop 12 (footer_fields f) @ r) = ft_Timestamp f"
  "get_u64 (drop 20 (footer_fields f) @ r) = ft_IndexOffset f"
  "get_u32 (drop 28 (footer_fields f) @ r) = ft_IndexSize f"
  "get_u32 (drop 32 (footer_fields f) @ r) = ft_NumEntries f"
  "get_u32 (drop 36 (footer_fields f) @ r) = ft_MinKeyOffset f"
  "get_u32 (drop 40 (footer_fields f) @ r) = ft_MaxKeyOffset f"
  "get_u64 (drop 44 (footer_fields f) @ r) = ft_BloomFilterOffset f"
  "get_u32 (drop 52 (footer_fields f) @ r) = ft_BloomFilterSize f"
  by (simp_all add: footer_fields_def)

lemma footer_Decode_Encode:
  assumes "ft_Magic f = FooterMagic" "ft_Version f \<ge> 2"
  shows "footer_Decode xx (fst (footer_Encode xx f)) = Inr (snd (footer_Encode xx f))"
proof -
  have "length (fst (footer_Encode xx f)) = 68" using length_footer_Encode [of xx f] by (simp add: FooterSize_def)
  then show ?thesis using assms
    by (cases f) (simp add: footer_Decode_def footer_Encode_def Let_def footer_fields_at FooterSize_def)
qed

text \<open>
  A footer survives being written and read: for every footer in the current format the decoder
  returns all its fields and the checksum that the encoder stored; and whatever bytes the decoder
  accepts carry the magic number and, in the current format, a checksum that matches them.
\<close>

lemma footer_roundtrip:
  "ft_Magic f = FooterMagic \<Longrightarrow> ft_Version f \<ge> 2 \<Longrightarrow>
     footer_Decode xx (fst (footer_Encode xx f)) = Inr (f\<lparr>ft_Checksum := xx (footer_fields f)\<rparr>) \<and>
     (footer_Decode xx data = Inr g \<and> ft_Version g \<ge> 2 \<longrightarrow>
        FooterSize \<le> length data \<and> ft_Magic g = FooterMagic \<and> ft_Checksum g = xx (take 60 data))"
  using footer_Decode_Encode [of f xx]
  by (auto simp: footer_Encode_def Let_def footer_Decode_def split: if_splits)

end
