(* ===== verification/Bloom.thy ===== *)
theory Bloom
  imports Checksums
begin

text \<open>
  The Bloom filter of a data block (\<open>src/pkg/bloom_filter/bloom_filter.go\<close>). The two floating
  point computations of the optimal size and number of hash functions are arguments of
  \<open>NewBloomFilter\<close>. \<open>None\<close> is a panic: the remainder modulo a size of 0, or an index outside the
  bit array.
\<close>

section \<open>Operations\<close>

record bloom =
  bf_bits :: bytes
  bf_size :: u64
  bf_hashFuncs :: u64
  bf_expectedN :: u64
  bf_insertions :: u64

definition NewBloomFilter :: "u64 \<Rightarrow> u64 \<Rightarrow> u64 \<Rightarrow> bloom" where
  "NewBloomFilter bitSize hashFuncs expectedElements =
     \<lparr>bf_bits = replicate (unat ((bitSize + 7) div 8)) 0, bf_size = bitSize, bf_hashFuncs = hashFuncs,
      bf_expectedN = expectedElements, bf_insertions = 0\<rparr>"

definition bloom_hash :: "bytes \<Rightarrow> u64 \<Rightarrow> bloom \<Rightarrow> u64 option" where
  "bloom_hash key i bf =
     (if bf_size bf = 0 then None else Some (fnv1a (key @ put_u64 i) mod bf_size bf))"

definition setBit :: "u64 \<Rightarrow> bloom \<Rightarrow> bloom option" where
  "setBit position bf =
     (let byteIndex = unat (position div 8); bitOffset = unat (position mod 8) in
      if byteIndex < length (bf_bits bf)
      then Some (bf\<lparr>bf_bits := (bf_bits bf)[byteIndex := (bf_bits bf ! byteIndex) OR push_bit bitOffset 1]\<rparr>)
      else None)"

definition testBit :: "u64 \<Rightarrow> bloom \<Rightarrow> bool option" where
  "testBit position bf =
     (let byteIndex = unat (position div 8); bitOffset = unat (position mod 8) in
      if byteIndex < length (bf_bits bf)
      then Some ((bf_bits bf ! byteIndex) AND push_bit bitOffset 1 \<noteq> 0)
      else None)"

definition add_position :: "bytes \<Rightarrow> nat \<Rightarrow> bloom \<Rightarrow> bloom option" where
  "add_position key i bf =
     (case bloom_hash key (of_nat i) bf of None \<Rightarrow> None | Some position \<Rightarrow> setBit position bf)"

definition bloom_Add :: "bytes \<Rightarrow> bloom \<Rightarrow> bloom option" where
  "bloom_Add key bf =
     map_option (\<lambda>bf'. bf'\<lparr>bf_insertions := bf_insertions bf' + 1\<rparr>)
       (run_all (add_position key) [0..<unat (bf_hashFuncs bf)] bf)"

fun all_set :: "bytes \<Rightarrow> bloom \<Rightarrow> nat list \<Rightarrow> bool option" where
  "all_set key bf [] = Some True"
| "all_set key bf (i # is) =
     (case bloom_hash key (of_nat i) bf of
        None \<Rightarrow> None
      | Some position \<Rightarrow>
          (case testBit position bf of
             None \<Rightarrow> None
           | Some b \<Rightarrow> if b then all_set key bf is else Some False))"

definition bloom_Contains :: "bytes \<Rightarrow> bloom \<Rightarrow> bool option" where
  "bloom_Contains key bf = all_set key bf [0..<unat (bf_hashFuncs bf)]"

definition bloom_Clear :: "bloom \<Rightarrow> bloom" where
  "bloom_Clear bf = bf\<lparr>bf_bits := replicate (length (bf_bits bf)) 0, bf_insertions := 0\<rparr>"

definition SaveToFile :: "bloom \<Rightarrow> bytes" where
  "SaveToFile bf =
     put_u64 (bf_size bf) @ put_u64 (bf_hashFuncs bf) @ put_u64 (bf_expectedN bf) @
     put_u64 (bf_insertions bf) @ bf_bits bf"

text \<open>
  \<open>file.Read\<close> into a buffer of \<open>n\<close> bytes: the error at the end of the file, otherwise what is
  there, the rest of the buffer staying zero.
\<close>

definition file_Read :: "nat \<Rightarrow> bytes \<Rightarrow> (bytes \<times> bytes) option" where
  "file_Read n input =
     (if n = 0 then Some ([], input)
      else if input = [] then None
      else Some (take n input @ replicate (n - length input) 0, drop n input))"

definition LoadBloomFilter :: "bytes \<Rightarrow> bloom option" where
  "LoadBloomFilter content =
     (case file_Read 32 content of
        None \<Rightarrow> None
      | Some (header, rest) \<Rightarrow>
          let bitSize = get_u64 header in
          (case file_Read (unat ((bitSize + 7) div 8)) rest of
             None \<Rightarrow> None
           | Some (bits, _) \<Rightarrow>
               Some \<lparr>bf_bits = bits, bf_size = bitSize, bf_hashFuncs = get_u64 (drop 8 header),
                     bf_expectedN = get_u64 (drop 16 header), bf_insertions = get_u64 (drop 24 header)\<rparr>))"

section \<open>No false negatives\<close>

definition bloom_wf :: "bloom \<Rightarrow> bool" where
  "bloom_wf bf \<longleftrightarrow> bf_size bf \<noteq> 0 \<and> unat (bf_size bf) \<le> 8 * length (bf_bits bf)"

text \<open>\<open>bit_at\<close> reads the bit array at a position.\<close>

definition bit_at :: "bloom \<Rightarrow> u64 \<Rightarrow> bool" where
  "bit_at bf position \<longleftrightarrow> bit (bf_bits bf ! unat (position div 8)) (unat (position mod 8))"

definition position_of :: "bloom \<Rightarrow> bytes \<Rightarrow> nat \<Rightarrow> u64" where
  "position_of bf key i = fnv1a (key @ put_u64 (of_nat i)) mod bf_size bf"

lemma and_push_bit_1: "(w :: byte) AND push_bit n 1 \<noteq> 0 \<longleftrightarrow> bit w n"
  by (simp add: bit_iff_and_push_bit_not_eq_0)

lemma bloom_hash_wf: "bloom_wf bf \<Longrightarrow> bloom_hash key (of_nat i) bf = Some (position_of bf key i)"
  by (simp add: bloom_hash_def position_of_def bloom_wf_def)

lemma position_index:
  assumes "bloom_wf bf"
  shows "unat (position_of bf key i div 8) < length (bf_bits bf)"
proof -
  have "position_of bf key i < bf_size bf"
    using assms by (simp add: position_of_def bloom_wf_def word_mod_less_divisor word_gt_0)
  then have "unat (position_of bf key i) < unat (bf_size bf)" by (simp add: word_less_nat_alt)
  then have "unat (position_of bf key i) < length (bf_bits bf) * 8" using assms by (simp add: bloom_wf_def)
  then show ?thesis by (simp add: unat_div div_less_iff_less_mult)
qed

lemma testBit_wf: "bloom_wf bf \<Longrightarrow> testBit (position_of bf key i) bf = Some (bit_at bf (position_of bf key i))"
  unfolding testBit_def Let_def and_push_bit_1 by (simp add: position_index bit_at_def)

lemma bit_offset: "unat ((p :: u64) mod 8) < 8"
  by (simp add: unat_mod)

lemma setBit_wf:
  assumes "bloom_wf bf"
  obtains bf' where "setBit (position_of bf key i) bf = Some bf'" "bloom_wf bf'"
    "bf_size bf' = bf_size bf" "bf_hashFuncs bf' = bf_hashFuncs bf" "bf_expectedN bf' = bf_expectedN bf"
    "length (bf_bits bf') = length (bf_bits bf)"
    "bit_at bf' (position_of bf key i)" "\<And>p. bit_at bf p \<Longrightarrow> bit_at bf' p"
proof -
  let ?p = "position_of bf key i"
  let ?bf = "bf\<lparr>bf_bits := (bf_bits bf)[unat (?p div 8) := (bf_bits bf ! unat (?p div 8)) OR push_bit (unat (?p mod 8)) 1]\<rparr>"
  have "bit_at ?bf p" if "bit_at bf p" for p
    using that position_index [OF assms, of key i]
    by (cases "unat (p div 8) = unat (?p div 8)") (auto simp: bit_at_def bit_or_iff)
  moreover have "bit_at ?bf ?p"
    using position_index [OF assms, of key i] bit_offset [of ?p]
    by (simp add: bit_at_def bit_or_iff bit_exp_iff)
  ultimately show ?thesis
    using assms position_index [OF assms, of key i]
    by (intro that [of ?bf]) (simp_all add: setBit_def Let_def bloom_wf_def)
qed

definition keeps :: "bloom \<Rightarrow> bloom \<Rightarrow> bool" where
  "keeps bf bf' \<longleftrightarrow> bloom_wf bf' \<and> bf_size bf' = bf_size bf \<and> bf_hashFuncs bf' = bf_hashFuncs bf \<and>
     length (bf_bits bf') = length (bf_bits bf) \<and> (\<forall>p. bit_at bf p \<longrightarrow> bit_at bf' p)"

lemma add_position_wf:
  assumes "bloom_wf bf"
  shows "\<exists>bf'. add_position key i bf = Some bf' \<and> keeps bf bf' \<and> bit_at bf' (position_of bf' key i)"
proof -
  obtain bf' where "setBit (position_of bf key i) bf = Some bf'" "bloom_wf bf'"
    "bf_size bf' = bf_size bf" "bf_hashFuncs bf' = bf_hashFuncs bf" "length (bf_bits bf') = length (bf_bits bf)"
    "bit_at bf' (position_of bf key i)" "\<And>p. bit_at bf p \<Longrightarrow> bit_at bf' p"
    using setBit_wf [OF assms] by metis
  then show ?thesis using bloom_hash_wf [OF assms]
    by (auto simp: add_position_def keeps_def position_of_def)
qed

lemma add_positions_wf:
  "bloom_wf bf \<Longrightarrow> \<exists>bf'. run_all (add_position key) is bf = Some bf' \<and> keeps bf bf' \<and>
     (\<forall>i \<in> set is. bit_at bf' (position_of bf' key i))"
proof (induction "is" arbitrary: bf)
  case Nil
  then show ?case by (simp add: keeps_def)
next
  case (Cons i "is")
  obtain bf1 where 1: "add_position key i bf = Some bf1" "keeps bf bf1" "bit_at bf1 (position_of bf1 key i)"
    using add_position_wf [OF Cons.prems] by blast
  then obtain bf2 where "run_all (add_position key) is bf1 = Some bf2" "keeps bf1 bf2"
    "\<forall>i \<in> set is. bit_at bf2 (position_of bf2 key i)"
    using Cons.IH [of bf1] by (auto simp: keeps_def)
  with 1 show ?case by (auto simp: keeps_def position_of_def)
qed

definition member :: "bloom \<Rightarrow> bytes \<Rightarrow> bool" where
  "member bf key \<longleftrightarrow> (\<forall>i < unat (bf_hashFuncs bf). bit_at bf (position_of bf key i))"

lemma Contains_wf: "bloom_wf bf \<Longrightarrow> bloom_Contains key bf = Some (member bf key)"
proof -
  assume wf: "bloom_wf bf"
  have "all_set key bf is = Some (\<forall>i \<in> set is. bit_at bf (position_of bf key i))" for "is"
    by (induction "is") (auto simp: bloom_hash_wf [OF wf] testBit_wf [OF wf])
  then show ?thesis by (auto simp: bloom_Contains_def member_def)
qed

lemma member_keeps: "keeps bf bf' \<Longrightarrow> member bf key \<Longrightarrow> member bf' key"
  by (auto simp: member_def keeps_def position_of_def)

lemma Add_wf:
  assumes "bloom_wf bf"
  shows "\<exists>bf'. bloom_Add key bf = Some bf' \<and> keeps bf bf' \<and> member bf' key"
proof -
  obtain bf' where "run_all (add_position key) [0..<unat (bf_hashFuncs bf)] bf = Some bf'" "keeps bf bf'"
    "\<forall>i \<in> set [0..<unat (bf_hashFuncs bf)]. bit_at bf' (position_of bf' key i)"
    using add_positions_wf [OF assms] by blast
  then show ?thesis
    by (auto simp: bloom_Add_def keeps_def member_def bloom_wf_def bit_at_def position_of_def)
qed

lemma Adds_wf:
  "bloom_wf bf \<Longrightarrow> \<exists>bf'. run_all bloom_Add keys bf = Some bf' \<and> keeps bf bf' \<and> (\<forall>k \<in> set keys. member bf' k)"
proof (induction keys arbitrary: bf)
  case Nil
  then show ?case by (simp add: keeps_def)
next
  case (Cons k keys)
  obtain bf1 where 1: "bloom_Add k bf = Some bf1" "keeps bf bf1" "member bf1 k"
    using Add_wf [OF Cons.prems] by blast
  then obtain bf2 where "run_all bloom_Add keys bf1 = Some bf2" "keeps bf1 bf2" "\<forall>k \<in> set keys. member bf2 k"
    using Cons.IH [of bf1] by (auto simp: keeps_def)
  with 1 member_keeps [of bf1 bf2 k] show ?case by (auto simp: keeps_def)
qed

lemma NewBloomFilter_wf:
  assumes "0 < unat bitSize" "unat bitSize < 2 ^ 64 - 7"
  shows "bloom_wf (NewBloomFilter bitSize hashFuncs n)"
proof -
  have "unat (bitSize + 7) = unat bitSize + 7" using assms(2) by (simp add: unat_word_ariths(1))
  then show ?thesis using assms(1) by (auto simp: bloom_wf_def NewBloomFilter_def unat_div)
qed

lemma Load_Save:
  assumes "length (bf_bits bf) = unat ((bf_size bf + 7) div 8)" "bf_bits bf \<noteq> []"
  shows "LoadBloomFilter (SaveToFile bf) = Some bf"
proof -
  let ?h = "put_u64 (bf_size bf) @ put_u64 (bf_hashFuncs bf) @ put_u64 (bf_expectedN bf) @ put_u64 (bf_insertions bf)"
  have "file_Read 32 (SaveToFile bf) = Some (?h, bf_bits bf)"
    using assms(2) by (simp add: file_Read_def SaveToFile_def)
  moreover have "file_Read (unat ((bf_size bf + 7) div 8)) (bf_bits bf) = Some (bf_bits bf, [])"
    using assms by (auto simp: file_Read_def simp flip: assms(1))
  ultimately show ?thesis by (simp add: LoadBloomFilter_def)
qed

text \<open>
  C34: a Bloom filter never denies a key that was added: after any sequence of insertions into a
  fresh filter, and after writing it to a file and loading it again, \<open>Contains\<close> answers true for
  every inserted key.
\<close>

theorem bloom_no_false_negatives:
  assumes "0 < unat bitSize" "unat bitSize < 2 ^ 64 - 7" "key \<in> set keys"
  shows "\<exists>bf bf'. run_all bloom_Add keys (NewBloomFilter bitSize hashFuncs n) = Some bf \<and>
    bloom_Contains key bf = Some True \<and>
    LoadBloomFilter (SaveToFile bf) = Some bf' \<and> bloom_Contains key bf' = Some True"
proof -
  let ?new = "NewBloomFilter bitSize hashFuncs n"
  have wf: "bloom_wf ?new" using NewBloomFilter_wf [OF assms(1,2)] .
  obtain bf where bf: "run_all bloom_Add keys ?new = Some bf" "keeps ?new bf" "\<forall>k \<in> set keys. member bf k"
    using Adds_wf [OF wf] by blast
  have len: "length (bf_bits bf) = unat ((bf_size bf + 7) div 8)" and wf': "bloom_wf bf"
    using bf(2) by (auto simp: keeps_def NewBloomFilter_def)
  then have "bf_bits bf \<noteq> []" by (auto simp: bloom_wf_def unat_eq_0)
  with bf len wf' assms(3) show ?thesis
    by (intro exI [of _ bf]) (simp add: Contains_wf Load_Save)
qed

theorem bloom_no_false_negatives_witness:
  "\<exists>bf bf'. run_all bloom_Add [[1], [2]] (NewBloomFilter 9586 7 1000) = Some bf \<and>
    bloom_Contains [2] bf = Some True \<and>
    LoadBloomFilter (SaveToFile bf) = Some bf' \<and> bloom_Contains [2] bf' = Some True"
  by (rule bloom_no_false_negatives) simp_all

end
