(* ===== verification/Sst_File.thy ===== *)
theory Sst_File
  imports Sst_Block_Iter Sst_Footer Bloom
begin

text \<open>
  Table files (\<open>src/pkg/sstable/writer.go\<close>, \<open>src/pkg/sstable/reader.go\<close>): the writer with its
  temporary file, blocks, per-block Bloom filters, index and footer, and the reader that opens a
  file. A file is its content; \<open>fm_fault = Some n\<close> lets the first \<open>n\<close> calls into the file system
  succeed and every later one fail. The dimensions of a Bloom filter come from floating point
  code and are an argument \<open>dims\<close> (size in bits, number of hash functions). The functions that
  read and write whole files through temporary files appear as the bytes they move.
\<close>

section \<open>The file of a writer\<close>

datatype sst_error =
    BlockError block_error | FooterError footer_error | SstIO | SstFileTooSmall nat
  | SstEOF | SstNegativeOffset | SstFileClosed | ErrCorruption | ErrNotFound | IndexNotValid | SstPanic

record file_manager =
  fm_tmp :: "bytes option"
  fm_open :: bool
  fm_final :: "bytes option"
  fm_fault :: "nat option"

type_synonym 'a fm_op = "(file_manager, sst_error, 'a) op"

definition fm_call :: "(file_manager \<Rightarrow> file_manager) \<Rightarrow> unit fm_op" where
  "fm_call f m =
     (if fm_fault m = Some 0 then (Inl SstIO, m)
      else (Inr (), f (m\<lparr>fm_fault := map_option (\<lambda>n. n - 1) (fm_fault m)\<rparr>)))"

definition NewFileManager :: "nat option \<Rightarrow> sst_error + file_manager" where
  "NewFileManager fault =
     (if fault = Some 0 then Inl SstIO
      else Inr \<lparr>fm_tmp = Some [], fm_open = True, fm_final = None, fm_fault = map_option (\<lambda>n. n - 1) fault\<rparr>)"

definition fm_Write :: "bytes \<Rightarrow> unit fm_op" where
  "fm_Write data m =
     (if \<not> fm_open m then (Inl SstIO, m)
      else fm_call (\<lambda>m. m\<lparr>fm_tmp := map_option (\<lambda>c. c @ data) (fm_tmp m)\<rparr>) m)"

definition fm_Sync :: "unit fm_op" where
  "fm_Sync m = (if \<not> fm_open m then (Inl SstIO, m) else fm_call id m)"

definition fm_Close :: "unit fm_op" where
  "fm_Close m =
     (if \<not> fm_open m then (Inr (), m)
      else case fm_call id m of (r, m') \<Rightarrow> (r, m'\<lparr>fm_open := False\<rparr>))"

definition FinalizeFile :: "unit fm_op" where
  "FinalizeFile =
     bind_op fm_Close (\<lambda>_. fm_call (\<lambda>m. m\<lparr>fm_final := fm_tmp m, fm_tmp := None\<rparr>))"

definition fm_Cleanup :: "unit fm_op" where
  "fm_Cleanup m =
     (let m1 = (if fm_open m then snd (fm_Close m) else m) in
      if fm_tmp m1 = None then (Inl SstIO, m1) else fm_call (\<lambda>m. m\<lparr>fm_tmp := None\<rparr>) m1)"

section \<open>The writer\<close>

definition IndexKeyInterval :: u32 where "IndexKeyInterval = 64 * 1024"

record index_entry =
  ie_BlockOffset :: u64
  ie_BlockSize :: u32
  ie_FirstKey :: bytes

record bloom_builder =
  bfb_blockOffset :: u64
  bfb_filter :: bloom

record sst_writer =
  sw_fm :: file_manager
  sw_builder :: builder
  sw_indexEntries :: "index_entry list"
  sw_indexBuilder :: builder
  sw_dataOffset :: u64
  sw_firstKey :: bytes
  sw_lastKey :: bytes
  sw_entriesAdded :: u32
  sw_bloomEnabled :: bool
  sw_bloomFilters :: "bloom_builder list"
  sw_currentBloom :: "bloom_builder option"

type_synonym 'a sst_op = "(sst_writer, sst_error, 'a) op"

definition NewBlockBloomFilterBuilder :: "u64 \<times> u64 \<Rightarrow> u64 \<Rightarrow> u64 \<Rightarrow> bloom_builder" where
  "NewBlockBloomFilterBuilder dims blockOffset expectedEntries =
     \<lparr>bfb_blockOffset = blockOffset, bfb_filter = NewBloomFilter (fst dims) (snd dims) expectedEntries\<rparr>"

definition NewWriterWithOptions :: "u64 \<times> u64 \<Rightarrow> bool \<Rightarrow> u64 \<Rightarrow> nat option \<Rightarrow> sst_error + sst_writer" where
  "NewWriterWithOptions dims enableBloom expectedEntries fault =
     (case NewFileManager fault of
        Inl e \<Rightarrow> Inl e
      | Inr m \<Rightarrow>
          Inr \<lparr>sw_fm = m, sw_builder = NewBuilder, sw_indexEntries = [], sw_indexBuilder = NewBuilder,
               sw_dataOffset = 0, sw_firstKey = [], sw_lastKey = [], sw_entriesAdded = 0,
               sw_bloomEnabled = enableBloom, sw_bloomFilters = [],
               sw_currentBloom = (if enableBloom
                                  then Some (NewBlockBloomFilterBuilder dims 0 expectedEntries) else None)\<rparr>)"

definition NewWriter :: "u64 \<times> u64 \<Rightarrow> nat option \<Rightarrow> sst_error + sst_writer" where
  "NewWriter dims fault = NewWriterWithOptions dims True 1000 fault"

definition on_file :: "'a fm_op \<Rightarrow> 'a sst_op" where
  "on_file f w = (case f (sw_fm w) of (r, m) \<Rightarrow> (r, w\<lparr>sw_fm := m\<rparr>))"

definition add_to_bloom :: "bytes \<Rightarrow> unit sst_op" where
  "add_to_bloom key w =
     (case (if sw_bloomEnabled w then sw_currentBloom w else None) of
        None \<Rightarrow> (Inr (), w)
      | Some bf \<Rightarrow>
          (case bloom_Add key (bfb_filter bf) of
             None \<Rightarrow> (Inl SstPanic, w)
           | Some f \<Rightarrow> (Inr (), w\<lparr>sw_currentBloom := Some (bf\<lparr>bfb_filter := f\<rparr>)\<rparr>)))"

definition add_to_block :: "bytes \<Rightarrow> slice \<Rightarrow> unit sst_op" where
  "add_to_block key value w =
     (case builder_Add key (bytes_of value) (sw_builder w) of
        (Inl e, b) \<Rightarrow> (Inl (BlockError e), w\<lparr>sw_builder := b\<rparr>)
      | (Inr _, b) \<Rightarrow> (Inr (), w\<lparr>sw_builder := b\<rparr>))"

text \<open>
  After a block is written: its index entry, its Bloom filter, and the filter of the next block,
  which is created with the offset of the block just written.
\<close>

definition block_written :: "u64 \<times> u64 \<Rightarrow> bytes \<Rightarrow> bytes \<Rightarrow> sst_writer \<Rightarrow> sst_writer" where
  "block_written dims firstKey blockData w =
     (let w1 = w\<lparr>sw_indexEntries := sw_indexEntries w @
                   [\<lparr>ie_BlockOffset = sw_dataOffset w, ie_BlockSize = of_nat (length blockData), ie_FirstKey = firstKey\<rparr>]\<rparr>;
          w2 = (case (if sw_bloomEnabled w1 then sw_currentBloom w1 else None) of
                  None \<Rightarrow> w1
                | Some bf \<Rightarrow>
                    w1\<lparr>sw_bloomFilters := sw_bloomFilters w1 @ [bf],
                       sw_currentBloom := Some (NewBlockBloomFilterBuilder dims (sw_dataOffset w1) 1000)\<rparr>)
      in w2\<lparr>sw_dataOffset := sw_dataOffset w2 + of_nat (length blockData),
            sw_builder := builder_Reset (sw_builder w2)\<rparr>)"

definition flushBlock :: "(bytes \<Rightarrow> u64) \<Rightarrow> u64 \<times> u64 \<Rightarrow> unit sst_op" where
  "flushBlock xx dims w =
     (if Entries (sw_builder w) = 0 then (Inr (), w)
      else let firstKey = be_key (hd (bb_entries (sw_builder w))) in
           case builder_Finish xx (sw_builder w) of
             (Inl e, b) \<Rightarrow> (Inl (BlockError e), w\<lparr>sw_builder := b\<rparr>)
           | (Inr blockData, b) \<Rightarrow>
               bind_op (on_file (fm_Write blockData)) (\<lambda>_. modify (block_written dims firstKey blockData))
                 (w\<lparr>sw_builder := b\<rparr>))"

definition writer_Add :: "(bytes \<Rightarrow> u64) \<Rightarrow> u64 \<times> u64 \<Rightarrow> bytes \<Rightarrow> slice \<Rightarrow> unit sst_op" where
  "writer_Add xx dims key value =
     bind_op (modify (\<lambda>w. w\<lparr>sw_firstKey := if sw_entriesAdded w = 0 then key else sw_firstKey w, sw_lastKey := key\<rparr>)) (\<lambda>_.
     bind_op (add_to_bloom key) (\<lambda>_.
     bind_op (add_to_block key value) (\<lambda>_.
     bind_op (modify (\<lambda>w. w\<lparr>sw_entriesAdded := sw_entriesAdded w + 1\<rparr>)) (\<lambda>_ w.
       if EstimatedSize (sw_builder w) \<ge> IndexKeyInterval then flushBlock xx dims w else (Inr (), w)))))"

definition AddTombstone :: "(bytes \<Rightarrow> u64) \<Rightarrow> u64 \<times> u64 \<Rightarrow> bytes \<Rightarrow> unit sst_op" where
  "AddTombstone xx dims key = writer_Add xx dims key None"

text \<open>The loop that writes the filters, each behind its offset and size.\<close>

definition bloom_record :: "bloom_builder \<Rightarrow> bytes" where
  "bloom_record bf =
     (let bfData = SaveToFile (bfb_filter bf) in
      put_u64 (bfb_blockOffset bf) @ put_u32 (of_nat (length bfData)) @ bfData)"

fun write_blooms :: "bloom_builder list \<Rightarrow> u32 \<Rightarrow> u32 sst_op" where
  "write_blooms [] bloomFilterSize = ret bloomFilterSize"
| "write_blooms (bf # bfs) bloomFilterSize =
     (let bfData = SaveToFile (bfb_filter bf) in
      bind_op (on_file (fm_Write (put_u64 (bfb_blockOffset bf) @ put_u32 (of_nat (length bfData))))) (\<lambda>_.
      bind_op (on_file (fm_Write bfData)) (\<lambda>_.
      bind_op (modify (\<lambda>w. w\<lparr>sw_dataOffset := sw_dataOffset w + of_nat (12 + length bfData)\<rparr>)) (\<lambda>_.
        write_blooms bfs (bloomFilterSize + of_nat (12 + length bfData))))))"

definition index_value :: "index_entry \<Rightarrow> bytes" where
  "index_value e = put_u64 (ie_BlockOffset e) @ put_u32 (ie_BlockSize e)"

fun BuildIndex :: "index_entry list \<Rightarrow> unit sst_op" where
  "BuildIndex [] = ret ()"
| "BuildIndex (e # es) =
     (\<lambda>w. case builder_Add (ie_FirstKey e) (index_value e) (sw_indexBuilder w) of
            (Inl err, b) \<Rightarrow> (Inl (BlockError err), w\<lparr>sw_indexBuilder := b\<rparr>)
          | (Inr _, b) \<Rightarrow> BuildIndex es (w\<lparr>sw_indexBuilder := b\<rparr>))"

definition write_index :: "(bytes \<Rightarrow> u64) \<Rightarrow> u32 sst_op" where
  "write_index xx w =
     (case builder_Finish xx (sw_indexBuilder w) of
        (Inl e, b) \<Rightarrow> (Inl (BlockError e), w\<lparr>sw_indexBuilder := b\<rparr>)
      | (Inr indexData, b) \<Rightarrow>
          bind_op (on_file (fm_Write indexData)) (\<lambda>_.
          bind_op (modify (\<lambda>w. w\<lparr>sw_dataOffset := sw_dataOffset w + of_nat (length indexData)\<rparr>)) (\<lambda>_.
            ret (of_nat (length indexData)))) (w\<lparr>sw_indexBuilder := b\<rparr>))"

definition write_footer :: "(bytes \<Rightarrow> u64) \<Rightarrow> u64 \<Rightarrow> u64 \<Rightarrow> u32 \<Rightarrow> u64 \<Rightarrow> u32 \<Rightarrow> unit sst_op" where
  "write_footer xx now indexOffset indexSize bloomFilterOffset bloomFilterSize w =
     (let ft = NewFooter now indexOffset indexSize (sw_entriesAdded w) 0 0 bloomFilterOffset bloomFilterSize in
      bind_op (on_file (fm_Write (fst (footer_Encode xx ft)))) (\<lambda>_.
      bind_op (on_file fm_Sync) (\<lambda>_. on_file FinalizeFile)) w)"

definition finish_body :: "(bytes \<Rightarrow> u64) \<Rightarrow> u64 \<times> u64 \<Rightarrow> u64 \<Rightarrow> unit sst_op" where
  "finish_body xx dims now =
     bind_op (\<lambda>w. if Entries (sw_builder w) > 0 then flushBlock xx dims w else (Inr (), w)) (\<lambda>_ w.
       let writeBlooms = sw_bloomEnabled w \<and> sw_bloomFilters w \<noteq> [];
           bloomFilterOffset = (if writeBlooms then sw_dataOffset w else 0)
       in bind_op (if writeBlooms then write_blooms (sw_bloomFilters w) 0 else ret 0) (\<lambda>bloomFilterSize w.
            let indexOffset = sw_dataOffset w in
            bind_op (BuildIndex (sw_indexEntries w)) (\<lambda>_.
            bind_op (write_index xx) (\<lambda>indexSize.
              write_footer xx now indexOffset indexSize bloomFilterOffset bloomFilterSize)) w) w)"

text \<open>\<open>Finish\<close> closes the file on every path.\<close>

definition writer_Finish :: "(bytes \<Rightarrow> u64) \<Rightarrow> u64 \<times> u64 \<Rightarrow> u64 \<Rightarrow> unit sst_op" where
  "writer_Finish xx dims now w =
     (case finish_body xx dims now w of (r, w') \<Rightarrow> (r, snd (on_file fm_Close w')))"

definition writer_Abort :: "unit sst_op" where
  "writer_Abort = on_file fm_Cleanup"

end
