(* ===== verification/Sst_Layout.thy ===== *)
theory Sst_Layout
  imports Sst_File
begin

text \<open>
  The layout of a table file: which bytes the writer of \<open>Sst_File\<close> leaves behind when no call into
  the file system fails. The entries are cut into blocks \<open>bs\<close>; the file holds the image of every
  block, the Bloom filters behind their headers, the image of the index and the footer.
\<close>

section \<open>The image of a table\<close>

definition blocks_image :: "(bytes \<Rightarrow> u64) \<Rightarrow> block_entry list list \<Rightarrow> bytes" where
  "blocks_image xx bs = concat (map (block_image xx) bs)"

definition block_offset :: "(bytes \<Rightarrow> u64) \<Rightarrow> block_entry list list \<Rightarrow> nat \<Rightarrow> nat" where
  "block_offset xx bs i = length (blocks_image xx (take i bs))"

definition index_of :: "(bytes \<Rightarrow> u64) \<Rightarrow> block_entry list list \<Rightarrow> index_entry list" where
  "index_of xx bs =
     map (\<lambda>i. \<lparr>ie_BlockOffset = of_nat (block_offset xx bs i),
               ie_BlockSize = of_nat (length (block_image xx (bs ! i))),
               ie_FirstKey = be_key (hd (bs ! i))\<rparr>) [0..<length bs]"

definition index_block :: "(bytes \<Rightarrow> u64) \<Rightarrow> block_entry list list \<Rightarrow> block_entry list" where
  "index_block xx bs = map (\<lambda>e. \<lparr>be_key = ie_FirstKey e, be_value = index_value e\<rparr>) (index_of xx bs)"

definition bloom_image :: "bloom_builder list \<Rightarrow> bytes" where
  "bloom_image bfs = concat (map bloom_record bfs)"

definition table_footer :: "(bytes \<Rightarrow> u64) \<Rightarrow> u64 \<Rightarrow> bloom_builder list \<Rightarrow> block_entry list list \<Rightarrow> footer" where
  "table_footer xx now bfs bs =
     NewFooter now (of_nat (length (blocks_image xx bs @ bloom_image bfs)))
       (of_nat (length (block_image xx (index_block xx bs)))) (of_nat (length (concat bs))) 0 0
       (if bfs = [] then 0 else of_nat (length (blocks_image xx bs))) (of_nat (length (bloom_image bfs)))"

definition table_image :: "(bytes \<Rightarrow> u64) \<Rightarrow> u64 \<Rightarrow> bloom_builder list \<Rightarrow> block_entry list list \<Rightarrow> bytes" where
  "table_image xx now bfs bs =
     blocks_image xx bs @ bloom_image bfs @ block_image xx (index_block xx bs) @
     fst (footer_Encode xx (table_footer xx now bfs bs))"

lemma blocks_image_simps [simp]:
  "blocks_image xx [] = []" "blocks_image xx (bs @ [b]) = blocks_image xx bs @ block_image xx b"
  by (simp_all add: blocks_image_def)

lemma block_offset_append: "i \<le> length bs \<Longrightarrow> block_offset xx (bs @ cs) i = block_offset xx bs i"
  by (simp add: block_offset_def)

lemma block_offset_length [simp]: "block_offset xx bs (length bs) = length (blocks_image xx bs)"
  by (simp add: block_offset_def)

lemma block_offset_0 [simp]: "block_offset xx bs 0 = 0"
  by (simp add: block_offset_def)

lemma index_of_snoc:
  "index_of xx (bs @ [b]) = index_of xx bs @
     [\<lparr>ie_BlockOffset = of_nat (length (blocks_image xx bs)),
       ie_BlockSize = of_nat (length (block_image xx b)), ie_FirstKey = be_key (hd b)\<rparr>]"
  using block_offset_append [of "length bs" bs xx "[b]"]
  by (auto simp: index_of_def nth_append block_offset_append)

section \<open>What the filters cover\<close>

definition saved_ok :: "bloom \<Rightarrow> bool" where
  "saved_ok f \<longleftrightarrow> bloom_wf f \<and> length (bf_bits f) = unat ((bf_size f + 7) div 8)"

text \<open>A filter of \<open>n\<close> bytes over the keys of a list of entries.\<close>

definition covers :: "nat \<Rightarrow> bloom \<Rightarrow> block_entry list \<Rightarrow> bool" where
  "covers n f es \<longleftrightarrow> saved_ok f \<and> length (bf_bits f) = n \<and> (\<forall>e \<in> set es. member f (be_key e))"

definition filter_bytes :: "u64 \<times> u64 \<Rightarrow> nat" where
  "filter_bytes dims = unat ((fst dims + 7) div 8)"

definition dims_ok :: "u64 \<times> u64 \<Rightarrow> bool" where
  "dims_ok dims \<longleftrightarrow> 0 < unat (fst dims) \<and> unat (fst dims) < 2 ^ 64 - 7"

lemma New_covers: "dims_ok dims \<Longrightarrow> covers (filter_bytes dims) (bfb_filter (NewBlockBloomFilterBuilder dims off m)) []"
  using NewBloomFilter_wf [of "fst dims" "snd dims" m]
  by (auto simp: covers_def saved_ok_def dims_ok_def NewBlockBloomFilterBuilder_def)
     (simp_all add: NewBloomFilter_def filter_bytes_def)

lemma Add_covers: "covers n f es \<Longrightarrow> \<exists>f'. bloom_Add (be_key e) f = Some f' \<and> covers n f' (es @ [e])"
  using Add_wf [of f "be_key e"] member_keeps [of f]
  by (auto simp: covers_def saved_ok_def keeps_def)

lemma saved_ok_Load: "saved_ok f \<Longrightarrow> LoadBloomFilter (SaveToFile f) = Some f"
  by (rule Load_Save) (auto simp: saved_ok_def bloom_wf_def unat_eq_0)

section \<open>The writer between two calls\<close>

text \<open>
  The filters of a writer: one per finished block, and one for the entries of the open block. The
  filter of block \<open>i + 1\<close> carries the offset of block \<open>i\<close>.
\<close>

definition filters_ok :: "(bytes \<Rightarrow> u64) \<Rightarrow> nat \<Rightarrow> block_entry list list \<Rightarrow> bloom_builder list \<Rightarrow> bool" where
  "filters_ok xx n bs bfs \<longleftrightarrow> length bfs = length bs \<and>
     (\<forall>i < length bs. covers n (bfb_filter (bfs ! i)) (bs ! i) \<and>
        bfb_blockOffset (bfs ! i) = of_nat (block_offset xx bs (i - 1)))"

definition entries_size :: "block_entry list \<Rightarrow> nat" where
  "entries_size es = (\<Sum>e \<leftarrow> es. length (be_key e) + length (be_value e) + 8)"

definition building :: "block_entry list \<Rightarrow> builder \<Rightarrow> bool" where
  "building cur b \<longleftrightarrow> bb_entries b = cur \<and> (cur \<noteq> [] \<longrightarrow> bb_lastKey b = be_key (last cur)) \<and>
     bb_currentSize b = of_nat (entries_size cur) \<and> bb_restartIdx b = since_restart (length cur) \<and>
     length (bb_restartPoints b) = (length cur + 15) div 16"

definition block_estimate :: "block_entry list \<Rightarrow> nat" where
  "block_estimate cur = entries_size cur + 4 * ((length cur + 15) div 16) + 12"

lemma NewBuilder_building [simp]: "building [] NewBuilder"
  by (simp add: building_def NewBuilder_def entries_size_def since_restart_def)

lemma building_EstimatedSize: "building cur b \<Longrightarrow> cur \<noteq> [] \<Longrightarrow> EstimatedSize b = of_nat (block_estimate cur)"
  by (simp add: building_def EstimatedSize_def block_estimate_def BlockFooterSize_def mult.commute)

lemma builder_Add_building:
  assumes "building cur b" "sorted_wrt (<) (map be_key (cur @ [e]))"
  shows "\<exists>b'. builder_Add (be_key e) (be_value e) b = (Inr (), b') \<and> building (cur @ [e]) b'"
proof -
  have lt: "be_key (last cur) < be_key e" if "cur \<noteq> []" using assms(2) that by (simp add: sorted_wrt_append)
  have z: "since_restart (length cur) = 0 \<or> since_restart (length cur) \<ge> RestartInterval \<longleftrightarrow> length cur mod 16 = 0"
    using since_restart_step(1) [of "length cur"] by (auto simp: since_restart_def)
  have r: "(Suc (length cur) + 15) div 16 = (length cur + 15) div 16 + (if length cur mod 16 = 0 then 1 else 0)"
    unfolding div_16_up by (simp add: mod_16_Suc)
  then have r': "(16 + length cur) div 16 = (length cur + 15) div 16 + (if length cur mod 16 = 0 then 1 else 0)"
    by (simp add: add.commute)
  have ok: "\<not> (bb_entries b \<noteq> [] \<and> bytes_compare (be_key e) (bb_lastKey b) \<le> 0)"
    using lt assms(1) by (auto simp: building_def)
  have size: "(of_nat (entries_size (cur @ [e])) :: u32) =
      of_nat (entries_size cur) + of_nat (length (be_key e) + length (be_value e) + 8)"
    by (simp add: entries_size_def)
  show ?thesis
  proof (cases "length cur mod 16 = 0")
    case True
    with z ok assms(1) show ?thesis unfolding builder_Add_def building_def if_not_P [OF ok]
      by (simp add: Let_def size since_restart_step(2) r r' del: of_nat_add)
  next
    case False
    with z have "\<not> (since_restart (length cur) = 0 \<or> since_restart (length cur) \<ge> RestartInterval)" by simp
    with False ok assms(1) show ?thesis unfolding builder_Add_def building_def if_not_P [OF ok]
      by (simp add: Let_def size since_restart_step(2) r r' del: of_nat_add)
  qed
qed

definition writing :: "(bytes \<Rightarrow> u64) \<Rightarrow> nat \<Rightarrow> block_entry list list \<Rightarrow> block_entry list \<Rightarrow> sst_writer \<Rightarrow> bool" where
  "writing xx n bs cur w \<longleftrightarrow>
     sw_fm w = \<lparr>fm_tmp = Some (blocks_image xx bs), fm_open = True, fm_final = None, fm_fault = None\<rparr> \<and>
     building cur (sw_builder w) \<and>
     sw_indexEntries w = index_of xx bs \<and> sw_indexBuilder w = NewBuilder \<and>
     sw_dataOffset w = of_nat (length (blocks_image xx bs)) \<and>
     sw_entriesAdded w = of_nat (length (concat bs @ cur)) \<and>
     (if sw_bloomEnabled w
      then filters_ok xx n bs (sw_bloomFilters w) \<and>
        (\<exists>bf. sw_currentBloom w = Some bf \<and> covers n (bfb_filter bf) cur \<and>
           bfb_blockOffset bf = of_nat (block_offset xx bs (length bs - 1)))
      else sw_bloomFilters w = [] \<and> sw_currentBloom w = None)"

lemma NewWriter_writing:
  "dims_ok dims \<Longrightarrow> \<exists>w. NewWriterWithOptions dims enable m None = Inr w \<and> writing xx (filter_bytes dims) [] [] w \<and> sw_bloomEnabled w = enable"
  using New_covers [of dims 0 m]
  by (auto simp: NewWriterWithOptions_def NewFileManager_def writing_def index_of_def filters_ok_def)
     (simp add: NewBlockBloomFilterBuilder_def)

lemma filters_ok_snoc:
  assumes "filters_ok xx n bs bfs" "covers n (bfb_filter bf) cur"
    "bfb_blockOffset bf = of_nat (block_offset xx bs (length bs - 1))"
  shows "filters_ok xx n (bs @ [cur]) (bfs @ [bf])"
  using assms by (auto simp: filters_ok_def nth_append less_Suc_eq block_offset_append)

lemma flushBlock_writing:
  assumes "writing xx (filter_bytes dims) bs cur w" "legal_entries cur" "dims_ok dims"
  shows "\<exists>w'. flushBlock xx dims w = (Inr (), w') \<and> writing xx (filter_bytes dims) (bs @ [cur]) [] w' \<and>
    sw_bloomEnabled w' = sw_bloomEnabled w"
proof -
  have e: "bb_entries (sw_builder w) = cur" using assms(1) by (simp add: writing_def building_def)
  obtain b where b: "builder_Finish xx (sw_builder w) = (Inr (block_image xx cur), b)"
    using Finish_image [of "sw_builder w" xx] assms(2) e by (cases "builder_Finish xx (sw_builder w)") auto
  define w1 where "w1 = w\<lparr>sw_builder := b, sw_fm := (sw_fm w)\<lparr>fm_tmp := Some (blocks_image xx (bs @ [cur]))\<rparr>\<rparr>"
  have "on_file (fm_Write (block_image xx cur)) (w\<lparr>sw_builder := b\<rparr>) = (Inr (), w1)"
    using assms(1) by (simp add: on_file_def fm_Write_def fm_call_def writing_def w1_def)
  then have "flushBlock xx dims w = (Inr (), block_written dims (be_key (hd cur)) (block_image xx cur) w1)"
    using b e legal_entriesD(1) [OF assms(2)] by (simp add: flushBlock_def Entries_def)
  moreover have "writing xx (filter_bytes dims) (bs @ [cur]) [] (block_written dims (be_key (hd cur)) (block_image xx cur) w1)"
  proof (cases "sw_bloomEnabled w")
    case True
    then obtain bf where bf: "sw_currentBloom w = Some bf" "covers (filter_bytes dims) (bfb_filter bf) cur"
      "bfb_blockOffset bf = of_nat (block_offset xx bs (length bs - 1))" "filters_ok xx (filter_bytes dims) bs (sw_bloomFilters w)"
      using assms(1) by (auto simp: writing_def)
    note filters_ok_snoc [OF bf(4,2,3)]
    with True bf assms(1) New_covers [OF assms(3), of "of_nat (length (blocks_image xx bs))" 1000] show ?thesis
      by (simp add: writing_def block_written_def Let_def w1_def index_of_snoc builder_Reset_def
          block_offset_append) (simp add: NewBlockBloomFilterBuilder_def)
  next
    case False
    with assms(1) show ?thesis
      by (simp add: writing_def block_written_def Let_def w1_def index_of_snoc builder_Reset_def)
  qed
  moreover have "sw_bloomEnabled (block_written dims (be_key (hd cur)) (block_image xx cur) w1) = sw_bloomEnabled w"
    by (auto simp: block_written_def w1_def Let_def split: option.splits)
  ultimately show ?thesis by blast
qed

text \<open>How the writer cuts its input into blocks.\<close>

definition block_full :: "block_entry list \<Rightarrow> bool" where
  "block_full cur \<longleftrightarrow> (of_nat (block_estimate cur) :: u32) \<ge> IndexKeyInterval"

fun cut_blocks :: "block_entry list \<Rightarrow> block_entry list \<Rightarrow> block_entry list list" where
  "cut_blocks cur [] = (if cur = [] then [] else [cur])"
| "cut_blocks cur (e # es) =
     (if block_full (cur @ [e]) then (cur @ [e]) # cut_blocks [] es else cut_blocks (cur @ [e]) es)"

lemma concat_cut_blocks [simp]: "concat (cut_blocks cur es) = cur @ es"
  by (induction cur es rule: cut_blocks.induct) auto

lemma cut_blocks_nonempty: "b \<in> set (cut_blocks cur es) \<Longrightarrow> b \<noteq> []"
  by (induction cur es rule: cut_blocks.induct) (auto split: if_splits)

lemma writer_Add_writing:
  assumes "writing xx (filter_bytes dims) bs cur w" "legal_entries (cur @ [e])" "dims_ok dims" "bytes_of value = be_value e"
  shows "\<exists>w'. writer_Add xx dims (be_key e) value w = (Inr (), w') \<and> sw_bloomEnabled w' = sw_bloomEnabled w \<and>
    (if block_full (cur @ [e]) then writing xx (filter_bytes dims) (bs @ [cur @ [e]]) [] w' else writing xx (filter_bytes dims) bs (cur @ [e]) w')"
proof -
  define w1 where "w1 = w\<lparr>sw_firstKey := if sw_entriesAdded w = 0 then be_key e else sw_firstKey w, sw_lastKey := be_key e\<rparr>"
  have 1: "writing xx (filter_bytes dims) bs cur w1" "sw_bloomEnabled w1 = sw_bloomEnabled w"
    using assms(1) by (auto simp: w1_def writing_def)
  obtain c2 where 2: "add_to_bloom (be_key e) w1 = (Inr (), w1\<lparr>sw_currentBloom := c2\<rparr>)"
    "sw_bloomEnabled w1 \<longrightarrow> (\<exists>bf. c2 = Some bf \<and> covers (filter_bytes dims) (bfb_filter bf) (cur @ [e]) \<and>
       bfb_blockOffset bf = of_nat (block_offset xx bs (length bs - 1)))" "\<not> sw_bloomEnabled w1 \<longrightarrow> c2 = None"
  proof (cases "sw_bloomEnabled w1")
    case True
    then obtain bf where bf: "sw_currentBloom w1 = Some bf" "covers (filter_bytes dims) (bfb_filter bf) cur"
      "bfb_blockOffset bf = of_nat (block_offset xx bs (length bs - 1))"
      using 1(1) by (auto simp: writing_def)
    with Add_covers [of "filter_bytes dims" "bfb_filter bf" cur e] True show ?thesis
      by (auto intro!: that simp: add_to_bloom_def)
  next
    case False
    with 1(1) that [of None] show ?thesis by (simp add: add_to_bloom_def writing_def)
  qed
  obtain b where b: "builder_Add (be_key e) (be_value e) (sw_builder w) = (Inr (), b)" "building (cur @ [e]) b"
    using builder_Add_building [of cur "sw_builder w" e] assms(1) legal_entriesD(2) [OF assms(2)]
    by (auto simp: writing_def)
  define w3 where "w3 = w1\<lparr>sw_currentBloom := c2, sw_builder := b, sw_entriesAdded := sw_entriesAdded w1 + 1\<rparr>"
  have w3: "writing xx (filter_bytes dims) bs (cur @ [e]) w3" "sw_bloomEnabled w3 = sw_bloomEnabled w"
    using 1 2 b(2) by (auto simp: writing_def w3_def)
  have est: "EstimatedSize b \<ge> IndexKeyInterval \<longleftrightarrow> block_full (cur @ [e])"
    using building_EstimatedSize [OF b(2)] by (simp add: block_full_def)
  have "writer_Add xx dims (be_key e) value w =
      (if block_full (cur @ [e]) then flushBlock xx dims w3 else (Inr (), w3))"
    using 2(1) b(1) est by (simp add: writer_Add_def bind_op_def add_to_block_def assms(4) w3_def flip: w1_def)
      (simp add: w1_def)
  with w3 flushBlock_writing [OF w3(1) assms(2,3)] show ?thesis by auto
qed

section \<open>Adding all entries and finishing\<close>

fun add_entries :: "(bytes \<Rightarrow> u64) \<Rightarrow> u64 \<times> u64 \<Rightarrow> (bytes \<times> slice) list \<Rightarrow> unit sst_op" where
  "add_entries xx dims [] = ret ()"
| "add_entries xx dims (kv # kvs) = bind_op (writer_Add xx dims (fst kv) (snd kv)) (\<lambda>_. add_entries xx dims kvs)"

definition entry_of :: "bytes \<times> slice \<Rightarrow> block_entry" where
  "entry_of kv = \<lparr>be_key = fst kv, be_value = bytes_of (snd kv)\<rparr>"

lemma entry_of_simps [simp]: "be_key (entry_of kv) = fst kv" "be_value (entry_of kv) = bytes_of (snd kv)"
  by (simp_all add: entry_of_def)

definition legal_or_empty :: "block_entry list \<Rightarrow> bool" where
  "legal_or_empty es \<longleftrightarrow> es = [] \<or> legal_entries es"

lemma legal_or_empty_append: "legal_or_empty (es @ fs) \<Longrightarrow> legal_or_empty es \<and> legal_or_empty fs"
  by (auto simp: legal_or_empty_def legal_entries_def sorted_wrt_append)

lemma legal_or_empty_iff:
  "legal_or_empty es \<longleftrightarrow> sorted_wrt (<) (map be_key es) \<and>
     (\<forall>e \<in> set es. be_key e \<noteq> [] \<and> length (be_key e) < 2 ^ 16 \<and> length (be_value e) < 2 ^ 32)"
  by (auto simp: legal_or_empty_def legal_entries_def)

lemma add_entries_writing:
  assumes "writing xx (filter_bytes dims) bs cur w" "legal_or_empty (cur @ map entry_of kvs)" "dims_ok dims"
  shows "\<exists>w' bs' cur'. add_entries xx dims kvs w = (Inr (), w') \<and> writing xx (filter_bytes dims) bs' cur' w' \<and>
    bs' @ cut_blocks cur' [] = bs @ cut_blocks cur (map entry_of kvs) \<and> legal_or_empty cur' \<and>
    sw_bloomEnabled w' = sw_bloomEnabled w"
  using assms(1,2)
proof (induction kvs arbitrary: bs cur w)
  case Nil
  then show ?case by auto
next
  case (Cons kv kvs)
  let ?e = "entry_of kv"
  have l: "legal_or_empty ((cur @ [?e]) @ map entry_of kvs)" using Cons.prems(2) by simp
  have le: "legal_entries (cur @ [?e])" using legal_or_empty_append [OF l] by (simp add: legal_or_empty_def)
  obtain w1 where w1: "writer_Add xx dims (fst kv) (snd kv) w = (Inr (), w1)" "sw_bloomEnabled w1 = sw_bloomEnabled w"
    "if block_full (cur @ [?e]) then writing xx (filter_bytes dims) (bs @ [cur @ [?e]]) [] w1 else writing xx (filter_bytes dims) bs (cur @ [?e]) w1"
    using writer_Add_writing [OF Cons.prems(1) le assms(3), of "snd kv"] by auto
  show ?case
  proof (cases "block_full (cur @ [?e])")
    case True
    with w1 Cons.IH [of "bs @ [cur @ [?e]]" "[]" w1] legal_or_empty_append [OF l] show ?thesis by simp
  next
    case False
    with w1 Cons.IH [of bs "cur @ [?e]" w1] l show ?thesis by simp
  qed
qed

definition written :: "bytes \<Rightarrow> file_manager" where
  "written c = \<lparr>fm_tmp = Some c, fm_open = True, fm_final = None, fm_fault = None\<rparr>"

lemma on_file_Write:
  "sw_fm w = written c \<Longrightarrow> on_file (fm_Write data) w = (Inr (), w\<lparr>sw_fm := written (c @ data)\<rparr>)"
  by (simp add: on_file_def fm_Write_def fm_call_def written_def)

lemma write_blooms_image:
  "sw_fm w = written c \<Longrightarrow> write_blooms bfs n w =
     (Inr (n + of_nat (length (bloom_image bfs))),
      w\<lparr>sw_fm := written (c @ bloom_image bfs),
        sw_dataOffset := sw_dataOffset w + of_nat (length (bloom_image bfs))\<rparr>)"
proof (induction bfs arbitrary: w c n)
  case Nil
  then show ?case by (simp add: bloom_image_def)
next
  case (Cons bf bfs)
  let ?d = "SaveToFile (bfb_filter bf)"
  define w1 where "w1 = w\<lparr>sw_fm := written (c @ bloom_record bf), sw_dataOffset := sw_dataOffset w + of_nat (12 + length ?d)\<rparr>"
  have "write_blooms (bf # bfs) n w = write_blooms bfs (n + of_nat (12 + length ?d)) w1"
    using on_file_Write [OF Cons.prems]
    by (simp add: Let_def bind_op_def on_file_Write [of _ "c @ put_u64 (bfb_blockOffset bf) @ put_u32 (of_nat (length ?d))"]
        w1_def bloom_record_def del: of_nat_add)
  moreover have "sw_fm w1 = written (c @ bloom_record bf)" by (simp add: w1_def)
  moreover have "length (bloom_record bf) = 12 + length ?d" by (simp add: bloom_record_def Let_def)
  ultimately show ?case by (simp add: Cons.IH bloom_image_def w1_def add.assoc)
qed

lemma BuildIndex_building:
  assumes "building cur (sw_indexBuilder w)"
    "sorted_wrt (<) (map be_key (cur @ map (\<lambda>e. \<lparr>be_key = ie_FirstKey e, be_value = index_value e\<rparr>) ies))"
  shows "\<exists>b. BuildIndex ies w = (Inr (), w\<lparr>sw_indexBuilder := b\<rparr>) \<and>
    building (cur @ map (\<lambda>e. \<lparr>be_key = ie_FirstKey e, be_value = index_value e\<rparr>) ies) b"
  using assms
proof (induction ies arbitrary: cur w)
  case Nil
  then show ?case by (auto intro!: exI [of _ "sw_indexBuilder w"])
next
  case (Cons ie ies)
  let ?e = "\<lparr>be_key = ie_FirstKey ie, be_value = index_value ie\<rparr>"
  have s: "sorted_wrt (<) (map be_key (cur @ [?e]))" using Cons.prems(2) by (auto simp: sorted_wrt_append)
  obtain b where b: "builder_Add (ie_FirstKey ie) (index_value ie) (sw_indexBuilder w) = (Inr (), b)" "building (cur @ [?e]) b"
    using builder_Add_building [OF Cons.prems(1) s] by auto
  have "building (cur @ [?e]) (sw_indexBuilder (w\<lparr>sw_indexBuilder := b\<rparr>))" using b(2) by simp
  from Cons.IH [OF this] Cons.prems(2) b(1) show ?case by simp
qed

text \<open>A list of blocks that can be a table.\<close>

definition blocks_ok :: "block_entry list list \<Rightarrow> bool" where
  "blocks_ok bs \<longleftrightarrow> bs \<noteq> [] \<and> [] \<notin> set bs \<and> legal_entries (concat bs)"

lemma index_block_keys: "map be_key (index_block xx bs) = map (\<lambda>b. be_key (hd b)) bs"
  by (rule nth_equalityI) (simp_all add: index_block_def index_of_def)

lemma heads_sorted:
  "[] \<notin> set bs \<Longrightarrow> sorted_wrt (<) (map be_key (concat bs)) \<Longrightarrow> sorted_wrt (<) (map (\<lambda>b. be_key (hd b)) bs)"
proof (induction bs)
  case (Cons b bs)
  then have "be_key (hd b) < be_key (hd c)" if "c \<in> set bs" for c
    using that hd_in_set [of b] hd_in_set [of c] by (fastforce simp: sorted_wrt_append)
  with Cons show ?case by (auto simp: sorted_wrt_append)
qed simp

lemma length_index_block [simp]: "length (index_block xx bs) = length bs"
  by (simp add: index_block_def index_of_def)

lemma index_block_legal:
  assumes "blocks_ok bs"
  shows "legal_entries (index_block xx bs)"
proof -
  have "sorted_wrt (<) (map be_key (index_block xx bs))"
    using heads_sorted [of bs] assms by (simp add: index_block_keys blocks_ok_def legal_entries_def)
  moreover have "be_key e \<noteq> [] \<and> length (be_key e) < 2 ^ 16 \<and> length (be_value e) < 2 ^ 32"
    if e: "e \<in> set (index_block xx bs)" for e
  proof -
    have "be_key e \<in> set (map be_key (index_block xx bs))" using e by simp
    then obtain b where b: "b \<in> set bs" "be_key e = be_key (hd b)" unfolding index_block_keys by auto
    then have "b \<noteq> []" using assms by (auto simp: blocks_ok_def)
    then have "hd b \<in> set (concat bs)" using b(1) hd_in_set [of b] unfolding set_concat by blast
    then have "be_key e \<noteq> [] \<and> length (be_key e) < 2 ^ 16" using b assms by (auto simp: blocks_ok_def legal_entries_def)
    moreover have "length (be_value e) = 12" using e by (auto simp: index_block_def index_value_def)
    ultimately show ?thesis by simp
  qed
  moreover have "index_block xx bs \<noteq> []" using assms length_index_block [of xx bs] by (metis blocks_ok_def length_0_conv)
  ultimately show ?thesis by (auto simp: legal_entries_def)
qed

lemma blocks_ok_cut:
  assumes "legal_entries es"
  shows "blocks_ok (cut_blocks [] es)"
  using assms cut_blocks_nonempty [of "[]" "[]" es] concat_cut_blocks [of "[]" es] legal_entriesD(1) [OF assms]
  by (auto simp: blocks_ok_def simp del: concat_cut_blocks)

lemma write_footer_final:
  assumes "sw_fm w = written c" "ft = NewFooter now io is (sw_entriesAdded w) 0 0 bo bs"
  shows "\<exists>w'. write_footer xx now io is bo bs w = (Inr (), w') \<and>
    sw_fm w' = \<lparr>fm_tmp = None, fm_open = False, fm_final = Some (c @ fst (footer_Encode xx ft)), fm_fault = None\<rparr>"
  using assms on_file_Write [OF assms(1)]
  by (simp add: write_footer_def Let_def bind_op_def on_file_def fm_Sync_def fm_call_def written_def
      FinalizeFile_def fm_Close_def)

lemma finish_blocks:
  assumes "writing xx n bs [] w" "blocks_ok bs"
  shows "\<exists>w' bfs. writer_Finish xx dims now w = (Inr (), w') \<and>
    fm_final (sw_fm w') = Some (table_image xx now bfs bs) \<and>
    (if sw_bloomEnabled w then filters_ok xx n bs bfs else bfs = [])"
proof -
  define bfs where "bfs = (if sw_bloomEnabled w then sw_bloomFilters w else [])"
  define c where "c = blocks_image xx bs @ bloom_image bfs"
  define w1 where "w1 = w\<lparr>sw_fm := written c, sw_dataOffset := of_nat (length c)\<rparr>"
  have fm: "sw_fm w = written (blocks_image xx bs)" "sw_dataOffset w = of_nat (length (blocks_image xx bs))"
    "sw_indexEntries w = index_of xx bs" "sw_indexBuilder w = NewBuilder" "bb_entries (sw_builder w) = []"
    "sw_entriesAdded w = of_nat (length (concat bs))"
    using assms(1) by (simp_all add: writing_def written_def building_def)
  have wb: "sw_bloomEnabled w \<and> sw_bloomFilters w \<noteq> [] \<longleftrightarrow> bfs \<noteq> []" by (simp add: bfs_def)
  have blooms: "(if bfs \<noteq> [] then write_blooms (sw_bloomFilters w) 0 else ret 0) w = (Inr (of_nat (length (bloom_image bfs))), w1)"
    using write_blooms_image [OF fm(1), of bfs 0] fm(1,2)
    by (auto simp: c_def w1_def bloom_image_def bfs_def)
  obtain b where b: "BuildIndex (index_of xx bs) w1 = (Inr (), w1\<lparr>sw_indexBuilder := b\<rparr>)" "building (index_block xx bs) b"
    using BuildIndex_building [of "[]" w1 "index_of xx bs"] legal_entriesD(2) [OF index_block_legal [OF assms(2)], of xx]
    by (auto simp: w1_def fm index_block_def)
  let ?i = "block_image xx (index_block xx bs)"
  obtain b' where b': "builder_Finish xx b = (Inr ?i, b')"
    using Finish_image [of b xx] b(2) index_block_legal [OF assms(2), of xx]
    by (cases "builder_Finish xx b") (auto simp: building_def)
  define w2 where "w2 = w1\<lparr>sw_indexBuilder := b', sw_fm := written (c @ ?i), sw_dataOffset := of_nat (length c) + of_nat (length ?i)\<rparr>"
  have index: "write_index xx (w1\<lparr>sw_indexBuilder := b\<rparr>) = (Inr (of_nat (length ?i)), w2)"
    by (simp add: write_index_def b' bind_op_def on_file_Write w1_def w2_def)
  obtain w3 where w3: "write_footer xx now (of_nat (length c)) (of_nat (length ?i)) (if bfs = [] then 0 else of_nat (length (blocks_image xx bs)))
      (of_nat (length (bloom_image bfs))) w2 = (Inr (), w3)"
    "sw_fm w3 = \<lparr>fm_tmp = None, fm_open = False, fm_final = Some (table_image xx now bfs bs), fm_fault = None\<rparr>"
    using write_footer_final [of w2 "c @ ?i" "table_footer xx now bfs bs" now "of_nat (length c)" "of_nat (length ?i)"
        "if bfs = [] then 0 else of_nat (length (blocks_image xx bs))" "of_nat (length (bloom_image bfs))" xx]
    by (auto simp: w2_def w1_def fm table_footer_def table_image_def c_def)
  have "finish_body xx dims now w = (Inr (), w3)"
    using blooms b(1) index w3(1) fm(2)
    by (simp add: finish_body_def Entries_def fm(5) Let_def bind_op_def wb)
       (auto simp: w1_def fm(3) wb)
  then have "writer_Finish xx dims now w = (Inr (), w3)"
    by (simp add: writer_Finish_def on_file_def fm_Close_def w3(2))
  moreover have "if sw_bloomEnabled w then filters_ok xx n bs bfs else bfs = []"
    using assms(1) by (simp add: writing_def bfs_def)
  ultimately show ?thesis using w3(2) by auto
qed

lemma Finish_flush:
  assumes "writing xx (filter_bytes dims) bs cur w" "legal_entries cur" "dims_ok dims"
  shows "\<exists>w'. writing xx (filter_bytes dims) (bs @ [cur]) [] w' \<and> sw_bloomEnabled w' = sw_bloomEnabled w \<and>
    writer_Finish xx dims now w = writer_Finish xx dims now w'"
proof -
  obtain w' where w': "flushBlock xx dims w = (Inr (), w')" "writing xx (filter_bytes dims) (bs @ [cur]) [] w'"
    "sw_bloomEnabled w' = sw_bloomEnabled w"
    using flushBlock_writing [OF assms] by blast
  have e: "bb_entries (sw_builder w) = cur" "bb_entries (sw_builder w') = []"
    using assms(1) w'(2) by (simp_all add: writing_def building_def)
  have "finish_body xx dims now w = finish_body xx dims now w'"
    using w'(1) e legal_entriesD(1) [OF assms(2)]
    by (simp add: finish_body_def Entries_def bind_op_def)
  with w' show ?thesis by (auto simp: writer_Finish_def)
qed

text \<open>
  The bytes of a finished table: the image of the input cut into blocks, with filters that cover
  their blocks when filters are enabled.
\<close>

lemma write_table:
  assumes "legal_entries (map entry_of kvs)" "dims_ok dims" "bs = cut_blocks [] (map entry_of kvs)"
  shows "\<exists>w w1 w2 bfs. NewWriterWithOptions dims enable m None = Inr w \<and>
    add_entries xx dims kvs w = (Inr (), w1) \<and> writer_Finish xx dims now w1 = (Inr (), w2) \<and>
    fm_final (sw_fm w2) = Some (table_image xx now bfs bs) \<and>
    (if enable then filters_ok xx (filter_bytes dims) bs bfs else bfs = [])"
proof -
  obtain w where w: "NewWriterWithOptions dims enable m None = Inr w" "writing xx (filter_bytes dims) [] [] w" "sw_bloomEnabled w = enable"
    using NewWriter_writing [OF assms(2)] by blast
  obtain w1 bs1 cur where w1: "add_entries xx dims kvs w = (Inr (), w1)" "writing xx (filter_bytes dims) bs1 cur w1"
    "bs1 @ cut_blocks cur [] = bs" "legal_or_empty cur" "sw_bloomEnabled w1 = enable"
    using add_entries_writing [OF w(2) _ assms(2), of kvs] assms(1,3) w(3) by (auto simp: legal_or_empty_def)
  obtain w1' where w1': "writing xx (filter_bytes dims) bs [] w1'" "sw_bloomEnabled w1' = enable"
    "writer_Finish xx dims now w1 = writer_Finish xx dims now w1'"
    using Finish_flush [OF w1(2) _ assms(2)] w1 by (cases "cur = []") (auto simp: legal_or_empty_def)
  from finish_blocks [OF w1'(1), of dims now] blocks_ok_cut [OF assms(1)] assms(3)
  show ?thesis using w(1) w1(1) w1'(2,3) by fastforce
qed

text \<open>A table that fits into one block is one block.\<close>

lemma cut_blocks_single:
  assumes "block_estimate (cur @ es) < 65536" "cur @ es \<noteq> []"
  shows "cut_blocks cur es = [cur @ es]"
  using assms
proof (induction es arbitrary: cur)
  case (Cons e es)
  have "block_estimate (cur @ [e]) \<le> block_estimate (cur @ e # es)"
    unfolding block_estimate_def entries_size_def by (intro add_mono mult_le_mono div_le_mono) simp_all
  then have lt: "block_estimate (cur @ [e]) < 65536" using Cons.prems(1) by simp
  then have "unat (of_nat (block_estimate (cur @ [e])) :: u32) < 65536" by (simp add: unat_u32_len)
  then have "\<not> block_full (cur @ [e])"
    by (simp add: block_full_def IndexKeyInterval_def word_le_nat_alt)
  with Cons show ?case by simp
qed simp

end
