(* ===== verification/Sst_Reader.thy ===== *)
theory Sst_Reader
  imports Sst_Layout
begin

text \<open>
  Reading a table file (\<open>src/pkg/sstable/reader.go\<close>): opening it, locating blocks through the index
  and point reads through the Bloom filters and the block cache. A file is its content, \<open>None\<close>
  once it is closed. The map iteration that picks a block to evict is an argument \<open>pick\<close>. Loops
  over an iterator are partial in the model, \<open>None\<close> standing for a panic or for not returning.
\<close>

section \<open>Files and blocks\<close>

definition ReadAt :: "bytes option \<Rightarrow> nat \<Rightarrow> u64 \<Rightarrow> sst_error + bytes" where
  "ReadAt f n offset =
     (case f of
        None \<Rightarrow> Inl SstFileClosed
      | Some content \<Rightarrow>
          if unat offset \<ge> 2 ^ 63 then Inl SstNegativeOffset
          else if n > 0 \<and> length content < unat offset + n then Inl SstEOF
          else Inr (take n (drop (unat offset) content)))"

definition FetchBlock :: "(bytes \<Rightarrow> u64) \<Rightarrow> bytes option \<Rightarrow> u64 \<Rightarrow> u32 \<Rightarrow> sst_error + block_reader" where
  "FetchBlock xx f offset bsize =
     (case ReadAt f (unat bsize) offset of
        Inl e \<Rightarrow> Inl e
      | Inr blockData \<Rightarrow>
          if length blockData \<noteq> unat bsize then Inl ErrCorruption
          else case block_NewReader xx blockData of Inl e \<Rightarrow> Inl (BlockError e) | Inr r \<Rightarrow> Inr r)"

record block_locator =
  bl_Offset :: u64
  bl_Size :: u32
  bl_Key :: slice

definition ParseBlockLocator :: "slice \<Rightarrow> slice \<Rightarrow> sst_error + block_locator" where
  "ParseBlockLocator key value =
     (if len_slice value < 12 then Inl ErrCorruption
      else Inr \<lparr>bl_Offset = get_u64 (bytes_of value), bl_Size = get_u32 (drop 8 (bytes_of value)), bl_Key = key\<rparr>)"

record block_cache =
  bc_blocks :: "(u64 \<times> block_reader) list"
  bc_maxBlocks :: nat

definition NewBlockCache :: "nat \<Rightarrow> block_cache" where
  "NewBlockCache capacity = \<lparr>bc_blocks = [], bc_maxBlocks = capacity\<rparr>"

definition cache_Get :: "block_cache \<Rightarrow> u64 \<Rightarrow> block_reader option" where
  "cache_Get c offset = map_of (bc_blocks c) offset"

definition cache_Put :: "nat \<Rightarrow> u64 \<Rightarrow> block_reader \<Rightarrow> block_cache \<Rightarrow> block_cache" where
  "cache_Put pick offset r c =
     (let kept = (if length (bc_blocks c) \<ge> bc_maxBlocks c \<and> bc_blocks c \<noteq> []
                  then let i = pick mod length (bc_blocks c) in take i (bc_blocks c) @ drop (Suc i) (bc_blocks c)
                  else bc_blocks c)
      in c\<lparr>bc_blocks := (offset, r) # filter (\<lambda>p. fst p \<noteq> offset) kept\<rparr>)"

section \<open>Opening a table\<close>

record sst_reader =
  sr_file :: "bytes option"
  sr_fileSize :: nat
  sr_indexOffset :: u64
  sr_indexSize :: u32
  sr_numEntries :: u32
  sr_indexBlock :: block_reader
  sr_ft :: footer
  sr_cache :: block_cache
  sr_bloomFilters :: "(u64 \<times> bloom) list"
  sr_hasBloomFilter :: bool

text \<open>
  The loop over the Bloom filters. Positions are \<open>uint32\<close>: a sum that wraps around passes the
  bounds checks and then panics in the slice expression. A filter that cannot be loaded is
  skipped without its bytes.
\<close>

function load_filters :: "bytes \<Rightarrow> nat \<Rightarrow> nat \<Rightarrow> (u64 \<times> bloom) list \<Rightarrow> (u64 \<times> bloom) list option" where
  "load_filters data fsize pos acc =
     (if pos < fsize then
        if (pos + 12) mod 2 ^ 32 > fsize then Some acc
        else if pos + 12 \<ge> 2 ^ 32 then None
        else let blockOffset = get_u64 (drop pos data); filterSize = unat (get_u32 (drop (pos + 8) data)) in
             if (pos + 12 + filterSize) mod 2 ^ 32 > fsize then Some acc
             else if pos + 12 + filterSize \<ge> 2 ^ 32 then None
             else case LoadBloomFilter (take filterSize (drop (pos + 12) data)) of
                    None \<Rightarrow> load_filters data fsize (pos + 12) acc
                  | Some f \<Rightarrow> load_filters data fsize (pos + 12 + filterSize) (acc @ [(blockOffset, f)])
      else Some acc)"
  by pat_completeness auto

termination
  by (relation "measure (\<lambda>(d, n, p, a). n - p)") auto

declare load_filters.simps [simp del]

definition OpenTable :: "(bytes \<Rightarrow> u64) \<Rightarrow> bytes option \<Rightarrow> (sst_error + sst_reader) option" where
  "OpenTable xx f =
     (case f of
        None \<Rightarrow> Some (Inl SstIO)
      | Some content \<Rightarrow>
          if length content < FooterSize then Some (Inl (SstFileTooSmall (length content)))
          else case ReadAt f FooterSize (of_nat (length content - FooterSize)) of
            Inl e \<Rightarrow> Some (Inl e)
          | Inr footerData \<Rightarrow>
              (case footer_Decode xx footerData of
                 Inl e \<Rightarrow> Some (Inl (FooterError e))
               | Inr ft \<Rightarrow>
                   (case ReadAt f (unat (ft_IndexSize ft)) (ft_IndexOffset ft) of
                      Inl e \<Rightarrow> Some (Inl e)
                    | Inr indexData \<Rightarrow>
                        (case block_NewReader xx indexData of
                           Inl e \<Rightarrow> Some (Inl (BlockError e))
                         | Inr indexBlock \<Rightarrow>
                             let has = ft_BloomFilterOffset ft > 0 \<and> ft_BloomFilterSize ft > 0;
                                 reader = \<lparr>sr_file = f, sr_fileSize = length content,
                                           sr_indexOffset = ft_IndexOffset ft, sr_indexSize = ft_IndexSize ft,
                                           sr_numEntries = ft_NumEntries ft, sr_indexBlock = indexBlock, sr_ft = ft,
                                           sr_cache = NewBlockCache 100, sr_bloomFilters = [], sr_hasBloomFilter = has\<rparr>
                             in if \<not> has then Some (Inr reader)
                                else case ReadAt f (unat (ft_BloomFilterSize ft)) (ft_BloomFilterOffset ft) of
                                       Inl e \<Rightarrow> Some (Inl e)
                                     | Inr bloomFilterData \<Rightarrow>
                                         map_option (\<lambda>fs. Inr (reader\<lparr>sr_bloomFilters := fs\<rparr>))
                                           (load_filters bloomFilterData (unat (ft_BloomFilterSize ft)) 0 [])))))"

definition sst_Close :: "sst_reader \<Rightarrow> sst_reader" where
  "sst_Close r = r\<lparr>sr_file := None\<rparr>"

definition GetKeyCount :: "sst_reader \<Rightarrow> nat" where
  "GetKeyCount r = unat (sr_numEntries r)"

section \<open>Point reads\<close>

partial_function (option) collect_blocks :: "u64 list \<Rightarrow> block_iter \<Rightarrow> block_locator list \<Rightarrow> block_locator list option" where
  "collect_blocks seen it blocks =
     (if \<not> bk_Valid it then Some blocks
      else let new = (case ParseBlockLocator (bk_key it) (bk_val it) of
                        Inl _ \<Rightarrow> []
                      | Inr l \<Rightarrow> if bl_Offset l \<in> set seen then [] else [l])
           in case bk_Next it of
                None \<Rightarrow> None
              | Some p \<Rightarrow> collect_blocks (seen @ map bl_Offset new) (snd p) (blocks @ new))"

definition FindBlockForKey :: "bytes \<Rightarrow> sst_reader \<Rightarrow> block_locator list option" where
  "FindBlockForKey key r =
     (case bk_Seek key (block_Iterator (sr_indexBlock r)) of
        None \<Rightarrow> None
      | Some (_, it) \<Rightarrow> collect_blocks [] (if bk_Valid it then it else bk_SeekToFirst it) [])"

partial_function (option) scan_block :: "bytes \<Rightarrow> block_iter \<Rightarrow> slice option option" where
  "scan_block key it =
     (if \<not> bk_Valid it then Some None
      else if bytes_of (bk_key it) = key then Some (Some (bk_val it))
      else case bk_Next it of None \<Rightarrow> None | Some p \<Rightarrow> scan_block key (snd p))"

definition SearchBlockForKey :: "block_reader \<Rightarrow> bytes \<Rightarrow> slice option option" where
  "SearchBlockForKey r key =
     (case bk_Seek key (block_Iterator r) of
        None \<Rightarrow> None
      | Some (found, it) \<Rightarrow>
          if found \<and> bytes_of (bk_key it) = key then Some (Some (bk_val it))
          else scan_block key (bk_SeekToFirst it))"

text \<open>The filter lookup: a block with filters enabled but no filter of its own is skipped.\<close>

fun should_skip :: "bytes \<Rightarrow> u64 \<Rightarrow> (u64 \<times> bloom) list \<Rightarrow> bool option" where
  "should_skip key offset [] = Some True"
| "should_skip key offset (bf # bfs) =
     (if fst bf = offset then map_option Not (bloom_Contains key (snd bf)) else should_skip key offset bfs)"

fun get_from_blocks ::
  "(bytes \<Rightarrow> u64) \<Rightarrow> (nat \<Rightarrow> nat) \<Rightarrow> bytes \<Rightarrow> block_locator list \<Rightarrow> sst_reader \<Rightarrow> ((sst_error + slice) \<times> sst_reader) option" where
  "get_from_blocks xx pick key [] r = Some (Inl ErrNotFound, r)"
| "get_from_blocks xx pick key (l # ls) r =
     (case (if sr_hasBloomFilter r then should_skip key (bl_Offset l) (sr_bloomFilters r) else Some False) of
        None \<Rightarrow> None
      | Some True \<Rightarrow> get_from_blocks xx pick key ls r
      | Some False \<Rightarrow>
          (case (case cache_Get (sr_cache r) (bl_Offset l) of
                   Some b \<Rightarrow> Inr (b, r)
                 | None \<Rightarrow>
                     (case FetchBlock xx (sr_file r) (bl_Offset l) (bl_Size l) of
                        Inl e \<Rightarrow> Inl e
                      | Inr b \<Rightarrow> Inr (b, r\<lparr>sr_cache := cache_Put (pick (length ls)) (bl_Offset l) b (sr_cache r)\<rparr>))) of
             Inl e \<Rightarrow> Some (Inl e, r)
           | Inr (b, r') \<Rightarrow>
               (case SearchBlockForKey b key of
                  None \<Rightarrow> None
                | Some (Some v) \<Rightarrow> Some (Inr v, r')
                | Some None \<Rightarrow> get_from_blocks xx pick key ls r')))"

definition sst_Get :: "(bytes \<Rightarrow> u64) \<Rightarrow> (nat \<Rightarrow> nat) \<Rightarrow> bytes \<Rightarrow> sst_reader \<Rightarrow> ((sst_error + slice) \<times> sst_reader) option" where
  "sst_Get xx pick key r =
     (case FindBlockForKey key r of None \<Rightarrow> None | Some blocks \<Rightarrow> get_from_blocks xx pick key blocks r)"

section \<open>Opening what the writer wrote\<close>

lemma load_filters_step:
  assumes "saved_ok (bfb_filter bf)" "data = pre @ bloom_record bf @ post" "length data < 2 ^ 32"
  shows "load_filters data (length data) (length pre) acc =
    load_filters data (length data) (length (pre @ bloom_record bf)) (acc @ [(bfb_blockOffset bf, bfb_filter bf)])"
proof -
  let ?d = "SaveToFile (bfb_filter bf)"
  have rec: "bloom_record bf = put_u64 (bfb_blockOffset bf) @ put_u32 (of_nat (length ?d)) @ ?d"
    by (simp add: bloom_record_def Let_def)
  have len: "length data = length pre + 12 + length ?d + length post" by (simp add: assms(2) rec)
  then have small: "length pre + 12 + length ?d < 2 ^ 32" "length ?d < 2 ^ 32" using assms(3) by linarith+
  have off: "get_u64 (drop (length pre) data) = bfb_blockOffset bf"
    and fs: "unat (get_u32 (drop (length pre + 8) data)) = length ?d"
    and body: "take (length ?d) (drop (length pre + 12) data) = ?d"
    using small(2) by (simp_all add: assms(2) rec unat_u32_len)
  show ?thesis
    using small len saved_ok_Load [OF assms(1)]
    by (subst load_filters.simps) (simp add: Let_def off fs body rec add.assoc)
qed

lemma load_filters_image:
  assumes "\<forall>bf \<in> set bfs. saved_ok (bfb_filter bf)" "data = pre @ bloom_image bfs" "length data < 2 ^ 32"
  shows "load_filters data (length data) (length pre) acc =
    Some (acc @ map (\<lambda>bf. (bfb_blockOffset bf, bfb_filter bf)) bfs)"
  using assms
proof (induction bfs arbitrary: pre acc)
  case Nil
  then show ?case by (subst load_filters.simps) (simp add: bloom_image_def)
next
  case (Cons bf bfs)
  have d: "data = pre @ bloom_record bf @ bloom_image bfs" using Cons.prems(2) by (simp add: bloom_image_def)
  have "load_filters data (length data) (length pre) acc =
      load_filters data (length data) (length (pre @ bloom_record bf)) (acc @ [(bfb_blockOffset bf, bfb_filter bf)])"
    using load_filters_step [OF _ d] Cons.prems by simp
  also have d': "data = (pre @ bloom_record bf) @ bloom_image bfs" using d by simp
  have "load_filters data (length data) (length (pre @ bloom_record bf)) (acc @ [(bfb_blockOffset bf, bfb_filter bf)]) =
      Some ((acc @ [(bfb_blockOffset bf, bfb_filter bf)]) @ map (\<lambda>bf. (bfb_blockOffset bf, bfb_filter bf)) bfs)"
    by (rule Cons.IH [OF _ d' Cons.prems(3)]) (simp add: Cons.prems(1))
  finally show ?case by simp
qed

lemma ReadAt_middle:
  assumes "content = pre @ mid @ post" "length content < 2 ^ 32" "n = length mid" "off = of_nat (length pre)"
  shows "ReadAt (Some content) n off = Inr mid"
proof -
  have "unat (of_nat (length pre) :: u64) = length pre" using assms(1,2) by (simp add: unat_of_nat)
  then show ?thesis using assms by (simp add: ReadAt_def)
qed

text \<open>A table of blocks in a file of less than 4 GiB.\<close>

definition table_ok :: "(bytes \<Rightarrow> u64) \<Rightarrow> u64 \<Rightarrow> bloom_builder list \<Rightarrow> block_entry list list \<Rightarrow> bool" where
  "table_ok xx now bfs bs \<longleftrightarrow> blocks_ok bs \<and> (bfs = [] \<or> (\<exists>n. filters_ok xx n bs bfs)) \<and>
     length (table_image xx now bfs bs) < 2 ^ 32"

lemma table_ok_index: "table_ok xx now bfs bs \<Longrightarrow> block_ok (index_block xx bs)"
  using index_block_legal [of bs xx] block_image_length [of xx "index_block xx bs"]
  by (auto simp: table_ok_def block_ok_def table_image_def)

lemma blocks_image_split:
  assumes "k < length bs"
  shows "\<exists>pre post. blocks_image xx bs = pre @ block_image xx (bs ! k) @ post \<and> length pre = block_offset xx bs k"
proof -
  have "blocks_image xx bs = blocks_image xx (take k bs) @ block_image xx (bs ! k) @ blocks_image xx (drop (Suc k) bs)"
    using id_take_nth_drop [OF assms] unfolding blocks_image_def by (metis concat.simps(2) concat_append list.map(2) map_append)
  then show ?thesis by (auto simp: block_offset_def)
qed

lemma table_ok_block:
  assumes "table_ok xx now bfs bs" "k < length bs"
  shows "block_ok (bs ! k)"
proof -
  have "concat bs = concat (take k bs) @ bs ! k @ concat (drop (Suc k) bs)"
    using id_take_nth_drop [OF assms(2)] by (metis concat.simps(2) concat_append)
  then have "legal_or_empty (concat (take k bs) @ bs ! k @ concat (drop (Suc k) bs))"
    using assms(1) by (simp add: table_ok_def blocks_ok_def legal_or_empty_def)
  then have "legal_or_empty (bs ! k)" using legal_or_empty_append by blast
  moreover have "bs ! k \<noteq> []" using assms(1) nth_mem [OF assms(2)] by (metis table_ok_def blocks_ok_def)
  ultimately have "legal_entries (bs ! k)" by (simp add: legal_or_empty_def)
  moreover have "length (block_image xx (bs ! k)) < 2 ^ 32"
    using blocks_image_split [OF assms(2), of xx] assms(1) by (auto simp: table_ok_def table_image_def)
  ultimately show ?thesis by (simp add: block_ok_def block_image_length)
qed

definition is_open :: "(bytes \<Rightarrow> u64) \<Rightarrow> u64 \<Rightarrow> bloom_builder list \<Rightarrow> block_entry list list \<Rightarrow> sst_reader \<Rightarrow> bool" where
  "is_open xx now bfs bs r \<longleftrightarrow> table_ok xx now bfs bs \<and> sr_file r = Some (table_image xx now bfs bs) \<and>
     sr_indexBlock r = opened xx (index_block xx bs) \<and> sr_hasBloomFilter r = (bfs \<noteq> []) \<and>
     sr_bloomFilters r = map (\<lambda>bf. (bfb_blockOffset bf, bfb_filter bf)) bfs \<and>
     unat (sr_numEntries r) = length (concat bs)"

lemma footer_encoded:
  assumes "f = NewFooter now io is n 0 0 bo bsz"
  shows "footer_Decode xx (fst (footer_Encode xx f)) = Inr (snd (footer_Encode xx f))"
  using assms by (intro footer_Decode_Encode) (simp_all add: NewFooter_def CurrentVersion_def)

lemma entries_le_image: "length es \<le> length (block_image xx es)"
  using entry_offset_ge [of "length es" es] by (simp add: block_image_length)

lemma concat_le_image: "length (concat bs) \<le> length (blocks_image xx bs)"
  using entries_le_image by (induction bs) (auto simp: blocks_image_def intro: add_mono)

lemma OpenTable_image:
  assumes "table_ok xx now bfs bs"
  shows "\<exists>r. OpenTable xx (Some (table_image xx now bfs bs)) = Some (Inr r) \<and> is_open xx now bfs bs r"
proof -
  let ?f = "table_image xx now bfs bs" and ?ft = "table_footer xx now bfs bs"
  let ?i = "block_image xx (index_block xx bs)" and ?b = "bloom_image bfs" and ?d = "blocks_image xx bs"
  define ft where "ft = snd (footer_Encode xx ?ft)"
  have img: "?f = ?d @ ?b @ ?i @ fst (footer_Encode xx ?ft)" by (simp add: table_image_def)
  have small: "length ?f < 2 ^ 32" using assms by (simp add: table_ok_def)
  have len: "length ?f = length ?d + length ?b + length ?i + 68" by (simp add: img FooterSize_def)
  have dec: "footer_Decode xx (fst (footer_Encode xx ?ft)) = Inr ft"
    unfolding ft_def table_footer_def by (rule footer_encoded [OF refl])
  have fields: "ft_IndexSize ft = of_nat (length ?i)" "ft_IndexOffset ft = of_nat (length (?d @ ?b))"
    "ft_BloomFilterOffset ft = (if bfs = [] then 0 else of_nat (length ?d))" "ft_BloomFilterSize ft = of_nat (length ?b)"
    "ft_NumEntries ft = of_nat (length (concat bs))"
    by (simp_all add: ft_def table_footer_def NewFooter_def footer_Encode_def Let_def)
  have n: "unat (of_nat (length ?i) :: u32) = length ?i" "unat (of_nat (length ?b) :: u32) = length ?b"
    "unat (of_nat (length (concat bs)) :: u32) = length (concat bs)"
    using small len concat_le_image [of bs xx] by (simp_all add: unat_u32_len)
  have foot: "ReadAt (Some ?f) FooterSize (of_nat (length ?f - FooterSize)) = Inr (fst (footer_Encode xx ?ft))"
    by (rule ReadAt_middle [of _ "?d @ ?b @ ?i" _ "[]"]) (use small len in \<open>simp_all add: img FooterSize_def\<close>)
  have idx: "ReadAt (Some ?f) (unat (ft_IndexSize ft)) (ft_IndexOffset ft) = Inr ?i"
    by (rule ReadAt_middle [of _ "?d @ ?b" _ "fst (footer_Encode xx ?ft)"]) (use small in \<open>simp_all add: img n fields\<close>)
  have blo: "ReadAt (Some ?f) (unat (ft_BloomFilterSize ft)) (ft_BloomFilterOffset ft) = Inr ?b" if "bfs \<noteq> []"
    by (rule ReadAt_middle [of _ "?d" _ "?i @ fst (footer_Encode xx ?ft)"]) (use small that in \<open>simp_all add: img n fields\<close>)
  note open_index = NewReader_opened [OF table_ok_index [OF assms], of xx]
  have dpos: "0 < length ?d"
  proof -
    have "concat bs \<noteq> []" using assms by (simp add: table_ok_def blocks_ok_def legal_entries_def)
    then show ?thesis using concat_le_image [of bs xx] by (cases "length (concat bs)") auto
  qed
  have has: "ft_BloomFilterOffset ft > 0 \<and> ft_BloomFilterSize ft > 0 \<longleftrightarrow> bfs \<noteq> []"
  proof (cases bfs)
    case (Cons bf r)
    have "length ?b \<noteq> 0" by (simp add: Cons bloom_image_def bloom_record_def Let_def)
    then have "(of_nat (length ?b) :: u32) \<noteq> 0" using n(2) by (metis unat_0)
    moreover have "unat (of_nat (length ?d) :: u64) = length ?d" using small len by (simp add: unat_of_nat)
    then have "(of_nat (length ?d) :: u64) \<noteq> 0" using dpos by (metis unat_0 less_numeral_extra(3))
    ultimately show ?thesis by (simp add: fields Cons word_gt_0)
  qed (simp add: fields)
  have filters: "\<forall>bf \<in> set bfs. saved_ok (bfb_filter bf)"
    using assms by (auto simp: table_ok_def filters_ok_def covers_def in_set_conv_nth)
  have load: "load_filters ?b (unat (ft_BloomFilterSize ft)) 0 [] = Some (map (\<lambda>bf. (bfb_blockOffset bf, bfb_filter bf)) bfs)"
    using load_filters_image [OF filters, of ?b "[]" "[]"] small len by (simp add: fields n)
  have big: "\<not> length ?f < FooterSize" using len by (simp add: FooterSize_def)
  define r where "r = \<lparr>sr_file = Some ?f, sr_fileSize = length ?f, sr_indexOffset = ft_IndexOffset ft,
    sr_indexSize = ft_IndexSize ft, sr_numEntries = ft_NumEntries ft, sr_indexBlock = opened xx (index_block xx bs),
    sr_ft = ft, sr_cache = NewBlockCache 100, sr_bloomFilters = [], sr_hasBloomFilter = (bfs \<noteq> [])\<rparr>"
  have "OpenTable xx (Some ?f) =
      (if \<not> bfs \<noteq> [] then Some (Inr r)
       else case ReadAt (Some ?f) (unat (ft_BloomFilterSize ft)) (ft_BloomFilterOffset ft) of
              Inl e \<Rightarrow> Some (Inl e)
            | Inr bd \<Rightarrow> map_option (\<lambda>fs. Inr (r\<lparr>sr_bloomFilters := fs\<rparr>)) (load_filters bd (unat (ft_BloomFilterSize ft)) 0 []))"
    unfolding OpenTable_def option.case if_not_P [OF big] foot sum.case dec idx open_index Let_def has r_def ..
  also have "\<dots> = Some (Inr (r\<lparr>sr_bloomFilters := map (\<lambda>bf. (bfb_blockOffset bf, bfb_filter bf)) bfs\<rparr>))"
  proof (cases "bfs = []")
    case False
    with blo load show ?thesis by simp
  qed (simp add: r_def)
  finally show ?thesis using assms by (simp add: is_open_def r_def fields n)
qed

end
