(* ===== verification/Sst_Iter.thy ===== *)
theory Sst_Iter
  imports Sst_Reader
begin

text \<open>
  The iterator of a table file (\<open>src/pkg/sstable/iterator.go\<close>) and its adapter
  (\<open>src/pkg/sstable/iterator_adapter.go\<close>): an iterator over the index and one over the block it
  points to. The field \<open>currentBlock\<close> is written and never read and is left out. Loops are partial
  in the model, \<open>None\<close> standing for a panic or for not returning; \<open>Next\<close> on an iterator that was
  never positioned locks its own mutex a second time and does not return.
\<close>

section \<open>The iterator\<close>

record sst_iter =
  si_reader :: sst_reader
  si_index :: block_iter
  si_data :: "block_iter option"
  si_err :: "sst_error option"
  si_initialized :: bool

definition sst_NewIterator :: "sst_reader \<Rightarrow> sst_iter" where
  "sst_NewIterator r =
     \<lparr>si_reader = r, si_index = bk_SeekToFirst (block_Iterator (sr_indexBlock r)), si_data = None,
      si_err = None, si_initialized = False\<rparr>"

definition resetBlockIterator :: "sst_iter \<Rightarrow> sst_iter" where
  "resetBlockIterator it = it\<lparr>si_data := None\<rparr>"

definition loadCurrentDataBlock :: "(bytes \<Rightarrow> u64) \<Rightarrow> sst_iter \<Rightarrow> sst_iter" where
  "loadCurrentDataBlock xx it =
     (if \<not> bk_Valid (si_index it) then (resetBlockIterator it)\<lparr>si_err := Some IndexNotValid\<rparr>
      else case ParseBlockLocator (bk_key (si_index it)) (bk_val (si_index it)) of
             Inl e \<Rightarrow> resetBlockIterator (it\<lparr>si_err := Some e\<rparr>)
           | Inr l \<Rightarrow>
               (case FetchBlock xx (sr_file (si_reader it)) (bl_Offset l) (bl_Size l) of
                  Inl e \<Rightarrow> resetBlockIterator (it\<lparr>si_err := Some e\<rparr>)
                | Inr b \<Rightarrow> it\<lparr>si_data := Some (block_Iterator b)\<rparr>))"

definition index_has_offset :: "block_iter \<Rightarrow> bool" where
  "index_has_offset idx \<longleftrightarrow> len_slice (bk_val idx) \<ge> 8"

definition index_offset :: "block_iter \<Rightarrow> u64" where
  "index_offset idx = get_u64 (bytes_of (bk_val idx))"

partial_function (option) skipInvalidIndexEntries :: "block_iter \<Rightarrow> block_iter option" where
  "skipInvalidIndexEntries idx =
     (case bk_Next idx of
        None \<Rightarrow> None
      | Some p \<Rightarrow>
          if \<not> fst p \<or> index_has_offset (snd p) then Some (snd p)
          else skipInvalidIndexEntries (snd p))"

definition data_first :: "sst_iter \<Rightarrow> sst_iter" where
  "data_first it = it\<lparr>si_data := map_option bk_SeekToFirst (si_data it)\<rparr>"

definition st_SeekToFirst :: "(bytes \<Rightarrow> u64) \<Rightarrow> sst_iter \<Rightarrow> sst_iter option" where
  "st_SeekToFirst xx it =
     (let idx = bk_SeekToFirst (si_index it) in
      case (if bk_Valid idx \<and> \<not> index_has_offset idx then skipInvalidIndexEntries idx else Some idx) of
        None \<Rightarrow> None
      | Some idx' \<Rightarrow>
          let it1 = it\<lparr>si_err := None, si_index := idx'\<rparr>;
              it2 = (if bk_Valid idx' then data_first (loadCurrentDataBlock xx it1) else it1);
              it3 = (if \<not> bk_Valid (si_index it2) \<or> si_data it2 = None then resetBlockIterator it2 else it2)
          in Some (it3\<lparr>si_initialized := True\<rparr>))"

partial_function (option) last_offset_loop ::
  "u64 list \<Rightarrow> u64 option \<Rightarrow> block_iter \<Rightarrow> (u64 option \<times> block_iter) option" where
  "last_offset_loop seen found idx =
     (if \<not> bk_Valid idx then Some (found, idx)
      else let new = index_has_offset idx \<and> index_offset idx \<notin> set seen in
           case bk_Next idx of
             None \<Rightarrow> None
           | Some p \<Rightarrow>
               last_offset_loop (if new then index_offset idx # seen else seen)
                 (if new then Some (index_offset idx) else found) (snd p))"

definition findLastUniqueBlockOffset :: "block_iter \<Rightarrow> (u64 option \<times> block_iter) option" where
  "findLastUniqueBlockOffset idx = last_offset_loop [] None (bk_SeekToFirst idx)"

partial_function (option) find_offset :: "u64 \<Rightarrow> block_iter \<Rightarrow> block_iter option" where
  "find_offset offset idx =
     (if \<not> bk_Valid idx \<or> index_has_offset idx \<and> index_offset idx = offset then Some idx
      else case bk_Next idx of None \<Rightarrow> None | Some p \<Rightarrow> find_offset offset (snd p))"

definition st_SeekToLast :: "(bytes \<Rightarrow> u64) \<Rightarrow> sst_iter \<Rightarrow> sst_iter option" where
  "st_SeekToLast xx it =
     (case findLastUniqueBlockOffset (si_index it) of
        None \<Rightarrow> None
      | Some (None, idx) \<Rightarrow>
          Some ((resetBlockIterator (it\<lparr>si_err := None, si_index := idx\<rparr>))\<lparr>si_initialized := True\<rparr>)
      | Some (Some offset, idx) \<Rightarrow>
          (case find_offset offset (bk_SeekToFirst idx) of
             None \<Rightarrow> None
           | Some idx' \<Rightarrow>
               let it1 = loadCurrentDataBlock xx (it\<lparr>si_err := None, si_index := idx'\<rparr>) in
               case si_data it1 of
                 None \<Rightarrow> Some (it1\<lparr>si_initialized := True\<rparr>)
               | Some d \<Rightarrow>
                   map_option (\<lambda>d'. it1\<lparr>si_data := Some d', si_initialized := True\<rparr>) (bk_SeekToLast d)))"

partial_function (option) next_blocks_loop :: "(bytes \<Rightarrow> u64) \<Rightarrow> u64 \<Rightarrow> sst_iter \<Rightarrow> (bool \<times> sst_iter) option" where
  "next_blocks_loop xx current it =
     (case bk_Next (si_index it) of
        None \<Rightarrow> None
      | Some p \<Rightarrow>
          let it1 = it\<lparr>si_index := snd p\<rparr> in
          if \<not> fst p then Some (False, it1)
          else if \<not> bk_Valid (snd p) \<or> \<not> index_has_offset (snd p) \<or> index_offset (snd p) = current
          then next_blocks_loop xx current it1
          else let it2 = loadCurrentDataBlock xx it1 in
               case si_data it2 of
                 None \<Rightarrow> Some (False, it2)
               | Some d \<Rightarrow>
                   let it3 = it2\<lparr>si_data := Some (bk_SeekToFirst d)\<rparr> in
                   if bk_Valid (bk_SeekToFirst d) then Some (True, it3)
                   else next_blocks_loop xx (index_offset (snd p)) it3)"

definition seekInNextBlocks :: "(bytes \<Rightarrow> u64) \<Rightarrow> sst_iter \<Rightarrow> (bool \<times> sst_iter) option" where
  "seekInNextBlocks xx it =
     next_blocks_loop xx (if index_has_offset (si_index it) then index_offset (si_index it) else 0) it"

definition st_Seek :: "(bytes \<Rightarrow> u64) \<Rightarrow> bytes \<Rightarrow> sst_iter \<Rightarrow> (bool \<times> sst_iter) option" where
  "st_Seek xx target it =
     (case bk_Seek target (si_index it) of
        None \<Rightarrow> None
      | Some (found, idx) \<Rightarrow>
          (case (if found then Some idx else bk_SeekToLast idx) of
             None \<Rightarrow> None
           | Some idx' \<Rightarrow>
               let it1 = it\<lparr>si_err := None, si_initialized := True, si_index := idx'\<rparr> in
               if \<not> found \<and> \<not> bk_Valid idx' then Some (False, resetBlockIterator it1)
               else let it2 = loadCurrentDataBlock xx it1 in
                    case si_data it2 of
                      None \<Rightarrow> Some (False, it2)
                    | Some d \<Rightarrow>
                        (case bk_Seek target d of
                           None \<Rightarrow> None
                         | Some (True, d') \<Rightarrow> Some (True, it2\<lparr>si_data := Some d'\<rparr>)
                         | Some (False, d') \<Rightarrow> seekInNextBlocks xx (it2\<lparr>si_data := Some d'\<rparr>))))"

partial_function (option) findNextUniqueBlock :: "u64 \<Rightarrow> block_iter \<Rightarrow> (bool \<times> block_iter) option" where
  "findNextUniqueBlock current idx =
     (case bk_Next idx of
        None \<Rightarrow> None
      | Some p \<Rightarrow>
          if \<not> fst p then Some (False, snd p)
          else if \<not> bk_Valid (snd p) \<or> \<not> index_has_offset (snd p) \<or> index_offset (snd p) = current
          then findNextUniqueBlock current (snd p)
          else Some (True, snd p))"

definition advanceToNextBlock :: "(bytes \<Rightarrow> u64) \<Rightarrow> sst_iter \<Rightarrow> (bool \<times> sst_iter) option" where
  "advanceToNextBlock xx it =
     (case findNextUniqueBlock (if index_has_offset (si_index it) then index_offset (si_index it) else 0) (si_index it) of
        None \<Rightarrow> None
      | Some (found, idx) \<Rightarrow>
          let it1 = it\<lparr>si_index := idx\<rparr> in
          if \<not> found \<or> \<not> bk_Valid idx then Some (False, resetBlockIterator it1)
          else let it2 = data_first (loadCurrentDataBlock xx it1) in
               case si_data it2 of None \<Rightarrow> Some (False, it2) | Some d \<Rightarrow> Some (bk_Valid d, it2))"

definition st_Next :: "(bytes \<Rightarrow> u64) \<Rightarrow> sst_iter \<Rightarrow> (bool \<times> sst_iter) option" where
  "st_Next xx it =
     (if \<not> si_initialized it then None
      else case si_data it of
        None \<Rightarrow>
          if bk_Valid (si_index it)
          then let it' = data_first (loadCurrentDataBlock xx it) in
               case si_data it' of None \<Rightarrow> Some (False, it') | Some d \<Rightarrow> Some (bk_Valid d, it')
          else Some (False, it)
      | Some d \<Rightarrow>
          (case bk_Next d of
             None \<Rightarrow> None
           | Some (True, d') \<Rightarrow> Some (True, it\<lparr>si_data := Some d'\<rparr>)
           | Some (False, d') \<Rightarrow> advanceToNextBlock xx (it\<lparr>si_data := Some d'\<rparr>)))"

definition st_Valid :: "sst_iter \<Rightarrow> bool" where
  "st_Valid it \<longleftrightarrow> si_initialized it \<and> (case si_data it of None \<Rightarrow> False | Some d \<Rightarrow> bk_Valid d)"

definition st_Key :: "sst_iter \<Rightarrow> slice" where
  "st_Key it = (if \<not> st_Valid it then None else bk_key (the (si_data it)))"

definition st_Value :: "sst_iter \<Rightarrow> slice" where
  "st_Value it = (if \<not> st_Valid it then None else bk_val (the (si_data it)))"

definition st_IsTombstone :: "sst_iter \<Rightarrow> bool" where
  "st_IsTombstone it \<longleftrightarrow> (if \<not> st_Valid it then False else bk_val (the (si_data it)) = None)"

definition sst_ops :: "(bytes \<Rightarrow> u64) \<Rightarrow> sst_iter iter_ops" where
  "sst_ops xx =
     \<lparr>op_SeekToFirst = st_SeekToFirst xx, op_SeekToLast = st_SeekToLast xx, op_Seek = st_Seek xx,
      op_Next = st_Next xx, op_Key = (\<lambda>it. if \<not> st_Valid it then None else st_Key it),
      op_Value = (\<lambda>it. if \<not> st_Valid it then None else st_Value it), op_Valid = st_Valid,
      op_IsTombstone = (\<lambda>it. st_Valid it \<and> st_IsTombstone it)\<rparr>"

section \<open>The index of an open table\<close>

lemma index_block_nth:
  "k < length bs \<Longrightarrow> index_block xx bs ! k =
     \<lparr>be_key = be_key (hd (bs ! k)),
      be_value = put_u64 (of_nat (block_offset xx bs k)) @ put_u32 (of_nat (length (block_image xx (bs ! k))))\<rparr>"
  by (simp add: index_block_def index_of_def index_value_def)

lemma block_offset_mono: "j < k \<Longrightarrow> k \<le> length bs \<Longrightarrow> block_offset xx bs j < block_offset xx bs k"
proof (induction k)
  case (Suc k)
  have "take (Suc k) bs = take k bs @ [bs ! k]" using Suc.prems by (simp add: take_Suc_conv_app_nth)
  then have "block_offset xx bs k < block_offset xx bs (Suc k)"
    using block_image_length [of xx "bs ! k"] by (simp add: block_offset_def)
  with Suc show ?case by (cases "j = k") auto
qed simp

lemma block_offset_small:
  assumes "table_ok xx now bfs bs" "k \<le> length bs"
  shows "unat (of_nat (block_offset xx bs k) :: u64) = block_offset xx bs k" "block_offset xx bs k < 2 ^ 32"
proof -
  have "block_offset xx bs k \<le> length (blocks_image xx bs)"
    using block_offset_mono [of k "length bs" bs xx] assms(2) by (cases "k = length bs") auto
  then show "block_offset xx bs k < 2 ^ 32" using assms(1) by (simp add: table_ok_def table_image_def)
  then show "unat (of_nat (block_offset xx bs k) :: u64) = block_offset xx bs k" by (simp add: unat_of_nat)
qed

lemma block_offset_inj:
  assumes "table_ok xx now bfs bs" "j < length bs" "k < length bs"
    "(of_nat (block_offset xx bs j) :: u64) = of_nat (block_offset xx bs k)"
  shows "j = k"
proof -
  have "block_offset xx bs j = block_offset xx bs k"
    using assms block_offset_small(1) [OF assms(1)] by (metis less_imp_le)
  then show ?thesis
    using block_offset_mono [of j k bs xx] block_offset_mono [of k j bs xx] assms(2,3) by (cases j k rule: linorder_cases) auto
qed

lemma FetchBlock_image:
  assumes "is_open xx now bfs bs r" "k < length bs"
  shows "FetchBlock xx (sr_file r) (of_nat (block_offset xx bs k)) (of_nat (length (block_image xx (bs ! k)))) =
    Inr (opened xx (bs ! k))"
proof -
  have ok: "table_ok xx now bfs bs" and f: "sr_file r = Some (table_image xx now bfs bs)"
    using assms(1) by (auto simp: is_open_def)
  have bk: "block_ok (bs ! k)" using table_ok_block [OF ok assms(2)] .
  obtain pre post where s: "blocks_image xx bs = pre @ block_image xx (bs ! k) @ post" "length pre = block_offset xx bs k"
    using blocks_image_split [OF assms(2), of xx] by blast
  have n: "unat (of_nat (length (block_image xx (bs ! k))) :: u32) = length (block_image xx (bs ! k))"
    using bk by (intro unat_u32_len) (simp add: block_ok_def block_image_length)
  have "ReadAt (sr_file r) (length (block_image xx (bs ! k))) (of_nat (block_offset xx bs k)) = Inr (block_image xx (bs ! k))"
    unfolding f by (rule ReadAt_middle [where pre = pre]) (use s ok in \<open>simp_all add: table_image_def table_ok_def\<close>)
  then show ?thesis using NewReader_opened [OF bk, of xx] by (simp add: FetchBlock_def n)
qed

lemma index_on:
  assumes "on xx (index_block xx bs) k i idx"
  shows "k < length bs" "bk_Valid idx" "index_has_offset idx" "index_offset idx = of_nat (block_offset xx bs k)"
  using assms on_valid [OF assms] by (auto simp: on_def index_block_nth index_has_offset_def index_offset_def)

lemma load_on:
  assumes "on xx (index_block xx bs) k i (si_index it)" "is_open xx now bfs bs (si_reader it)"
  shows "loadCurrentDataBlock xx it = it\<lparr>si_data := Some (block_Iterator (opened xx (bs ! k)))\<rparr>"
proof -
  note k = index_on(1) [OF assms(1)]
  have "ParseBlockLocator (bk_key (si_index it)) (bk_val (si_index it)) =
      Inr \<lparr>bl_Offset = of_nat (block_offset xx bs k), bl_Size = of_nat (length (block_image xx (bs ! k))),
           bl_Key = bk_key (si_index it)\<rparr>"
    using assms(1) k by (simp add: on_def index_block_nth ParseBlockLocator_def)
  then show ?thesis
    using FetchBlock_image [OF assms(2) k] index_on(2) [OF assms(1)] by (simp add: loadCurrentDataBlock_def)
qed

lemma findNext_step:
  assumes "on xx (index_block xx bs) k (Suc k) idx" "table_ok xx now bfs bs"
  shows "if Suc k < length bs
    then \<exists>idx'. findNextUniqueBlock (of_nat (block_offset xx bs k)) idx = Some (True, idx') \<and>
      on xx (index_block xx bs) (Suc k) (Suc (Suc k)) idx'
    else \<exists>idx'. findNextUniqueBlock (of_nat (block_offset xx bs k)) idx = Some (False, idx') \<and>
      exhausted xx (index_block xx bs) idx'"
proof (cases "Suc k < length bs")
  case True
  then obtain idx' where n: "bk_Next idx = Some (True, idx')" "on xx (index_block xx bs) (Suc k) (Suc (Suc k)) idx'"
    using Next_on(1) [OF assms(1)] by auto
  have "(of_nat (block_offset xx bs (Suc k)) :: u64) \<noteq> of_nat (block_offset xx bs k)"
    using block_offset_inj [OF assms(2), of "Suc k" k] True by auto
  then show ?thesis using True n index_on [OF n(2)] by (subst findNextUniqueBlock.simps) simp
next
  case False
  then have "Suc k = length bs" using index_on(1) [OF assms(1)] by simp
  then obtain idx' where "bk_Next idx = Some (False, idx')" "exhausted xx (index_block xx bs) idx'"
    using Next_on(2) [OF assms(1)] by auto
  then show ?thesis using False by (subst findNextUniqueBlock.simps) simp
qed

lemma findNext_on:
  assumes "on xx (index_block xx bs) k i idx" "table_ok xx now bfs bs"
  shows "if Suc k < length bs
    then \<exists>idx'. findNextUniqueBlock (of_nat (block_offset xx bs k)) idx = Some (True, idx') \<and>
      on xx (index_block xx bs) (Suc k) (Suc (Suc k)) idx'
    else \<exists>idx'. findNextUniqueBlock (of_nat (block_offset xx bs k)) idx = Some (False, idx') \<and>
      exhausted xx (index_block xx bs) idx'"
proof (cases "i = Suc k")
  case True
  with assms findNext_step show ?thesis by blast
next
  case False
  then have "i = k" using assms(1) by (simp add: on_def)
  then obtain idx1 where n: "bk_Next idx = Some (True, idx1)" "on xx (index_block xx bs) k (Suc k) idx1"
    using Next_on(1) [OF assms(1)] index_on(1) [OF assms(1)] by auto
  have "findNextUniqueBlock (of_nat (block_offset xx bs k)) idx = findNextUniqueBlock (of_nat (block_offset xx bs k)) idx1"
    using n index_on [OF n(2)] by (subst findNextUniqueBlock.simps) simp
  with findNext_step [OF n(2) assms(2)] show ?thesis by simp
qed

section \<open>Positions in a table\<close>

definition over_table :: "(bytes \<Rightarrow> u64) \<Rightarrow> block_entry list list \<Rightarrow> sst_iter \<Rightarrow> bool" where
  "over_table xx bs it \<longleftrightarrow> (\<exists>now bfs. is_open xx now bfs bs (si_reader it)) \<and> over xx (index_block xx bs) (si_index it)"

definition at :: "(bytes \<Rightarrow> u64) \<Rightarrow> block_entry list list \<Rightarrow> nat \<Rightarrow> nat \<Rightarrow> nat \<Rightarrow> sst_iter \<Rightarrow> bool" where
  "at xx bs k j i it \<longleftrightarrow> over_table xx bs it \<and> si_initialized it \<and>
     (\<exists>i'. on xx (index_block xx bs) k i' (si_index it)) \<and> (\<exists>d. si_data it = Some d \<and> on xx (bs ! k) j i d)"

definition twice :: "block_entry list \<Rightarrow> block_entry list" where
  "twice b = hd b # b"

definition items_from :: "block_entry list list \<Rightarrow> nat \<Rightarrow> nat \<Rightarrow> nat \<Rightarrow> item list" where
  "items_from bs k j i =
     map item_of (bs ! k ! j # drop i (bs ! k) @ concat (map twice (drop (Suc k) bs)))"

lemma enter_block:
  assumes "on xx (index_block xx bs) k i' (si_index it)" "over_table xx bs it"
  shows "\<exists>it'. data_first (loadCurrentDataBlock xx it) = it' \<and> (\<exists>d. si_data it' = Some d \<and> bk_Valid d) \<and>
     at xx bs k 0 0 (it'\<lparr>si_initialized := True\<rparr>) \<and> si_index it' = si_index it \<and> si_initialized it' = si_initialized it"
proof -
  obtain now bfs where o: "is_open xx now bfs bs (si_reader it)" using assms(2) by (auto simp: over_table_def)
  have "block_ok (bs ! k)" using table_ok_block [of xx now bfs bs k] o index_on(1) [OF assms(1)] by (simp add: is_open_def)
  then have "on xx (bs ! k) 0 0 (bk_SeekToFirst (block_Iterator (opened xx (bs ! k))))"
    using SeekToFirst_on [OF Iterator_over] by blast
  then show ?thesis using load_on [OF assms(1) o] on_valid assms by (auto simp: data_first_def at_def over_table_def)
qed

lemma st_SeekToFirst_at:
  assumes "over_table xx bs it"
  shows "\<exists>it'. st_SeekToFirst xx it = Some it' \<and> at xx bs 0 0 0 it'"
proof -
  let ?idx = "bk_SeekToFirst (si_index it)"
  define it1 where "it1 = it\<lparr>si_err := None, si_index := ?idx\<rparr>"
  have o: "on xx (index_block xx bs) 0 0 (si_index it1)" "over_table xx bs it1"
    using SeekToFirst_on [of xx "index_block xx bs" "si_index it"] assms
    by (auto simp: over_table_def it1_def on_def)
  obtain it2 d where it2: "data_first (loadCurrentDataBlock xx it1) = it2" "si_data it2 = Some d"
    "at xx bs 0 0 0 (it2\<lparr>si_initialized := True\<rparr>)" "si_index it2 = si_index it1"
    using enter_block [OF o] by blast
  have "st_SeekToFirst xx it = Some (it2\<lparr>si_initialized := True\<rparr>)"
    using index_on [OF o(1)] it2 by (simp add: st_SeekToFirst_def Let_def it1_def)
  with it2(3) show ?thesis by blast
qed

lemma st_Next_at:
  assumes "at xx bs k j i it"
  shows "if i < length (bs ! k) then \<exists>it'. st_Next xx it = Some (True, it') \<and> at xx bs k i (Suc i) it'
    else if Suc k < length bs then \<exists>it'. st_Next xx it = Some (True, it') \<and> at xx bs (Suc k) 0 0 it'
    else \<exists>it'. st_Next xx it = Some (False, it') \<and> over_table xx bs it' \<and> \<not> st_Valid it'"
proof -
  obtain now bfs d i' where o: "is_open xx now bfs bs (si_reader it)" "table_ok xx now bfs bs"
    "on xx (index_block xx bs) k i' (si_index it)" "si_data it = Some d" "on xx (bs ! k) j i d" "si_initialized it"
    using assms by (auto simp: at_def over_table_def is_open_def)
  show ?thesis
  proof (cases "i < length (bs ! k)")
    case True
    obtain d' where "bk_Next d = Some (True, d')" "on xx (bs ! k) i (Suc i) d'"
      using Next_on(1) [OF o(5) True] by blast
    then show ?thesis using True o assms by (auto simp: st_Next_def at_def over_table_def)
  next
    case False
    then have "i = length (bs ! k)" using o(5) by (auto simp: on_def)
    then obtain d' where d': "bk_Next d = Some (False, d')" using Next_on(2) [OF o(5)] by blast
    let ?it = "it\<lparr>si_data := Some d'\<rparr>"
    have nx: "st_Next xx it = advanceToNextBlock xx ?it" using d' o by (simp add: st_Next_def)
    note fn = findNext_on [OF o(3,2)]
    show ?thesis
    proof (cases "Suc k < length bs")
      case True
      then obtain idx where f: "findNextUniqueBlock (of_nat (block_offset xx bs k)) (si_index it) = Some (True, idx)"
        "on xx (index_block xx bs) (Suc k) (Suc (Suc k)) idx" using fn by auto
      let ?it1 = "?it\<lparr>si_index := idx\<rparr>"
      have "over_table xx bs ?it1" using f(2) o(1) by (auto simp: over_table_def on_def)
      moreover have "on xx (index_block xx bs) (Suc k) (Suc (Suc k)) (si_index ?it1)" using f(2) by simp
      ultimately obtain it2 e where e: "data_first (loadCurrentDataBlock xx ?it1) = it2" "si_data it2 = Some e" "bk_Valid e"
        "at xx bs (Suc k) 0 0 (it2\<lparr>si_initialized := True\<rparr>)" "si_initialized it2"
        using enter_block [of xx bs "Suc k" "Suc (Suc k)" ?it1] o(6) by auto
      have "it2\<lparr>si_initialized := True\<rparr> = it2" using e(5) by simp
      with e(4) have "at xx bs (Suc k) 0 0 it2" by metis
      then have "st_Next xx it = Some (True, it2) \<and> at xx bs (Suc k) 0 0 it2"
        using nx f(1) index_on [OF o(3)] index_on(2) [OF f(2)] e by (simp add: advanceToNextBlock_def Let_def)
      with True False show ?thesis by auto
    next
      case end_table: False
      then obtain idx where f: "findNextUniqueBlock (of_nat (block_offset xx bs k)) (si_index it) = Some (False, idx)"
        "exhausted xx (index_block xx bs) idx" using fn by auto
      have "st_Next xx it = Some (False, resetBlockIterator (?it\<lparr>si_index := idx\<rparr>))"
        using nx f(1) index_on [OF o(3)] by (simp add: advanceToNextBlock_def Let_def)
      moreover have "over_table xx bs (resetBlockIterator (?it\<lparr>si_index := idx\<rparr>))"
        using f(2) o(1) by (auto simp: over_table_def exhausted_def resetBlockIterator_def)
      ultimately show ?thesis using False end_table by (auto simp: st_Valid_def resetBlockIterator_def)
    qed
  qed
qed

section \<open>The table iterator as a forward iterator\<close>

text \<open>What the iterator has still to show, and all it shows after \<open>SeekToFirst\<close>, read off by iterating.\<close>

definition sst_rest :: "(bytes \<Rightarrow> u64) \<Rightarrow> sst_iter \<Rightarrow> item list" where
  "sst_rest xx it = the (iter_collect (sst_ops xx) (2 * length (the (sr_file (si_reader it)))) it)"

definition sst_items :: "(bytes \<Rightarrow> u64) \<Rightarrow> sst_iter \<Rightarrow> item list" where
  "sst_items xx it = sst_rest xx (the (st_SeekToFirst xx it))"

definition sst_inv :: "(bytes \<Rightarrow> u64) \<Rightarrow> sst_iter \<Rightarrow> bool" where
  "sst_inv xx it \<longleftrightarrow> (\<exists>bs. over_table xx bs it \<and> (\<not> st_Valid it \<or> (\<exists>k j i. at xx bs k j i it \<and> (i = Suc j \<or> i = j \<and> j = 0))))"

definition blocks_items :: "block_entry list list \<Rightarrow> item list" where
  "blocks_items bs = map item_of (concat (map twice bs))"

lemma at_current:
  assumes "at xx bs k j i it"
  shows "st_Valid it" "op_Valid (sst_ops xx) it" "op_Key (sst_ops xx) it = Some (be_key (bs ! k ! j))"
    "op_Value (sst_ops xx) it = Some (be_value (bs ! k ! j))" "\<not> op_IsTombstone (sst_ops xx) it"
proof -
  obtain d where d: "si_data it = Some d" "on xx (bs ! k) j i d" "si_initialized it"
    using assms by (auto simp: at_def)
  then show v: "st_Valid it" using on_valid by (auto simp: st_Valid_def)
  from d v show "op_Valid (sst_ops xx) it" "op_Key (sst_ops xx) it = Some (be_key (bs ! k ! j))"
    "op_Value (sst_ops xx) it = Some (be_value (bs ! k ! j))" "\<not> op_IsTombstone (sst_ops xx) it"
    by (auto simp: sst_ops_def st_Key_def st_Value_def st_IsTombstone_def on_def)
qed

lemma items_from_next:
  assumes "at xx bs k j i it"
  shows "items_from bs k j i = item_of (bs ! k ! j) #
    (if i < length (bs ! k) then items_from bs k i (Suc i)
     else if Suc k < length bs then items_from bs (Suc k) 0 0 else [])"
proof -
  have "bs ! m \<noteq> []" if "m < length bs" for m
    using assms nth_mem [OF that] by (auto simp: at_def over_table_def is_open_def table_ok_def blocks_ok_def)
  then have hd: "hd (bs ! m) = bs ! m ! 0" if "m < length bs" for m using that by (simp add: hd_conv_nth)
  show ?thesis
    by (auto simp: items_from_def Cons_nth_drop_Suc [symmetric] twice_def hd)
qed

lemma collect_at:
  "at xx bs k j i it \<Longrightarrow> length (items_from bs k j i) \<le> n \<Longrightarrow>
     iter_collect (sst_ops xx) n it = Some (items_from bs k j i)"
proof (induction n arbitrary: k j i it)
  case 0
  then show ?case by (simp add: items_from_def)
next
  case (Suc n)
  note nx = st_Next_at [OF Suc.prems(1)] and itf = items_from_next [OF Suc.prems(1)]
  note cur = at_current [OF Suc.prems(1)]
  have stop: "iter_collect (sst_ops xx) n it' = Some []" if "\<not> st_Valid it'" for it'
    using that by (cases n) (simp_all add: sst_ops_def)
  have nxt: "op_Next (sst_ops xx) = st_Next xx" by (simp add: sst_ops_def)
  have cur_item: "item_of (bs ! k ! j) = (the (op_Key (sst_ops xx) it), op_Value (sst_ops xx) it, op_IsTombstone (sst_ops xx) it)"
    using cur by (simp add: item_of_def)
  show ?case
  proof (cases "i < length (bs ! k)")
    case True
    with nx Suc itf cur(2) cur_item show ?thesis by (auto simp: nxt)
  next
    case False
    show ?thesis
    proof (cases "Suc k < length bs")
      case True
      with False nx Suc itf cur(2) cur_item show ?thesis by (auto simp: nxt)
    next
      case end_table: False
      with False nx stop itf cur(2) cur_item show ?thesis by (auto simp: nxt)
    qed
  qed
qed

lemma items_from_all: "bs \<noteq> [] \<Longrightarrow> [] \<notin> set bs \<Longrightarrow> items_from bs 0 0 0 = blocks_items bs"
  by (cases bs) (auto simp: items_from_def blocks_items_def twice_def hd_conv_nth)

lemma items_from_suffix:
  assumes "k < length bs" "j < length (bs ! k)" "i = Suc j \<or> i = j \<and> j = 0"
  shows "suffix (items_from bs k j i) (blocks_items bs)"
proof -
  have bs: "bs = take k bs @ bs ! k # drop (Suc k) bs" using assms(1) by (simp add: id_take_nth_drop)
  have "twice (bs ! k) = (if i = j then [] else hd (bs ! k) # take j (bs ! k)) @ (bs ! k ! j # drop i (bs ! k))"
  proof (cases "i = j")
    case True
    with assms show ?thesis by (auto simp: twice_def hd_conv_nth)
  next
    case False
    with assms(3) have "i = Suc j" by simp
    with id_take_nth_drop [OF assms(2)] show ?thesis by (simp add: twice_def)
  qed
  then have "blocks_items bs = map item_of (concat (map twice (take k bs)) @ (if i = j then [] else hd (bs ! k) # take j (bs ! k))) @
      items_from bs k j i"
    by (subst bs) (simp add: blocks_items_def items_from_def)
  then show ?thesis by (simp add: suffix_def)
qed

lemma blocks_items_length:
  assumes "is_open xx now bfs bs r"
  shows "length (blocks_items bs) \<le> 2 * length (the (sr_file r))"
proof -
  have ok: "blocks_ok bs" and f: "sr_file r = Some (table_image xx now bfs bs)"
    using assms by (auto simp: is_open_def table_ok_def)
  have "[] \<notin> set cs \<Longrightarrow> length (concat (map twice cs)) \<le> 2 * length (concat cs)" for cs :: "block_entry list list"
  proof (induction cs)
    case (Cons c cs)
    then have "1 \<le> length c" by (cases c) auto
    with Cons show ?case by (simp add: twice_def)
  qed simp
  then have "length (blocks_items bs) \<le> 2 * length (concat bs)" using ok by (simp add: blocks_items_def blocks_ok_def)
  also have "\<dots> \<le> 2 * length (the (sr_file r))"
    using concat_le_image [of bs xx] by (simp add: f table_image_def)
  finally show ?thesis .
qed

lemma blocks_items_sorted: "blocks_ok bs \<Longrightarrow> sorted (map fst (blocks_items bs))"
proof -
  assume "blocks_ok bs"
  moreover have "sorted (map be_key (concat (map twice cs)))"
    if "[] \<notin> set cs" "sorted_wrt (<) (map be_key (concat cs))" for cs
    using that
  proof (induction cs)
    case (Cons c cs)
    have "set (twice d) = set d" if "d \<in> set cs" for d using Cons.prems(1) that by (cases d) (auto simp: twice_def)
    then have mem: "set (concat (map twice cs)) \<subseteq> set (concat cs)" by auto
    have split: "sorted_wrt (<) (map be_key c @ map be_key (concat cs))" using Cons.prems(2) by simp
    have lt: "be_key x < be_key y" if "x \<in> set c" "y \<in> set (concat (map twice cs))" for x y
    proof -
      have "y \<in> set (concat cs)" using that(2) mem by blast
      then have "be_key y \<in> set (map be_key (concat cs))" by simp
      with split that(1) show ?thesis unfolding sorted_wrt_append by auto
    qed
    have "c \<noteq> []" using Cons.prems(1) by auto
    then obtain e r where c: "c = e # r" by (cases c) auto
    have "sorted (map be_key (twice c))"
      using split by (auto simp: c twice_def sorted_wrt_append strict_sorted_imp_sorted intro: less_imp_le)
    moreover have "sorted (map be_key (concat (map twice cs)))"
      using Cons.IH Cons.prems(1) split by (simp add: sorted_wrt_append)
    moreover have "\<forall>x \<in> set (twice c). \<forall>y \<in> set (concat (map twice cs)). be_key x \<le> be_key y"
      using lt by (auto simp: c twice_def intro: less_imp_le)
    ultimately show ?case by (simp add: sorted_append)
  qed simp
  ultimately show ?thesis by (simp add: blocks_items_def blocks_ok_def legal_entries_def item_of_def comp_def)
qed

lemma rest_at:
  assumes "at xx bs k j i it" "i = Suc j \<or> i = j \<and> j = 0"
  shows "sst_rest xx it = items_from bs k j i" "suffix (items_from bs k j i) (blocks_items bs)"
proof -
  obtain now bfs where o: "is_open xx now bfs bs (si_reader it)" using assms(1) by (auto simp: at_def over_table_def)
  have "k < length bs" "j < length (bs ! k)" using assms(1) index_on(1) by (auto simp: at_def on_def)
  then show s: "suffix (items_from bs k j i) (blocks_items bs)" using items_from_suffix assms(2) by blast
  then have "length (items_from bs k j i) \<le> 2 * length (the (sr_file (si_reader it)))"
    using blocks_items_length [OF o] suffix_length_le [OF s] by simp
  then show "sst_rest xx it = items_from bs k j i" using collect_at [OF assms(1)] by (simp add: sst_rest_def)
qed

lemma at_inv: "at xx bs k j i it \<Longrightarrow> i = Suc j \<or> i = j \<and> j = 0 \<Longrightarrow> sst_inv xx it \<and> over_table xx bs it"
  unfolding sst_inv_def using at_def by blast

lemma rest_invalid: "\<not> st_Valid it \<Longrightarrow> sst_rest xx it = []"
  by (cases "2 * length (the (sr_file (si_reader it)))") (simp_all add: sst_rest_def sst_ops_def)

lemma items_over:
  assumes "over_table xx bs it"
  shows "sst_items xx it = blocks_items bs" "\<exists>it'. st_SeekToFirst xx it = Some it' \<and> at xx bs 0 0 0 it' \<and> sst_rest xx it' = blocks_items bs"
proof -
  have ok: "bs \<noteq> []" "[] \<notin> set bs" using assms by (auto simp: over_table_def is_open_def table_ok_def blocks_ok_def)
  obtain it' where it': "st_SeekToFirst xx it = Some it'" "at xx bs 0 0 0 it'" using st_SeekToFirst_at [OF assms] by blast
  then show "sst_items xx it = blocks_items bs" "\<exists>it'. st_SeekToFirst xx it = Some it' \<and> at xx bs 0 0 0 it' \<and> sst_rest xx it' = blocks_items bs"
    using rest_at(1) [OF it'(2)] items_from_all [OF ok] by (auto simp: sst_items_def)
qed

interpretation sst: forward_iterator "sst_ops xx" "sst_inv xx" "sst_items xx" "sst_rest xx" for xx
proof
  fix s :: sst_iter
  assume "sst_inv xx s"
  then obtain bs where bs: "over_table xx bs s" "\<not> st_Valid s \<or> (\<exists>k j i. at xx bs k j i s \<and> (i = Suc j \<or> i = j \<and> j = 0))"
    by (auto simp: sst_inv_def)
  note it = items_over [OF bs(1)]
  show "sorted (map fst (sst_items xx s))"
    using blocks_items_sorted bs(1) by (auto simp: it(1) over_table_def is_open_def table_ok_def)
  show "suffix (sst_rest xx s) (sst_items xx s)" using bs(2) rest_at rest_invalid by (auto simp: it(1))
  have ne: "items_from bs k j i \<noteq> []" for k j i by (simp add: items_from_def)
  show "op_Valid (sst_ops xx) s \<longleftrightarrow> sst_rest xx s \<noteq> []"
    using bs(2) rest_at(1) rest_invalid at_current(1) ne by (auto simp: sst_ops_def)
  show "op_Key (sst_ops xx) s = Some k \<and> op_Value (sst_ops xx) s = v \<and> op_IsTombstone (sst_ops xx) s = t"
    if "sst_rest xx s = (k, v, t) # r" for k v t r
    using that bs(2) rest_at(1) rest_invalid at_current by (auto simp: items_from_def item_of_def)
  show "\<exists>s'. op_SeekToFirst (sst_ops xx) s = Some s' \<and> sst_inv xx s' \<and> sst_items xx s' = sst_items xx s \<and> sst_rest xx s' = sst_items xx s"
    using it(2) items_over(1) at_inv by (fastforce simp: it(1) sst_ops_def)
  show "\<exists>s'. op_Next (sst_ops xx) s = Some (sst_rest xx s' \<noteq> [], s') \<and> sst_inv xx s' \<and> sst_items xx s' = sst_items xx s \<and>
      sst_rest xx s' = tl (sst_rest xx s)" if r: "sst_rest xx s \<noteq> []"
  proof -
    obtain k j i where a: "at xx bs k j i s" "i = Suc j \<or> i = j \<and> j = 0" using bs(2) r rest_invalid by blast
    note nx = st_Next_at [OF a(1)] and rs = rest_at(1) [OF a] items_from_next [OF a(1)]
    have step: "at xx bs k' j' i' s' \<Longrightarrow> i' = Suc j' \<or> i' = j' \<and> j' = 0 \<Longrightarrow>
        sst_inv xx s' \<and> sst_items xx s' = blocks_items bs \<and> sst_rest xx s' = items_from bs k' j' i'" for k' j' i' s'
      using rest_at(1) items_over(1) at_inv by blast
    have stop: "over_table xx bs s' \<Longrightarrow> \<not> st_Valid s' \<Longrightarrow>
        sst_inv xx s' \<and> sst_items xx s' = blocks_items bs \<and> sst_rest xx s' = []" for s'
      using rest_invalid items_over(1) by (auto simp: sst_inv_def)
    show ?thesis using nx step stop ne unfolding rs it(1) by (fastforce simp: sst_ops_def split: if_splits)
  qed
qed

end
