(* ===== verification/Sst_Correct.thy ===== *)
theory Sst_Correct
  imports Sst_Iter
begin

text \<open>
  Properties of table files: what is written can be scanned, what a point read finds, and where
  point reads and seeks miss stored keys.
\<close>

section \<open>Searching a block\<close>

definition entry_value :: "block_entry list \<Rightarrow> bytes \<Rightarrow> bytes option" where
  "entry_value es key = map_of (map (\<lambda>e. (be_key e, be_value e)) es) key"

lemma entry_value_Cons: "entry_value (e # es) key = (if be_key e = key then Some (be_value e) else entry_value es key)"
  by (auto simp: entry_value_def)

lemma entry_value_Nil [simp]: "entry_value [] key = None"
  by (simp add: entry_value_def)

lemma scan_block_on:
  "on xx es j i it \<Longrightarrow> scan_block key it = Some (map_option Some (entry_value (es ! j # drop i es) key))"
proof (induction "length es - i" arbitrary: j i it)
  case 0
  then have "i = length es" by (auto simp: on_def)
  then obtain it' where n: "bk_Next it = Some (False, it')" "exhausted xx es it'" using Next_on(2) [OF 0(2)] by blast
  have "scan_block key it' = Some None" using exhausted_invalid [OF n(2)] by (subst scan_block.simps) simp
  with n on_valid [OF 0(2)] 0(2) \<open>i = length es\<close> show ?case
    by (subst scan_block.simps) (auto simp: on_def entry_value_Cons)
next
  case (Suc n)
  then have i: "i < length es" by simp
  obtain it' where n: "bk_Next it = Some (True, it')" "on xx es i (Suc i) it'" using Next_on(1) [OF Suc(3) i] by blast
  have "scan_block key it' = Some (map_option Some (entry_value (es ! i # drop (Suc i) es) key))"
    using Suc.hyps(1) [OF _ n(2)] Suc.hyps(2) by simp
  then show ?case using n(1) on_valid [OF Suc(3)] Suc(3) i
    by (subst scan_block.simps) (auto simp: on_def entry_value_Cons Cons_nth_drop_Suc)
qed

lemma entry_value_nth:
  assumes "legal_entries es" "j < length es"
  shows "entry_value es (be_key (es ! j)) = Some (be_value (es ! j))"
proof -
  have "distinct (map fst (map (\<lambda>e. (be_key e, be_value e)) es))"
    using legal_entriesD(2) [OF assms(1)] by (simp add: comp_def strict_sorted_iff)
  then show ?thesis using assms(2) by (auto simp: entry_value_def intro!: map_of_is_SomeI)
qed

lemma SearchBlock_opened:
  assumes "block_ok es"
  shows "SearchBlockForKey (opened xx es) key = Some (map_option Some (entry_value es key))"
proof -
  let ?it = "block_Iterator (opened xx es)"
  have le: "legal_entries es" and ne: "es \<noteq> []" using assms by (auto simp: block_ok_def legal_entries_def)
  obtain found it j i where s: "bk_Seek key ?it = Some (found, it)" "on xx es j i it"
    using Seek_landing [OF Iterator_over [OF assms], of key xx] by (auto split: option.splits)
  have scan: "scan_block key (bk_SeekToFirst it) = Some (map_option Some (entry_value es key))"
  proof -
    have "over xx es it" using s(2) by (simp add: on_def)
    then have "on xx es 0 0 (bk_SeekToFirst it)" by (rule SeekToFirst_on)
    from scan_block_on [OF this, of key] show ?thesis using ne by (cases es) (auto simp: entry_value_Cons)
  qed
  show ?thesis
  proof (cases "found \<and> bytes_of (bk_key it) = key")
    case True
    then have "key = be_key (es ! j)" "j < length es" "bk_val it = Some (be_value (es ! j))" using s(2) by (auto simp: on_def)
    with entry_value_nth [OF le] True s(1) show ?thesis by (simp add: SearchBlockForKey_def)
  next
    case False
    with s(1) scan show ?thesis by (auto simp: SearchBlockForKey_def)
  qed
qed

section \<open>Finding blocks through the index\<close>

definition locator :: "(bytes \<Rightarrow> u64) \<Rightarrow> block_entry list list \<Rightarrow> nat \<Rightarrow> block_locator" where
  "locator xx bs k =
     \<lparr>bl_Offset = of_nat (block_offset xx bs k), bl_Size = of_nat (length (block_image xx (bs ! k))),
      bl_Key = Some (be_key (hd (bs ! k)))\<rparr>"

lemma parse_on:
  assumes "on xx (index_block xx bs) k i idx"
  shows "ParseBlockLocator (bk_key idx) (bk_val idx) = Inr (locator xx bs k)"
  using assms index_on(1) [OF assms] by (simp add: on_def index_block_nth ParseBlockLocator_def locator_def)

lemma collect_blocks_on:
  assumes "on xx (index_block xx bs) k (Suc k) idx" "table_ok xx now bfs bs"
    "\<forall>m. k < m \<longrightarrow> m < length bs \<longrightarrow> of_nat (block_offset xx bs m) \<notin> set seen"
  shows "collect_blocks seen idx blocks =
    Some (blocks @ (if of_nat (block_offset xx bs k) \<in> set seen then [] else [locator xx bs k]) @
      map (locator xx bs) [Suc k..<length bs])"
  using assms(1,3)
proof (induction "length bs - k" arbitrary: k idx seen blocks)
  case 0
  then show ?case using index_on(1) by fastforce
next
  case (Suc n)
  note k = index_on(1) [OF Suc.prems(1)]
  let ?new = "if of_nat (block_offset xx bs k) \<in> set seen then [] else [locator xx bs k]"
  have step: "collect_blocks seen idx blocks = collect_blocks (seen @ map bl_Offset ?new) idx' (blocks @ ?new)"
    if "bk_Next idx = Some (b, idx')" for b idx'
    using parse_on [OF Suc.prems(1)] on_valid [OF Suc.prems(1)] that
    by (subst collect_blocks.simps) (simp add: locator_def Let_def)
  have off: "bl_Offset (locator xx bs k) = of_nat (block_offset xx bs k)" by (simp add: locator_def)
  show ?case
  proof (cases "Suc k < length bs")
    case True
    then obtain idx' where n: "bk_Next idx = Some (True, idx')" "on xx (index_block xx bs) (Suc k) (Suc (Suc k)) idx'"
      using Next_on(1) [OF Suc.prems(1)] by auto
    have fresh: "of_nat (block_offset xx bs m) \<notin> set (seen @ map bl_Offset ?new)" if "k < m" "m < length bs" for m
      using Suc.prems(2) block_offset_inj [OF assms(2), of m k] that k by (auto simp: off)
    have "n = length bs - Suc k" using Suc.hyps(2) by simp
    from Suc.hyps(1) [OF this n(2), of "seen @ map bl_Offset ?new" "blocks @ ?new"] step [OF n(1)] fresh True
    show ?thesis by (simp add: upt_conv_Cons)
  next
    case False
    with k have "Suc k = length bs" by simp
    then obtain idx' where n: "bk_Next idx = Some (False, idx')" "exhausted xx (index_block xx bs) idx'"
      using Next_on(2) [OF Suc.prems(1)] by auto
    have "collect_blocks s idx' b = Some b" for s b using exhausted_invalid [OF n(2)] by (subst collect_blocks.simps) simp
    with step [OF n(1)] False show ?thesis by simp
  qed
qed

text \<open>The block a search starts with: where the index seek lands, or the last block.\<close>

definition start_block :: "(bytes \<Rightarrow> u64) \<Rightarrow> block_entry list list \<Rightarrow> bytes \<Rightarrow> nat" where
  "start_block xx bs key =
     (case List.find (\<lambda>j. key \<le> be_key (index_block xx bs ! j)) (landing (index_block xx bs)) of
        Some j \<Rightarrow> j | None \<Rightarrow> length bs - 1)"

lemma index_Seek:
  assumes "over xx (index_block xx bs) idx"
  shows "\<exists>found idx' i. bk_Seek key idx = Some (found, idx') \<and> on xx (index_block xx bs) (start_block xx bs key) i idx'"
  using Seek_landing [OF assms, of key] by (auto simp: start_block_def split: option.splits)

lemma FindBlock_open:
  assumes "is_open xx now bfs bs r"
  shows "FindBlockForKey key r = Some (map (locator xx bs) [start_block xx bs key..<length bs])"
proof -
  have ok: "table_ok xx now bfs bs" and ib: "sr_indexBlock r = opened xx (index_block xx bs)"
    using assms by (auto simp: is_open_def)
  let ?k = "start_block xx bs key" and ?it = "block_Iterator (opened xx (index_block xx bs))"
  obtain found idx i where s: "bk_Seek key ?it = Some (found, idx)" "on xx (index_block xx bs) ?k i idx"
    using index_Seek [OF Iterator_over [OF table_ok_index [OF ok]], of key] by blast
  note k = index_on(1) [OF s(2)]
  have "FindBlockForKey key r = collect_blocks [] idx []"
    using s on_valid [OF s(2)] by (simp add: FindBlockForKey_def ib)
  also have "\<dots> = Some (map (locator xx bs) [?k..<length bs])"
  proof (cases "i = Suc ?k")
    case True
    with collect_blocks_on [OF _ ok, of ?k idx "[]" "[]"] s(2) k show ?thesis by (simp add: upt_conv_Cons)
  next
    case False
    then have "i = ?k" using s(2) by (simp add: on_def)
    then obtain idx' where n: "bk_Next idx = Some (True, idx')" "on xx (index_block xx bs) ?k (Suc ?k) idx'"
      using Next_on(1) [OF s(2)] k by auto
    have "collect_blocks [] idx [] = collect_blocks [of_nat (block_offset xx bs ?k)] idx' [locator xx bs ?k]"
      using parse_on [OF s(2)] on_valid [OF s(2)] n(1)
      by (subst collect_blocks.simps) (simp add: locator_def Let_def)
    with collect_blocks_on [OF n(2) ok, of "[of_nat (block_offset xx bs ?k)]" "[locator xx bs ?k]"] k
      block_offset_inj [OF ok, of _ ?k]
    show ?thesis by (auto simp: upt_conv_Cons)
  qed
  finally show ?thesis .
qed

section \<open>Seeking in a table\<close>

text \<open>
  Where a seek ends: it looks into one block only, at the entries its block seek can land on, and
  otherwise takes the first entry of the next block.
\<close>

definition seek_entry :: "(bytes \<Rightarrow> u64) \<Rightarrow> block_entry list list \<Rightarrow> bytes \<Rightarrow> block_entry option" where
  "seek_entry xx bs target =
     (let k = start_block xx bs target in
      case List.find (\<lambda>j. target \<le> be_key (bs ! k ! j)) (landing (bs ! k)) of
        Some j \<Rightarrow> Some (bs ! k ! j)
      | None \<Rightarrow> if Suc k < length bs then Some (bs ! Suc k ! 0) else None)"

lemma index_seek_last:
  assumes "over xx (index_block xx bs) idx"
  shows "\<exists>found idx' idx'' i. bk_Seek target idx = Some (found, idx') \<and>
    (if found then Some idx' else bk_SeekToLast idx') = Some idx'' \<and>
    on xx (index_block xx bs) (start_block xx bs target) i idx''"
proof (cases "List.find (\<lambda>j. target \<le> be_key (index_block xx bs ! j)) (landing (index_block xx bs))")
  case (Some j)
  with Seek_landing [OF assms, of target] show ?thesis by (auto simp: start_block_def)
next
  case None
  with Seek_landing [OF assms, of target] obtain idx' where s: "bk_Seek target idx = Some (False, idx')"
    "on xx (index_block xx bs) (length bs - 1) (length bs) idx'" by auto
  then have "over xx (index_block xx bs) idx'" by (simp add: on_def)
  then obtain idx'' where "bk_SeekToLast idx' = Some idx''" "on xx (index_block xx bs) (length bs - 1) (length bs) idx''"
    using SeekToLast_on by fastforce
  with s None show ?thesis by (auto simp: start_block_def)
qed

lemma next_blocks_on:
  assumes "on xx (index_block xx bs) k i (si_index it)" "over_table xx bs it" "si_initialized it"
  shows "if Suc k < length bs
    then \<exists>it'. next_blocks_loop xx (of_nat (block_offset xx bs k)) it = Some (True, it') \<and> at xx bs (Suc k) 0 0 it'
    else \<exists>it'. next_blocks_loop xx (of_nat (block_offset xx bs k)) it = Some (False, it')"
  using assms
proof (induction "Suc k - i" arbitrary: i it)
  case 0
  then have i: "i = Suc k" by (auto simp: on_def)
  obtain now bfs where o: "is_open xx now bfs bs (si_reader it)" "table_ok xx now bfs bs"
    using 0(3) by (auto simp: over_table_def is_open_def)
  show ?case
  proof (cases "Suc k < length bs")
    case True
    then obtain idx where n: "bk_Next (si_index it) = Some (True, idx)" "on xx (index_block xx bs) (Suc k) (Suc (Suc k)) idx"
      using Next_on(1) [OF 0(2)] i by auto
    let ?it1 = "it\<lparr>si_index := idx\<rparr>"
    have e1: "on xx (index_block xx bs) (Suc k) (Suc (Suc k)) (si_index ?it1)" "over_table xx bs ?it1"
      using n(2) 0(3) by (auto simp: over_table_def on_def)
    obtain it2 d where e: "data_first (loadCurrentDataBlock xx ?it1) = it2" "si_data it2 = Some d" "bk_Valid d"
      "at xx bs (Suc k) 0 0 (it2\<lparr>si_initialized := True\<rparr>)" "si_initialized it2"
      using enter_block [OF e1] 0(4) by auto
    have "it2\<lparr>si_initialized := True\<rparr> = it2" using e(5) by simp
    with e(4) have at2: "at xx bs (Suc k) 0 0 it2" by metis
    have "(of_nat (block_offset xx bs (Suc k)) :: u64) \<noteq> of_nat (block_offset xx bs k)"
      using block_offset_inj [OF o(2), of "Suc k" k] True by auto
    then have "next_blocks_loop xx (of_nat (block_offset xx bs k)) it = Some (True, it2)"
      using n index_on [OF n(2)] load_on [OF e1(1)] o(1) e(1-3)
      by (subst next_blocks_loop.simps) (auto simp: data_first_def Let_def)
    with at2 True show ?thesis by auto
  next
    case False
    then have "i = length bs" using i index_on(1) [OF 0(2)] by simp
    then obtain idx where "bk_Next (si_index it) = Some (False, idx)" using Next_on(2) [OF 0(2)] by auto
    with False show ?thesis by (subst next_blocks_loop.simps) (simp add: Let_def)
  qed
next
  case (Suc m)
  then have i: "i = k" by (auto simp: on_def)
  then obtain idx where n: "bk_Next (si_index it) = Some (True, idx)" "on xx (index_block xx bs) k (Suc k) idx"
    using Next_on(1) [OF Suc(3)] index_on(1) [OF Suc(3)] by auto
  let ?it1 = "it\<lparr>si_index := idx\<rparr>"
  have "next_blocks_loop xx (of_nat (block_offset xx bs k)) it = next_blocks_loop xx (of_nat (block_offset xx bs k)) ?it1"
    using n index_on [OF n(2)] by (subst next_blocks_loop.simps) (simp add: Let_def)
  moreover have "over_table xx bs ?it1" using n(2) Suc.prems(2) by (auto simp: over_table_def on_def)
  moreover have "m = Suc k - Suc k" using Suc.hyps(2) i by simp
  ultimately show ?case using Suc.hyps(1) [of "Suc k" ?it1] n(2) Suc.prems(3) by simp
qed

lemma st_Seek_open:
  assumes "over_table xx bs it"
  shows "case seek_entry xx bs target of
      Some e \<Rightarrow> \<exists>it'. st_Seek xx target it = Some (True, it') \<and> st_Key it' = Some (be_key e) \<and>
        st_Value it' = Some (be_value e) \<and> \<not> st_IsTombstone it'
    | None \<Rightarrow> \<exists>it'. st_Seek xx target it = Some (False, it')"
proof -
  let ?k = "start_block xx bs target"
  obtain now bfs where o: "is_open xx now bfs bs (si_reader it)" "table_ok xx now bfs bs"
    using assms by (auto simp: over_table_def is_open_def)
  have "over xx (index_block xx bs) (si_index it)" using assms by (simp add: over_table_def)
  then obtain found idx' idx i where s: "bk_Seek target (si_index it) = Some (found, idx')"
    "(if found then Some idx' else bk_SeekToLast idx') = Some idx" "on xx (index_block xx bs) ?k i idx"
    using index_seek_last by blast
  define it1 where "it1 = it\<lparr>si_err := None, si_initialized := True, si_index := idx\<rparr>"
  note k = index_on(1) [OF s(3)]
  define d where "d = block_Iterator (opened xx (bs ! ?k))"
  have load: "loadCurrentDataBlock xx it1 = it1\<lparr>si_data := Some d\<rparr>"
    using load_on [of xx bs ?k i it1] s(3) o(1) by (simp add: it1_def d_def)
  have seek: "st_Seek xx target it =
      (case bk_Seek target d of
         None \<Rightarrow> None
       | Some (True, d') \<Rightarrow> Some (True, it1\<lparr>si_data := Some d'\<rparr>)
       | Some (False, d') \<Rightarrow> seekInNextBlocks xx (it1\<lparr>si_data := Some d'\<rparr>))"
    using s load on_valid [OF s(3)] by (simp add: st_Seek_def Let_def it1_def split: option.split bool.split)
  have ov: "over xx (bs ! ?k) d" using Iterator_over [OF table_ok_block [OF o(2) k]] by (simp add: d_def)
  have cur: "st_Key it' = Some (be_key (bs ! m ! j)) \<and> st_Value it' = Some (be_value (bs ! m ! j)) \<and> \<not> st_IsTombstone it'"
    if "si_data it' = Some d'" "on xx (bs ! m) j i' d'" "si_initialized it'" for it' d' m j i'
    using that on_valid [OF that(2)] by (auto simp: st_Key_def st_Value_def st_IsTombstone_def st_Valid_def on_def)
  show ?thesis
  proof (cases "List.find (\<lambda>j. target \<le> be_key (bs ! ?k ! j)) (landing (bs ! ?k))")
    case (Some j)
    then obtain i' d' where b: "bk_Seek target d = Some (True, d')" "on xx (bs ! ?k) j i' d'"
      using Seek_landing [OF ov, of target] by auto
    with seek cur [of "it1\<lparr>si_data := Some d'\<rparr>" d' ?k j i'] Some show ?thesis
      by (simp add: seek_entry_def it1_def)
  next
    case None
    then obtain d' where b: "bk_Seek target d = Some (False, d')"
      using Seek_landing [OF ov, of target] by auto
    let ?it2 = "it1\<lparr>si_data := Some d'\<rparr>"
    have st: "st_Seek xx target it = next_blocks_loop xx (of_nat (block_offset xx bs ?k)) ?it2"
      using seek b index_on(3,4) [OF s(3)] by (simp add: seekInNextBlocks_def it1_def)
    have pre: "on xx (index_block xx bs) ?k i (si_index ?it2)" "over_table xx bs ?it2" "si_initialized ?it2"
      using s(3) o(1) by (auto simp: it1_def over_table_def on_def)
    from next_blocks_on [OF pre] st None show ?thesis
      by (auto simp: seek_entry_def Let_def at_def dest: cur split: if_splits)
  qed
qed

section \<open>Point reads\<close>

text \<open>
  Filter \<open>i\<close> is recorded under the offset of block \<open>i - 1\<close>: block 0 is served by its own filter,
  block \<open>k > 0\<close> by the filter of block \<open>k + 1\<close>, and the last block by none.
\<close>

lemma should_skip_first:
  assumes "m < length fs" "fst (fs ! m) = off" "\<forall>i < m. fst (fs ! i) \<noteq> off"
  shows "should_skip key off fs = map_option Not (bloom_Contains key (snd (fs ! m)))"
  using assms
proof (induction fs arbitrary: m)
  case (Cons f fs)
  show ?case
  proof (cases m)
    case (Suc m')
    have "\<forall>i < m'. fst (fs ! i) \<noteq> off" using Cons.prems(3) Suc by (metis Suc_mono nth_Cons_Suc)
    with Cons Suc Cons.prems(3) [rule_format, of 0] show ?thesis by simp
  qed (use Cons in simp)
qed simp

lemma should_skip_none: "\<forall>f \<in> set fs. fst f \<noteq> off \<Longrightarrow> should_skip key off fs = Some True"
  by (induction fs) auto

lemma skip_block_0:
  assumes "filters_ok xx n bs bfs" "bs \<noteq> []"
  shows "should_skip key (of_nat (block_offset xx bs 0)) (map (\<lambda>bf. (bfb_blockOffset bf, bfb_filter bf)) bfs) =
    Some (\<not> member (bfb_filter (bfs ! 0)) key)"
proof -
  have "0 < length bfs" "bfb_blockOffset (bfs ! 0) = of_nat (block_offset xx bs 0)" "bloom_wf (bfb_filter (bfs ! 0))"
    using assms by (auto simp: filters_ok_def covers_def saved_ok_def)
  then show ?thesis by (subst should_skip_first [of 0]) (auto simp: Contains_wf)
qed

lemma skip_last_block:
  assumes "filters_ok xx n bs bfs" "table_ok xx now bfs bs" "1 < length bs"
  shows "should_skip key (of_nat (block_offset xx bs (length bs - 1)))
    (map (\<lambda>bf. (bfb_blockOffset bf, bfb_filter bf)) bfs) = Some True"
proof (rule should_skip_none, rule ballI)
  fix f assume "f \<in> set (map (\<lambda>bf. (bfb_blockOffset bf, bfb_filter bf)) bfs)"
  then obtain i where i: "i < length bs" "fst f = of_nat (block_offset xx bs (i - 1))"
    using assms(1) by (auto simp: filters_ok_def in_set_conv_nth)
  then have "i - 1 < length bs" "length bs - 1 < length bs" "i - 1 \<noteq> length bs - 1" using assms(3) by auto
  with block_offset_inj [OF assms(2)] i(2) show "fst f \<noteq> of_nat (block_offset xx bs (length bs - 1))" by metis
qed

lemma start_block_single: "length bs = 1 \<Longrightarrow> start_block xx bs key = 0"
proof -
  assume "length bs = 1"
  moreover then have "landing (index_block xx bs) = [0]"
    using landing_single [of "index_block xx bs"] length_index_block [of xx bs] by fastforce
  ultimately show ?thesis by (simp add: start_block_def)
qed

lemma Get_single:
  assumes "is_open xx now bfs [es] r" "sr_cache r = NewBlockCache 100"
  shows "\<exists>r'. sst_Get xx pick key r =
    Some (case entry_value es key of Some v \<Rightarrow> Inr (Some v) | None \<Rightarrow> Inl ErrNotFound, r')"
proof -
  have ok: "table_ok xx now bfs [es]" using assms(1) by (simp add: is_open_def)
  have bk: "block_ok es" using table_ok_block [OF ok, of 0] by simp
  let ?l = "locator xx [es] 0"
  have blocks: "FindBlockForKey key r = Some [?l]"
    using FindBlock_open [OF assms(1)] by (simp add: start_block_single)
  have fetch: "FetchBlock xx (sr_file r) (bl_Offset ?l) (bl_Size ?l) = Inr (opened xx es)"
    using FetchBlock_image [OF assms(1), of 0] by (simp add: locator_def)
  have cache: "cache_Get (sr_cache r) (bl_Offset ?l) = None" by (simp add: assms(2) NewBlockCache_def cache_Get_def)
  have skip: "(if sr_hasBloomFilter r then should_skip key (bl_Offset ?l) (sr_bloomFilters r) else Some False) =
      Some (bfs \<noteq> [] \<and> \<not> member (bfb_filter (bfs ! 0)) key)"
    using assms(1) skip_block_0 [of xx _ "[es]" bfs key] by (auto simp: is_open_def table_ok_def locator_def)
  have none: "entry_value es key = None" if "bfs \<noteq> []" "\<not> member (bfb_filter (bfs ! 0)) key"
  proof -
    obtain n where "covers n (bfb_filter (bfs ! 0)) es"
      using ok \<open>bfs \<noteq> []\<close> by (auto simp: table_ok_def filters_ok_def)
    with \<open>\<not> member (bfb_filter (bfs ! 0)) key\<close> show ?thesis by (auto simp: covers_def entry_value_def map_of_eq_None_iff)
  qed
  show ?thesis
    using none SearchBlock_opened [OF bk, of xx key]
    by (cases "bfs \<noteq> [] \<and> \<not> member (bfb_filter (bfs ! 0)) key"; cases "entry_value es key")
       (auto simp: sst_Get_def blocks skip fetch cache)
qed

lemma Get_last_block:
  assumes "is_open xx now bfs bs r" "bfs \<noteq> []" "1 < length bs" "\<forall>b \<in> set bs. be_key (hd b) < key"
  shows "sst_Get xx pick key r = Some (Inl ErrNotFound, r)"
proof -
  obtain n where ok: "table_ok xx now bfs bs" "filters_ok xx n bs bfs" using assms(1,2) by (auto simp: is_open_def table_ok_def)
  have "be_key (index_block xx bs ! j) < key" if "j < length bs" for j
    using assms(4) that by (simp add: index_block_nth)
  moreover have "set (landing (index_block xx bs)) \<subseteq> {..<length bs}"
  proof -
    have "16 * x < length bs" if "x < num_restarts (length bs) - Suc 0" for x
      using restart_lt [of x "length bs"] that assms(3) by linarith
    then show ?thesis by (auto simp: landing_def Let_def)
  qed
  ultimately have "List.find (\<lambda>j. key \<le> be_key (index_block xx bs ! j)) (landing (index_block xx bs)) = None"
    by (auto simp: find_None_iff not_le)
  then have "start_block xx bs key = length bs - 1" by (simp add: start_block_def)
  then have "FindBlockForKey key r = Some [locator xx bs (length bs - 1)]"
    using FindBlock_open [OF assms(1), of key] assms(3) by (simp add: upt_conv_Cons)
  moreover have "should_skip key (bl_Offset (locator xx bs (length bs - 1))) (sr_bloomFilters r) = Some True"
    using skip_last_block [OF ok(2,1) assms(3)] assms(1) by (simp add: is_open_def locator_def)
  ultimately show ?thesis using assms(1,2) by (simp add: sst_Get_def is_open_def)
qed

section \<open>Whole tables\<close>

text \<open>The length of a table file, and a run of the writer over a list of pairs.\<close>

definition table_size :: "(bytes \<Rightarrow> u64) \<Rightarrow> u64 \<times> u64 \<Rightarrow> bool \<Rightarrow> block_entry list list \<Rightarrow> nat" where
  "table_size xx dims enable bs =
     length (blocks_image xx bs) + (if enable then length bs * (44 + filter_bytes dims) else 0) +
     length (block_image xx (index_block xx bs)) + FooterSize"

definition write_sst :: "(bytes \<Rightarrow> u64) \<Rightarrow> u64 \<times> u64 \<Rightarrow> bool \<Rightarrow> u64 \<Rightarrow> (bytes \<times> slice) list \<Rightarrow> bytes option" where
  "write_sst xx dims enable now kvs =
     (case NewWriterWithOptions dims enable 1000 None of
        Inl _ \<Rightarrow> None
      | Inr w \<Rightarrow>
          (case bind_op (add_entries xx dims kvs) (\<lambda>_. writer_Finish xx dims now) w of
             (Inl _, _) \<Rightarrow> None
           | (Inr _, w') \<Rightarrow> fm_final (sw_fm w')))"

lemma bloom_image_length:
  assumes "filters_ok xx n bs bfs"
  shows "length (bloom_image bfs) = length bs * (44 + n)"
proof -
  have "\<forall>bf \<in> set bfs. length (bloom_record bf) = 44 + n"
    using assms by (auto simp: filters_ok_def covers_def in_set_conv_nth bloom_record_def SaveToFile_def Let_def)
  then have "length (bloom_image bfs) = length bfs * (44 + n)" unfolding bloom_image_def by (induction bfs) auto
  then show ?thesis using assms by (simp add: filters_ok_def)
qed

lemma write_sst_image:
  assumes "legal_entries (map entry_of kvs)" "dims_ok dims" "bs = cut_blocks [] (map entry_of kvs)"
  shows "\<exists>bfs. write_sst xx dims enable now kvs = Some (table_image xx now bfs bs) \<and>
    (if enable then filters_ok xx (filter_bytes dims) bs bfs else bfs = []) \<and>
    length (table_image xx now bfs bs) = table_size xx dims enable bs"
proof -
  obtain w w1 w2 bfs where "NewWriterWithOptions dims enable 1000 None = Inr w" "add_entries xx dims kvs w = (Inr (), w1)"
    "writer_Finish xx dims now w1 = (Inr (), w2)" "fm_final (sw_fm w2) = Some (table_image xx now bfs bs)"
    "if enable then filters_ok xx (filter_bytes dims) bs bfs else bfs = []"
    using write_table [OF assms, of enable 1000 xx now] by blast
  then show ?thesis using bloom_image_length [of xx "filter_bytes dims" bs bfs]
    by (auto simp: write_sst_def table_image_def table_size_def bloom_image_def)
qed

lemma write_sst_open:
  assumes "legal_entries (map entry_of kvs)" "dims_ok dims" "bs = cut_blocks [] (map entry_of kvs)"
    "table_size xx dims enable bs < 2 ^ 32"
  shows "\<exists>f r bfs. write_sst xx dims enable now kvs = Some f \<and> OpenTable xx (Some f) = Some (Inr r) \<and>
    is_open xx now bfs bs r \<and> f = table_image xx now bfs bs \<and> sr_cache r = NewBlockCache 100 \<and> (bfs \<noteq> []) = enable"
proof -
  obtain bfs where b: "write_sst xx dims enable now kvs = Some (table_image xx now bfs bs)"
    "if enable then filters_ok xx (filter_bytes dims) bs bfs else bfs = []"
    "length (table_image xx now bfs bs) = table_size xx dims enable bs"
    using write_sst_image [OF assms(1-3)] by blast
  have ne: "bs \<noteq> []" using blocks_ok_cut [OF assms(1)] assms(3) by (simp add: blocks_ok_def)
  have "table_ok xx now bfs bs" using b assms(4) blocks_ok_cut [OF assms(1)] assms(3) by (auto simp: table_ok_def split: if_splits)
  then obtain r where r: "OpenTable xx (Some (table_image xx now bfs bs)) = Some (Inr r)" "is_open xx now bfs bs r"
    using OpenTable_image by blast
  have "sr_cache r = NewBlockCache 100"
    using r(1) by (auto simp: OpenTable_def Let_def split: if_splits sum.splits option.splits)
  moreover have "(bfs \<noteq> []) = enable" using b(2) ne by (auto simp: filters_ok_def split: if_splits)
  ultimately show ?thesis using b(1) r by blast
qed

text \<open>
  C35: a table file survives being written and read: when no call into the file system fails,
  entries with increasing non-empty keys that fit the field widths, and whose file stays below
  4 GiB, are written to a file that opens again, reports their number, and whose iterator shows
  every entry in order with its value, the first entry of every block twice.
\<close>

theorem sst_write_scan:
  assumes "legal_entries (map entry_of kvs)" "dims_ok dims"
    "table_size xx dims enable (cut_blocks [] (map entry_of kvs)) < 2 ^ 32"
  shows "\<exists>f r it. write_sst xx dims enable now kvs = Some f \<and> OpenTable xx (Some f) = Some (Inr r) \<and>
    GetKeyCount r = length kvs \<and> st_SeekToFirst xx (sst_NewIterator r) = Some it \<and>
    iter_collect (sst_ops xx) (2 * length f) it = Some (blocks_items (cut_blocks [] (map entry_of kvs)))"
proof -
  let ?bs = "cut_blocks [] (map entry_of kvs)"
  obtain f r bfs where r: "write_sst xx dims enable now kvs = Some f" "OpenTable xx (Some f) = Some (Inr r)"
    "is_open xx now bfs ?bs r" "f = table_image xx now bfs ?bs"
    using write_sst_open [OF assms(1,2) refl assms(3)] by blast
  have "over xx (index_block xx ?bs) (bk_SeekToFirst (block_Iterator (opened xx (index_block xx ?bs))))"
    using SeekToFirst_on [OF Iterator_over [OF table_ok_index]] r(3) by (auto simp: is_open_def on_def)
  then have "over_table xx ?bs (sst_NewIterator r)"
    using r(3) by (auto simp: over_table_def sst_NewIterator_def is_open_def)
  from items_over(2) [OF this] obtain it where it: "st_SeekToFirst xx (sst_NewIterator r) = Some it"
    "at xx ?bs 0 0 0 it" "sst_rest xx it = blocks_items ?bs" by blast
  have ok: "blocks_ok ?bs" using r(3) by (simp add: is_open_def table_ok_def)
  have len: "length (blocks_items ?bs) \<le> 2 * length f" using blocks_items_length [OF r(3)] r(3,4) by (simp add: is_open_def)
  have "items_from ?bs 0 0 0 = blocks_items ?bs" using items_from_all [of ?bs] ok by (simp add: blocks_ok_def)
  with collect_at [OF it(2)] len have "iter_collect (sst_ops xx) (2 * length f) it = Some (blocks_items ?bs)" by simp
  moreover have "GetKeyCount r = length kvs" using r(3) by (simp add: GetKeyCount_def is_open_def)
  ultimately show ?thesis using r(1,2) it(1) by blast
qed

text \<open>A small table.\<close>

definition small_kvs :: "(bytes \<times> slice) list" where
  "small_kvs = [([1], Some [7]), ([2], Some [8]), ([4], None)]"

lemma small_legal: "legal_entries (map entry_of small_kvs)"
  by (simp add: legal_entries_def small_kvs_def)

lemma small_block: "block_estimate (map entry_of small_kvs) < 65536"
  by (simp add: block_estimate_def entries_size_def small_kvs_def)

lemma small_cut: "cut_blocks [] (map entry_of small_kvs) = [map entry_of small_kvs]"
  using cut_blocks_single [of "[]" "map entry_of small_kvs"] small_block by (simp add: small_kvs_def)

lemma small_size: "table_size (\<lambda>_. 0) (80, 7) True [map entry_of small_kvs] < 2 ^ 32"
  by (simp add: table_size_def blocks_image_def block_image_length small_kvs_def num_restarts_def entries_image_def
      entry_image_def full_bytes_def delta_bytes_def value_bytes_def index_block_def index_of_def index_value_def
      filter_bytes_def FooterSize_def upt_rec)

lemma small_dims: "dims_ok (80, 7)"
  by (simp add: dims_ok_def)

theorem sst_write_scan_witness:
  "\<exists>f r it. write_sst (\<lambda>_. 0) (80, 7) True 5 small_kvs = Some f \<and> OpenTable (\<lambda>_. 0) (Some f) = Some (Inr r) \<and>
    GetKeyCount r = 3 \<and> st_SeekToFirst (\<lambda>_. 0) (sst_NewIterator r) = Some it \<and>
    iter_collect (sst_ops (\<lambda>_. 0)) (2 * length f) it =
      Some [([1], Some [7], False), ([1], Some [7], False), ([2], Some [8], False), ([4], Some [], False)]"
  using sst_write_scan [OF small_legal small_dims, of "\<lambda>_. 0" True 5] small_size small_cut
  by (simp add: small_kvs_def blocks_items_def twice_def item_of_def numeral_3_eq_3)

lemma entry_value_kvs: "entry_value (map entry_of kvs) key = map_option bytes_of (map_of kvs key)"
  by (induction kvs) (auto simp: entry_value_Cons)

text \<open>
  A point read of a table that fits into one block is right, with or without Bloom filters
  and wherever the restart points lie: it returns the stored value of a stored key and the error
  for a missing key otherwise.
\<close>

lemma sst_get_one_block:
  assumes "legal_entries (map entry_of kvs)" "dims_ok dims" "block_estimate (map entry_of kvs) < 65536"
    "table_size xx dims enable [map entry_of kvs] < 2 ^ 32"
  shows "\<exists>f r r'. write_sst xx dims enable now kvs = Some f \<and> OpenTable xx (Some f) = Some (Inr r) \<and>
    sst_Get xx pick key r =
      Some (case map_of kvs key of Some v \<Rightarrow> Inr (Some (bytes_of v)) | None \<Rightarrow> Inl ErrNotFound, r')"
proof -
  have cut: "cut_blocks [] (map entry_of kvs) = [map entry_of kvs]"
    using cut_blocks_single [of "[]" "map entry_of kvs"] assms(1,3) by (simp add: legal_entries_def)
  obtain f r bfs where r: "write_sst xx dims enable now kvs = Some f" "OpenTable xx (Some f) = Some (Inr r)"
    "is_open xx now bfs [map entry_of kvs] r" "sr_cache r = NewBlockCache 100"
    using write_sst_open [OF assms(1,2) refl, of xx enable now] assms(4) by (auto simp: cut)
  have "(case entry_value (map entry_of kvs) key of Some v \<Rightarrow> Inr (Some v) | None \<Rightarrow> Inl ErrNotFound) =
      (case map_of kvs key of Some v \<Rightarrow> Inr (Some (bytes_of v)) | None \<Rightarrow> Inl ErrNotFound)"
    by (simp add: entry_value_kvs split: option.split)
  with Get_single [OF r(3,4), of pick key] r(1,2) show ?thesis by auto
qed

text \<open>
  C36: a table of several blocks loses its last block for point reads when Bloom filters are on, as
  they are by default: for a key of the last block other than its first, \<open>Get\<close> reports that the key
  is not in the table.
\<close>

theorem sst_get_last_block_lost:
  assumes "legal_entries (map entry_of kvs)" "dims_ok dims" "bs = cut_blocks [] (map entry_of kvs)"
    "table_size xx dims True bs < 2 ^ 32" "1 < length bs" "e \<in> set (tl (last bs))"
  shows "\<exists>f r. write_sst xx dims True now kvs = Some f \<and> OpenTable xx (Some f) = Some (Inr r) \<and>
    be_key e \<in> fst ` set kvs \<and> sst_Get xx pick (be_key e) r = Some (Inl ErrNotFound, r)"
proof -
  obtain f r bfs where r: "write_sst xx dims True now kvs = Some f" "OpenTable xx (Some f) = Some (Inr r)"
    "is_open xx now bfs bs r" "bfs \<noteq> []"
    using write_sst_open [OF assms(1-4)] by blast
  have bs: "bs = butlast bs @ [last bs]" using assms(5) by (metis append_butlast_last_id list.size(3) not_less_zero)
  have sorted: "sorted_wrt (<) (map be_key (concat (butlast bs)) @ map be_key (last bs))"
    using legal_entriesD(2) [OF assms(1)] concat_cut_blocks [of "[]" "map entry_of kvs"] bs assms(3)
    by (metis append_Nil concat.simps concat_append map_append append_Nil2)
  have lne: "last bs \<noteq> []" and bne: "[] \<notin> set (butlast bs)"
    using cut_blocks_nonempty assms(3,5) bs by (metis last_in_set list.size(3) not_less_zero, metis in_set_butlastD)
  have e: "e \<in> set (last bs)" "be_key (hd (last bs)) < be_key e"
    using assms(6) lne sorted by (cases "last bs"; auto simp: sorted_wrt_append)+
  have "be_key (hd b) < be_key e" if "b \<in> set bs" for b
  proof (cases "b = last bs")
    case False
    then have "b \<in> set (butlast bs)" using that bs by (metis Un_iff empty_iff insert_iff list.set(1,2) set_append)
    then have "be_key (hd b) \<in> set (map be_key (concat (butlast bs)))" using bne hd_in_set [of b] by fastforce
    with sorted e(1) show ?thesis by (auto simp: sorted_wrt_append)
  qed (simp add: e(2))
  then have "sst_Get xx pick (be_key e) r = Some (Inl ErrNotFound, r)"
    using Get_last_block [OF r(3,4) assms(5)] by blast
  moreover have "be_key e \<in> fst ` set kvs"
  proof -
    have "e \<in> set (concat bs)" using e(1) assms(5) by (cases bs rule: rev_cases) auto
    then show ?thesis using assms(3) by force
  qed
  ultimately show ?thesis using r(1,2) by blast
qed

text \<open>Two blocks: a value of 64 KiB and two small entries.\<close>

definition big_kvs :: "(bytes \<times> slice) list" where
  "big_kvs = [([1], Some (replicate 65536 0)), ([2], Some [8]), ([3], Some [9])]"

lemma big_cut: "cut_blocks [] (map entry_of big_kvs) = [[entry_of (big_kvs ! 0)], [entry_of (big_kvs ! 1), entry_of (big_kvs ! 2)]]"
proof -
  have "block_full [entry_of (big_kvs ! 0)]" "\<not> block_full [entry_of (big_kvs ! 1)]"
    "\<not> block_full [entry_of (big_kvs ! 1), entry_of (big_kvs ! 2)]"
    by (simp_all add: block_full_def block_estimate_def entries_size_def IndexKeyInterval_def big_kvs_def word_le_nat_alt)
  then show ?thesis by (simp add: big_kvs_def)
qed

lemma big_size: "table_size (\<lambda>_. 0) (80, 7) True [[entry_of (big_kvs ! 0)], [entry_of (big_kvs ! 1), entry_of (big_kvs ! 2)]] < 2 ^ 32"
  by (simp add: table_size_def blocks_image_def block_image_length big_kvs_def num_restarts_def entries_image_def
      entry_image_def full_bytes_def delta_bytes_def value_bytes_def index_block_def index_of_def index_value_def
      filter_bytes_def FooterSize_def upt_rec)

theorem sst_get_last_block_lost_witness:
  "\<exists>f r. write_sst (\<lambda>_. 0) (80, 7) True 5 big_kvs = Some f \<and> OpenTable (\<lambda>_. 0) (Some f) = Some (Inr r) \<and>
    [3] \<in> fst ` set big_kvs \<and> sst_Get (\<lambda>_. 0) id [3] r = Some (Inl ErrNotFound, r)"
proof -
  have "legal_entries (map entry_of big_kvs)" by (simp add: legal_entries_def big_kvs_def)
  from sst_get_last_block_lost [OF this small_dims big_cut [symmetric] big_size, of "entry_of (big_kvs ! 2)" 5 id]
  show ?thesis by (simp add: big_kvs_def)
qed

end
