(* ===== verification/Engine_Scan.thy ===== *)
theory Engine_Scan
  imports Iter_Factory Sst_Correct
begin

text \<open>
  The engine's iterator over memtables and table files together: the factory of
  \<open>src/pkg/engine/iterator/factory.go\<close> with the table iterators of \<open>src/pkg/sstable/iterator.go\<close> as
  its second kind of source.
\<close>

interpretation esrc: two_forward mem_iter_ops mi_inv mi_items mi_rest "sst_ops xx" "sst_inv xx" "sst_items xx" "sst_rest xx"
  for xx
  by (intro two_forward.intro iterator.axioms(1) [OF mi.iterator_axioms] sst.forward_iterator_axioms)

definition table_reader :: "(bytes \<Rightarrow> u64) \<Rightarrow> sst_reader \<Rightarrow> block_entry list list \<Rightarrow> bool" where
  "table_reader xx r bs \<longleftrightarrow> (\<exists>now bfs. is_open xx now bfs bs r)"

lemma NewIterator_over:
  assumes "table_reader xx r bs"
  shows "over_table xx bs (sst_NewIterator r)" "sst_inv xx (sst_NewIterator r)"
    "sst_items xx (sst_NewIterator r) = blocks_items bs"
proof -
  obtain now bfs where o: "is_open xx now bfs bs r" using assms by (auto simp: table_reader_def)
  have "over xx (index_block xx bs) (bk_SeekToFirst (block_Iterator (opened xx (index_block xx bs))))"
    using SeekToFirst_on [OF Iterator_over [OF table_ok_index]] o by (auto simp: is_open_def on_def)
  then show ov: "over_table xx bs (sst_NewIterator r)"
    using o by (auto simp: over_table_def sst_NewIterator_def is_open_def)
  then show "sst_items xx (sst_NewIterator r) = blocks_items bs" by (rule items_over(1))
  have "\<not> st_Valid (sst_NewIterator r)" by (simp add: st_Valid_def sst_NewIterator_def)
  with ov show "sst_inv xx (sst_NewIterator r)" by (auto simp: sst_inv_def)
qed

lemma engine_forward:
  obtains i j r where "forward_iterator (engine_ops (sst_ops xx)) i j r"
    and "\<And>ms rs bss. list_all table_wf ms \<Longrightarrow> list_all2 (table_reader xx) rs bss \<Longrightarrow>
      i (createBaseIterator ms (map sst_NewIterator rs)) \<and>
      j (createBaseIterator ms (map sst_NewIterator rs)) = merged (map table_items ms @ map blocks_items (rev bss))"
proof -
  let ?inv = "case_sum mi_inv (sst_inv xx)" and ?items = "case_sum mi_items (sst_items xx)"
    and ?rest = "case_sum mi_rest (sst_rest xx)"
  note S = esrc.sum_forward [of xx]
  note H = forward_iterator.hier_forward [OF S]
  note B = forward_iterator.base_forward [OF H]
  show thesis
  proof (rule that [OF B [folded engine_ops_def]])
    fix ms rs bss
    assume ms: "list_all table_wf ms" and rs: "list_all2 (table_reader xx) rs bss"
    let ?its = "map (\<lambda>mt. Inl (NewIteratorAdapter mt)) ms @ map Inr (rev (map sst_NewIterator rs)) :: (mem_iter + sst_iter) list"
    have rs': "\<forall>r \<in> set rs. sst_inv xx (sst_NewIterator r)"
      using rs NewIterator_over(2) by (fastforce simp: list_all2_conv_all_nth in_set_conv_nth)
    have si: "map (sst_items xx \<circ> sst_NewIterator) rs = map blocks_items bss"
      using rs NewIterator_over(3) by (auto simp: list_all2_conv_all_nth list_eq_iff_nth_eq)
    have inv: "list_all ?inv ?its" using ms rs' adapter_inv(1) by (auto simp: list_all_iff)
    have "map mi_items (map NewIteratorAdapter ms) = map table_items ms"
      using ms adapter_inv(2) by (auto simp: list_all_iff)
    then have items: "map ?items ?its = map table_items ms @ map blocks_items (rev bss)"
      using si by (simp add: comp_def rev_map [symmetric])
    show "forward_iterator.o_inv (forward_iterator.h_inv ?inv ?items ?rest) (createBaseIterator ms (map sst_NewIterator rs)) \<and>
        forward_iterator.o_items (forward_iterator.h_items ?items) (createBaseIterator ms (map sst_NewIterator rs)) =
          merged (map table_items ms @ map blocks_items (rev bss))"
    proof (cases "ms = [] \<and> rs = []")
      case True
      with rs show ?thesis
        by (simp add: forward_iterator.o_inv_def [OF H] forward_iterator.o_items_def [OF H] createBaseIterator_def
            merged_def source_keys_def)
    next
      case False
      then have c: "createBaseIterator ms (map sst_NewIterator rs) = Some (NewHierarchicalIterator ?its)"
        by (auto simp: createBaseIterator_def)
      show ?thesis
        using inv items unfolding c
        by (simp add: forward_iterator.o_inv_def [OF H] forward_iterator.o_items_def [OF H]
            forward_iterator.h_inv_def [OF S] forward_iterator.h_items_def [OF S] NewHierarchicalIterator_def
            del: map_map map_append list_all_append)
    qed
  qed
qed

text \<open>
  C24: the engine's scan over memtables and table files: starting at the first key and calling
  \<open>Next\<close> visits every key exactly once, in increasing order, with the version of the first source
  that has it: the memtables in the order they are given, then the tables from the newest to the
  oldest. The entries that a table iterator shows twice do not show up twice.
\<close>

theorem engine_scan:
  assumes "list_all table_wf ms" "list_all2 (table_reader xx) rs bss"
    "length (merged (map table_items ms @ map blocks_items (rev bss))) \<le> n"
  shows "\<exists>it. op_SeekToFirst (engine_ops (sst_ops xx)) (CreateIterator ms (map sst_NewIterator rs)) = Some it \<and>
    iter_collect (engine_ops (sst_ops xx)) n it = Some (merged (map table_items ms @ map blocks_items (rev bss)))"
proof -
  let ?c = "createBaseIterator ms (map sst_NewIterator rs)"
  obtain i j r where F: "forward_iterator (engine_ops (sst_ops xx)) i j r"
    and c: "i ?c" "j ?c = merged (map table_items ms @ map blocks_items (rev bss))"
    by (rule engine_forward [of xx]) (use assms in blast)
  obtain it where "op_SeekToFirst (engine_ops (sst_ops xx)) ?c = Some it" "i it" "r it = j ?c"
    using forward_iterator.first [OF F c(1)] by auto
  with forward_iterator.iter_collect_rest [OF F, of it n] assms(3) c(2) show ?thesis
    by (simp add: CreateIterator_def)
qed

theorem engine_scan_witness:
  "\<exists>m f r it. run_all mem_write [newEntry [2] None TypeDeletion 5] (NewMemTable (\<lambda>_. False) 0) = Some m \<and>
     write_sst (\<lambda>_. 0) (80, 7) True 5 small_kvs = Some f \<and> OpenTable (\<lambda>_. 0) (Some f) = Some (Inr r) \<and>
     op_SeekToFirst (engine_ops (sst_ops (\<lambda>_. 0))) (CreateIterator [m] (map sst_NewIterator [r])) = Some it \<and>
     iter_collect (engine_ops (sst_ops (\<lambda>_. 0))) 9 it =
       Some [([1], Some [7], False), ([2], None, True), ([4], Some [], False)]"
proof -
  let ?bs = "[map entry_of small_kvs]"
  obtain m where m: "run_all mem_write [newEntry [2] None TypeDeletion 5] (NewMemTable (\<lambda>_. False) 0) = Some m"
    "holds m [newEntry [2] None TypeDeletion 5]"
    using holds_writes [OF holds_new [of "\<lambda>_. False" 0], of "[newEntry [2] None TypeDeletion 5]"] by auto
  obtain f r bfs where r: "write_sst (\<lambda>_. 0) (80, 7) True 5 small_kvs = Some f" "OpenTable (\<lambda>_. 0) (Some f) = Some (Inr r)"
    "is_open (\<lambda>_. 0) 5 bfs ?bs r"
    using write_sst_open [OF small_legal small_dims refl, of "\<lambda>_. 0" True 5] small_size small_cut by auto
  have items: "map table_items [m] @ map blocks_items (rev [?bs]) =
      [[([2], None, True)], [([1], Some [7], False), ([1], Some [7], False), ([2], Some [8], False), ([4], Some [], False)]]"
    using m(2) by (simp add: holds_def table_items_def newEntry_def entry_item_def blocks_items_def twice_def item_of_def small_kvs_def)
  have "sorted_list_of_set {[1 :: byte], [2], [4]} = [[1], [2], [4]]" by (simp add: sorted_list_of_set_insert)
  then have merged: "merged (map table_items [m] @ map blocks_items (rev [?bs])) =
      [([1], Some [7], False), ([2], None, True), ([4], Some [], False)]"
    unfolding items by (simp add: merged_def source_keys_def merged_item_def insert_commute)
  have "list_all table_wf [m]" "list_all2 (table_reader (\<lambda>_. 0)) [r] [?bs]"
    using m(2) r(3) by (auto simp: holds_def table_reader_def)
  from engine_scan [OF this, of 9, unfolded merged] m(1) r(1,2) show ?thesis by auto
qed

end
