(* ===== verification/Retry.thy ===== *)
theory Retry
  imports Wal_Log
begin

text \<open>
  Bounded retries (\<open>src/pkg/common/retry/retry.go\<close>, \<open>src/pkg/engine/storage/retry.go\<close>).
  Durations are nanoseconds. \<open>rnd i\<close> is the raw random number of round \<open>i\<close>, which
  \<open>rand.Int63n(n)\<close> reduces modulo \<open>n\<close> (and panics for \<open>n \<le> 0\<close>); \<open>env i\<close> is what the other
  goroutines do to the shared state while round \<open>i\<close> sleeps. A result \<open>None\<close> is the panic; the
  value of a run is the returned error (nil is \<open>None\<close>), the time slept and the state.
\<close>

section \<open>The loop\<close>

record retry_config =
  rc_MaxRetries :: int
  rc_InitialBackoff :: int
  rc_MaxBackoff :: int
  rc_CapTotalWaitTime :: int

definition DefaultRetryConfig :: retry_config where
  "DefaultRetryConfig =
     \<lparr>rc_MaxRetries = 3, rc_InitialBackoff = 5 * 1000000, rc_MaxBackoff = 50 * 1000000,
      rc_CapTotalWaitTime = 50 * 1000000\<rparr>"

datatype 'e retry_error = ErrRetryFailedBecauseOfInvalidConfig | OperationFailed 'e

type_synonym ('s, 'e) attempt = "'s \<Rightarrow> 'e option \<times> 's"

definition next_backoff :: "retry_config \<Rightarrow> int \<Rightarrow> int \<Rightarrow> int \<Rightarrow> int option" where
  "next_backoff c raw backoff waited =
     (if backoff div 10 \<le> 0 then None
      else let jitter = raw mod (backoff div 10);
               b = min (backoff + jitter) (rc_MaxBackoff c)
           in Some (if waited + b > rc_CapTotalWaitTime c then rc_CapTotalWaitTime c - waited else b))"

lemma next_backoff_cap: "next_backoff c raw b w = Some b' \<Longrightarrow> w + b' \<le> rc_CapTotalWaitTime c"
  by (auto simp: next_backoff_def Let_def split: if_splits)

function retry_loop ::
  "retry_config \<Rightarrow> (nat \<Rightarrow> int) \<Rightarrow> (nat \<Rightarrow> 's \<Rightarrow> 's) \<Rightarrow> ('s, 'e) attempt \<Rightarrow> ('e \<Rightarrow> bool) \<Rightarrow>
   nat \<Rightarrow> int \<Rightarrow> int \<Rightarrow> 's \<Rightarrow> ('e option \<times> int \<times> 's) option" where
  "retry_loop c rnd env operation isRetryable i backoff waited s =
     (if int i < rc_MaxRetries c \<or> rc_MaxRetries c \<le> 0
      then case operation s of
             (None, s') \<Rightarrow> Some (None, waited, s')
           | (Some err, s') \<Rightarrow>
               if \<not> isRetryable err then Some (Some err, waited, s')
               else (case next_backoff c (rnd i) backoff waited of
                       None \<Rightarrow> None
                     | Some b \<Rightarrow>
                         if b \<le> 0 then Some (None, waited, s')
                         else retry_loop c rnd env operation isRetryable (Suc i) b (waited + b)
                                (env i s'))
      else Some (None, waited, s))"
  by pat_completeness auto

termination
  by (relation "measure (\<lambda>(c, rnd, env, operation, isRetryable, i, b, w, s).
        nat (rc_CapTotalWaitTime c - w))") (auto dest: next_backoff_cap)

declare retry_loop.simps [simp del]

definition RetryWithConfig ::
  "retry_config \<Rightarrow> (nat \<Rightarrow> int) \<Rightarrow> (nat \<Rightarrow> 's \<Rightarrow> 's) \<Rightarrow> ('s, 'e) attempt \<Rightarrow> ('e \<Rightarrow> bool) \<Rightarrow> 's \<Rightarrow>
   ('e retry_error option \<times> int \<times> 's) option" where
  "RetryWithConfig c rnd env operation isRetryable s =
     (if rc_CapTotalWaitTime c \<le> 0 \<and> rc_MaxRetries c \<le> 0
      then Some (Some ErrRetryFailedBecauseOfInvalidConfig, 0, s)
      else map_option (apfst (map_option OperationFailed))
             (retry_loop c rnd env operation isRetryable 0 (rc_InitialBackoff c) 0 s))"

definition isWALRotating :: "wal_error \<Rightarrow> bool" where
  "isWALRotating err \<longleftrightarrow> err = ErrWALRotating \<or> err = ErrWALClosed"

definition RetryOnWALRotating ::
  "(nat \<Rightarrow> int) \<Rightarrow> (nat \<Rightarrow> 's \<Rightarrow> 's) \<Rightarrow> ('s, wal_error) attempt \<Rightarrow> 's \<Rightarrow>
   (wal_error retry_error option \<times> int \<times> 's) option" where
  "RetryOnWALRotating rnd env operation s =
     RetryWithConfig DefaultRetryConfig rnd env operation isWALRotating s"

text \<open>\<open>RetryWithSequence\<close> keeps the last sequence number the operation returned; as the
  appends of the log do, an operation that fails returns the sequence number 0.\<close>

definition keep_sequence :: "('s, wal_error, u64) op \<Rightarrow> (u64 \<times> 's, wal_error) attempt" where
  "keep_sequence operation q =
     (case operation (snd q) of
        (Inl e, s') \<Rightarrow> (Some e, (0, s'))
      | (Inr sq, s') \<Rightarrow> (None, (sq, s')))"

definition RetryWithSequence ::
  "(nat \<Rightarrow> int) \<Rightarrow> (nat \<Rightarrow> 's \<Rightarrow> 's) \<Rightarrow> ('s, wal_error, u64) op \<Rightarrow> 's \<Rightarrow>
   ((u64 \<times> wal_error retry_error option) \<times> int \<times> 's) option" where
  "RetryWithSequence rnd env operation s =
     (case RetryWithConfig DefaultRetryConfig rnd (\<lambda>i. apsnd (env i)) (keep_sequence operation)
             isWALRotating (0, s) of
        None \<Rightarrow> None
      | Some (err, t, (sq, s')) \<Rightarrow> Some ((sq, err), t, s'))"

section \<open>Bounds\<close>

text \<open>The runs of the loop as a rule: how it ends, and one more round.\<close>

lemma retry_loop_run [consumes 1, case_names limit ok error gave_up again]:
  fixes Q :: "nat \<Rightarrow> int \<Rightarrow> int \<Rightarrow> 's \<Rightarrow> bool"
  assumes "retry_loop c rnd env operation isRetryable i b w s = Some (err, t, s')"
    and limit: "\<And>i b. err = None \<Longrightarrow> \<not> (int i < rc_MaxRetries c \<or> rc_MaxRetries c \<le> 0) \<Longrightarrow> Q i b t s'"
    and ok: "\<And>i b s. err = None \<Longrightarrow> int i < rc_MaxRetries c \<or> rc_MaxRetries c \<le> 0 \<Longrightarrow>
       operation s = (None, s') \<Longrightarrow> Q i b t s"
    and error: "\<And>i b s e. err = Some e \<Longrightarrow> int i < rc_MaxRetries c \<or> rc_MaxRetries c \<le> 0 \<Longrightarrow>
       operation s = (Some e, s') \<Longrightarrow> \<not> isRetryable e \<Longrightarrow> Q i b t s"
    and gave_up: "\<And>i b s e. err = None \<Longrightarrow> int i < rc_MaxRetries c \<or> rc_MaxRetries c \<le> 0 \<Longrightarrow>
       operation s = (Some e, s') \<Longrightarrow> isRetryable e \<Longrightarrow> Q i b t s"
    and again: "\<And>i b w s s1 e b'. int i < rc_MaxRetries c \<or> rc_MaxRetries c \<le> 0 \<Longrightarrow>
       operation s = (Some e, s1) \<Longrightarrow> isRetryable e \<Longrightarrow> next_backoff c (rnd i) b w = Some b' \<Longrightarrow>
       0 < b' \<Longrightarrow> Q (Suc i) b' (w + b') (env i s1) \<Longrightarrow> Q i b w s"
  shows "Q i b w s"
  using assms(1)
proof (induction "nat (rc_CapTotalWaitTime c - w)" arbitrary: i b w s rule: less_induct)
  case less
  let ?more = "int i < rc_MaxRetries c \<or> rc_MaxRetries c \<le> 0"
  note run = less.prems [unfolded retry_loop.simps [of c rnd env operation isRetryable i b w s]]
  show ?case
  proof (cases ?more)
    case False
    with run show ?thesis using limit by auto
  next
    case more: True
    obtain e1 s1 where op: "operation s = (e1, s1)" by force
    show ?thesis
    proof (cases "\<exists>e b'. e1 = Some e \<and> isRetryable e \<and> next_backoff c (rnd i) b w = Some b' \<and> 0 < b'")
      case True
      then obtain e b' where a: "e1 = Some e" "isRetryable e" "next_backoff c (rnd i) b w = Some b'" "0 < b'"
        by blast
      have "nat (rc_CapTotalWaitTime c - (w + b')) < nat (rc_CapTotalWaitTime c - w)"
        using next_backoff_cap [OF a(3)] a(4) by simp
      moreover have "retry_loop c rnd env operation isRetryable (Suc i) b' (w + b') (env i s1) = Some (err, t, s')"
        using run more op a by simp
      ultimately show ?thesis using again [OF more _ a(2-4)] less.hyps op a(1) by blast
    next
      case False
      with run more op show ?thesis
        by (auto split: option.splits if_splits intro: ok error gave_up simp: not_le)
    qed
  qed
qed

text \<open>An operation that also counts how often it was called.\<close>

definition counted :: "('s, 'e) attempt \<Rightarrow> (nat \<times> 's, 'e) attempt" where
  "counted operation q = (case operation (snd q) of (e, s') \<Rightarrow> (e, (Suc (fst q), s')))"

definition counted_env :: "(nat \<Rightarrow> 's \<Rightarrow> 's) \<Rightarrow> nat \<Rightarrow> nat \<times> 's \<Rightarrow> nat \<times> 's" where
  "counted_env env i = apsnd (env i)"

lemma retry_loop_bounds:
  assumes "retry_loop c rnd (counted_env env) (counted operation) isRetryable i b w q = Some (e, t, q')"
    and "w \<le> rc_CapTotalWaitTime c \<or> w \<le> 0"
  shows "t \<le> max 0 (rc_CapTotalWaitTime c) \<and> w \<le> t \<and> fst q \<le> fst q' \<and>
    (rc_MaxRetries c > 0 \<longrightarrow> int i \<le> rc_MaxRetries c \<longrightarrow>
       int (fst q') - int (fst q) \<le> rc_MaxRetries c - int i)"
  using assms
proof (induction rule: retry_loop_run)
  case (again i b w s s1 e b')
  then show ?case using next_backoff_cap [OF again(4)]
    by (auto simp: counted_def counted_env_def apsnd_def map_prod_def split: prod.splits)
qed (auto simp: counted_def split: prod.splits)

text \<open>The error of a run is one that the operation returned and that is not retryable.\<close>

lemma retry_loop_error:
  "retry_loop c rnd env operation isRetryable i b w s = Some (Some err, t, s') \<Longrightarrow>
     \<not> isRetryable err \<and> (\<exists>s0. operation s0 = (Some err, s'))"
  by (induction rule: retry_loop_run) auto

section \<open>Giving up\<close>

text \<open>
  An operation that fails with a retryable error as long as \<open>P\<close> holds of the state, which the
  other goroutines do not change: the loop ends with the error nil (or panics), never with the
  error of the operation.
\<close>

definition keeps_failing ::
  "('s \<Rightarrow> bool) \<Rightarrow> (nat \<Rightarrow> 's \<Rightarrow> 's) \<Rightarrow> ('s, 'e) attempt \<Rightarrow> ('e \<Rightarrow> bool) \<Rightarrow> bool" where
  "keeps_failing P env operation isRetryable \<longleftrightarrow>
     (\<forall>s. P s \<longrightarrow> (\<exists>e s'. operation s = (Some e, s') \<and> isRetryable e \<and> P s')) \<and>
     (\<forall>i s. P s \<longrightarrow> P (env i s))"

lemma retry_loop_exhausted:
  assumes "keeps_failing P env operation isRetryable" "P s"
    and "retry_loop c rnd env operation isRetryable i b w s = Some (err, t, s')"
  shows "err = None \<and> P s'"
  using assms(3,2)
  by (induction rule: retry_loop_run) (use assms(1) in \<open>auto simp: keeps_failing_def; metis option.distinct(1) prod.inject\<close>)+

lemma next_backoff_plain:
  assumes "10 \<le> b" "b + b div 10 \<le> rc_MaxBackoff c" "w + b + b div 10 \<le> rc_CapTotalWaitTime c"
  obtains b' where "next_backoff c raw b w = Some b'" "b \<le> b'" "b' \<le> b + b div 10"
proof -
  have pos: "0 < b div 10" using assms(1) by simp
  define j where "j = raw mod (b div 10)"
  have j: "0 \<le> j" "j < b div 10" using pos by (simp_all add: j_def)
  have "next_backoff c raw b w = Some (b + j)"
    using assms pos j by (simp add: next_backoff_def Let_def j_def [symmetric])
  then show ?thesis by (rule that) (use j in simp_all)
qed

lemma default_gives_up:
  assumes "keeps_failing P env operation isRetryable" "P s"
  shows "\<exists>t s'. RetryWithConfig DefaultRetryConfig rnd env operation isRetryable s = Some (None, t, s') \<and>
     P s' \<and> 15000000 \<le> t \<and> t \<le> 20000000"
proof -
  let ?c = DefaultRetryConfig
  note def = DefaultRetryConfig_def
  have fails: "\<exists>e s'. operation s = (Some e, s') \<and> isRetryable e \<and> P (env i s')" if "P s" for s i
    using assms(1) that unfolding keeps_failing_def by metis
  have go: "\<exists>b' s'. retry_loop ?c rnd env operation isRetryable i b w s =
         retry_loop ?c rnd env operation isRetryable (Suc i) b' (w + b') s' \<and>
       P s' \<and> b \<le> b' \<and> b' \<le> b + b div 10"
    if p: "P s" and i: "i < 3" and b: "5000000 \<le> b" "b \<le> 7000000" "w \<le> 20000000" for s i b w
  proof -
    obtain e s1 where op: "operation s = (Some e, s1)" "isRetryable e" "P (env i s1)"
      using fails [OF p] by blast
    obtain b' where "next_backoff ?c (rnd i) b w = Some b'" "b \<le> b'" "b' \<le> b + b div 10"
    proof (rule next_backoff_plain [of b ?c w "rnd i"])
      have "b div 10 \<le> 700000" using b(2) by linarith
      with b show "b + b div 10 \<le> rc_MaxBackoff ?c" "w + b + b div 10 \<le> rc_CapTotalWaitTime ?c"
        by (simp_all add: def)
    qed (use b in simp)
    with op i b show ?thesis
      by (subst retry_loop.simps) (auto simp: def intro!: exI [of _ b'] exI [of _ "env i s1"])
  qed
  obtain b1 s1 where l1: "retry_loop ?c rnd env operation isRetryable 0 5000000 0 s =
      retry_loop ?c rnd env operation isRetryable 1 b1 b1 s1" "P s1" "5000000 \<le> b1" "b1 \<le> 5500000"
    using go [of s 0 5000000 0] assms(2) by auto
  obtain b2 s2 where l2: "retry_loop ?c rnd env operation isRetryable 1 b1 b1 s1 =
      retry_loop ?c rnd env operation isRetryable 2 b2 (b1 + b2) s2" "P s2" "b1 \<le> b2" "b2 \<le> 6050000"
    using go [of s1 1 b1 b1] l1 by (auto simp: numeral_2_eq_2)
  obtain b3 s3 where l3: "retry_loop ?c rnd env operation isRetryable 2 b2 (b1 + b2) s2 =
      retry_loop ?c rnd env operation isRetryable 3 b3 (b1 + b2 + b3) s3" "P s3" "b2 \<le> b3" "b3 \<le> 6655000"
    using go [of s2 2 b2 "b1 + b2"] l1 l2 by (auto simp: numeral_3_eq_3)
  have "retry_loop ?c rnd env operation isRetryable 3 b3 (b1 + b2 + b3) s3 = Some (None, b1 + b2 + b3, s3)"
    by (subst retry_loop.simps) (simp add: def)
  with l1 l2 l3 show ?thesis
    by (intro exI [of _ "b1 + b2 + b3"] exI [of _ s3]) (simp add: RetryWithConfig_def, simp add: def)
qed

section \<open>Properties\<close>

text \<open>
  C28: a run of \<open>RetryWithConfig\<close> that returns has slept at most \<open>CapTotalWaitTime\<close>, has called
  the operation at most \<open>MaxRetries\<close> times when that limit is given, and an error it returns from
  the operation is not retryable.
\<close>

theorem retry_bounds:
  assumes "RetryWithConfig c rnd (counted_env env) (counted operation) isRetryable (0, s) =
    Some (err, t, (calls, s'))"
  shows "0 \<le> t \<and> t \<le> max 0 (rc_CapTotalWaitTime c) \<and>
    (rc_MaxRetries c > 0 \<longrightarrow> int calls \<le> rc_MaxRetries c) \<and>
    (\<forall>e. err = Some (OperationFailed e) \<longrightarrow> \<not> isRetryable e)"
proof (cases "rc_CapTotalWaitTime c \<le> 0 \<and> rc_MaxRetries c \<le> 0")
  case True
  with assms show ?thesis by (auto simp: RetryWithConfig_def)
next
  case False
  with assms obtain e where loop: "retry_loop c rnd (counted_env env) (counted operation) isRetryable
      0 (rc_InitialBackoff c) 0 (0, s) = Some (e, t, (calls, s'))" "err = map_option OperationFailed e"
    by (auto simp: RetryWithConfig_def)
  show ?thesis
    using retry_loop_bounds [OF loop(1)] loop retry_loop_error
    by (cases e) (auto, (metis retry_loop_error)+)
qed

theorem retry_bounds_witness:
  "RetryWithConfig DefaultRetryConfig (\<lambda>_. 0) (counted_env (\<lambda>_. id))
      (counted (\<lambda>s. (Some ErrWALClosed, s))) (\<lambda>e. e = ErrWALRotating) (0, ()) =
    Some (Some (OperationFailed ErrWALClosed), 0, (1, ())) \<and>
   int 1 \<le> rc_MaxRetries DefaultRetryConfig \<and> ErrWALClosed \<noteq> ErrWALRotating"
proof -
  have run: "RetryWithConfig DefaultRetryConfig (\<lambda>_. 0) (counted_env (\<lambda>_. id))
      (counted (\<lambda>s. (Some ErrWALClosed, s))) (\<lambda>e. e = ErrWALRotating) (0, ()) =
    Some (Some (OperationFailed ErrWALClosed), 0, (1, ()))"
    by (simp add: RetryWithConfig_def DefaultRetryConfig_def retry_loop.simps counted_def)
  from run retry_bounds [OF run] show ?thesis by (simp add: DefaultRetryConfig_def)
qed

end
