(* ===== verification/Storage.thy ===== *)
theory Storage
  imports Engine_Scan Retry "HOL-Library.Product_Lexorder"
begin

text \<open>
  The storage manager (\<open>src/pkg/engine/storage/manager.go\<close>, \<open>manager_wal.go\<close>): the log, the pool of
  memtables, the tables on disk and the operations that tie them together. \<open>sg_walFiles\<close> holds the
  log files that are no longer written to, oldest first, and \<open>sg_sstFiles\<close> the table files of the
  directory under their level, number and time stamp, in the order of \<open>os.ReadDir\<close> (the zero-padded
  names sort like these triples while levels stay below 10 and numbers below a million). What an operation takes from outside is a
  \<open>world\<close>: the clock, the coins of a new skip list, the jitter of the retries, the checksum
  function, the dimensions of a Bloom filter and the faults of new files. \<open>env\<close> is what other
  goroutines do while a retry sleeps. Statistics are left out.
\<close>

section \<open>State\<close>

type_synonym sst_name = "nat \<times> u64 \<times> u64"

record storage =
  sg_cfg :: config
  sg_wal :: wal
  sg_walFiles :: "bytes list"
  sg_pool :: mem_pool
  sg_immutableMTs :: "mem_table list"
  sg_sstables :: "sst_reader list"
  sg_sstFiles :: "(sst_name \<times> bytes) list"
  sg_nextFileNum :: u64
  sg_lastSeqNum :: u64
  sg_flushSignal :: bool
  sg_closed :: bool

record world =
  wo_now :: int
  wo_stamp :: u64
  wo_coins :: "nat \<Rightarrow> bool"
  wo_jitter :: "nat \<Rightarrow> int"
  wo_xx :: "bytes \<Rightarrow> u64"
  wo_dims :: "u64 \<times> u64"
  wo_newWal :: "nat option option"
  wo_reuseFault :: "nat option"
  wo_sstFault :: "nat option"

datatype storage_error =
    ErrStorageClosed | WalRotating wal_error | AppendFailed wal_error | NewWalFailed
  | SstFailed sst_error | SstOpenFailed sst_error | WalCloseFailed wal_error | RetryConfigInvalid | StoragePanic

section \<open>Writing\<close>

definition scheduleFlush :: "world \<Rightarrow> storage \<Rightarrow> storage" where
  "scheduleFlush wd s =
     (case SwitchToNewMemTable (wo_coins wd) (wo_now wd) (sg_pool s) of
        (immutable, p) \<Rightarrow>
          s\<lparr>sg_pool := p, sg_immutableMTs := sg_immutableMTs s @ [immutable], sg_flushSignal := True\<rparr>)"

definition flush_if_needed :: "world \<Rightarrow> storage \<Rightarrow> storage" where
  "flush_if_needed wd s = (if IsFlushNeeded (sg_pool s) then scheduleFlush wd s else s)"

text \<open>
  The operation inside a retry: append to the log, then apply the change. Only \<open>ErrWALRotating\<close> is
  passed on as it is, every other error of the log is wrapped.
\<close>

definition append_op ::
  "u64 wal_op \<Rightarrow> (u64 \<Rightarrow> storage \<Rightarrow> storage option) \<Rightarrow> (storage, storage_error) attempt" where
  "append_op wlog change s =
     (case wlog (sg_wal s) of
        (Inl e, w) \<Rightarrow> (Some (if e = ErrWALRotating then WalRotating e else AppendFailed e), s\<lparr>sg_wal := w\<rparr>)
      | (Inr sq, w) \<Rightarrow>
          (case change sq (s\<lparr>sg_wal := w\<rparr>) of
             None \<Rightarrow> (Some StoragePanic, s\<lparr>sg_wal := w\<rparr>)
           | Some s' \<Rightarrow> (None, s')))"

text \<open>The errors \<open>isWALRotating\<close> recognises by comparison: a wrapped \<open>ErrWALClosed\<close> is not one of them.\<close>

definition rotating_error :: "storage_error \<Rightarrow> bool" where
  "rotating_error err = (case err of WalRotating e \<Rightarrow> isWALRotating e | _ \<Rightarrow> False)"

definition storage_retry ::
  "(nat \<Rightarrow> storage \<Rightarrow> storage) \<Rightarrow> world \<Rightarrow> (storage, storage_error) attempt \<Rightarrow> storage \<Rightarrow>
   (storage_error option \<times> storage) option" where
  "storage_retry env wd operation s =
     map_option (\<lambda>(err, _, s').
        (map_option (\<lambda>e. case e of OperationFailed x \<Rightarrow> x | ErrRetryFailedBecauseOfInvalidConfig \<Rightarrow> RetryConfigInvalid) err, s'))
       (RetryWithConfig DefaultRetryConfig (wo_jitter wd) env operation rotating_error s)"

definition storage_Put ::
  "(nat \<Rightarrow> storage \<Rightarrow> storage) \<Rightarrow> world \<Rightarrow> bytes \<Rightarrow> slice \<Rightarrow> storage \<Rightarrow> (storage_error option \<times> storage) option" where
  "storage_Put env wd key value s =
     (if sg_closed s then Some (Some ErrStorageClosed, s)
      else storage_retry env wd
             (append_op (Append OpTypePut key value) (\<lambda>sq s.
                map_option (\<lambda>p. flush_if_needed wd (s\<lparr>sg_pool := p, sg_lastSeqNum := sq\<rparr>))
                  (pool_Put (wo_now wd) key value sq (sg_pool s)))) s)"

definition storage_Delete ::
  "(nat \<Rightarrow> storage \<Rightarrow> storage) \<Rightarrow> world \<Rightarrow> bytes \<Rightarrow> storage \<Rightarrow> (storage_error option \<times> storage) option" where
  "storage_Delete env wd key s =
     (if sg_closed s then Some (Some ErrStorageClosed, s)
      else storage_retry env wd
             (append_op (Append OpTypeDelete key None) (\<lambda>sq s.
                map_option (\<lambda>p. flush_if_needed wd (s\<lparr>sg_pool := p, sg_lastSeqNum := sq\<rparr>))
                  (pool_Delete (wo_now wd) key sq (sg_pool s)))) s)"

fun apply_entries :: "int \<Rightarrow> u64 \<Rightarrow> wentry list \<Rightarrow> storage \<Rightarrow> storage option" where
  "apply_entries now sq [] s = Some s"
| "apply_entries now sq (e # es) s =
     (case (if we_type e = OpTypePut then pool_Put now (we_key e) (we_value e) sq (sg_pool s)
            else if we_type e = OpTypeDelete then pool_Delete now (we_key e) sq (sg_pool s)
            else Some (sg_pool s)) of
        None \<Rightarrow> None
      | Some p \<Rightarrow> apply_entries now (sq + 1) es (s\<lparr>sg_pool := p, sg_lastSeqNum := sq\<rparr>))"

definition ApplyBatch ::
  "(nat \<Rightarrow> storage \<Rightarrow> storage) \<Rightarrow> world \<Rightarrow> wentry list \<Rightarrow> storage \<Rightarrow> (storage_error option \<times> storage) option" where
  "ApplyBatch env wd entries s =
     (if sg_closed s then Some (Some ErrStorageClosed, s)
      else storage_retry env wd
             (append_op (AppendBatch entries) (\<lambda>sq s.
                map_option (flush_if_needed wd) (apply_entries (wo_now wd) sq entries s))) s)"

section \<open>Reading\<close>

text \<open>The loop over the tables, newest first: the answer and whether the key was found at all.\<close>

fun search_tables :: "(bytes \<Rightarrow> u64) \<Rightarrow> bytes \<Rightarrow> sst_reader list \<Rightarrow> (slice \<times> bool) option option" where
  "search_tables xx key [] = Some None"
| "search_tables xx key (r # rs) =
     (case st_Seek xx key (sst_NewIterator r) of
        None \<Rightarrow> None
      | Some (ok, it) \<Rightarrow>
          if \<not> ok \<or> bytes_of (st_Key it) \<noteq> key then search_tables xx key rs
          else Some (Some (st_Value it, st_IsTombstone it)))"

definition storage_Get :: "(bytes \<Rightarrow> u64) \<Rightarrow> bytes \<Rightarrow> storage \<Rightarrow> (storage_error + slice \<times> bool) option" where
  "storage_Get xx key s =
     (if sg_closed s then Some (Inl ErrStorageClosed)
      else case pool_Get key (sg_pool s) of
             None \<Rightarrow> None
           | Some (val, found) \<Rightarrow>
               if found then Some (Inr (if val = None then (None, False) else (val, True)))
               else (case search_tables xx key (rev (sg_sstables s)) of
                       None \<Rightarrow> None
                     | Some None \<Rightarrow> Some (Inr (None, False))
                     | Some (Some (v, tombstone)) \<Rightarrow> Some (Inr (if tombstone then (None, False) else (v, True)))))"

definition IsDeleted :: "(bytes \<Rightarrow> u64) \<Rightarrow> bytes \<Rightarrow> storage \<Rightarrow> (storage_error + bool) option" where
  "IsDeleted xx key s =
     (if sg_closed s then Some (Inl ErrStorageClosed)
      else case pool_Get key (sg_pool s) of
             None \<Rightarrow> None
           | Some (val, found) \<Rightarrow>
               if found then Some (Inr (val = None))
               else map_option (\<lambda>r. Inr (case r of None \<Rightarrow> False | Some (_, tombstone) \<Rightarrow> tombstone))
                      (search_tables xx key (rev (sg_sstables s))))"

definition GetIterator :: "storage \<Rightarrow> storage_error + sst_iter engine_iter" where
  "GetIterator s =
     (if sg_closed s then Inl ErrStorageClosed
      else Inr (CreateIterator (GetMemTables (sg_pool s)) (map sst_NewIterator (sg_sstables s))))"

definition GetRangeIterator :: "slice \<Rightarrow> slice \<Rightarrow> storage \<Rightarrow> storage_error + sst_iter engine_iter bounded" where
  "GetRangeIterator startKey endKey s =
     (if sg_closed s then Inl ErrStorageClosed
      else Inr (CreateRangeIterator (GetMemTables (sg_pool s)) (map sst_NewIterator (sg_sstables s)) startKey endKey))"

section \<open>Rotation and flushing\<close>

definition rotateWAL :: "world \<Rightarrow> storage \<Rightarrow> storage_error option \<times> storage" where
  "rotateWAL wd s =
     (case wo_newWal wd of
        None \<Rightarrow> (Some NewWalFailed, s)
      | Some fault \<Rightarrow>
          (None, s\<lparr>sg_wal := NewWAL (sg_cfg s) fault,
                   sg_walFiles := sg_walFiles s @ [log_file (snd (wal_Close (sg_wal s)))]\<rparr>))"

text \<open>
  The loop of \<open>flushMemTable\<close> over the skip list: the first version of every key is added to the
  table unless its value is nil.
\<close>

partial_function (option) flush_loop ::
  "(bytes \<Rightarrow> u64) \<Rightarrow> u64 \<times> u64 \<Rightarrow> skip_list \<Rightarrow> skip_iter \<Rightarrow> bytes list \<Rightarrow> nat \<Rightarrow> sst_writer \<Rightarrow>
   ((sst_error + nat) \<times> sst_writer) option" where
  "flush_loop xx dims l it processed cnt w =
     (if \<not> iter_Valid l it then Some (Inr cnt, w)
      else let key = bytes_of (iter_Key l it) in
           if key \<in> set processed then flush_loop xx dims l (iter_Next l it) processed cnt w
           else case iter_Value l it of
                  None \<Rightarrow> flush_loop xx dims l (iter_Next l it) (key # processed) cnt w
                | Some v \<Rightarrow>
                    let r = writer_Add xx dims key (Some v) w in
                    (case fst r of
                       Inl e \<Rightarrow> Some (Inl e, snd (writer_Abort (snd r)))
                     | Inr _ \<Rightarrow> flush_loop xx dims l (iter_Next l it) (key # processed) (Suc cnt) (snd r)))"

definition open_table :: "world \<Rightarrow> sst_name \<Rightarrow> bytes option \<Rightarrow> storage \<Rightarrow> (storage_error option \<times> storage) option" where
  "open_table wd name f s =
     (case f of
        None \<Rightarrow> Some (Some (SstFailed SstIO), s)
      | Some content \<Rightarrow>
          let s1 = s\<lparr>sg_sstFiles := insort_key fst (name, content) (sg_sstFiles s)\<rparr> in
          map_option (\<lambda>r. case r of
              Inl e \<Rightarrow> (Some (SstOpenFailed e), s1)
            | Inr reader \<Rightarrow> (None, s1\<lparr>sg_sstables := sg_sstables s1 @ [reader]\<rparr>))
            (OpenTable (wo_xx wd) (Some content)))"

definition flushMemTable :: "world \<Rightarrow> mem_table \<Rightarrow> storage \<Rightarrow> (storage_error option \<times> storage) option" where
  "flushMemTable wd mem s =
     (if mem_ApproximateSize mem = 0 then Some (None, s)
      else
        let fileNum = sg_nextFileNum s; s1 = s\<lparr>sg_nextFileNum := fileNum + 1\<rparr> in
        case NewWriter (wo_dims wd) (wo_sstFault wd) of
          Inl e \<Rightarrow> Some (Some (SstFailed e), s1)
        | Inr w \<Rightarrow>
            (case flush_loop (wo_xx wd) (wo_dims wd) (mt_list mem)
                    (iter_SeekToFirst (mt_list mem) (mem_NewIterator mem)) [] 0 w of
               None \<Rightarrow> None
             | Some (Inl e, _) \<Rightarrow> Some (Some (SstFailed e), s1)
             | Some (Inr cnt, w1) \<Rightarrow>
                 if cnt = 0 then Some (None, s1)
                 else (case writer_Finish (wo_xx wd) (wo_dims wd) (wo_stamp wd) w1 of
                         (Inl e, _) \<Rightarrow> Some (Some (SstFailed e), s1)
                       | (Inr _, w2) \<Rightarrow> open_table wd (0, fileNum, wo_stamp wd) (fm_final (sw_fm w2)) s1)))"

fun flush_all :: "(nat \<Rightarrow> world) \<Rightarrow> nat \<Rightarrow> mem_table list \<Rightarrow> storage \<Rightarrow> (storage_error option \<times> storage) option" where
  "flush_all wds i [] s = Some (None, s)"
| "flush_all wds i (m # ms) s =
     (case flushMemTable (wds i) m s of
        None \<Rightarrow> None
      | Some (Some e, s') \<Rightarrow> Some (Some e, s')
      | Some (None, s') \<Rightarrow> flush_all wds (Suc i) ms s')"

definition FlushMemTables :: "(nat \<Rightarrow> world) \<Rightarrow> storage \<Rightarrow> (storage_error option \<times> storage) option" where
  "FlushMemTables wds s =
     (if sg_immutableMTs s = [] then
        let tables = GetMemTables (sg_pool s) in
        if length tables > 0 \<and> mem_ApproximateSize (tables ! 0) > 0
        then (case rotateWAL (wds 0) s of
                (Some e, s1) \<Rightarrow> Some (Some e, s1)
              | (None, s1) \<Rightarrow> flushMemTable (wds 0) (tables ! 0) s1)
        else Some (None, s)
      else case rotateWAL (wds 0) s of
             (Some e, s1) \<Rightarrow> Some (Some e, s1)
           | (None, s1) \<Rightarrow>
               (case flush_all wds 0 (sg_immutableMTs s1) s1 of
                  None \<Rightarrow> None
                | Some (Some e, s2) \<Rightarrow> Some (Some e, s2)
                | Some (None, s2) \<Rightarrow> Some (None, s2\<lparr>sg_immutableMTs := []\<rparr>)))"

text \<open>One round of the background goroutine: woken by the signal, or by its ticker.\<close>

definition backgroundFlush_round :: "(nat \<Rightarrow> world) \<Rightarrow> bool \<Rightarrow> storage \<Rightarrow> (storage_error option \<times> storage) option" where
  "backgroundFlush_round wds signalled s =
     (let s1 = (if signalled then s\<lparr>sg_flushSignal := False\<rparr> else s) in
      if sg_closed s1 then Some (None, s1)
      else if signalled \<or> sg_immutableMTs s1 \<noteq> [] then FlushMemTables wds s1
      else Some (None, s1))"

definition storage_Close :: "storage \<Rightarrow> storage_error option \<times> storage" where
  "storage_Close s =
     (if sg_closed s then (None, s)
      else case wal_Close (sg_wal s) of
             (Inl e, w) \<Rightarrow> (Some (WalCloseFailed e), s\<lparr>sg_closed := True, sg_wal := w\<rparr>)
           | (Inr _, w) \<Rightarrow>
               (None, s\<lparr>sg_closed := True, sg_wal := w, sg_sstables := map sst_Close (sg_sstables s)\<rparr>))"

text \<open>The figures of the manager: memtable size, flush condition, and the map of \<open>GetStorageStats\<close>.\<close>

definition GetMemTableSize :: "storage \<Rightarrow> u64" where
  "GetMemTableSize s = word_of_int (TotalSize (sg_pool s))"

definition storage_IsFlushNeeded :: "storage \<Rightarrow> bool" where
  "storage_IsFlushNeeded s = IsFlushNeeded (sg_pool s)"

definition GetStorageStats :: "storage \<Rightarrow> (string \<times> int) list" where
  "GetStorageStats s =
     [(''memtable_size'', TotalSize (sg_pool s)), (''immutable_memtable_count'', int (length (sg_immutableMTs s))),
      (''sstable_count'', int (length (sg_sstables s))), (''last_sequence'', uint (sg_lastSeqNum s))]"

section \<open>Opening a data directory\<close>

fun loadSSTables :: "(bytes \<Rightarrow> u64) \<Rightarrow> (sst_name \<times> bytes) list \<Rightarrow> storage \<Rightarrow> (storage_error option \<times> storage) option" where
  "loadSSTables xx [] s = Some (None, s)"
| "loadSSTables xx (f # fs) s =
     (case OpenTable xx (Some (snd f)) of
        None \<Rightarrow> None
      | Some (Inl e) \<Rightarrow> Some (Some (SstOpenFailed e), s)
      | Some (Inr r) \<Rightarrow> loadSSTables xx fs (s\<lparr>sg_sstables := sg_sstables s @ [r]\<rparr>))"

definition ReloadSSTables :: "(bytes \<Rightarrow> u64) \<Rightarrow> storage \<Rightarrow> (storage_error option \<times> storage) option" where
  "ReloadSSTables xx s = loadSSTables xx (sg_sstFiles s) (s\<lparr>sg_sstables := []\<rparr>)"

text \<open>
  \<open>recoverFromWAL\<close>: the last recovered table becomes the active one, earlier ones are kept for
  flushing only. When recovery fails the log files are moved away and a fresh log is started.
\<close>

definition adopt_tables :: "mem_table list \<Rightarrow> u64 \<Rightarrow> storage \<Rightarrow> storage" where
  "adopt_tables memTables maxSeqNum s =
     (if memTables = [] then s
      else s\<lparr>sg_lastSeqNum := maxSeqNum,
             sg_wal := (if maxSeqNum > 0 then UpdateNextSequence (maxSeqNum + 1) (sg_wal s) else sg_wal s),
             sg_immutableMTs := sg_immutableMTs s @ map SetImmutable (butlast memTables),
             sg_pool := SetActiveMemTable (last memTables) (sg_pool s)\<rparr>)"

definition recoverFromWAL ::
  "world \<Rightarrow> (nat \<Rightarrow> nat \<Rightarrow> bool) \<Rightarrow> (nat \<Rightarrow> int) \<Rightarrow> bytes list \<Rightarrow> storage \<Rightarrow> (storage_error option \<times> storage) option" where
  "recoverFromWAL wd rnds clock walFiles s =
     (case RecoverFromWAL (sg_cfg s) (Some (DefaultRecoveryOptions (sg_cfg s))) rnds clock walFiles of
        None \<Rightarrow> None
      | Some (Inl _) \<Rightarrow>
          (case wo_newWal wd of
             None \<Rightarrow> Some (Some NewWalFailed, s\<lparr>sg_walFiles := []\<rparr>)
           | Some fault \<Rightarrow> Some (None, s\<lparr>sg_wal := NewWAL (sg_cfg s) fault, sg_walFiles := []\<rparr>))
      | Some (Inr (memTables, maxSeqNum)) \<Rightarrow> Some (None, adopt_tables memTables maxSeqNum s))"

text \<open>
  \<open>NewManager\<close> of a non-nil configuration, when its directories exist or can be made. The goroutine \<open>backgroundFlush\<close>
  that it starts is not part of the result: its rounds are \<open>backgroundFlush_round\<close>.
\<close>

definition NewManager ::
  "config \<Rightarrow> world \<Rightarrow> (nat \<Rightarrow> nat \<Rightarrow> bool) \<Rightarrow> (nat \<Rightarrow> int) \<Rightarrow> bytes list \<Rightarrow> (sst_name \<times> bytes) list \<Rightarrow>
   (storage_error + storage) option" where
  "NewManager cfg wd rnds clock walFiles sstFiles =
     (case (case ReuseWAL cfg walFiles 1 (wo_reuseFault wd) of
              Some w \<Rightarrow> Some (w, butlast walFiles, walFiles)
            | None \<Rightarrow> map_option (\<lambda>fault. (NewWAL cfg fault, walFiles, walFiles @ [[]])) (wo_newWal wd)) of
        None \<Rightarrow> Some (Inl NewWalFailed)
      | Some (w, olds, files) \<Rightarrow>
          case NewMemTablePool cfg (wo_coins wd) (wo_now wd) of
               None \<Rightarrow> None
             | Some pool \<Rightarrow>
                 let m = \<lparr>sg_cfg = cfg, sg_wal = w, sg_walFiles = olds, sg_pool = pool, sg_immutableMTs = [],
                          sg_sstables = [], sg_sstFiles = sstFiles, sg_nextFileNum = 1, sg_lastSeqNum = 0,
                          sg_flushSignal = False, sg_closed = False\<rparr>
                 in case loadSSTables (wo_xx wd) sstFiles m of
                      None \<Rightarrow> None
                    | Some (Some e, _) \<Rightarrow> Some (Inl e)
                    | Some (None, m1) \<Rightarrow>
                        (case recoverFromWAL wd rnds clock files m1 of
                           None \<Rightarrow> None
                         | Some (Some e, _) \<Rightarrow> Some (Inl e)
                         | Some (None, m2) \<Rightarrow> Some (Inr m2)))"

end
