(* ===== verification/Kv_Store.thy ===== *)
theory Kv_Store
  imports Kevo_Prelude
begin

text \<open>
  What a client of the engine is promised: a finite map from keys to values. \<open>kv_step\<close> is the
  specification of the two writes; the locale \<open>kv_store\<close> is the contract of an implementation, and
  its lemma says that every run of writes shows the clients the map of the specification. The
  sequence numbers of an implementation are finite, so \<open>room n\<close> says that a state can take \<open>n\<close>
  more writes. The type \<open>'w\<close> is what an operation takes from outside.
\<close>

datatype kv_op = KvPut bytes bytes | KvDelete bytes

fun kv_step :: "kv_op \<Rightarrow> (bytes \<rightharpoonup> bytes) \<Rightarrow> (bytes \<rightharpoonup> bytes)" where
  "kv_step (KvPut k v) m = m(k \<mapsto> v)"
| "kv_step (KvDelete k) m = m(k := None)"

definition kv_run :: "kv_op list \<Rightarrow> (bytes \<rightharpoonup> bytes) \<Rightarrow> (bytes \<rightharpoonup> bytes)" where
  "kv_run ops m = fold kv_step ops m"

lemma kv_run_simps [simp]:
  "kv_run [] m = m" "kv_run (x # xs) m = kv_run xs (kv_step x m)" "kv_run (xs @ ys) m = kv_run ys (kv_run xs m)"
  by (simp_all add: kv_run_def)

locale kv_store =
  fixes wr :: "'w \<Rightarrow> kv_op \<Rightarrow> 's \<Rightarrow> 's option"
    and get :: "bytes \<Rightarrow> 's \<Rightarrow> bytes option option"
    and room :: "nat \<Rightarrow> 's \<Rightarrow> bool"
  assumes get_returns: "room n s \<Longrightarrow> \<exists>v. get key s = Some v"
    and write_steps: "room (Suc n) s \<Longrightarrow> (\<And>key. get key s = Some (m key)) \<Longrightarrow>
      \<exists>s'. wr w x s = Some s' \<and> room n s' \<and> (\<forall>key. get key s' = Some (kv_step x m key))"
begin

definition content :: "'s \<Rightarrow> (bytes \<rightharpoonup> bytes)" where
  "content s = (\<lambda>key. the (get key s))"

lemma get_content: "room n s \<Longrightarrow> get key s = Some (content s key)"
  using get_returns [of n s key] by (auto simp: content_def)

lemma write_content:
  assumes "room (Suc n) s"
  shows "\<exists>s'. wr w x s = Some s' \<and> room n s' \<and> content s' = kv_step x (content s)"
proof -
  obtain s' where s': "wr w x s = Some s'" "room n s'" "\<forall>key. get key s' = Some (kv_step x (content s) key)"
    using write_steps [OF assms get_content [OF assms]] by blast
  then have "content s' = kv_step x (content s)" by (simp add: content_def fun_eq_iff)
  with s' show ?thesis by blast
qed

lemma run_refines:
  assumes "room (n + length ops) s"
  shows "\<exists>s'. run_all (\<lambda>(w, x). wr w x) ops s = Some s' \<and> room n s' \<and>
    content s' = kv_run (map snd ops) (content s)"
  using assms
proof (induction ops arbitrary: s)
  case (Cons wx ops)
  obtain w x where wx: "wx = (w, x)" by force
  have "room (Suc (n + length ops)) s" using Cons.prems by simp
  then obtain s1 where "wr w x s = Some s1" "room (n + length ops) s1" "content s1 = kv_step x (content s)"
    using write_content by blast
  with Cons.IH [of s1] wx show ?case by auto
qed simp

end

text \<open>
  A store with transactions: a list of writes that takes effect as a whole. Every transaction has an
  identifier of its own; \<open>used\<close> are those a state has seen.
\<close>

datatype kv_call = Single kv_op | Atomic "kv_op list"

fun call_ops :: "kv_call \<Rightarrow> kv_op list" where
  "call_ops (Single x) = [x]"
| "call_ops (Atomic xs) = xs"

fun all_ops_of :: "('w \<times> 'i \<times> kv_call) list \<Rightarrow> kv_op list" where
  "all_ops_of [] = []"
| "all_ops_of ((w, i, c) # cs) = call_ops c @ all_ops_of cs"

locale kv_tx_store = kv_store wr get room
  for wr :: "'w \<Rightarrow> kv_op \<Rightarrow> 's \<Rightarrow> 's option" and get :: "bytes \<Rightarrow> 's \<Rightarrow> bytes option option" and room :: "nat \<Rightarrow> 's \<Rightarrow> bool" +
  fixes tx :: "'w \<Rightarrow> 'i \<Rightarrow> kv_op list \<Rightarrow> 's \<Rightarrow> 's option"
    and used :: "'s \<Rightarrow> 'i set"
    and fits :: "kv_op \<Rightarrow> bool"
  assumes wr_used: "room (Suc n) s \<Longrightarrow> wr w x s = Some s' \<Longrightarrow> used s' = used s"
    and tx_steps: "room (n + length xs) s \<Longrightarrow> i \<notin> used s \<Longrightarrow> list_all fits xs \<Longrightarrow> (\<And>key. get key s = Some (m key)) \<Longrightarrow>
      \<exists>s'. tx w i xs s = Some s' \<and> room n s' \<and> used s' = insert i (used s) \<and> (\<forall>key. get key s' = Some (kv_run xs m key))"
begin

definition call :: "'w \<times> 'i \<times> kv_call \<Rightarrow> 's \<Rightarrow> 's option" where
  "call wic s = (case wic of (w, i, Single x) \<Rightarrow> wr w x s | (w, i, Atomic xs) \<Rightarrow> tx w i xs s)"

definition calls_ok :: "('w \<times> 'i \<times> kv_call) list \<Rightarrow> 's \<Rightarrow> bool" where
  "calls_ok cs s \<longleftrightarrow> distinct (map (fst \<circ> snd) cs) \<and> (fst \<circ> snd) ` set cs \<inter> used s = {} \<and>
     list_all (\<lambda>(w, i, c). case c of Single x \<Rightarrow> True | Atomic xs \<Rightarrow> list_all fits xs) cs"

lemma call_steps:
  assumes "room (n + length (call_ops c)) s" "i \<notin> used s" "\<And>xs. c = Atomic xs \<Longrightarrow> list_all fits xs" "\<And>key. get key s = Some (m key)"
  shows "\<exists>s'. call (w, i, c) s = Some s' \<and> room n s' \<and> used s' \<subseteq> insert i (used s) \<and> (\<forall>key. get key s' = Some (kv_run (call_ops c) m key))"
proof (cases c)
  case (Single x)
  have r: "room (Suc n) s" using assms(1) Single by simp
  obtain s' where s': "wr w x s = Some s'" "room n s'" "\<forall>key. get key s' = Some (kv_step x m key)"
    using write_steps [OF r assms(4)] by blast
  with wr_used [OF r s'(1)] show ?thesis using Single by (auto simp: call_def)
next
  case (Atomic ys)
  then have "room (n + length ys) s" "list_all fits ys" using assms(1,3) by simp_all
  from tx_steps [OF this(1) assms(2) this(2) assms(4), of w]
  obtain s' where "tx w i ys s = Some s'" "room n s'" "used s' = insert i (used s)" "\<forall>key. get key s' = Some (kv_run ys m key)"
    by blast
  then show ?thesis using Atomic by (auto simp: call_def)
qed

lemma calls_refine:
  assumes "room (n + length (all_ops_of cs)) s" "calls_ok cs s" "\<And>key. get key s = Some (m key)"
  shows "\<exists>s'. run_all call cs s = Some s' \<and> room n s' \<and>
    (\<forall>key. get key s' = Some (kv_run (all_ops_of cs) m key))"
  using assms
proof (induction cs arbitrary: s m)
  case (Cons wic cs)
  obtain w i c where wic: "wic = (w, i, c)" by (metis prod.collapse)
  let ?k = "n + length (all_ops_of cs)"
  have r: "room (?k + length (call_ops c)) s" using Cons.prems(1) wic by (simp add: algebra_simps)
  have i: "i \<notin> used s" "\<And>xs. c = Atomic xs \<Longrightarrow> list_all fits xs" using Cons.prems(2) wic by (auto simp: calls_ok_def)
  obtain s1 where s1: "call (w, i, c) s = Some s1" "room ?k s1" "used s1 \<subseteq> insert i (used s)"
    "\<forall>key. get key s1 = Some (kv_run (call_ops c) m key)"
    using call_steps [OF r i Cons.prems(3), of w] by blast
  have "calls_ok cs s1" using Cons.prems(2) s1(3) wic by (auto simp: calls_ok_def)
  from Cons.IH [OF s1(2) this, of "kv_run (call_ops c) m"] s1 wic show ?case by auto
qed simp

end

end
