(* ===== verification/Storage_Correct.thy ===== *)
theory Storage_Correct
  imports Storage Kv_Store
begin

text \<open>
  Properties of the storage manager: it refines the map of \<open>Kv_Store\<close> as long as its log is not
  rotated, and writes that fit the memtable leave the background flusher nothing to do.
\<close>

section \<open>Reading tables\<close>

lemma search_tables_returns:
  "list_all2 (table_reader xx) rs bss \<Longrightarrow> \<exists>r. search_tables xx key rs = Some r"
proof (induction rule: list_all2_induct)
  case (Cons r rs bs bss)
  obtain ok it where "st_Seek xx key (sst_NewIterator r) = Some (ok, it)"
    using st_Seek_open [OF NewIterator_over(1) [OF Cons(1)], of key] by (auto split: option.splits)
  with Cons.IH show ?case by auto
qed simp

section \<open>The invariant\<close>

text \<open>
  An open manager with a healthy log whose pool holds the writes \<open>hist\<close>, made with increasing
  sequence numbers below the next one of the log.
\<close>

definition storage_inv :: "(bytes \<Rightarrow> u64) \<Rightarrow> storage \<Rightarrow> mentry list \<Rightarrow> bool" where
  "storage_inv xx s hist \<longleftrightarrow> \<not> sg_closed s \<and> active (sg_wal s) \<and> w_fault (sg_wal s) = None \<and>
     (\<exists>segs ws. pool_inv (sg_pool s) segs ws \<and> concat segs @ ws = hist) \<and>
     sorted (map me_seq hist) \<and> (\<forall>e \<in> set hist. me_seq e < w_nextSequence (sg_wal s)) \<and>
     (\<exists>bss. list_all2 (table_reader xx) (sg_sstables s) bss)"

definition shown :: "mentry option \<Rightarrow> slice \<times> bool" where
  "shown r = (case answer r of (v, _) \<Rightarrow> if v = None then (None, False) else (v, True))"

lemma storage_Get_inv:
  assumes "storage_inv xx s hist"
  shows "storage_Get xx key s =
    (case newest_write key hist of
       Some e \<Rightarrow> Some (Inr (shown (Some e)))
     | None \<Rightarrow> Some (Inr (case the (search_tables xx key (rev (sg_sstables s))) of
           None \<Rightarrow> (None, False) | Some (v, tombstone) \<Rightarrow> if tombstone then (None, False) else (v, True))))"
proof -
  obtain segs ws bss where i: "pool_inv (sg_pool s) segs ws" "concat segs @ ws = hist"
    "list_all2 (table_reader xx) (sg_sstables s) bss" using assms by (auto simp: storage_inv_def)
  have "first_write key (ws # rev segs) = newest_write key hist"
    using assms i(2) first_write_newest [of "ws # rev segs" key] by (simp add: storage_inv_def)
  then have p: "pool_Get key (sg_pool s) = Some (answer (newest_write key hist))" using pool_inv_Get [OF i(1)] by simp
  obtain r where r: "search_tables xx key (rev (sg_sstables s)) = Some r"
    using search_tables_returns [of xx "rev (sg_sstables s)" "rev bss" key] i(3) by auto
  show ?thesis
    using assms p r
    by (cases "newest_write key hist"; cases r)
       (auto simp: storage_Get_def storage_inv_def shown_def answer_def)
qed

text \<open>One write through the log, the pool and, when it is full, a table switch.\<close>

lemma retry_first:
  "operation s = (None, s') \<Longrightarrow> storage_retry env wd operation s = Some (None, s')"
  by (simp add: storage_retry_def RetryWithConfig_def DefaultRetryConfig_def retry_loop.simps)

lemma flush_if_needed_inv:
  assumes "pool_inv (sg_pool s) segs ws"
  shows "\<exists>segs' ws'. pool_inv (sg_pool (flush_if_needed wd s)) segs' ws' \<and> concat segs' @ ws' = concat segs @ ws"
proof (cases "IsFlushNeeded (sg_pool s)")
  case True
  have "pool_inv (snd (SwitchToNewMemTable (wo_coins wd) (wo_now wd) (sg_pool s))) (segs @ [ws]) []"
    using assms by (auto simp: pool_inv_def SwitchToNewMemTable_def Let_def list_all2_appendI)
  with True show ?thesis
    by (intro exI [of _ "segs @ [ws]"] exI [of _ "[]"]) (auto simp: flush_if_needed_def scheduleFlush_def split: prod.split)
next
  case False
  with assms show ?thesis by (auto simp: flush_if_needed_def)
qed

lemma flush_if_needed_fields [simp]:
  "sg_closed (flush_if_needed wd s) = sg_closed s" "sg_wal (flush_if_needed wd s) = sg_wal s"
  "sg_sstables (flush_if_needed wd s) = sg_sstables s" "sg_cfg (flush_if_needed wd s) = sg_cfg s"
  "sg_walFiles (flush_if_needed wd s) = sg_walFiles s"
  by (simp_all add: flush_if_needed_def scheduleFlush_def split: prod.split)

lemma storage_write:
  assumes "storage_inv xx s hist" "unat (w_nextSequence (sg_wal s)) + 1 < 2 ^ 64"
    and "Append t key value (sg_wal s) = (Inr sq, w)" "active w" "w_fault w = None"
    and "proper e" "me_seq e = sq" "mem_write e (mp_active (sg_pool s)) = Some m"
    and "s' = flush_if_needed wd (s\<lparr>sg_wal := w, sg_pool := checkFlushConditions now ((sg_pool s)\<lparr>mp_active := m\<rparr>), sg_lastSeqNum := sq\<rparr>)"
  shows "storage_inv xx s' (hist @ [e])"
proof -
  obtain segs ws where i: "pool_inv (sg_pool s) segs ws" "concat segs @ ws = hist"
    using assms(1) by (auto simp: storage_inv_def)
  let ?p = "checkFlushConditions now ((sg_pool s)\<lparr>mp_active := m\<rparr>)"
  have "pool_inv ?p segs (ws @ [e])" using pool_write_inv [OF i(1) assms(6), of now] assms(8) by auto
  then have p: "\<exists>segs' ws'. pool_inv (sg_pool s') segs' ws' \<and> concat segs' @ ws' = hist @ [e]"
    using flush_if_needed_inv [of "s\<lparr>sg_wal := w, sg_pool := ?p, sg_lastSeqNum := sq\<rparr>" segs "ws @ [e]" wd]
    by (simp add: assms(9) flip: i(2))
  have n: "sq = w_nextSequence (sg_wal s)" "w_nextSequence w = w_nextSequence (sg_wal s) + 1"
    using Append_ok [OF assms(3)] by auto
  have lt: "w_nextSequence (sg_wal s) < w_nextSequence w"
    using assms(2) by (simp add: n(2) word_less_nat_alt unat_word_ariths)
  have "\<forall>x \<in> set hist. me_seq x < me_seq e" using assms(1,7) n(1) by (simp add: storage_inv_def)
  then have "sorted (map me_seq (hist @ [e]))" using assms(1) by (auto simp: storage_inv_def sorted_append intro: less_imp_le)
  moreover have "\<forall>x \<in> set (hist @ [e]). me_seq x < w_nextSequence w"
    using assms(1,7) n(1) lt by (auto simp: storage_inv_def intro: less_trans)
  ultimately show ?thesis using p assms(1,4,5,9) by (auto simp: storage_inv_def)
qed

lemma log_step:
  assumes "storage_inv xx s hist" "valid_append_type t"
  obtains w where "Append t key value (sg_wal s) = (Inr (w_nextSequence (sg_wal s)), w)" "active w" "w_fault w = None"
    "w_nextSequence w = w_nextSequence (sg_wal s) + 1"
proof -
  obtain sq w where a: "Append t key value (sg_wal s) = (Inr sq, w)" "w_fault w = None" "active w"
    using healthyD [OF healthy_Append [OF assms(2), of key "value"], of "sg_wal s"] assms(1) by (auto simp: storage_inv_def)
  with Append_ok [OF a(1)] that show thesis by auto
qed

lemma pool_step:
  assumes "storage_inv xx s hist" "proper e"
  obtains m where "mem_write e (mp_active (sg_pool s)) = Some m"
proof -
  obtain segs ws where "pool_inv (sg_pool s) segs ws" using assms(1) by (auto simp: storage_inv_def)
  with pool_write_inv [OF _ assms(2)] that show thesis by blast
qed

section \<open>The refinement\<close>

definition storage_exec :: "(nat \<Rightarrow> storage \<Rightarrow> storage) \<times> world \<Rightarrow> kv_op \<Rightarrow> storage \<Rightarrow> storage option" where
  "storage_exec ew x s =
     (case (case x of KvPut k v \<Rightarrow> storage_Put (fst ew) (snd ew) k (Some v) s
            | KvDelete k \<Rightarrow> storage_Delete (fst ew) (snd ew) k s) of
        Some (None, s') \<Rightarrow> Some s'
      | _ \<Rightarrow> None)"

text \<open>The write a call makes when the next sequence number is \<open>sq\<close>.\<close>

fun op_write :: "u64 \<Rightarrow> kv_op \<Rightarrow> mentry" where
  "op_write sq (KvPut k v) = newEntry k (Some v) TypeValue sq"
| "op_write sq (KvDelete k) = newEntry k None TypeDeletion sq"

fun op_key :: "kv_op \<Rightarrow> bytes" where
  "op_key (KvPut k v) = k"
| "op_key (KvDelete k) = k"

fun op_append :: "kv_op \<Rightarrow> byte \<times> bytes \<times> slice" where
  "op_append (KvPut k v) = (OpTypePut, k, Some v)"
| "op_append (KvDelete k) = (OpTypeDelete, k, None)"

lemma storage_exec_inv:
  assumes "storage_inv xx s hist" "unat (w_nextSequence (sg_wal s)) + 1 < 2 ^ 64"
  obtains s' w where "storage_exec ew x s = Some s'" "sg_wal s' = w" "sg_cfg s' = sg_cfg s" "sg_walFiles s' = sg_walFiles s"
    "storage_inv xx s' (hist @ [op_write (w_nextSequence (sg_wal s)) x])"
    "sg_sstables s' = sg_sstables s" "w_nextSequence w = w_nextSequence (sg_wal s) + 1"
    "(case op_append x of (t, k, v) \<Rightarrow> Append t k v (sg_wal s)) = (Inr (w_nextSequence (sg_wal s)), w)"
proof -
  let ?sq = "w_nextSequence (sg_wal s)" and ?e = "op_write (w_nextSequence (sg_wal s)) x"
  obtain t k v where op: "op_append x = (t, k, v)" "valid_append_type t"
    by (cases x) (auto simp: valid_append_type_def)
  obtain w where w: "Append t k v (sg_wal s) = (Inr ?sq, w)" "active w" "w_fault w = None" "w_nextSequence w = ?sq + 1"
    using log_step [OF assms(1) op(2)] by blast
  have pr: "proper ?e" "me_seq ?e = ?sq" by (cases x; simp add: proper_def newEntry_def)+
  obtain m where m: "mem_write ?e (mp_active (sg_pool s)) = Some m" using pool_step [OF assms(1) pr(1)] .
  define s' where "s' = flush_if_needed (snd ew)
    (s\<lparr>sg_wal := w, sg_pool := checkFlushConditions (wo_now (snd ew)) ((sg_pool s)\<lparr>mp_active := m\<rparr>), sg_lastSeqNum := ?sq\<rparr>)"
  have inv: "storage_inv xx s' (hist @ [?e])"
    using storage_write [OF assms w(1-3) pr m] by (simp add: s'_def)
  have open_s: "\<not> sg_closed s" using assms(1) by (simp add: storage_inv_def)
  have "storage_exec ew x s = Some s'"
  proof (cases x)
    case (KvPut key val)
    then have "append_op (Append OpTypePut key (Some val)) (\<lambda>sq s. map_option (\<lambda>p. flush_if_needed (snd ew) (s\<lparr>sg_pool := p, sg_lastSeqNum := sq\<rparr>))
        (pool_Put (wo_now (snd ew)) key (Some val) sq (sg_pool s))) s = (None, s')"
      using op w(1) m by (simp add: append_op_def pool_Put_def mem_Put_write s'_def)
    with KvPut open_s show ?thesis by (simp add: storage_exec_def storage_Put_def retry_first)
  next
    case (KvDelete key)
    then have "append_op (Append OpTypeDelete key None) (\<lambda>sq s. map_option (\<lambda>p. flush_if_needed (snd ew) (s\<lparr>sg_pool := p, sg_lastSeqNum := sq\<rparr>))
        (pool_Delete (wo_now (snd ew)) key sq (sg_pool s))) s = (None, s')"
      using op w(1) m by (simp add: append_op_def pool_Delete_def mem_Delete_write s'_def)
    with KvDelete open_s show ?thesis by (simp add: storage_exec_def storage_Delete_def retry_first)
  qed
  then show thesis
    using that [of s' w] inv w(1,4) op(1) by (simp add: s'_def)
qed

definition storage_get :: "(bytes \<Rightarrow> u64) \<Rightarrow> bytes \<Rightarrow> storage \<Rightarrow> bytes option option" where
  "storage_get xx key s =
     (case storage_Get xx key s of
        Some (Inr (v, found)) \<Rightarrow> Some (if found then v else None)
      | _ \<Rightarrow> None)"

definition storage_room :: "(bytes \<Rightarrow> u64) \<Rightarrow> nat \<Rightarrow> storage \<Rightarrow> bool" where
  "storage_room xx n s \<longleftrightarrow> (\<exists>hist. storage_inv xx s hist) \<and> unat (w_nextSequence (sg_wal s)) + n < 2 ^ 64"

lemma newest_write_op:
  assumes "\<forall>e \<in> set hist. me_seq e < sq"
  shows "newest_write key (hist @ [op_write sq x]) = (if op_key x = key then Some (op_write sq x) else newest_write key hist)"
proof -
  have "supersedes (op_write sq x) (newest_write key hist)"
    using newest_write_Some [of key hist] assms
    by (cases x) (auto simp: supersedes_def newEntry_def split: option.split intro: less_imp_le)
  then show ?thesis by (cases x) (auto simp: newEntry_def)
qed

text \<open>The map that a history of writes shows over the tables \<open>T\<close>.\<close>

definition hist_get :: "(bytes \<rightharpoonup> bytes) \<Rightarrow> mentry list \<Rightarrow> (bytes \<rightharpoonup> bytes)" where
  "hist_get T hist = (\<lambda>key. case newest_write key hist of None \<Rightarrow> T key | Some e \<Rightarrow> fst (shown (Some e)))"

definition tables_get :: "(bytes \<Rightarrow> u64) \<Rightarrow> sst_reader list \<Rightarrow> (bytes \<rightharpoonup> bytes)" where
  "tables_get xx rs = (\<lambda>key. case the (search_tables xx key (rev rs)) of
     None \<Rightarrow> None | Some (v, tombstone) \<Rightarrow> if tombstone then None else v)"

lemma storage_get_inv:
  "storage_inv xx s hist \<Longrightarrow> storage_get xx key s = Some (hist_get (tables_get xx (sg_sstables s)) hist key)"
  using storage_Get_inv [of xx s hist key]
  by (auto simp: storage_get_def hist_get_def tables_get_def shown_def split: option.splits prod.splits)

lemma hist_get_op:
  assumes "\<forall>e \<in> set hist. me_seq e < sq"
  shows "hist_get T (hist @ [op_write sq x]) = kv_step x (hist_get T hist)"
  unfolding hist_get_def newest_write_op [OF assms]
  by (cases x) (auto simp: fun_eq_iff shown_def answer_def newEntry_def)

text \<open>The writes of a run whose first sequence number is \<open>sq\<close>.\<close>

fun op_writes :: "u64 \<Rightarrow> kv_op list \<Rightarrow> mentry list" where
  "op_writes sq [] = []"
| "op_writes sq (x # xs) = op_write sq x # op_writes (sq + 1) xs"

lemma op_writes_append: "op_writes sq (xs @ ys) = op_writes sq xs @ op_writes (sq + of_nat (length xs)) ys"
  by (induction xs arbitrary: sq) (simp_all add: algebra_simps)

lemma op_writes_seqs: "map me_seq (op_writes sq xs) = map (\<lambda>i. sq + of_nat i) [0..<length xs]"
proof (induction xs arbitrary: sq)
  case (Cons x xs)
  have "map (\<lambda>i. sq + of_nat i) [0..<length (x # xs)] = sq # map (\<lambda>i. (sq + 1) + of_nat i) [0..<length xs]"
    by (simp add: upt_conv_Cons map_Suc_upt [symmetric] add.assoc del: upt_Suc)
  with Cons show ?case by (cases x) (simp_all add: newEntry_def)
qed simp

lemma op_writes_bounds:
  assumes "unat sq + length ops < 2 ^ 64"
  shows "sorted (map me_seq (op_writes sq ops))"
    "e \<in> set (op_writes sq ops) \<Longrightarrow> sq \<le> me_seq e \<and> me_seq e < sq + of_nat (length ops)"
proof -
  have u: "unat (sq + of_nat i) = unat sq + i" if "i \<le> length ops" for i
    using assms that by (simp add: unat_word_ariths unat_of_nat)
  show "sorted (map me_seq (op_writes sq ops))"
    unfolding op_writes_seqs by (auto simp: sorted_iff_nth_mono word_le_nat_alt u)
  assume "e \<in> set (op_writes sq ops)"
  then have "me_seq e \<in> set (map me_seq (op_writes sq ops))" by simp
  then show "sq \<le> me_seq e \<and> me_seq e < sq + of_nat (length ops)"
    unfolding op_writes_seqs by (auto simp: word_le_nat_alt word_less_nat_alt u)
qed

lemma hist_get_ops:
  assumes "\<forall>e \<in> set hist. me_seq e < sq" "unat sq + length ops < 2 ^ 64"
  shows "hist_get T (hist @ op_writes sq ops) = kv_run ops (hist_get T hist)"
  using assms
proof (induction ops arbitrary: hist sq)
  case (Cons x xs)
  have lt: "sq < sq + 1" "unat (sq + 1) + length xs < 2 ^ 64"
    using Cons.prems(2) by (simp_all add: word_less_nat_alt unat_word_ariths)
  have "me_seq (op_write sq x) = sq" by (cases x) (simp_all add: newEntry_def)
  then have "\<forall>e \<in> set (hist @ [op_write sq x]). me_seq e < sq + 1" using Cons.prems(1) lt(1) by (auto intro: less_trans)
  from Cons.IH [OF this lt(2)] hist_get_op [OF Cons.prems(1), of T x] show ?case by simp
qed simp

interpretation st: kv_store storage_exec "storage_get xx" "storage_room xx" for xx
proof
  show "\<exists>v. storage_get xx key s = Some v" if "storage_room xx n s" for n s key
    using that storage_get_inv by (auto simp: storage_room_def)
  fix n s ew m x
  assume room: "storage_room xx (Suc n) s" and get: "\<And>key. storage_get xx key s = Some (m key)"
  obtain hist where h: "storage_inv xx s hist" using room by (auto simp: storage_room_def)
  have seq: "unat (w_nextSequence (sg_wal s)) + Suc n < 2 ^ 64" using room by (simp add: storage_room_def)
  obtain s' where s': "storage_exec ew x s = Some s'" "storage_inv xx s' (hist @ [op_write (w_nextSequence (sg_wal s)) x])"
    "sg_sstables s' = sg_sstables s" "w_nextSequence (sg_wal s') = w_nextSequence (sg_wal s) + 1"
    using storage_exec_inv [OF h] seq by (metis add.commute add_Suc_right add_lessD1 plus_1_eq_Suc)
  have "storage_room xx n s'"
    using s'(2,4) seq by (auto simp: storage_room_def unat_word_ariths)
  moreover have "storage_get xx key s' = Some (kv_step x m key)" for key
  proof -
    have "\<forall>e \<in> set hist. me_seq e < w_nextSequence (sg_wal s)" using h by (simp add: storage_inv_def)
    note hist_get_op [OF this, of "tables_get xx (sg_sstables s)" x]
    moreover have "hist_get (tables_get xx (sg_sstables s)) hist = m" using get storage_get_inv [OF h] by (simp add: fun_eq_iff)
    ultimately show ?thesis using storage_get_inv [OF s'(2), of key] s'(3) by simp
  qed
  ultimately show "\<exists>s'. storage_exec ew x s = Some s' \<and> storage_room xx n s' \<and> (\<forall>key. storage_get xx key s' = Some (kv_step x m key))"
    using s'(1) by blast
qed

section \<open>No table switch\<close>

text \<open>
  A switch to a new memtable wakes the background flusher, which rotates the log. \<open>quiet T n s\<close>: nothing is
  waiting to be flushed and nothing will be while at most \<open>n\<close> more bytes are written at times up to \<open>T\<close>.
\<close>

definition pool_quiet :: "int \<Rightarrow> int \<Rightarrow> mem_pool \<Rightarrow> bool" where
  "pool_quiet T n p \<longleftrightarrow> \<not> mp_flushPending p \<and> mem_ApproximateSize (mp_active p) + n < mp_maxSize p \<and>
     (mp_maxAge p > 0 \<longrightarrow> T - mt_created (mp_active p) \<le> mp_maxAge p)"

definition quiet :: "int \<Rightarrow> int \<Rightarrow> storage \<Rightarrow> bool" where
  "quiet T n s \<longleftrightarrow> sg_immutableMTs s = [] \<and> \<not> sg_flushSignal s \<and> pool_quiet T n (sg_pool s)"

lemma mem_Put_size: "mem_Put key v sq m = Some m' \<Longrightarrow> mem_ApproximateSize m' \<le> mem_ApproximateSize m + int (entry_size (newEntry key v TypeValue sq))"
  and mem_Delete_size: "mem_Delete key sq m = Some m' \<Longrightarrow> mem_ApproximateSize m' \<le> mem_ApproximateSize m + int (entry_size (newEntry key None TypeDeletion sq))"
  by (auto simp: mem_Put_def mem_Delete_def mem_ApproximateSize_def skip_ApproximateSize_def note_seq_def
      split: if_splits option.splits dest!: Insert_size)

lemma checkFlushConditions_quiet:
  assumes "pool_quiet T (k + n) p" "0 \<le> n" "now \<le> T" "mem_ApproximateSize m \<le> mem_ApproximateSize (mp_active p) + k"
    and "mt_created m = mt_created (mp_active p)"
  shows "pool_quiet T n (checkFlushConditions now (p\<lparr>mp_active := m\<rparr>))"
  using assms by (auto simp: pool_quiet_def checkFlushConditions_def mem_Age_def)

lemma pool_Put_quiet:
  assumes "pool_Put now key v sq p = Some p'" "pool_quiet T (int (entry_size (newEntry key v TypeValue sq)) + n) p" "0 \<le> n" "now \<le> T"
  shows "pool_quiet T n p'"
  using assms(1) by (auto simp: pool_Put_def split: option.splits
      intro!: checkFlushConditions_quiet [OF assms(2-4)] dest: mem_Put_size mem_write_created(1))

lemma pool_Delete_quiet:
  assumes "pool_Delete now key sq p = Some p'" "pool_quiet T (int (entry_size (newEntry key None TypeDeletion sq)) + n) p" "0 \<le> n" "now \<le> T"
  shows "pool_quiet T n p'"
  using assms(1) by (auto simp: pool_Delete_def split: option.splits
      intro!: checkFlushConditions_quiet [OF assms(2-4)] dest: mem_Delete_size mem_write_created(2))

lemma quiet_mono: "quiet T k s \<Longrightarrow> n \<le> k \<Longrightarrow> quiet T n s"
  by (auto simp: quiet_def pool_quiet_def)

lemma quiet_no_flush: "pool_quiet T n (sg_pool s) \<Longrightarrow> flush_if_needed wd s = s"
  by (simp add: flush_if_needed_def IsFlushNeeded_def pool_quiet_def)

text \<open>The bytes a write adds to its memtable.\<close>

definition op_bytes :: "kv_op \<Rightarrow> int" where
  "op_bytes x = int (entry_size (op_write 0 x))"

lemma entry_size_seq: "entry_size (newEntry k v t sq) = entry_size (newEntry k v t 0)"
  by (simp add: entry_size_def newEntry_def)

lemma op_bytes_write: "int (entry_size (op_write sq x)) = op_bytes x"
  by (cases x) (simp_all add: op_bytes_def entry_size_seq [of _ _ _ sq])

lemma writes_size_ops: "writes_size (op_writes sq xs) = (\<Sum>x\<leftarrow>xs. op_bytes x)"
  by (induction xs arbitrary: sq) (simp_all add: op_bytes_write)

lemma storage_exec_quiet:
  assumes "storage_inv xx s hist" "storage_exec ew x s = Some s'" "quiet T (op_bytes x + n) s" "0 \<le> n" "wo_now (snd ew) \<le> T"
  shows "quiet T n s'"
proof -
  let ?sq = "w_nextSequence (sg_wal s)"
  have op: "\<not> sg_closed s" using assms(1) by (simp add: storage_inv_def)
  obtain segs ws where i: "pool_inv (sg_pool s) segs ws" using assms(1) by (auto simp: storage_inv_def)
  note q = assms(3) [unfolded quiet_def]
  show ?thesis
  proof (cases x)
    case (KvPut k v)
    obtain w where w: "Append OpTypePut k (Some v) (sg_wal s) = (Inr ?sq, w)"
      by (rule log_step [OF assms(1), of OpTypePut k "Some v"]) (simp add: valid_append_type_def)
    obtain p where p: "pool_Put (wo_now (snd ew)) k (Some v) ?sq (sg_pool s) = Some p"
      using pool_exec_inv [OF i, of "PoolPut (wo_now (snd ew)) k (Some v) ?sq"] by auto
    have pq: "pool_quiet T n p"
      by (rule pool_Put_quiet [OF p _ assms(4,5)]) (use q KvPut op_bytes_write [of ?sq x] in simp)
    then have "s' = s\<lparr>sg_wal := w, sg_pool := p, sg_lastSeqNum := ?sq\<rparr>"
      using assms(2) w p op KvPut
      by (simp add: storage_exec_def storage_Put_def retry_first append_op_def quiet_no_flush)
    then show ?thesis using q pq by (simp add: quiet_def)
  next
    case (KvDelete k)
    obtain w where w: "Append OpTypeDelete k None (sg_wal s) = (Inr ?sq, w)"
      by (rule log_step [OF assms(1), of OpTypeDelete k None]) (simp add: valid_append_type_def)
    obtain p where p: "pool_Delete (wo_now (snd ew)) k ?sq (sg_pool s) = Some p"
      using pool_exec_inv [OF i, of "PoolDelete (wo_now (snd ew)) k ?sq"] by auto
    have pq: "pool_quiet T n p"
      by (rule pool_Delete_quiet [OF p _ assms(4,5)]) (use q KvDelete op_bytes_write [of ?sq x] in simp)
    then have "s' = s\<lparr>sg_wal := w, sg_pool := p, sg_lastSeqNum := ?sq\<rparr>"
      using assms(2) w p op KvDelete
      by (simp add: storage_exec_def storage_Delete_def retry_first append_op_def quiet_no_flush)
    then show ?thesis using q pq by (simp add: quiet_def)
  qed
qed

text \<open>A round of the background flusher has then nothing to do: it leaves the manager as it is.\<close>

lemma flusher_quiet: "quiet T n s \<Longrightarrow> backgroundFlush_round wds (b \<and> sg_flushSignal s) s = Some (None, s)"
  by (simp add: quiet_def backgroundFlush_round_def)

end
