(* ===== verification/Storage_Recovery.thy ===== *)
theory Storage_Recovery
  imports Storage_Correct
begin

text \<open>
  Opening a data directory: what the logs hold is what the manager shows, over any number of crashes,
  and the two ways a healthy manager loses a write.
\<close>

section \<open>What a run of writes logs\<close>

lemma number_appends_append:
  "number_appends sq (xs @ ys) = number_appends sq xs @ number_appends (sq + of_nat (length xs)) ys"
  by (induction xs arbitrary: sq) (auto simp: algebra_simps)

lemma op_entry_writes:
  "concat (map (entry_writes \<circ> append_entry) (number_appends sq (map op_append xs))) = op_writes sq xs"
proof (induction xs arbitrary: sq)
  case (Cons x xs)
  then show ?case
    by (cases x) (auto simp: append_entry_def logged_entry_def entry_writes_def OpTypePut_def OpTypeDelete_def)
qed simp

lemma op_appends_decodable: "list_all decodable (map append_entry (number_appends sq (map op_append xs)))"
proof (induction xs arbitrary: sq)
  case (Cons x xs)
  then show ?case
    by (cases x) (simp_all add: append_entry_def logged_entry_def decodable_def OpTypePut_def OpTypeDelete_def OpTypeBatch_def)
qed simp

fun op_fits :: "kv_op \<Rightarrow> bool" where
  "op_fits (KvPut k v) = fits_u32 k (Some v)"
| "op_fits (KvDelete k) = fits_u32 k None"

lemma op_appends_ok: "list_all op_fits xs \<Longrightarrow> list_all append_ok (number_appends sq (map op_append xs))"
proof (induction xs arbitrary: sq)
  case (Cons x xs)
  then show ?case by (cases x) (simp_all add: append_ok_def valid_entry_type_def)
qed simp

lemma max_seq_numbered:
  assumes "length xs < 2 ^ 64 - 1"
  shows "max_seq (map append_entry (number_appends 1 (map op_append xs))) = of_nat (length xs)"
  using assms
proof (induction xs rule: rev_induct)
  case (snoc x xs)
  obtain t k v where x: "op_append x = (t, k, v)" by (metis prod_cases3)
  have "(of_nat (length xs) :: u64) < 1 + of_nat (length xs)"
    using snoc.prems by (simp add: word_less_nat_alt unat_word_ariths unat_of_nat)
  with snoc x show ?case
    by (simp add: number_appends_append append_entry_def logged_entry_def add.commute)
qed simp

section \<open>Opening\<close>

lemma fold_next_after_le:
  "\<forall>q \<in> set qs. q \<le> (mx :: u64) \<Longrightarrow> unat mx < 2 ^ 64 - 1 \<Longrightarrow> n \<le> mx + 1 \<Longrightarrow> fold next_after qs n \<le> mx + 1"
proof (induction qs arbitrary: n)
  case (Cons q qs)
  have "q + 1 \<le> mx + 1"
    using Cons.prems by (simp add: word_le_nat_alt word_less_nat_alt unat_word_ariths)
  with Cons show ?case by (simp add: next_after_def)
qed simp

lemma recover_logs:
  assumes "list_all (list_all append_ok) logs" "list_all decodable (map append_entry (concat logs))"
    and "writes_size (logged_writes logs) < MemTableSize cfg"
    and "unat (max_seq (map append_entry (concat logs))) < 2 ^ 64 - 1"
    and "\<forall>e \<in> set (logged_writes logs). me_seq e \<le> max_seq (map append_entry (concat logs))"
  obtains m where "RecoverFromWAL cfg (Some (DefaultRecoveryOptions cfg)) rnds clock (map log_image logs) =
      Some (Inr ([m], max_seq (map append_entry (concat logs))))"
    "holds m (logged_writes logs)" "\<not> mt_immutable m"
proof -
  let ?mx = "max_seq (map append_entry (concat logs))"
  obtain stats m where r:
    "ReplayWALDir (map log_image logs) (entryHandler (DefaultRecoveryOptions cfg) rnds clock)
       (Some ([NewMemTable (rnds 0) (clock 0)], 0)) = (None, stats, Some ([m], ?mx))"
    and m: "holds m (logged_writes logs)" "\<not> mt_immutable m"
      "mt_nextSeqNum m = fold next_after (map me_seq (logged_writes logs)) 0"
    by (rule replay_one_table [OF assms(1-3)])
  have "fold next_after (map me_seq (logged_writes logs)) 0 \<le> ?mx + 1"
    by (rule fold_next_after_le) (use assms(4,5) in auto)
  with r m have "RecoverFromWAL cfg (Some (DefaultRecoveryOptions cfg)) rnds clock (map log_image logs) = Some (Inr ([m], ?mx))"
    by (auto simp: RecoverFromWAL_def mem_GetNextSequenceNumber_def Let_def dest: leD)
  with m(1,2) that show thesis by blast
qed

text \<open>A directory in which the files hold the writes \<open>ops\<close>, numbered from 1.\<close>

definition disk_inv :: "bytes list \<Rightarrow> kv_op list \<Rightarrow> bool" where
  "disk_inv files ops \<longleftrightarrow> (\<exists>logs. files = map log_image logs \<and> concat logs = number_appends 1 (map op_append ops))"

text \<open>New files and tables can be made and there is room for the writes in one memtable.\<close>

definition config_fits :: "config \<Rightarrow> kv_op list \<Rightarrow> bool" where
  "config_fits cfg ops \<longleftrightarrow> 0 < MaxMemTables cfg \<and> list_all op_fits ops \<and> length ops < 2 ^ 64 - 1 \<and>
     writes_size (op_writes 1 ops) < MemTableSize cfg"

definition world_ok :: "world \<Rightarrow> bool" where
  "world_ok wd \<longleftrightarrow> wo_newWal wd = Some None \<and> wo_reuseFault wd = None"

lemma op_writes_first:
  assumes "length ops < 2 ^ 64 - 1"
  shows "sorted (map me_seq (op_writes 1 ops))" "e \<in> set (op_writes 1 ops) \<Longrightarrow> me_seq e < 1 + of_nat (length ops)"
    "e \<in> set (op_writes 1 ops) \<Longrightarrow> me_seq e \<le> of_nat (length ops)"
proof -
  have one: "unat (1 :: u64) + length ops < 2 ^ 64" using assms by simp
  show "sorted (map me_seq (op_writes 1 ops))" by (rule op_writes_bounds(1) [OF one])
  assume e: "e \<in> set (op_writes 1 ops)"
  then show lt: "me_seq e < 1 + of_nat (length ops)" using op_writes_bounds(2) [OF one] by blast
  then show "me_seq e \<le> of_nat (length ops)"
    using assms by (simp add: word_less_nat_alt word_le_nat_alt unat_word_ariths unat_of_nat)
qed

lemma open_log:
  assumes "world_ok wd" "files = map log_image logs"
  obtains w olds logs' where
    "(case ReuseWAL cfg files 1 (wo_reuseFault wd) of Some w \<Rightarrow> Some (w, butlast files, files)
      | None \<Rightarrow> map_option (\<lambda>fault. (NewWAL cfg fault, files, files @ [[]])) (wo_newWal wd)) =
     Some (w, olds, map log_image logs')"
    "logs' \<noteq> []" "olds = map log_image (butlast logs')" "w_stream w = log_image (last logs')" "concat logs' = concat logs"
    "w_nextSequence w = 1" "active w" "w_fault w = None" "w_cfg w = cfg" "w_synced w = length (w_stream w)"
proof (cases "ReuseWAL cfg files 1 (wo_reuseFault wd)")
  case None
  show thesis
    by (rule that [of "NewWAL cfg None" files "logs @ [[]]"]) (use assms None in \<open>simp_all add: world_ok_def NewWAL_def\<close>)
next
  case (Some w)
  then have "logs \<noteq> []" using assms by (auto simp: ReuseWAL_def)
  show thesis
    by (rule that [of w "butlast files" logs])
       (use assms Some \<open>logs \<noteq> []\<close> in \<open>auto simp: world_ok_def ReuseWAL_def Let_def map_butlast last_map split: if_splits\<close>)
qed

text \<open>The pool of a manager that was just opened at time \<open>t\<close>.\<close>

definition just_opened :: "config \<Rightarrow> int \<Rightarrow> storage \<Rightarrow> bool" where
  "just_opened cfg t s \<longleftrightarrow> sg_immutableMTs s = [] \<and> \<not> sg_flushSignal s \<and> \<not> mp_flushPending (sg_pool s) \<and>
     mp_maxSize (sg_pool s) = MemTableSize cfg \<and> mp_maxAge (sg_pool s) = MaxMemTableAge cfg * 10 ^ 9 \<and>
     mt_created (mp_active (sg_pool s)) = t"

lemma just_opened_quiet:
  assumes "just_opened cfg t s" "pool_inv (sg_pool s) [] hist" "writes_size hist + n < MemTableSize cfg"
    and "0 < MaxMemTableAge cfg \<Longrightarrow> T \<le> t + MaxMemTableAge cfg * 10 ^ 9"
  shows "quiet T n s"
  using assms by (auto simp: just_opened_def quiet_def pool_quiet_def pool_inv_def holds_def)

lemma manager_opens:
  assumes "disk_inv files ops" "config_fits cfg ops" "world_ok wd"
  obtains s where "NewManager cfg wd rnds clock files [] = Some (Inr s)" "storage_inv xx s (op_writes 1 ops)"
    "w_nextSequence (sg_wal s) = 1 + of_nat (length ops)" "sg_sstables s = []"
    "disk_inv (sg_walFiles s @ [w_stream (sg_wal s)]) ops" "w_cfg (sg_wal s) = cfg" "w_synced (sg_wal s) = length (w_stream (sg_wal s))"
    "pool_inv (sg_pool s) [] (op_writes 1 ops)" "just_opened cfg (clock 0) s"
proof -
  obtain logs where logs: "files = map log_image logs" "concat logs = number_appends 1 (map op_append ops)"
    using assms(1) by (auto simp: disk_inv_def)
  obtain w olds logs' where w:
    "(case ReuseWAL cfg files 1 (wo_reuseFault wd) of Some w \<Rightarrow> Some (w, butlast files, files)
      | None \<Rightarrow> map_option (\<lambda>fault. (NewWAL cfg fault, files, files @ [[]])) (wo_newWal wd)) =
     Some (w, olds, map log_image logs')"
    "logs' \<noteq> []" "olds = map log_image (butlast logs')" "w_stream w = log_image (last logs')" "concat logs' = concat logs"
    "w_nextSequence w = 1" "active w" "w_fault w = None" "w_cfg w = cfg" "w_synced w = length (w_stream w)"
    using open_log [OF assms(3) logs(1)] .
  have c: "concat logs' = number_appends 1 (map op_append ops)" using w(5) logs(2) by simp
  have len: "length ops < 2 ^ 64 - 1" using assms(2) by (simp add: config_fits_def)
  note mx = max_seq_numbered [OF len] and hist = op_entry_writes [of 1 ops]
  have small: "unat (of_nat (length ops) :: u64) < 2 ^ 64 - 1"
    using len by (simp add: unat_of_nat)
  have "list_all append_ok (concat logs')" unfolding c using assms(2) by (intro op_appends_ok) (simp add: config_fits_def)
  then have ok: "list_all (list_all append_ok) logs'" by (auto simp: list_all_iff)
  obtain m where m: "RecoverFromWAL cfg (Some (DefaultRecoveryOptions cfg)) rnds clock (map log_image logs') =
      Some (Inr ([m], of_nat (length ops)))" "holds m (op_writes 1 ops)" "\<not> mt_immutable m"
    by (rule recover_logs [OF ok, of cfg rnds clock, unfolded c mx hist])
       (use assms(2) small op_writes_first(3) [OF len] op_appends_decodable in \<open>auto simp: config_fits_def\<close>)
  have made: "mt_created m = clock 0" using recovery_first_made [OF m(1)] by simp
  obtain p where p: "NewMemTablePool cfg (wo_coins wd) (wo_now wd) = Some p" "mp_immutables p = []"
    "mem_ApproximateSize (mp_active p) = 0" "\<not> mp_flushPending p" "mp_maxSize p = MemTableSize cfg"
    "mp_maxAge p = MaxMemTableAge cfg * 10 ^ 9"
    using assms(2) by (auto simp: config_fits_def NewMemTablePool_def holds_new [unfolded holds_def])
  let ?m = "\<lparr>sg_cfg = cfg, sg_wal = w, sg_walFiles = olds, sg_pool = p, sg_immutableMTs = [],
    sg_sstables = [], sg_sstFiles = [], sg_nextFileNum = 1, sg_lastSeqNum = 0, sg_flushSignal = False, sg_closed = False\<rparr>"
  let ?s = "adopt_tables [m] (of_nat (length ops)) ?m"
  have open': "NewManager cfg wd rnds clock files [] = Some (Inr ?s)"
    using w(1) p(1) m(1) by (simp add: NewManager_def recoverFromWAL_def)
  have nxt: "sg_wal ?s = w\<lparr>w_nextSequence := 1 + of_nat (length ops)\<rparr>"
  proof (cases "ops = []")
    case False
    then have "(1 :: u64) < of_nat (length ops) + 1" "(0 :: u64) < of_nat (length ops)"
      using len by (simp_all add: word_less_nat_alt unat_word_ariths unat_of_nat)
    then show ?thesis using w(6) by (simp add: adopt_tables_def UpdateNextSequence_def add.commute)
  qed (use w(6) in \<open>simp add: adopt_tables_def\<close>)
  have pool: "pool_inv (sg_pool ?s) [] (op_writes 1 ops)"
    using p(2,3) m(2,3) by (simp add: adopt_tables_def SetActiveMemTable_def pool_inv_def)
  then have pool': "\<exists>segs ws. pool_inv (sg_pool ?s) segs ws \<and> concat segs @ ws = op_writes 1 ops"
    by (intro exI [of _ "[]"] exI [of _ "op_writes 1 ops"]) simp
  have inv: "storage_inv xx ?s (op_writes 1 ops)"
    unfolding storage_inv_def nxt using pool' w(7,8) op_writes_first(1,2) [OF len]
    by (auto simp: adopt_tables_def)
  have "map log_image logs' = map log_image (butlast logs') @ [log_image (last logs')]"
    using w(2) by (metis append_butlast_last_id list.simps(8,9) map_append)
  then have "disk_inv (sg_walFiles ?s @ [w_stream (sg_wal ?s)]) ops"
    unfolding disk_inv_def nxt using w(3,4) c by (intro exI [of _ logs']) (simp add: adopt_tables_def)
  moreover have "just_opened cfg (clock 0) ?s"
    using p(3-6) made by (simp add: just_opened_def adopt_tables_def SetActiveMemTable_def)
  ultimately show thesis using that open' inv nxt w(9,10) pool by (simp add: adopt_tables_def)
qed

section \<open>Running\<close>

abbreviation storage_run ::
  "(((nat \<Rightarrow> storage \<Rightarrow> storage) \<times> world) \<times> kv_op) list \<Rightarrow> storage \<Rightarrow> storage option" where
  "storage_run \<equiv> run_all (\<lambda>(ew, x). storage_exec ew x)"

text \<open>The log and the history grow by the same writes, and in immediate mode all of it is durable.\<close>

lemma storage_run_log:
  assumes "storage_inv xx s hist" "unat (w_nextSequence (sg_wal s)) + length ops < 2 ^ 64"
    and "WALSyncMode (w_cfg (sg_wal s)) = SyncImmediate" "w_synced (sg_wal s) = length (w_stream (sg_wal s))"
  shows "\<exists>s'. storage_run ops s = Some s' \<and>
    storage_inv xx s' (hist @ op_writes (w_nextSequence (sg_wal s)) (map snd ops)) \<and>
    w_stream (sg_wal s') = w_stream (sg_wal s) @ log_image (number_appends (w_nextSequence (sg_wal s)) (map (op_append \<circ> snd) ops)) \<and>
    w_synced (sg_wal s') = length (w_stream (sg_wal s')) \<and>
    sg_walFiles s' = sg_walFiles s \<and> sg_sstables s' = sg_sstables s"
  using assms
proof (induction ops arbitrary: s hist)
  case (Cons o' ops)
  obtain ew x where o': "o' = (ew, x)" by (cases o')
  obtain t k v where x: "op_append x = (t, k, v)" by (metis prod_cases3)
  let ?sq = "w_nextSequence (sg_wal s)"
  have lt: "unat ?sq + 1 < 2 ^ 64" using Cons.prems(2) by simp
  obtain s1 w where s1: "storage_exec ew x s = Some s1" "sg_wal s1 = w" "sg_walFiles s1 = sg_walFiles s"
    "storage_inv xx s1 (hist @ [op_write ?sq x])" "sg_sstables s1 = sg_sstables s" "w_nextSequence w = ?sq + 1"
    "Append t k v (sg_wal s) = (Inr ?sq, w)"
    by (rule storage_exec_inv [OF Cons.prems(1) lt, of ew x, unfolded x]) simp
  note a = Append_ok [OF s1(7)]
  have "unat (w_nextSequence (sg_wal s1)) + length ops < 2 ^ 64"
    using Cons.prems(2) s1(2,6) by (simp add: unat_word_ariths)
  from Cons.IH [OF s1(4) this] a(5) a(7) Cons.prems(3) s1 o' x
  show ?case by (auto simp: a(3))
qed simp

text \<open>
  What happens to a manager between opening and a crash: writes of clients, each with its world, and
  rounds of the goroutine \<open>backgroundFlush\<close> that \<open>NewManager\<close> starts, woken by its ticker or by the signal.
\<close>

datatype storage_event =
    ClientWrite "(nat \<Rightarrow> storage \<Rightarrow> storage) \<times> world" kv_op
  | FlusherRound bool "nat \<Rightarrow> world"

fun storage_step :: "storage_event \<Rightarrow> storage \<Rightarrow> storage option" where
  "storage_step (ClientWrite ew x) s = storage_exec ew x s"
| "storage_step (FlusherRound signalled wds) s = map_option snd (backgroundFlush_round wds (signalled \<and> sg_flushSignal s) s)"

fun client_writes :: "storage_event list \<Rightarrow> (((nat \<Rightarrow> storage \<Rightarrow> storage) \<times> world) \<times> kv_op) list" where
  "client_writes [] = []"
| "client_writes (ClientWrite ew x # evs) = (ew, x) # client_writes evs"
| "client_writes (FlusherRound b wds # evs) = client_writes evs"

abbreviation event_ops :: "storage_event list \<Rightarrow> kv_op list" where
  "event_ops evs \<equiv> map snd (client_writes evs)"

text \<open>The writes come before the memtable made at time \<open>t\<close> is too old.\<close>

definition in_time :: "config \<Rightarrow> int \<Rightarrow> storage_event list \<Rightarrow> bool" where
  "in_time cfg t evs \<longleftrightarrow> MaxMemTableAge cfg \<le> 0 \<or>
     list_all (\<lambda>(ew, x). wo_now (snd ew) \<le> t + MaxMemTableAge cfg * 10 ^ 9) (client_writes evs)"

lemma events_quiet:
  assumes "storage_inv xx s hist" "unat (w_nextSequence (sg_wal s)) + length (client_writes evs) < 2 ^ 64"
    and "quiet T ((\<Sum>x\<leftarrow>event_ops evs. op_bytes x) + 0) s" "list_all (\<lambda>(ew, x). wo_now (snd ew) \<le> T) (client_writes evs)"
  shows "run_all storage_step evs s = storage_run (client_writes evs) s"
  using assms
proof (induction evs arbitrary: s hist)
  case (Cons ev evs)
  show ?case
  proof (cases ev)
    case (ClientWrite ew x)
    have lt: "unat (w_nextSequence (sg_wal s)) + 1 < 2 ^ 64" using Cons.prems(2) ClientWrite by simp
    obtain s1 where s1: "storage_exec ew x s = Some s1" "storage_inv xx s1 (hist @ [op_write (w_nextSequence (sg_wal s)) x])"
      "w_nextSequence (sg_wal s1) = w_nextSequence (sg_wal s) + 1"
      using storage_exec_inv [OF Cons.prems(1) lt, of ew x] by metis
    have "quiet T ((\<Sum>x\<leftarrow>event_ops evs. op_bytes x) + 0) s1"
      by (rule storage_exec_quiet [OF Cons.prems(1) s1(1)])
         (use Cons.prems(3,4) ClientWrite in \<open>auto simp: add.assoc op_bytes_def intro!: sum_list_nonneg\<close>)
    moreover have "unat (w_nextSequence (sg_wal s1)) + length (client_writes evs) < 2 ^ 64"
      using Cons.prems(2) ClientWrite by (simp add: s1(3) unat_word_ariths)
    ultimately show ?thesis using Cons.IH [OF s1(2)] Cons.prems(4) s1(1) ClientWrite by simp
  next
    case (FlusherRound b wds)
    then show ?thesis using Cons flusher_quiet [OF Cons.prems(3), of wds b] by simp
  qed
qed simp

lemma run_all_max: "\<exists>T. list_all (\<lambda>(ew, x). f ew \<le> (T :: int)) es"
proof (induction es)
  case (Cons p es)
  then obtain T where "list_all (\<lambda>(ew, x). f ew \<le> T) es" ..
  then have "list_all (\<lambda>(ew, x). f ew \<le> max T (f (fst p))) (p # es)" by (auto simp: list_all_iff max_def split_beta)
  then show ?case ..
qed simp

lemma opened_events:
  assumes "just_opened cfg t s" "storage_inv xx s (op_writes 1 ops)" "pool_inv (sg_pool s) [] (op_writes 1 ops)"
    and "w_nextSequence (sg_wal s) = 1 + of_nat (length ops)" "in_time cfg t evs" "length (ops @ event_ops evs) < 2 ^ 64 - 1"
    and "writes_size (op_writes 1 (ops @ event_ops evs)) < MemTableSize cfg"
  shows "run_all storage_step evs s = storage_run (client_writes evs) s"
proof -
  have u: "unat (w_nextSequence (sg_wal s)) + length (client_writes evs) < 2 ^ 64"
    using assms(4,6) by (simp add: unat_word_ariths unat_of_nat)
  obtain T where T: "list_all (\<lambda>(ew, x). wo_now (snd ew) \<le> T) (client_writes evs)"
    "0 < MaxMemTableAge cfg \<longrightarrow> T \<le> t + MaxMemTableAge cfg * 10 ^ 9"
    using assms(5) run_all_max [of "wo_now \<circ> snd" "client_writes evs"] unfolding in_time_def comp_def
    by (metis linorder_not_less order_refl)
  have "writes_size (op_writes 1 ops) + ((\<Sum>x\<leftarrow>event_ops evs. op_bytes x) + 0) < MemTableSize cfg"
    using assms(7) by (simp add: op_writes_append writes_size_ops)
  then have "quiet T ((\<Sum>x\<leftarrow>event_ops evs. op_bytes x) + 0) s"
    using just_opened_quiet [OF assms(1,3)] T(2) by blast
  then show ?thesis using events_quiet [OF assms(2) u] T(1) by blast
qed

text \<open>
  A session: open the directory, write, crash. What is left are the files the log was rotated out of and
  what was synced of the current one.
\<close>

definition crash_files :: "storage \<Rightarrow> bytes list" where
  "crash_files s = sg_walFiles s @ [durable (sg_wal s)]"

definition session ::
  "config \<Rightarrow> (world \<times> (nat \<Rightarrow> nat \<Rightarrow> bool) \<times> (nat \<Rightarrow> int)) \<times> storage_event list \<Rightarrow> bytes list \<Rightarrow> bytes list option" where
  "session cfg se files =
     (case se of ((wd, rnds, clock), evs) \<Rightarrow>
        (case NewManager cfg wd rnds clock files [] of
           Some (Inr s) \<Rightarrow> map_option crash_files (run_all storage_step evs s)
         | _ \<Rightarrow> None))"

lemma disk_inv_extend:
  assumes "disk_inv (olds @ [f]) ops"
  shows "disk_inv (olds @ [f @ log_image (number_appends (1 + of_nat (length ops)) (map op_append ops'))]) (ops @ ops')"
proof -
  obtain logs l where "olds = map log_image logs" "f = log_image l" "concat (logs @ [l]) = number_appends 1 (map op_append ops)"
    using assms by (auto simp: disk_inv_def Cons_eq_map_conv append_eq_map_conv)
  then show ?thesis
    unfolding disk_inv_def
    by (intro exI [of _ "logs @ [l @ number_appends (1 + of_nat (length ops)) (map op_append ops')]"])
       (simp add: number_appends_append)
qed

lemma config_fits_prefix: "config_fits cfg (xs @ ys) \<Longrightarrow> config_fits cfg xs"
  using writes_size_nonneg [of "op_writes (1 + of_nat (length xs)) ys"]
  by (auto simp: config_fits_def op_writes_append simp del: writes_size_nonneg)

lemma session_step:
  assumes "disk_inv files ops" "config_fits cfg (ops @ event_ops new)" "world_ok wd" "WALSyncMode cfg = SyncImmediate"
    and "in_time cfg (clock 0) new"
  shows "\<exists>files'. session cfg ((wd, rnds, clock), new) files = Some files' \<and> disk_inv files' (ops @ event_ops new)"
proof -
  let ?new = "client_writes new"
  obtain s where s: "NewManager cfg wd rnds clock files [] = Some (Inr s)" "storage_inv (\<lambda>_. 0) s (op_writes 1 ops)"
    "w_nextSequence (sg_wal s) = 1 + of_nat (length ops)" "sg_sstables s = []" "disk_inv (sg_walFiles s @ [w_stream (sg_wal s)]) ops"
    "w_cfg (sg_wal s) = cfg" "w_synced (sg_wal s) = length (w_stream (sg_wal s))"
    "pool_inv (sg_pool s) [] (op_writes 1 ops)" "just_opened cfg (clock 0) s"
    using manager_opens [OF assms(1) config_fits_prefix [OF assms(2)] assms(3)] .
  have "unat (w_nextSequence (sg_wal s)) + length ?new < 2 ^ 64"
    using assms(2) by (simp add: s(3) config_fits_def unat_word_ariths unat_of_nat)
  then obtain s' where s': "storage_run ?new s = Some s'"
    "w_stream (sg_wal s') = w_stream (sg_wal s) @ log_image (number_appends (1 + of_nat (length ops)) (map op_append (event_ops new)))"
    "w_synced (sg_wal s') = length (w_stream (sg_wal s'))" "sg_walFiles s' = sg_walFiles s"
    using storage_run_log [OF s(2), of ?new] s(3,6,7) assms(4) by auto
  have "disk_inv (crash_files s') (ops @ event_ops new)"
    using disk_inv_extend [OF s(5), of "event_ops new"] s'(2-4) by (simp add: crash_files_def durable_def)
  moreover have "run_all storage_step new s = Some s'"
    using opened_events [OF s(9,2,8,3) assms(5)] s'(1) assms(2) by (simp add: config_fits_def)
  ultimately show ?thesis using s(1) by (simp add: session_def)
qed

section \<open>What a reopened manager shows\<close>

lemma get_reopened:
  assumes "storage_inv xx s (op_writes 1 ops)" "sg_sstables s = []" "length ops < 2 ^ 64 - 1"
  shows "storage_get xx key s = Some (kv_run ops Map.empty key)"
proof -
  have "hist_get (tables_get xx []) ([] @ op_writes 1 ops) = kv_run ops (hist_get (tables_get xx []) [])"
    by (rule hist_get_ops) (use assms(3) in simp_all)
  moreover have "hist_get (tables_get xx []) [] = Map.empty"
    by (simp add: hist_get_def tables_get_def newest_write_def)
  ultimately show ?thesis using storage_get_inv [OF assms(1), of key] assms(2) by simp
qed

text \<open>
  C2: the storage manager refines a map while its memtable is not switched. On an empty data directory it
  opens, and then every sequence of puts and deletes, with rounds of the background flusher between them,
  succeeds, and \<open>Get\<close> answers for every key as the map after the same writes does. The writes fit one
  memtable (their sizes add up to less than \<open>MemTableSize\<close>) and come before it is too old, so that no table switch
  wakes the flusher: a flush rotates the log, and then \<open>storage_rotate_stale\<close> applies. Sequence numbers are 64 bits wide.
\<close>

theorem storage_reads_last_write:
  assumes "0 < MaxMemTables cfg" "writes_size (op_writes 1 (event_ops evs)) < MemTableSize cfg" "in_time cfg (clock 0) evs"
    and "world_ok wd" "length (event_ops evs) < 2 ^ 64 - 1"
  shows "\<exists>s s'. NewManager cfg wd rnds clock [] [] = Some (Inr s) \<and> run_all storage_step evs s = Some s' \<and>
    (\<forall>key. storage_get xx key s' = Some (kv_run (event_ops evs) Map.empty key))"
proof -
  let ?ops = "client_writes evs"
  have d: "disk_inv [] []" by (simp add: disk_inv_def)
  have "0 < MemTableSize cfg" using assms(2) writes_size_nonneg [of "op_writes 1 (event_ops evs)"] by linarith
  then have c: "config_fits cfg []" using assms(1) by (simp add: config_fits_def)
  obtain s where s: "NewManager cfg wd rnds clock [] [] = Some (Inr s)" "storage_inv xx s []"
    "w_nextSequence (sg_wal s) = 1" "sg_sstables s = []" "pool_inv (sg_pool s) [] []" "just_opened cfg (clock 0) s"
    using manager_opens [OF d c assms(4), of rnds clock xx] by auto
  have room: "storage_room xx (0 + length ?ops) s" using s(2,3) assms(5) by (auto simp: storage_room_def)
  obtain s' where s': "storage_run ?ops s = Some s'" "storage_room xx 0 s'"
    "st.content xx s' = kv_run (event_ops evs) (st.content xx s)"
    using st.run_refines [OF room] by blast
  have "st.content xx s = Map.empty"
    using get_reopened [of xx s "[]"] s(2,4) by (simp add: st.content_def fun_eq_iff)
  moreover have "run_all storage_step evs s = Some s'"
    using opened_events [OF s(6), of xx "[]" evs] s(2,3,5) s'(1) assms(2,3,5) by simp
  ultimately show ?thesis using s' st.get_content [OF s'(2)] s(1) by auto
qed

text \<open>
  C3: crashes lose nothing in immediate sync mode while everything written fits one memtable. Over any number
  of sessions, each of which opens the directory as the crash before left it (only the bytes that were
  synced), runs writes and rounds of the background flusher and crashes again, every opening and every write succeeds,
  and a manager opened afterwards shows the map of all the writes of all sessions. Provided the log is synced
  immediately, the writes of all sessions together fit one memtable and those of a session come before its memtable is
  too old, so that nothing is flushed to tables.
\<close>

theorem storage_crash_recovery:
  assumes "config_fits cfg (concat (map (event_ops \<circ> snd) ses))" "WALSyncMode cfg = SyncImmediate"
    and "list_all (\<lambda>((w, r, clk), evs). world_ok w \<and> in_time cfg (clk 0) evs) ses" "world_ok wd"
  shows "\<exists>files s. run_all (session cfg) ses [] = Some files \<and>
    NewManager cfg wd rnds clock files [] = Some (Inr s) \<and>
    (\<forall>key. storage_get xx key s = Some (kv_run (concat (map (event_ops \<circ> snd) ses)) Map.empty key))"
proof -
  have run: "\<exists>files'. run_all (session cfg) ses files = Some files' \<and> disk_inv files' (ops @ concat (map (event_ops \<circ> snd) ses))"
    if "disk_inv files ops" "config_fits cfg (ops @ concat (map (event_ops \<circ> snd) ses))"
      "list_all (\<lambda>((w, r, clk), evs). world_ok w \<and> in_time cfg (clk 0) evs) ses" for files ops
    using that
  proof (induction ses arbitrary: files ops)
    case (Cons se ses)
    obtain w r c new where se: "se = ((w, r, c), new)" by (metis prod.collapse)
    have "config_fits cfg (ops @ event_ops new)"
      using config_fits_prefix [of cfg "ops @ event_ops new"] Cons.prems(2) se by simp
    then obtain files1 where "session cfg se files = Some files1" "disk_inv files1 (ops @ event_ops new)"
      using session_step [OF Cons.prems(1) _ _ assms(2), of new w c r] Cons.prems(3) se by auto
    with Cons.IH [of files1 "ops @ event_ops new"] Cons.prems(2,3) se show ?case by auto
  qed simp
  obtain files where files: "run_all (session cfg) ses [] = Some files" "disk_inv files (concat (map (event_ops \<circ> snd) ses))"
    using run [of "[]" "[]"] assms(1,3) by (auto simp: disk_inv_def)
  obtain s where s: "NewManager cfg wd rnds clock files [] = Some (Inr s)"
    "storage_inv xx s (op_writes 1 (concat (map (event_ops \<circ> snd) ses)))" "sg_sstables s = []"
    using manager_opens [OF files(2) assms(1,4), of rnds clock xx] .
  have "length (concat (map (event_ops \<circ> snd) ses)) < 2 ^ 64 - 1" using assms(1) by (simp add: config_fits_def)
  from get_reopened [OF s(2,3) this] files(1) s(1) show ?thesis by blast
qed

definition sample_world :: world where
  "sample_world = \<lparr>wo_now = 0, wo_stamp = 1, wo_coins = (\<lambda>_. False), wo_jitter = (\<lambda>_. 0), wo_xx = (\<lambda>_. 0),
     wo_dims = (64, 3), wo_newWal = Some None, wo_reuseFault = None, wo_sstFault = None\<rparr>"

definition sample_puts :: "storage_event list" where
  "sample_puts = [ClientWrite (\<lambda>_. id, sample_world) (KvPut [97] [1]), ClientWrite (\<lambda>_. id, sample_world) (KvPut [107] [1]),
     FlusherRound True (\<lambda>_. sample_world), ClientWrite (\<lambda>_. id, sample_world) (KvDelete [97]),
     ClientWrite (\<lambda>_. id, sample_world) (KvPut [107] [2]), FlusherRound False (\<lambda>_. sample_world)]"

lemma sample_world_ok [simp]: "world_ok sample_world" "wo_newWal sample_world = Some None"
  by (simp_all add: world_ok_def sample_world_def)

theorem storage_reads_last_write_witness:
  "\<exists>s s'. NewManager (NewDefaultConfig ''wal'' ''sst'') sample_world (\<lambda>_ _. True) (\<lambda>_. 0) [] [] = Some (Inr s) \<and>
     run_all storage_step sample_puts s = Some s' \<and> storage_get (\<lambda>_. 0) [107] s' = Some (Some [2]) \<and>
     storage_get (\<lambda>_. 0) [97] s' = Some None"
proof -
  let ?cfg = "NewDefaultConfig ''wal'' ''sst''"
  have "0 < MaxMemTables ?cfg" "writes_size (op_writes 1 (event_ops sample_puts)) < MemTableSize ?cfg"
    "in_time ?cfg ((\<lambda>_. 0) (0 :: nat)) sample_puts"
    by (simp_all add: NewDefaultConfig_def sample_puts_def newEntry_def entry_size_def in_time_def sample_world_def)
  from storage_reads_last_write [OF this sample_world_ok(1), of "\<lambda>_ _. True" "\<lambda>_. 0"]
  show ?thesis by (fastforce simp: sample_puts_def)
qed

definition sample_config :: config where
  "sample_config = (NewDefaultConfig ''wal'' ''sst'')\<lparr>WALSyncMode := SyncImmediate\<rparr>"

lemma sample_config_fits:
  "config_fits sample_config [KvPut [97] [1], KvPut [107] [1], KvDelete [97], KvPut [107] [2]]"
  "config_fits sample_config [KvPut [97] [1], KvPut [107] [1]]"
  by (simp_all add: config_fits_def sample_config_def NewDefaultConfig_def newEntry_def entry_size_def fits_u32_def)

lemma sample_in_time: "in_time sample_config 0 (take 3 sample_puts)" "in_time sample_config 7 (drop 3 sample_puts)"
  by (simp_all add: in_time_def sample_puts_def sample_config_def NewDefaultConfig_def sample_world_def)

theorem storage_crash_recovery_witness:
  "\<exists>files s. run_all (session sample_config)
       [((sample_world, \<lambda>_ _. True, \<lambda>_. 0), take 3 sample_puts), ((sample_world, \<lambda>_ _. False, \<lambda>_. 7), drop 3 sample_puts)] [] =
       Some files \<and>
     NewManager sample_config sample_world (\<lambda>_ _. True) (\<lambda>_. 9) files [] = Some (Inr s) \<and>
     storage_get (\<lambda>_. 0) [107] s = Some (Some [2]) \<and> storage_get (\<lambda>_. 0) [97] s = Some None"
  using storage_crash_recovery [of sample_config
      "[((sample_world, \<lambda>_ _. True, \<lambda>_. 0), take 3 sample_puts), ((sample_world, \<lambda>_ _. False, \<lambda>_. 7), drop 3 sample_puts)]"
      sample_world "\<lambda>_ _. True" "\<lambda>_. 9" "\<lambda>_. 0"] sample_config_fits(1)
    sample_in_time
  by (fastforce simp: sample_puts_def sample_config_def)

section \<open>Writes that are lost\<close>

lemma pool_Get_flush:
  assumes "pool_inv (sg_pool s) segs ws"
  shows "pool_Get key (sg_pool (flush_if_needed wd s)) = pool_Get key (sg_pool s)"
proof (cases "IsFlushNeeded (sg_pool s)")
  case True
  have "pool_inv (snd (SwitchToNewMemTable (wo_coins wd) (wo_now wd) (sg_pool s))) (segs @ [ws]) []"
    using assms by (auto simp: pool_inv_def SwitchToNewMemTable_def Let_def list_all2_appendI)
  from pool_inv_Get [OF this] pool_inv_Get [OF assms] True show ?thesis
    by (cases "SwitchToNewMemTable (wo_coins wd) (wo_now wd) (sg_pool s)")
       (simp add: flush_if_needed_def scheduleFlush_def newest_write_def)
qed (simp add: flush_if_needed_def)

text \<open>
  C4: rotating the log makes later writes invisible. The new log numbers its entries from 1 again,
  while the active memtable still holds the entries of the old one: a \<open>Put\<close> after \<open>rotateWAL\<close> on a
  key whose last write had a number above 1 returns nil, and \<open>Get\<close> keeps returning the old value.
\<close>

theorem storage_rotate_stale:
  assumes "disk_inv files ops" "config_fits cfg ops" "world_ok wd" "wo_newWal wd' = Some None"
    and "newest_write key (op_writes 1 ops) = Some e" "1 < me_seq e"
  shows "\<exists>s s1 s2. NewManager cfg wd rnds clock files [] = Some (Inr s) \<and> rotateWAL wd' s = (None, s1) \<and>
    storage_Put env wd'' key (Some v) s1 = Some (None, s2) \<and> storage_Get xx key s2 = storage_Get xx key s"
proof -
  obtain s where s: "NewManager cfg wd rnds clock files [] = Some (Inr s)" "storage_inv xx s (op_writes 1 ops)"
    "pool_inv (sg_pool s) [] (op_writes 1 ops)"
    using manager_opens [OF assms(1-3), of rnds clock xx] .
  define s1 where "s1 = snd (rotateWAL wd' s)"
  have rot: "rotateWAL wd' s = (None, s1)" "sg_wal s1 = NewWAL (sg_cfg s) None" "sg_pool s1 = sg_pool s"
    "sg_closed s1 = sg_closed s" "sg_sstables s1 = sg_sstables s"
    using assms(4) by (simp_all add: s1_def rotateWAL_def)
  let ?n = "newEntry key (Some v) TypeValue 1"
  obtain sq w where a: "Append OpTypePut key (Some v) (sg_wal s1) = (Inr sq, w)" "sq = 1"
    using healthyD [OF healthy_Append [of OpTypePut key "Some v"], of "sg_wal s1"] Append_ok(1) rot(2)
    by (fastforce simp: valid_append_type_def NewWAL_def)
  obtain m where m: "mem_write ?n (mp_active (sg_pool s)) = Some m"
    "pool_inv (checkFlushConditions (wo_now wd'') ((sg_pool s)\<lparr>mp_active := m\<rparr>)) [] (op_writes 1 ops @ [?n])"
    using pool_write_inv [OF s(3), of ?n] by (auto simp: proper_def newEntry_def)
  define s2 where "s2 = flush_if_needed wd'' (s1\<lparr>sg_wal := w,
    sg_pool := checkFlushConditions (wo_now wd'') ((sg_pool s)\<lparr>mp_active := m\<rparr>), sg_lastSeqNum := 1\<rparr>)"
  have "\<not> sg_closed s1" using rot(4) s(2) by (simp add: storage_inv_def)
  then have put: "storage_Put env wd'' key (Some v) s1 = Some (None, s2)"
    using a m(1) rot(3)
    by (simp add: storage_Put_def retry_first append_op_def pool_Put_def mem_Put_write s2_def)
  have "newest_write key (op_writes 1 ops @ [?n]) = Some e"
    using assms(5,6) by (simp add: supersedes_def newEntry_def not_le)
  then have "pool_Get key (sg_pool s2) = pool_Get key (sg_pool s)"
    using pool_Get_flush [of "s1\<lparr>sg_wal := w, sg_pool := checkFlushConditions (wo_now wd'') ((sg_pool s)\<lparr>mp_active := m\<rparr>),
        sg_lastSeqNum := 1\<rparr>" "[]" "op_writes 1 ops @ [?n]" key wd''] m(2) pool_inv_Get [OF m(2), of key]
      pool_inv_Get [OF s(3), of key] assms(5) by (simp add: s2_def)
  moreover have "sg_closed s2 = sg_closed s" "sg_sstables s2 = sg_sstables s"
    using rot(4,5) by (simp_all add: s2_def)
  ultimately have "storage_Get xx key s2 = storage_Get xx key s" by (simp only: storage_Get_def)
  with s(1) rot(1) put show ?thesis by blast
qed

theorem storage_rotate_stale_witness:
  "\<exists>s s1 s2. NewManager sample_config sample_world (\<lambda>_ _. True) (\<lambda>_. 0)
      [log_image (number_appends 1 (map op_append [KvPut [97] [1], KvPut [107] [1]]))] [] = Some (Inr s) \<and>
     rotateWAL sample_world s = (None, s1) \<and>
     storage_Put (\<lambda>_. id) sample_world [107] (Some [2]) s1 = Some (None, s2) \<and>
     storage_Get (\<lambda>_. 0) [107] s2 = storage_Get (\<lambda>_. 0) [107] s"
proof -
  let ?ops = "[KvPut [97] [1], KvPut [107] [1]]"
  have "disk_inv [log_image (number_appends 1 (map op_append ?ops))] ?ops"
    unfolding disk_inv_def by (intro exI [of _ "[number_appends 1 (map op_append ?ops)]"]) simp
  moreover have "newest_write [107] (op_writes 1 ?ops) = Some (newEntry [107] (Some [1]) TypeValue 2)"
    by (simp add: newest_write_def newEntry_def supersedes_def)
  ultimately show ?thesis
    by (rule storage_rotate_stale [OF _ sample_config_fits(2) sample_world_ok]) (simp add: newEntry_def)
qed

text \<open>
  C5: while the log is being rotated writes are dropped silently. As long as the status stays
  \<open>WALStatusRotating\<close>, \<open>Put\<close> and \<open>Delete\<close> retry until their waiting time is used up and then return
  nil, without having logged or stored anything.
\<close>

theorem storage_rotating_put_lost:
  assumes "\<not> sg_closed s" "w_status (sg_wal s) = WALStatusRotating" "\<And>i. env i s = s"
  shows "storage_Put env wd key v s = Some (None, s) \<and> storage_Delete env wd key s = Some (None, s)"
proof -
  have lost: "storage_retry env wd (append_op (Append t key v) f) s = Some (None, s)" for t v f
  proof -
    have "append_op (Append t key v) f s = (Some (WalRotating ErrWALRotating), s)"
      using assms(2) by (simp add: append_op_def Append_def check_status_def bind_op_def)
    then have "keeps_failing ((=) s) env (append_op (Append t key v) f) rotating_error"
      using assms(3) by (simp add: keeps_failing_def rotating_error_def isWALRotating_def)
    from default_gives_up [OF this refl, of "wo_jitter wd"] show ?thesis by (auto simp: storage_retry_def)
  qed
  show ?thesis using assms(1) lost by (simp add: storage_Put_def storage_Delete_def)
qed

lemma sample_manager:
  obtains s where "NewManager sample_config sample_world (\<lambda>_ _. True) (\<lambda>_. 0) [] [] = Some (Inr s)"
    "storage_inv xx s []" "w_nextSequence (sg_wal s) = 1" "w_stream (sg_wal s) = []"
    "pool_inv (sg_pool s) [] []" "sg_sstables s = []"
proof -
  have d: "disk_inv [] []" "config_fits sample_config []"
    using config_fits_prefix [of sample_config "[]"] sample_config_fits(1) by (simp_all add: disk_inv_def)
  show thesis
    by (rule manager_opens [OF d sample_world_ok(1), of "\<lambda>_ _. True" "\<lambda>_. 0" xx])
       (use that in \<open>auto simp: disk_inv_def append_eq_map_conv\<close>)
qed

theorem storage_rotating_put_lost_witness:
  "\<exists>s. NewManager sample_config sample_world (\<lambda>_ _. True) (\<lambda>_. 0) [] [] = Some (Inr s) \<and>
     storage_Put (\<lambda>_. id) sample_world [107] (Some [2]) (s\<lparr>sg_wal := SetRotating (sg_wal s)\<rparr>) =
       Some (None, s\<lparr>sg_wal := SetRotating (sg_wal s)\<rparr>)"
proof -
  obtain s where "NewManager sample_config sample_world (\<lambda>_ _. True) (\<lambda>_. 0) [] [] = Some (Inr s)" "storage_inv (\<lambda>_. 0) s []"
    by (rule sample_manager)
  then show ?thesis
    using storage_rotating_put_lost [of "s\<lparr>sg_wal := SetRotating (sg_wal s)\<rparr>" "\<lambda>_. id" sample_world "[107]" "Some [2]"]
    by (auto simp: storage_inv_def SetRotating_def)
qed

end
