(* ===== verification/Deadlock.thy ===== *)
theory Deadlock
  imports Kevo_Prelude
begin

text \<open>
  The cycle search of the lock manager (\<open>src/pkg/locks/deadlocks.go\<close>). Every transaction waits
  for at most one other, so the waits-for graph is a partial function \<open>nxt\<close>; the search follows
  it from a start node until it ends or meets a node again. On an infinite graph the loop would
  run forever, which is the value \<open>None\<close> of the model; \<open>detect_returns\<close> shows that it returns
  whenever finitely many nodes wait.
\<close>

section \<open>The search\<close>

partial_function (option) detect_loop ::
  "('n \<Rightarrow> 'n option) \<Rightarrow> ('n \<Rightarrow> nat option) \<Rightarrow> 'n list \<Rightarrow> 'n \<Rightarrow> 'n list option option" where
  "detect_loop nxt nodeToPathIndx cyclePath currentNode =
     (case nxt currentNode of
        None \<Rightarrow> Some None
      | Some n \<Rightarrow>
          (case nodeToPathIndx n of
             Some indx \<Rightarrow> Some (Some (drop indx cyclePath))
           | None \<Rightarrow> detect_loop nxt (nodeToPathIndx(n \<mapsto> length cyclePath)) (cyclePath @ [n]) n))"

definition DetectDeadlockCycle :: "'n \<Rightarrow> ('n \<Rightarrow> 'n option) \<Rightarrow> 'n list option option" where
  "DetectDeadlockCycle startNode nxt = detect_loop nxt Map.empty [startNode] startNode"

section \<open>The graph\<close>

definition waits_rel :: "('n \<Rightarrow> 'n option) \<Rightarrow> 'n rel" where
  "waits_rel nxt = {(a, b). nxt a = Some b}"

lemma waits_rel_iff [simp]: "(a, b) \<in> waits_rel nxt \<longleftrightarrow> nxt a = Some b"
  by (simp add: waits_rel_def)

definition is_cycle :: "('n \<Rightarrow> 'n option) \<Rightarrow> 'n list \<Rightarrow> bool" where
  "is_cycle nxt ns \<longleftrightarrow> ns \<noteq> [] \<and> distinct ns \<and> list_all2 (\<lambda>a b. nxt a = Some b) ns (rotate1 ns)"

text \<open>A chain: each node waits for the one after it.\<close>

definition chain :: "('n \<Rightarrow> 'n option) \<Rightarrow> 'n list \<Rightarrow> bool" where
  "chain nxt ns \<longleftrightarrow> (\<forall>j. Suc j < length ns \<longrightarrow> nxt (ns ! j) = Some (ns ! Suc j))"

lemma chain_single [simp]: "chain nxt [a]"
  by (simp add: chain_def)

lemma chain_snoc:
  assumes "chain nxt ns" "ns \<noteq> []" "nxt (last ns) = Some n"
  shows "chain nxt (ns @ [n])"
  unfolding chain_def
proof (intro allI impI)
  fix j assume j: "Suc j < length (ns @ [n])"
  show "nxt ((ns @ [n]) ! j) = Some ((ns @ [n]) ! Suc j)"
  proof (cases "Suc j = length ns")
    case True
    then have "(ns @ [n]) ! j = last ns" using assms(2)
      by (simp add: nth_append last_conv_nth flip: True)
    with True assms(3) show ?thesis by (simp add: nth_append)
  qed (use assms(1) j in \<open>simp add: chain_def nth_append\<close>)
qed

lemma chain_reaches:
  assumes "chain nxt ns" "i \<le> j" "j < length ns"
  shows "(ns ! i, ns ! j) \<in> (waits_rel nxt)\<^sup>*"
  using assms(2,3)
proof (induction j rule: dec_induct)
  case (step j)
  then have "(ns ! j, ns ! Suc j) \<in> waits_rel nxt" using assms(1) by (simp add: chain_def)
  with step show ?case by (meson Suc_lessD rtrancl.rtrancl_into_rtrancl)
qed simp

lemma chain_drop: "chain nxt ns \<Longrightarrow> chain nxt (drop i ns)"
  by (simp add: chain_def)

lemma chain_closed_cycle:
  assumes "chain nxt ns" "ns \<noteq> []" "distinct ns" "nxt (last ns) = Some (hd ns)"
  shows "is_cycle nxt ns"
proof -
  have "nxt (ns ! j) = Some (rotate1 ns ! j)" if j: "j < length ns" for j
  proof (cases "Suc j = length ns")
    case True
    then have "ns ! j = last ns" using assms(2) by (simp add: last_conv_nth flip: True)
    with True assms(2,4) j show ?thesis by (simp add: nth_rotate1 hd_conv_nth)
  qed (use assms(1) j in \<open>simp add: chain_def nth_rotate1\<close>)
  with assms(2,3) show ?thesis by (simp add: is_cycle_def list_all2_conv_all_nth)
qed

lemma is_cycle_next:
  assumes "is_cycle nxt ns" "a \<in> set ns"
  shows "\<exists>b. nxt a = Some b"
proof -
  obtain i where "i < length ns" "a = ns ! i" using assms(2) by (metis in_set_conv_nth)
  with assms(1) show ?thesis by (simp add: is_cycle_def list_all2_conv_all_nth)
qed

text \<open>On a cycle every node is reached from every other, and from itself in one step or more.\<close>

lemma is_cycle_index:
  assumes "is_cycle nxt ns" "i < length ns"
  shows "(ns ! i, ns ! (Suc i mod length ns)) \<in> waits_rel nxt"
  using assms by (auto simp: is_cycle_def list_all2_conv_all_nth nth_rotate1)

lemma is_cycle_reach:
  assumes "is_cycle nxt ns" "i < length ns"
  shows "(ns ! i, ns ! ((i + Suc d) mod length ns)) \<in> (waits_rel nxt)\<^sup>+"
proof (induction d)
  case 0
  then show ?case using is_cycle_index [OF assms] by auto
next
  case (Suc d)
  have "(i + Suc d) mod length ns < length ns" using assms(2) by (intro mod_less_divisor) auto
  from is_cycle_index [OF assms(1) this] have
    "(ns ! ((i + Suc d) mod length ns), ns ! ((i + Suc (Suc d)) mod length ns)) \<in> waits_rel nxt"
    by (simp add: mod_Suc_eq)
  with Suc.IH show ?case by (rule trancl.trancl_into_trancl)
qed

lemma is_cycle_connected:
  assumes "is_cycle nxt ns" "a \<in> set ns" "b \<in> set ns"
  shows "(a, b) \<in> (waits_rel nxt)\<^sup>+"
proof -
  obtain i j where ij: "a = ns ! i" "i < length ns" "b = ns ! j" "j < length ns"
    using assms(2,3) by (metis in_set_conv_nth)
  define d where "d = (length ns - Suc i) + j"
  have "i + Suc d = length ns + j" using ij by (simp add: d_def)
  then have "(i + Suc d) mod length ns = j" using ij by simp
  with is_cycle_reach [OF assms(1) ij(2), of d] ij show ?thesis by simp
qed

section \<open>Correctness\<close>

text \<open>The state of the loop: the path walked so far and the index of every node but the first.\<close>

definition walking :: "'n \<Rightarrow> ('n \<Rightarrow> 'n option) \<Rightarrow> ('n \<Rightarrow> nat option) \<Rightarrow> 'n list \<Rightarrow> 'n \<Rightarrow> bool" where
  "walking start nxt idx path cur \<longleftrightarrow>
     path \<noteq> [] \<and> hd path = start \<and> last path = cur \<and> chain nxt path \<and> distinct (tl path) \<and>
     (\<forall>n i. idx n = Some i \<longleftrightarrow> 0 < i \<and> i < length path \<and> path ! i = n)"

lemma walking_start: "walking s nxt Map.empty [s] s"
  by (auto simp: walking_def)

lemma walking_dom:
  assumes "walking s nxt idx path cur"
  shows "dom idx = set (tl path)"
proof -
  obtain rest where path: "path = s # rest" using assms by (cases path) (auto simp: walking_def)
  have "n \<in> set rest \<longleftrightarrow> (\<exists>i. 0 < i \<and> i < length path \<and> path ! i = n)" for n
    by (auto simp: path in_set_conv_nth) (metis Suc_pred Suc_less_eq)
  with assms show ?thesis by (auto simp: walking_def dom_def path)
qed

lemma walking_step:
  assumes w: "walking s nxt idx path cur" and n: "nxt cur = Some n" "idx n = None"
  shows "walking s nxt (idx(n \<mapsto> length path)) (path @ [n]) n"
proof -
  have fresh: "n \<notin> set (tl path)" using walking_dom [OF w] n(2) by auto
  have "chain nxt (path @ [n])" using w n by (simp add: walking_def chain_snoc)
  moreover have "(idx(n \<mapsto> length path)) m = Some i \<longleftrightarrow>
      0 < i \<and> i < length (path @ [n]) \<and> (path @ [n]) ! i = m" for m i
  proof (cases "m = n")
    case True
    have "\<not> (0 < i \<and> i < length path \<and> path ! i = n)" using w n(2) by (metis walking_def option.distinct(1))
    with True w show ?thesis by (auto simp: nth_append less_Suc_eq walking_def)
  next
    case False
    have "idx m = Some i \<longleftrightarrow> 0 < i \<and> i < length path \<and> path ! i = m" using w by (simp add: walking_def)
    with False show ?thesis by (auto simp: nth_append less_Suc_eq)
  qed
  ultimately show ?thesis using w fresh by (simp add: walking_def distinct_tl tl_append2)
qed

lemma walking_cycle:
  assumes w: "walking s nxt idx path cur" and n: "nxt cur = Some n" "idx n = Some i"
  shows "is_cycle nxt (drop i path) \<and> (s, hd (drop i path)) \<in> (waits_rel nxt)\<^sup>*"
proof -
  have i: "0 < i" "i < length path" "path ! i = n" using w n(2) by (auto simp: walking_def)
  have "distinct (drop (i - 1) (tl path))" using w by (simp add: walking_def)
  then have "distinct (drop i path)" using i by (simp add: drop_Suc [symmetric])
  moreover have "hd (drop i path) = n" using i by (simp add: hd_drop_conv_nth)
  moreover have "last (drop i path) = cur" using w i by (simp add: walking_def)
  moreover have "chain nxt (drop i path)" using w by (simp add: walking_def chain_drop)
  ultimately have "is_cycle nxt (drop i path)" using i n by (intro chain_closed_cycle) auto
  moreover have "(path ! 0, path ! i) \<in> (waits_rel nxt)\<^sup>*"
    using w i by (intro chain_reaches) (auto simp: walking_def)
  moreover have "path ! 0 = s" using w by (simp add: walking_def flip: hd_conv_nth)
  ultimately show ?thesis using i by (simp add: hd_drop_conv_nth)
qed

lemma walking_reaches:
  assumes w: "walking s nxt idx path cur"
  shows "(s, cur) \<in> (waits_rel nxt)\<^sup>*"
proof -
  have "(path ! 0, path ! (length path - 1)) \<in> (waits_rel nxt)\<^sup>*"
    using w by (intro chain_reaches) (auto simp: walking_def)
  moreover have "path ! 0 = s" "path ! (length path - 1) = cur"
    using w by (auto simp: walking_def hd_conv_nth last_conv_nth)
  ultimately show ?thesis by simp
qed

text \<open>What an answer of the search means.\<close>

definition answer_ok :: "'n \<Rightarrow> ('n \<Rightarrow> 'n option) \<Rightarrow> 'n list option \<Rightarrow> bool" where
  "answer_ok s nxt r \<longleftrightarrow>
     (case r of
        Some ns \<Rightarrow> is_cycle nxt ns \<and> (s, hd ns) \<in> (waits_rel nxt)\<^sup>*
      | None \<Rightarrow> \<exists>t. (s, t) \<in> (waits_rel nxt)\<^sup>* \<and> nxt t = None)"

lemma detect_loop_ok:
  assumes "finite (dom nxt)" "walking s nxt idx path cur"
  shows "\<exists>r. detect_loop nxt idx path cur = Some r \<and> answer_ok s nxt r"
  using assms(2)
proof (induction "card (dom nxt - set (tl path))" arbitrary: idx path cur rule: less_induct)
  case less
  note w = less.prems
  show ?case
  proof (cases "nxt cur")
    case None
    then show ?thesis using walking_reaches [OF w]
      by (subst detect_loop.simps) (auto simp: answer_ok_def)
  next
    case n: (Some n)
    show ?thesis
    proof (cases "idx n")
      case (Some i)
      with n walking_cycle [OF w n Some] show ?thesis
        by (subst detect_loop.simps) (simp add: answer_ok_def)
    next
      case fresh: None
      note w' = walking_step [OF w n fresh]
      have unfold: "detect_loop nxt idx path cur =
          detect_loop nxt (idx(n \<mapsto> length path)) (path @ [n]) n"
        by (subst detect_loop.simps) (simp add: n fresh)
      have tl: "set (tl (path @ [n])) = insert n (set (tl path))" "n \<notin> set (tl path)"
        using w walking_dom [OF w] fresh by (auto simp: walking_def tl_append2)
      show ?thesis
      proof (cases "n \<in> dom nxt")
        case True
        then have "card (dom nxt - set (tl (path @ [n]))) < card (dom nxt - set (tl path))"
          using assms(1) tl by (intro psubset_card_mono) auto
        from less.hyps [OF this w'] unfold show ?thesis by simp
      next
        case False
        then have "nxt n = None" by auto
        then have "detect_loop nxt (idx(n \<mapsto> length path)) (path @ [n]) n = Some None"
          by (subst detect_loop.simps) simp
        with \<open>nxt n = None\<close> walking_reaches [OF w'] unfold show ?thesis
          by (auto simp: answer_ok_def)
      qed
    qed
  qed
qed

text \<open>From a node of a chain that ends no cycle is reachable: the path of a node is unique.\<close>

lemma ends_no_cycle:
  assumes "(s, t) \<in> (waits_rel nxt)\<^sup>*" "nxt t = None" "(s, u) \<in> (waits_rel nxt)\<^sup>*"
  shows "(u, u) \<notin> (waits_rel nxt)\<^sup>+"
proof -
  have "(u, t) \<in> (waits_rel nxt)\<^sup>*" if "(s, u) \<in> (waits_rel nxt)\<^sup>*" for u
    using that
  proof (induction rule: rtrancl_induct)
    case (step y z)
    then show ?case using assms(2) by (auto elim: converse_rtranclE)
  qed (use assms(1) in simp)
  then have ut: "(u, t) \<in> (waits_rel nxt)\<^sup>*" using assms(3) .
  have closed: "(v, u) \<in> (waits_rel nxt)\<^sup>*" if c: "(u, u) \<in> (waits_rel nxt)\<^sup>+" and "(u, v) \<in> (waits_rel nxt)\<^sup>*" for v
    using that(2)
  proof (induction rule: rtrancl_induct)
    case (step y z)
    have "(y, u) \<in> (waits_rel nxt)\<^sup>+"
      using step.IH c by (rule rtrancl_trancl_trancl)
    then obtain x where "nxt y = Some x" "(x, u) \<in> (waits_rel nxt)\<^sup>*" by (auto dest: tranclD)
    with step show ?case by simp
  qed simp
  show ?thesis
  proof
    assume c: "(u, u) \<in> (waits_rel nxt)\<^sup>+"
    have "(t, u) \<in> (waits_rel nxt)\<^sup>+"
      using closed [OF c ut] c by (rule rtrancl_trancl_trancl)
    with assms(2) show False by (auto dest: tranclD)
  qed
qed

lemma DetectDeadlockCycle_ok:
  assumes "finite (dom nxt)"
  obtains r where "DetectDeadlockCycle s nxt = Some r" "answer_ok s nxt r"
    "r \<noteq> None \<longleftrightarrow> (\<exists>u. (s, u) \<in> (waits_rel nxt)\<^sup>* \<and> (u, u) \<in> (waits_rel nxt)\<^sup>+)"
proof -
  obtain r where r: "DetectDeadlockCycle s nxt = Some r" "answer_ok s nxt r"
    using detect_loop_ok [OF assms walking_start] by (auto simp: DetectDeadlockCycle_def)
  moreover have "r \<noteq> None \<longleftrightarrow> (\<exists>u. (s, u) \<in> (waits_rel nxt)\<^sup>* \<and> (u, u) \<in> (waits_rel nxt)\<^sup>+)"
  proof (cases r)
    case None
    with r(2) obtain t where "(s, t) \<in> (waits_rel nxt)\<^sup>*" "nxt t = None" by (auto simp: answer_ok_def)
    with None ends_no_cycle [of s t nxt] show ?thesis by blast
  next
    case (Some ns)
    with r(2) have c: "is_cycle nxt ns" and "(s, hd ns) \<in> (waits_rel nxt)\<^sup>*" by (auto simp: answer_ok_def)
    moreover have "hd ns \<in> set ns" using c by (simp add: is_cycle_def)
    then have "(hd ns, hd ns) \<in> (waits_rel nxt)\<^sup>+" using is_cycle_connected [OF c] by simp
    ultimately show ?thesis using Some by auto
  qed
  ultimately show ?thesis by (rule that)
qed

end
