(* ===== verification/Request_Queue.thy ===== *)
theory Request_Queue
  imports Kevo_Prelude
begin

text \<open>
  The job queue of the background workers (\<open>src/pkg/common/reqprocessor\<close>): a slice with a head
  index that is compacted lazily, and the loop that hands every queued item to a handler. The
  interface is the locale \<open>fifo\<close>: what a queue holds is a list, \<open>enq\<close> adds at its end and \<open>deq\<close>
  takes from its front. A lock protects every operation, so each is one step.
\<close>

section \<open>Interface\<close>

locale fifo =
  fixes wf :: "'q \<Rightarrow> bool" and content :: "'q \<Rightarrow> 'a list"
    and enq :: "'a \<Rightarrow> 'q \<Rightarrow> 'q" and deq :: "'q \<Rightarrow> ('a \<times> 'q) option"
  assumes enq_wf: "wf q \<Longrightarrow> wf (enq x q)"
    and enq_content: "wf q \<Longrightarrow> content (enq x q) = content q @ [x]"
    and deq_None: "wf q \<Longrightarrow> deq q = None \<longleftrightarrow> content q = []"
    and deq_wf: "wf q \<Longrightarrow> deq q = Some (x, q') \<Longrightarrow> wf q'"
    and deq_content: "wf q \<Longrightarrow> deq q = Some (x, q') \<Longrightarrow> content q = x # content q'"
begin

lemma fold_enq: "wf q \<Longrightarrow> wf (fold enq xs q) \<and> content (fold enq xs q) = content q @ xs"
  by (induction xs arbitrary: q) (simp_all add: enq_wf enq_content)

lemma deq_Cons:
  assumes "wf q" "content q = x # xs"
  obtains q' where "deq q = Some (x, q')" "wf q'" "content q' = xs"
proof -
  obtain y q' where d: "deq q = Some (y, q')" using deq_None [OF assms(1)] assms(2) by fastforce
  with deq_wf [OF assms(1)] deq_content [OF assms(1)] assms(2) that show ?thesis by auto
qed

end

section \<open>The queue\<close>

record 'a queue =
  q_items :: "'a list"
  q_head :: nat
  q_hashFn :: "('a \<Rightarrow> string) option"
  q_uniqueCheck :: "string set"

definition NewQueue :: "('a \<Rightarrow> string) option \<Rightarrow> 'a queue" where
  "NewQueue hash = \<lparr>q_items = [], q_head = 0, q_hashFn = hash, q_uniqueCheck = {}\<rparr>"

definition Enqueue :: "'a \<Rightarrow> 'a queue \<Rightarrow> 'a queue" where
  "Enqueue item q =
     (let q1 = (case q_hashFn q of
                  None \<Rightarrow> q
                | Some hash \<Rightarrow> q\<lparr>q_uniqueCheck := insert (hash item) (q_uniqueCheck q)\<rparr>)
      in q1\<lparr>q_items := q_items q1 @ [item]\<rparr>)"

definition Dequeue :: "'a queue \<Rightarrow> ('a \<times> 'a queue) option" where
  "Dequeue q =
     (if q_head q \<ge> length (q_items q) then None
      else let item = q_items q ! q_head q;
               q1 = q\<lparr>q_head := q_head q + 1\<rparr>;
               q2 = (if q_head q1 > length (q_items q1) div 2
                     then q1\<lparr>q_items := drop (q_head q1) (q_items q1), q_head := 0\<rparr> else q1);
               q3 = (case q_hashFn q2 of
                       None \<Rightarrow> q2
                     | Some hash \<Rightarrow> q2\<lparr>q_uniqueCheck := q_uniqueCheck q2 - {hash item}\<rparr>)
           in Some (item, q3))"

definition queue_wf :: "'a queue \<Rightarrow> bool" where
  "queue_wf q \<longleftrightarrow> q_head q \<le> length (q_items q)"

definition queued :: "'a queue \<Rightarrow> 'a list" where
  "queued q = drop (q_head q) (q_items q)"

interpretation q: fifo queue_wf queued Enqueue Dequeue
proof
  fix q q' :: "'a queue" and x
  assume wf: "queue_wf q"
  show "queue_wf (Enqueue x q)" "queued (Enqueue x q) = queued q @ [x]"
    using wf by (auto simp: queue_wf_def queued_def Enqueue_def Let_def split: option.splits)
  show "(Dequeue q = None) = (queued q = [])"
    by (auto simp: queued_def Dequeue_def Let_def)
  assume d: "Dequeue q = Some (x, q')"
  then have lt: "q_head q < length (q_items q)" by (auto simp: Dequeue_def split: if_splits)
  then show "queue_wf q'" using d
    by (auto simp: queue_wf_def Dequeue_def Let_def split: option.splits if_splits)
  show "queued q = x # queued q'" using d lt
    by (auto simp: queued_def Dequeue_def Let_def Cons_nth_drop_Suc split: option.splits if_splits)
qed

lemma NewQueue_queue [simp]: "queue_wf (NewQueue h)" "queued (NewQueue h) = []"
  by (simp_all add: queue_wf_def queued_def NewQueue_def)

section \<open>The processor\<close>

text \<open>
  \<open>doExecute\<close> empties the queue into the handler. Items that other goroutines add while it runs
  are appended behind; the model takes them as added before or after the run.
\<close>

function doExecute :: "('a \<Rightarrow> 's \<Rightarrow> 's) \<Rightarrow> 'a queue \<Rightarrow> 's \<Rightarrow> 'a queue \<times> 's" where
  "doExecute handler q s =
     (case Dequeue q of
        None \<Rightarrow> (q, s)
      | Some (item, q') \<Rightarrow> doExecute handler q' (handler item s))"
  by pat_completeness auto

termination
  by (relation "measure (\<lambda>(h, q, s). length (queued q))")
    (auto simp: Dequeue_def queued_def Let_def split: option.splits if_splits)

declare doExecute.simps [simp del]

lemma doExecute_fold:
  "queue_wf q \<Longrightarrow>
     \<exists>q'. doExecute handler q s = (q', fold handler (queued q) s) \<and> queue_wf q' \<and> queued q' = []"
proof (induction "queued q" arbitrary: q s)
  case Nil
  then have "Dequeue q = None" using q.deq_None by metis
  with Nil show ?case by (subst doExecute.simps) auto
next
  case (Cons x xs)
  obtain q' where d: "Dequeue q = Some (x, q')" "queue_wf q'" "queued q' = xs"
    using q.deq_Cons [OF Cons.prems Cons.hyps(2) [symmetric]] by metis
  show ?case using Cons.hyps(1) [OF d(3) [symmetric] d(2), of "handler x s"] d
    by (subst doExecute.simps) (simp flip: Cons.hyps(2))
qed

text \<open>
  C29: jobs added to the queue of a worker, whatever it held before, are handed to the handler
  in the order of their arrival, each once, and the queue is empty afterwards.
\<close>

theorem queue_processes_in_order:
  assumes "queue_wf q"
  shows "\<exists>q'. doExecute handler (fold Enqueue jobs q) s =
      (q', fold handler (queued q @ jobs) s) \<and> queue_wf q' \<and> queued q' = []"
  using doExecute_fold [of "fold Enqueue jobs q" handler s] q.fold_enq [OF assms, of jobs] by simp

theorem queue_processes_in_order_witness:
  "\<exists>q'. doExecute (#) (fold Enqueue [2, 3 :: nat] \<lparr>q_items = [0, 1], q_head = 1, q_hashFn = None, q_uniqueCheck = {}\<rparr>) [] =
      (q', [3, 2, 1]) \<and> queue_wf q' \<and> queued q' = []"
  using queue_processes_in_order [of "\<lparr>q_items = [0, 1 :: nat], q_head = 1, q_hashFn = None, q_uniqueCheck = {}\<rparr>" "(#)" "[2, 3]" "[]"]
  by (simp add: queue_wf_def queued_def)

end
