(* ===== verification/Lock_Table.thy ===== *)
theory Lock_Table
  imports Deadlock Retry Request_Queue
begin

text \<open>
  Record-level locks (\<open>src/pkg/locks/locks.go\<close>). The tables are Go maps; a map that is used as a
  set of keys or transactions and is iterated over is a list without duplicates (the iteration
  order does not matter for what the loops do). Every method holds \<open>l.mu\<close>, so it is one atomic
  step; \<open>AcquireLock\<close> is a retry loop around such steps. The callback of a transaction is a value
  \<open>'c\<close> that a release returns to its caller, who runs it. The model of concurrency is the step
  relation \<open>lock_step\<close>.
\<close>

section \<open>State\<close>

type_synonym txid = string

datatype lock_error =
    ErrFailedToAcquireLock
  | ErrTerminatingToResolveDeadlock
  | ErrTransactionNotRegisteredAsKVLock

definition IsFailedToAcquireLockErr :: "lock_error \<Rightarrow> bool" where
  "IsFailedToAcquireLockErr err \<longleftrightarrow> err = ErrFailedToAcquireLock"

record 'c lock_table =
  lt_registry :: "txid set"
  lt_onRelease :: "txid \<rightharpoonup> 'c option"
  lt_locks :: "bytes \<rightharpoonup> txid"
  lt_keys :: "txid \<rightharpoonup> bytes list"
  lt_awaiting :: "bytes \<rightharpoonup> txid list"
  lt_waits :: "txid \<rightharpoonup> bytes"
  lt_terminate :: "txid set"
  lt_retry :: retry_config
  lt_jobs :: "txid queue"
  lt_done :: bool

definition NewLocks :: "retry_config \<Rightarrow> 'c lock_table" where
  "NewLocks c =
     \<lparr>lt_registry = {}, lt_onRelease = Map.empty, lt_locks = Map.empty, lt_keys = Map.empty,
      lt_awaiting = Map.empty, lt_waits = Map.empty, lt_terminate = {}, lt_retry = c,
      lt_jobs = NewQueue (Some (\<lambda>req. req)), lt_done = False\<rparr>"

definition NewLocksWithDefaults :: "'c lock_table" where
  "NewLocksWithDefaults =
     NewLocks \<lparr>rc_MaxRetries = -1, rc_InitialBackoff = 10 * 1000000, rc_MaxBackoff = 250 * 1000000,
               rc_CapTotalWaitTime = 3600 * 1000000000\<rparr>"

section \<open>Operations\<close>

definition add_elem :: "'a \<Rightarrow> 'a list \<Rightarrow> 'a list" where
  "add_elem x xs = (if x \<in> set xs then xs else xs @ [x])"

definition elems :: "'a list option \<Rightarrow> 'a list" where
  "elems m = (case m of None \<Rightarrow> [] | Some xs \<Rightarrow> xs)"

definition addToLockLocked :: "bytes \<Rightarrow> txid \<Rightarrow> 'c lock_table \<Rightarrow> 'c lock_table" where
  "addToLockLocked key txId l =
     l\<lparr>lt_locks := (lt_locks l)(key \<mapsto> txId),
       lt_keys := (lt_keys l)(txId \<mapsto> add_elem key (elems (lt_keys l txId)))\<rparr>"

definition removeFromLockLocked :: "bytes \<Rightarrow> txid \<Rightarrow> 'c lock_table \<Rightarrow> 'c lock_table" where
  "removeFromLockLocked key txId l =
     (let l1 = (case lt_keys l txId of
                  None \<Rightarrow> l
                | Some keys \<Rightarrow>
                    (let keys' = removeAll key keys in
                     l\<lparr>lt_keys := (lt_keys l)(txId := if keys' = [] then None else Some keys')\<rparr>))
      in l1\<lparr>lt_locks := (lt_locks l1)(key := None)\<rparr>)"

definition addAwaitingLocked :: "bytes \<Rightarrow> txid \<Rightarrow> 'c lock_table \<Rightarrow> 'c lock_table" where
  "addAwaitingLocked key txId l =
     l\<lparr>lt_awaiting := (lt_awaiting l)(key \<mapsto> add_elem txId (elems (lt_awaiting l key))),
       lt_waits := (lt_waits l)(txId \<mapsto> key)\<rparr>"

definition removeAwaitingLocked :: "bytes \<Rightarrow> txid \<Rightarrow> 'c lock_table \<Rightarrow> 'c lock_table" where
  "removeAwaitingLocked key txId l =
     (let l1 = (case lt_awaiting l key of
                  None \<Rightarrow> l
                | Some txs \<Rightarrow>
                    (let txs' = removeAll txId txs in
                     l\<lparr>lt_awaiting := (lt_awaiting l)(key := if txs' = [] then None else Some txs')\<rparr>))
      in l1\<lparr>lt_waits := (lt_waits l1)(txId := None)\<rparr>)"

definition RegisterTx :: "txid \<Rightarrow> 'c option \<Rightarrow> 'c lock_table \<Rightarrow> 'c lock_table" where
  "RegisterTx txId callback l =
     l\<lparr>lt_registry := insert txId (lt_registry l), lt_onRelease := (lt_onRelease l)(txId \<mapsto> callback)\<rparr>"

definition checkLockableLocked :: "txid \<Rightarrow> 'c lock_table \<Rightarrow> bool" where
  "checkLockableLocked txId l \<longleftrightarrow> txId \<in> lt_registry l"

definition enqueueDeadlockDetectionJob :: "txid \<Rightarrow> 'c lock_table \<Rightarrow> 'c lock_table" where
  "enqueueDeadlockDetectionJob txId l = l\<lparr>lt_jobs := Enqueue txId (lt_jobs l)\<rparr>"

text \<open>\<open>l.awaitingLocksTxIdToKey[txId]\<close> is the empty string for a transaction that waits for nothing.\<close>

definition ReleaseLocksAndUnregisterTx :: "txid \<Rightarrow> 'c lock_table \<Rightarrow> 'c option \<times> 'c lock_table" where
  "ReleaseLocksAndUnregisterTx txId l =
     (if checkLockableLocked txId l
      then let l1 = fold (\<lambda>key. removeFromLockLocked key txId) (elems (lt_keys l txId)) l;
               l2 = removeAwaitingLocked (case lt_waits l1 txId of None \<Rightarrow> [] | Some key \<Rightarrow> key) txId l1;
               l3 = l2\<lparr>lt_terminate := lt_terminate l2 - {txId}, lt_registry := lt_registry l2 - {txId}\<rparr>
           in (case lt_onRelease l3 txId of None \<Rightarrow> None | Some callback \<Rightarrow> callback, l3)
      else (None, l))"

text \<open>The function literal that \<open>AcquireLock\<close> retries, with its captured \<open>attemptCount\<close>.\<close>

definition acquire_attempt :: "bytes \<Rightarrow> txid \<Rightarrow> (int \<times> 'c lock_table, lock_error) attempt" where
  "acquire_attempt key txID q =
     (let attemptCount = fst q; l = snd q in
      if \<not> checkLockableLocked txID l then (Some ErrTransactionNotRegisteredAsKVLock, q)
      else let l1 = (if attemptCount > 1 then enqueueDeadlockDetectionJob txID l else l) in
           if txID \<in> lt_terminate l1 then (Some ErrTerminatingToResolveDeadlock, (attemptCount, l1))
           else if lt_locks l1 key = None \<or> lt_locks l1 key = Some txID
           then (None, (attemptCount, removeAwaitingLocked key txID (addToLockLocked key txID l1)))
           else (Some ErrFailedToAcquireLock, (attemptCount + 1, addAwaitingLocked key txID l1)))"

text \<open>
  \<open>AcquireLock\<close>: \<open>env i\<close> is what other goroutines do to the table during sleep \<open>i\<close>. The result
  is the error, the callback that a failing call makes the table run, and the table.
\<close>

definition AcquireLock ::
  "(nat \<Rightarrow> int) \<Rightarrow> (nat \<Rightarrow> 'c lock_table \<Rightarrow> 'c lock_table) \<Rightarrow> bytes \<Rightarrow> txid \<Rightarrow> 'c lock_table \<Rightarrow>
   (lock_error retry_error option \<times> 'c option \<times> 'c lock_table) option" where
  "AcquireLock rnd env key txID l =
     (case RetryWithConfig (lt_retry l) rnd (\<lambda>i. apsnd (env i)) (acquire_attempt key txID)
             IsFailedToAcquireLockErr (0, l) of
        None \<Rightarrow> None
      | Some (None, _, (_, l')) \<Rightarrow> Some (None, None, l')
      | Some (Some err, _, (_, l')) \<Rightarrow>
          (case ReleaseLocksAndUnregisterTx txID l' of
             (callback, l'') \<Rightarrow> Some (Some err, callback, l'')))"

text \<open>\<open>Close\<close> closes the channel that stops the worker; closing it twice panics.\<close>

definition locks_Close :: "'c lock_table \<Rightarrow> 'c lock_table option" where
  "locks_Close l = (if lt_done l then None else Some (l\<lparr>lt_done := True\<rparr>))"

section \<open>Deadlock detection\<close>

definition getNextDependingNode :: "'c lock_table \<Rightarrow> txid \<Rightarrow> txid option" where
  "getNextDependingNode l currentNode =
     (case lt_waits l currentNode of
        None \<Rightarrow> None
      | Some awaitingKey \<Rightarrow> Some (case lt_locks l awaitingKey of None \<Rightarrow> [] | Some owner \<Rightarrow> owner))"

definition MaxInt64 :: int where "MaxInt64 = 2 ^ 63 - 1"

definition num_locks :: "'c lock_table \<Rightarrow> txid \<Rightarrow> int" where
  "num_locks l txId = int (length (elems (lt_keys l txId)))"

fun least_locks :: "'c lock_table \<Rightarrow> txid list \<Rightarrow> txid \<times> int \<Rightarrow> txid" where
  "least_locks l [] (tx, numOfAcquiredLocks) = tx"
| "least_locks l (curTx # rest) (tx, numOfAcquiredLocks) =
     least_locks l rest
       (if num_locks l curTx < numOfAcquiredLocks then (curTx, num_locks l curTx)
        else (tx, numOfAcquiredLocks))"

definition detectDeadlock :: "txid \<Rightarrow> 'c lock_table \<Rightarrow> (txid option \<times> 'c lock_table) option" where
  "detectDeadlock startTxId l =
     (case DetectDeadlockCycle startTxId (getNextDependingNode l) of
        None \<Rightarrow> None
      | Some None \<Rightarrow> Some (None, l)
      | Some (Some nodesPartOfCycle) \<Rightarrow>
          (let tx = least_locks l nodesPartOfCycle (hd nodesPartOfCycle, MaxInt64)
           in Some (Some tx, l\<lparr>lt_terminate := insert tx (lt_terminate l)\<rparr>)))"

section \<open>What the table records\<close>

text \<open>
  The two directions of the lock map agree, every holder is registered, a transaction that is recorded as
  waiting for a key is registered and in the list of that key, and only registered transactions are marked
  for termination.
\<close>

definition lock_wf :: "'c lock_table \<Rightarrow> bool" where
  "lock_wf l \<longleftrightarrow>
     (\<forall>k t. lt_locks l k = Some t \<longleftrightarrow> k \<in> set (elems (lt_keys l t))) \<and>
     (\<forall>t ks. lt_keys l t = Some ks \<longrightarrow> ks \<noteq> [] \<and> distinct ks \<and> t \<in> lt_registry l) \<and>
     (\<forall>t k. lt_waits l t = Some k \<longrightarrow> t \<in> lt_registry l \<and> t \<in> set (elems (lt_awaiting l k))) \<and>
     finite (dom (lt_waits l)) \<and> lt_terminate l \<subseteq> lt_registry l \<and> queue_wf (lt_jobs l)"

lemma elems_simps [simp]: "elems None = []" "elems (Some xs) = xs"
  by (simp_all add: elems_def)

lemma set_add_elem [simp]: "set (add_elem x xs) = insert x (set xs)"
  by (auto simp: add_elem_def)

lemma add_elem_props [simp]: "add_elem x xs \<noteq> []" "distinct (add_elem x xs) \<longleftrightarrow> distinct xs"
  by (auto simp: add_elem_def)

lemma lock_wf_new [simp]: "lock_wf (NewLocks c)"
  by (simp add: lock_wf_def NewLocks_def)

lemma lock_wfD:
  assumes "lock_wf l"
  shows "lt_locks l k = Some t \<longleftrightarrow> k \<in> set (elems (lt_keys l t))"
    "lt_keys l t = Some ks \<Longrightarrow> ks \<noteq> [] \<and> distinct ks \<and> t \<in> lt_registry l"
    "lt_waits l t = Some k \<Longrightarrow> t \<in> lt_registry l"
    "lt_waits l t = Some k \<Longrightarrow> t \<in> set (elems (lt_awaiting l k))"
    "finite (dom (lt_waits l))" "lt_terminate l \<subseteq> lt_registry l" "queue_wf (lt_jobs l)"
  using assms unfolding lock_wf_def by blast+

lemma keys_disjoint:
  "lock_wf l \<Longrightarrow> k \<in> set (elems (lt_keys l t)) \<Longrightarrow> k \<in> set (elems (lt_keys l u)) \<Longrightarrow> t = u"
  using lock_wfD(1) [of l k] by (metis option.inject)

lemma removeFromLock_fields [simp]:
  "lt_locks (removeFromLockLocked k t l) = (lt_locks l)(k := None)"
  "u \<noteq> t \<Longrightarrow> lt_keys (removeFromLockLocked k t l) u = lt_keys l u"
  "elems (lt_keys (removeFromLockLocked k t l) t) = removeAll k (elems (lt_keys l t))"
  "lt_registry (removeFromLockLocked k t l) = lt_registry l"
  "lt_onRelease (removeFromLockLocked k t l) = lt_onRelease l"
  "lt_awaiting (removeFromLockLocked k t l) = lt_awaiting l"
  "lt_waits (removeFromLockLocked k t l) = lt_waits l"
  "lt_terminate (removeFromLockLocked k t l) = lt_terminate l"
  "lt_jobs (removeFromLockLocked k t l) = lt_jobs l"
  "lt_retry (removeFromLockLocked k t l) = lt_retry l"
  by (auto simp: removeFromLockLocked_def Let_def split: option.splits)

lemma removeFromLock_keys_nonempty:
  "lt_keys l t \<noteq> Some [] \<Longrightarrow> lt_keys (removeFromLockLocked k t l) t \<noteq> Some []"
  by (auto simp: removeFromLockLocked_def Let_def split: option.splits)

lemma removeAwaiting_fields [simp]:
  "lt_waits (removeAwaitingLocked k t l) = (lt_waits l)(t := None)"
  "j \<noteq> k \<Longrightarrow> lt_awaiting (removeAwaitingLocked k t l) j = lt_awaiting l j"
  "elems (lt_awaiting (removeAwaitingLocked k t l) k) = removeAll t (elems (lt_awaiting l k))"
  "lt_registry (removeAwaitingLocked k t l) = lt_registry l"
  "lt_onRelease (removeAwaitingLocked k t l) = lt_onRelease l"
  "lt_locks (removeAwaitingLocked k t l) = lt_locks l"
  "lt_keys (removeAwaitingLocked k t l) = lt_keys l"
  "lt_terminate (removeAwaitingLocked k t l) = lt_terminate l"
  "lt_jobs (removeAwaitingLocked k t l) = lt_jobs l"
  "lt_retry (removeAwaitingLocked k t l) = lt_retry l"
  by (auto simp: removeAwaitingLocked_def Let_def split: option.splits)

lemma awaiting_after_remove:
  "u \<noteq> t \<Longrightarrow> u \<in> set (elems (lt_awaiting (removeAwaitingLocked k t l) j)) \<longleftrightarrow>
     u \<in> set (elems (lt_awaiting l j))"
  by (cases "j = k") auto

lemma fold_remove_fields:
  defines "rm \<equiv> \<lambda>t key. removeFromLockLocked key t"
  shows "lt_locks (fold (rm t) ks l) k = (if k \<in> set ks then None else lt_locks l k)"
    "u \<noteq> t \<Longrightarrow> lt_keys (fold (rm t) ks l) u = lt_keys l u"
    "elems (lt_keys (fold (rm t) ks l) t) = filter (\<lambda>k. k \<notin> set ks) (elems (lt_keys l t))"
    "lt_keys l t \<noteq> Some [] \<Longrightarrow> lt_keys (fold (rm t) ks l) t \<noteq> Some []"
    "lt_registry (fold (rm t) ks l) = lt_registry l"
    "lt_onRelease (fold (rm t) ks l) = lt_onRelease l"
    "lt_awaiting (fold (rm t) ks l) = lt_awaiting l"
    "lt_waits (fold (rm t) ks l) = lt_waits l"
    "lt_terminate (fold (rm t) ks l) = lt_terminate l"
    "lt_jobs (fold (rm t) ks l) = lt_jobs l"
    "lt_retry (fold (rm t) ks l) = lt_retry l"
  unfolding rm_def
  by (induction ks arbitrary: l)
    (auto simp: removeFromLock_keys_nonempty removeAll_filter_not_eq conj_commute intro: filter_cong)

text \<open>The effect of a release of a registered transaction on every table.\<close>

lemma release_fields:
  assumes "lock_wf l" "t \<in> lt_registry l"
  defines "l' \<equiv> snd (ReleaseLocksAndUnregisterTx t l)"
  shows "lt_locks l' k = (if lt_locks l k = Some t then None else lt_locks l k)"
    "lt_keys l' = (lt_keys l)(t := None)" "lt_waits l' = (lt_waits l)(t := None)"
    "lt_terminate l' = lt_terminate l - {t}" "lt_registry l' = lt_registry l - {t}"
    "u \<noteq> t \<Longrightarrow> u \<in> set (elems (lt_awaiting l' j)) \<longleftrightarrow> u \<in> set (elems (lt_awaiting l j))"
    "lt_jobs l' = lt_jobs l" "lt_retry l' = lt_retry l"
proof -
  let ?ks = "elems (lt_keys l t)"
  let ?l1 = "fold (\<lambda>key. removeFromLockLocked key t) ?ks l"
  have ne: "lt_keys l t \<noteq> Some []" using lock_wfD(2) [OF assms(1)] by blast
  have gone: "lt_keys ?l1 t = None"
    using fold_remove_fields(3,4) [where l = l and t = t and ks = ?ks] ne
    by (cases "lt_keys ?l1 t") auto
  note unfold = l'_def ReleaseLocksAndUnregisterTx_def checkLockableLocked_def Let_def
  show "lt_locks l' k = (if lt_locks l k = Some t then None else lt_locks l k)"
    using assms(2) lock_wfD(1) [OF assms(1), of k t] by (simp add: unfold fold_remove_fields)
  have "lt_keys ?l1 = (lt_keys l)(t := None)" using gone by (auto simp: fold_remove_fields fun_eq_iff)
  then show "lt_keys l' = (lt_keys l)(t := None)" using assms(2) by (simp add: unfold)
  show "u \<noteq> t \<Longrightarrow> u \<in> set (elems (lt_awaiting l' j)) \<longleftrightarrow> u \<in> set (elems (lt_awaiting l j))"
    using assms(2) by (simp add: unfold awaiting_after_remove fold_remove_fields)
qed (use assms(2) in \<open>simp_all add: l'_def ReleaseLocksAndUnregisterTx_def checkLockableLocked_def Let_def fold_remove_fields\<close>)

lemma release_unregistered:
  "t \<notin> lt_registry l \<Longrightarrow> ReleaseLocksAndUnregisterTx t l = (None, l)"
  by (simp add: ReleaseLocksAndUnregisterTx_def checkLockableLocked_def)

lemma release_wf:
  assumes "lock_wf l"
  shows "lock_wf (snd (ReleaseLocksAndUnregisterTx t l))"
proof (cases "t \<in> lt_registry l")
  case True
  note r = release_fields [OF assms True]
  show ?thesis unfolding lock_wf_def r
  proof (intro conjI allI impI)
    fix u k assume w: "((lt_waits l)(t := None)) u = Some k"
    then have "u \<noteq> t" "lt_waits l u = Some k" by (auto split: if_splits)
    with lock_wfD(3,4) [OF assms] r(6) show "u \<in> lt_registry l - {t}"
      "u \<in> set (elems (lt_awaiting (snd (ReleaseLocksAndUnregisterTx t l)) k))" by auto
  qed (use lock_wfD [OF assms] in \<open>auto split: if_splits dest: keys_disjoint [OF assms]\<close>)
qed (use assms in \<open>simp add: release_unregistered\<close>)

lemma register_wf: "lock_wf l \<Longrightarrow> lock_wf (RegisterTx t cb l)"
  by (auto simp: lock_wf_def RegisterTx_def)

lemma enqueue_wf: "lock_wf l \<Longrightarrow> lock_wf (enqueueDeadlockDetectionJob t l)"
  by (simp add: lock_wf_def enqueueDeadlockDetectionJob_def q.enq_wf)

lemma addAwaiting_wf:
  "lock_wf l \<Longrightarrow> t \<in> lt_registry l \<Longrightarrow> lock_wf (addAwaitingLocked k t l)"
  by (auto simp: lock_wf_def addAwaitingLocked_def)

lemma addToLock_wf:
  assumes "lock_wf l" "t \<in> lt_registry l" "lt_locks l k = None \<or> lt_locks l k = Some t"
  shows "lock_wf (addToLockLocked k t l)"
proof -
  have "distinct (elems (lt_keys l t))" using lock_wfD(2) [OF assms(1), of t] by (cases "lt_keys l t") auto
  moreover have "k \<notin> set (elems (lt_keys l u))" if "u \<noteq> t" for u
    using lock_wfD(1) [OF assms(1), of k u] assms(3) that by auto
  ultimately show ?thesis using assms(1,2) by (auto simp: lock_wf_def addToLockLocked_def split: if_splits)
qed

lemma removeAwaiting_wf: "lock_wf l \<Longrightarrow> lock_wf (removeAwaitingLocked k t l)"
  by (auto simp: lock_wf_def awaiting_after_remove split: if_splits)

lemma acquire_attempt_wf:
  assumes "lock_wf l" "acquire_attempt k t (n, l) = (e, (n', l'))"
  shows "lock_wf l'"
proof -
  let ?l1 = "if n > 1 then enqueueDeadlockDetectionJob t l else l"
  have "lock_wf ?l1" "lt_registry ?l1 = lt_registry l"
    using assms(1) enqueue_wf by (auto simp: enqueueDeadlockDetectionJob_def)
  with assms show ?thesis
    by (auto simp: acquire_attempt_def Let_def checkLockableLocked_def
        intro!: removeAwaiting_wf addToLock_wf addAwaiting_wf split: if_splits)
qed

section \<open>Detection marks a victim\<close>

lemma waiting_finite: "lock_wf l \<Longrightarrow> finite (dom (getNextDependingNode l))"
  by (rule finite_subset [OF _ lock_wfD(5)])
    (auto simp: getNextDependingNode_def split: option.splits)

lemma waiting_registered: "lock_wf l \<Longrightarrow> getNextDependingNode l t = Some u \<Longrightarrow> t \<in> lt_registry l"
  using lock_wfD(3) by (auto simp: getNextDependingNode_def split: option.splits)

lemma least_locks_min:
  "(least_locks l ns (tx, m) \<in> insert tx (set ns)) \<and>
   (num_locks l (least_locks l ns (tx, m)) \<le> m \<or> least_locks l ns (tx, m) = tx) \<and>
   (num_locks l tx \<le> m \<longrightarrow> num_locks l (least_locks l ns (tx, m)) \<le> m) \<and>
   (\<forall>u \<in> set ns. num_locks l (least_locks l ns (tx, m)) \<le> num_locks l u \<or> m \<le> num_locks l u)"
proof (induction ns arbitrary: tx m)
  case (Cons a ns)
  show ?case
    using Cons.IH [of a "num_locks l a"] Cons.IH [of tx m]
    by (cases "num_locks l a < m") force+
qed simp

lemma detectDeadlock_cases:
  assumes "lock_wf l"
  obtains (none) "detectDeadlock t l = Some (None, l)"
      "\<nexists>u. (t, u) \<in> (waits_rel (getNextDependingNode l))\<^sup>* \<and> (u, u) \<in> (waits_rel (getNextDependingNode l))\<^sup>+"
  | (some) ns v where "detectDeadlock t l = Some (Some v, l\<lparr>lt_terminate := insert v (lt_terminate l)\<rparr>)"
      "is_cycle (getNextDependingNode l) ns" "(t, hd ns) \<in> (waits_rel (getNextDependingNode l))\<^sup>*" "v \<in> set ns"
      "\<forall>u \<in> set ns. num_locks l v \<le> num_locks l u \<or> MaxInt64 \<le> num_locks l u"
proof -
  obtain r where r: "DetectDeadlockCycle t (getNextDependingNode l) = Some r"
    "answer_ok t (getNextDependingNode l) r"
    "r \<noteq> None \<longleftrightarrow> (\<exists>u. (t, u) \<in> (waits_rel (getNextDependingNode l))\<^sup>* \<and> (u, u) \<in> (waits_rel (getNextDependingNode l))\<^sup>+)"
    using DetectDeadlockCycle_ok [OF waiting_finite [OF assms]] by metis
  show ?thesis
  proof (cases r)
    case None
    with r show ?thesis by (intro none) (auto simp: detectDeadlock_def)
  next
    case (Some ns)
    with r(2) have c: "is_cycle (getNextDependingNode l) ns" "(t, hd ns) \<in> (waits_rel (getNextDependingNode l))\<^sup>*"
      by (auto simp: answer_ok_def)
    define v where "v = least_locks l ns (hd ns, MaxInt64)"
    have "v \<in> set ns" "\<forall>u \<in> set ns. num_locks l v \<le> num_locks l u \<or> MaxInt64 \<le> num_locks l u"
      using least_locks_min [of l ns "hd ns" MaxInt64] c(1) by (auto simp: v_def is_cycle_def)
    moreover have "detectDeadlock t l = Some (Some v, l\<lparr>lt_terminate := insert v (lt_terminate l)\<rparr>)"
      using r(1) Some by (simp add: detectDeadlock_def v_def Let_def)
    ultimately show ?thesis using c by (intro some)
  qed
qed

lemma detectDeadlock_wf:
  assumes "lock_wf l" "detectDeadlock t l = Some (r, l')"
  shows "lock_wf l'"
proof (rule detectDeadlock_cases [OF assms(1), of t])
  fix ns v
  assume d: "detectDeadlock t l = Some (Some v, l\<lparr>lt_terminate := insert v (lt_terminate l)\<rparr>)"
    and c: "is_cycle (getNextDependingNode l) ns" "v \<in> set ns"
  have "v \<in> lt_registry l" using is_cycle_next [OF c] waiting_registered [OF assms(1)] by blast
  then have "lock_wf (l\<lparr>lt_terminate := insert v (lt_terminate l)\<rparr>)"
    using assms(1) by (simp add: lock_wf_def)
  with assms(2) d show ?thesis by simp
qed (use assms in auto)

section \<open>Interleavings\<close>

text \<open>
  A transaction that is inside \<open>AcquireLock\<close> tries for a key or has got an error and is about to
  release its locks. Between two of its steps any step of another goroutine may come. \<open>GaveUp\<close>
  is the end of the retry loop without success, which the step relation allows after any refusal.
\<close>

datatype acquirer = Trying bytes int | Failing lock_error

record 'c lock_sys =
  sys_table :: "'c lock_table"
  sys_acquirers :: "txid \<rightharpoonup> acquirer"

datatype 'c lock_event =
    Registered txid "'c option" | Started txid bytes | Acquired txid bytes | Refused txid bytes
  | GaveUp txid bytes | Rejected txid lock_error | Released txid | DeadlockChecked txid | Closed

inductive lock_step :: "'c lock_sys \<Rightarrow> 'c lock_event \<Rightarrow> 'c lock_sys \<Rightarrow> bool" where
  register: "lock_step s (Registered t cb) (s\<lparr>sys_table := RegisterTx t cb (sys_table s)\<rparr>)"
| start: "lock_step s (Started t k) (s\<lparr>sys_acquirers := (sys_acquirers s)(t \<mapsto> Trying k 0)\<rparr>)"
    if "sys_acquirers s t = None"
| acquire: "lock_step s (Acquired t k) (s\<lparr>sys_table := l', sys_acquirers := (sys_acquirers s)(t := None)\<rparr>)"
    if "sys_acquirers s t = Some (Trying k n)" "acquire_attempt k t (n, sys_table s) = (None, (n', l'))"
| refuse: "lock_step s (Refused t k) (s\<lparr>sys_table := l', sys_acquirers := (sys_acquirers s)(t \<mapsto> Trying k n')\<rparr>)"
    if "sys_acquirers s t = Some (Trying k n)"
      "acquire_attempt k t (n, sys_table s) = (Some e, (n', l'))" "IsFailedToAcquireLockErr e"
| give_up: "lock_step s (GaveUp t k) (s\<lparr>sys_acquirers := (sys_acquirers s)(t := None)\<rparr>)"
    if "sys_acquirers s t = Some (Trying k n)" "0 < n"
| reject: "lock_step s (Rejected t e) (s\<lparr>sys_table := l', sys_acquirers := (sys_acquirers s)(t \<mapsto> Failing e)\<rparr>)"
    if "sys_acquirers s t = Some (Trying k n)"
      "acquire_attempt k t (n, sys_table s) = (Some e, (n', l'))" "\<not> IsFailedToAcquireLockErr e"
| fail: "lock_step s (Released t)
      (s\<lparr>sys_table := snd (ReleaseLocksAndUnregisterTx t (sys_table s)), sys_acquirers := (sys_acquirers s)(t := None)\<rparr>)"
    if "sys_acquirers s t = Some (Failing e)"
| release: "lock_step s (Released t) (s\<lparr>sys_table := snd (ReleaseLocksAndUnregisterTx t (sys_table s))\<rparr>)"
| check: "lock_step s (DeadlockChecked t) (s\<lparr>sys_table := l'\<rparr>)"
    if "\<not> lt_done (sys_table s)" "Dequeue (lt_jobs (sys_table s)) = Some (t, q)"
      "detectDeadlock t ((sys_table s)\<lparr>lt_jobs := q\<rparr>) = Some (v, l')"
| close: "lock_step s Closed (s\<lparr>sys_table := l'\<rparr>)"
    if "locks_Close (sys_table s) = Some l'"

inductive lock_run :: "'c lock_sys \<Rightarrow> 'c lock_event list \<Rightarrow> 'c lock_sys \<Rightarrow> bool" where
  nil: "lock_run s [] s"
| snoc: "lock_run s evs s' \<Longrightarrow> lock_step s' ev s'' \<Longrightarrow> lock_run s (evs @ [ev]) s''"

inductive_cases lock_step_AcquiredE: "lock_step s (Acquired t k) s'"

lemma close_wf: "lock_wf l \<Longrightarrow> locks_Close l = Some l' \<Longrightarrow> lock_wf l'"
  by (cases "lt_done l") (auto simp: locks_Close_def, simp add: lock_wf_def)

lemma lock_step_wf: "lock_step s ev s' \<Longrightarrow> lock_wf (sys_table s) \<Longrightarrow> lock_wf (sys_table s')"
proof (induction rule: lock_step.induct)
  case (check s t q v l')
  have "queue_wf q" using q.deq_wf [OF lock_wfD(7) [OF check.prems] check(2)] .
  then have "lock_wf ((sys_table s)\<lparr>lt_jobs := q\<rparr>)" using check.prems by (simp add: lock_wf_def)
  from detectDeadlock_wf [OF this check(3)] show ?case by simp
qed (auto intro: register_wf release_wf acquire_attempt_wf close_wf)

lemma lock_run_wf: "lock_run s evs s' \<Longrightarrow> lock_wf (sys_table s) \<Longrightarrow> lock_wf (sys_table s')"
  by (induction rule: lock_run.induct) (auto intro: lock_step_wf)

text \<open>A lock that is held stays with its holder until the holder releases.\<close>

lemma acquire_attempt_locks:
  assumes "acquire_attempt k t (n, l) = (e, (n', l'))" "lt_locks l j = Some u"
  shows "lt_locks l' j = Some u"
  using assms by (auto simp: acquire_attempt_def Let_def addToLockLocked_def addAwaitingLocked_def
      enqueueDeadlockDetectionJob_def split: if_splits)

lemma detectDeadlock_locks: "detectDeadlock t l = Some (v, l') \<Longrightarrow> lt_locks l' = lt_locks l"
  by (auto simp: detectDeadlock_def Let_def split: option.splits)

lemma lock_step_keeps:
  assumes "lock_step s ev s'" "lock_wf (sys_table s)" "lt_locks (sys_table s) k = Some t" "ev \<noteq> Released t"
  shows "lt_locks (sys_table s') k = Some t"
proof -
  have rel: "lt_locks (snd (ReleaseLocksAndUnregisterTx u (sys_table s))) k = Some t" if "u \<noteq> t" for u
    using that assms(2,3) release_fields(1) [OF assms(2), of u k]
    by (cases "u \<in> lt_registry (sys_table s)") (auto simp: release_unregistered)
  from assms(1,3,4) rel show ?thesis
    by cases (auto simp: RegisterTx_def locks_Close_def intro: acquire_attempt_locks dest: detectDeadlock_locks split: if_splits)
qed

lemma lock_run_Nil [simp]: "lock_run s [] s' \<longleftrightarrow> s' = s"
  by (auto elim: lock_run.cases intro: lock_run.nil)

lemma lock_run_snoc: "lock_run s (evs @ [ev]) s'' \<longleftrightarrow> (\<exists>s'. lock_run s evs s' \<and> lock_step s' ev s'')"
  by (auto elim: lock_run.cases intro: lock_run.snoc)

lemma lock_run_append:
  "lock_run s (xs @ ys) s'' \<longleftrightarrow> (\<exists>s'. lock_run s xs s' \<and> lock_run s' ys s'')"
proof (induction ys arbitrary: s'' rule: rev_induct)
  case (snoc y ys)
  then show ?case by (auto simp: lock_run_snoc simp flip: append_assoc)
qed simp

lemma lock_run_Cons: "lock_run s (x # xs) s'' \<longleftrightarrow> (\<exists>s'. lock_step s x s' \<and> lock_run s' xs s'')"
  using lock_run_append [of s "[x]" xs s''] lock_run_snoc [of s "[]" x] by simp

lemma lock_step_acquired:
  assumes "lock_step s (Acquired t k) s'"
  shows "lt_locks (sys_table s') k = Some t" "lt_locks (sys_table s) k = None \<or> lt_locks (sys_table s) k = Some t"
  using assms by (auto elim!: lock_step_AcquiredE simp: acquire_attempt_def Let_def addToLockLocked_def
      enqueueDeadlockDetectionJob_def split: if_splits)

lemma lock_run_keeps:
  "lock_run s evs s' \<Longrightarrow> lock_wf (sys_table s) \<Longrightarrow> lt_locks (sys_table s) k = Some t \<Longrightarrow>
     Released t \<notin> set evs \<Longrightarrow> lt_locks (sys_table s') k = Some t"
  by (induction rule: lock_run.induct) (auto intro: lock_step_keeps lock_run_wf)

abbreviation locks_init :: "retry_config \<Rightarrow> 'c lock_sys" where
  "locks_init c \<equiv> \<lparr>sys_table = NewLocks c, sys_acquirers = Map.empty\<rparr>"

section \<open>Properties\<close>

text \<open>
  C30: mutual exclusion. In every interleaving of registrations, lock attempts, releases and
  deadlock checks, a key whose lock an attempt of one transaction has taken belongs to that transaction until it
  releases its locks: until then the table names it as the owner and no attempt of another one takes the key.
  \<open>Acquired\<close> is the step in which an attempt takes the lock. It is not the only way in which
  \<open>AcquireLock\<close> returns nil: the retry loop also returns nil when it gives up (the step \<open>GaveUp\<close>), and such a
  caller owns nothing, the key stays with its holder (see \<open>acquire_timeout_unowned\<close>).
\<close>

theorem lock_mutual_exclusion:
  assumes "lock_run (locks_init c) (pre @ Acquired t k # mid) s" "Released t \<notin> set mid"
  shows "lt_locks (sys_table s) k = Some t \<and> (\<forall>u. Acquired u k \<in> set mid \<longrightarrow> u = t)"
proof -
  obtain s1 s2 where run: "lock_run (locks_init c) pre s1" "lock_step s1 (Acquired t k) s2" "lock_run s2 mid s"
    using assms(1) by (auto simp: lock_run_append lock_run_Cons)
  have wf: "lock_wf (sys_table s2)"
    using lock_step_wf [OF run(2)] lock_run_wf [OF run(1)] by simp
  note keeps = lock_run_keeps [OF _ wf lock_step_acquired(1) [OF run(2)]]
  have "u = t" if u: "Acquired u k \<in> set mid" for u
  proof -
    obtain xs ys where mid: "mid = xs @ Acquired u k # ys" using split_list [OF u] by blast
    then obtain s3 s4 where s3: "lock_run s2 xs s3" "lock_step s3 (Acquired u k) s4"
      using run(3) by (auto simp: lock_run_append lock_run_Cons)
    have "lt_locks (sys_table s3) k = Some t" using keeps [OF s3(1)] assms(2) mid by simp
    with lock_step_acquired(2) [OF s3(2)] show ?thesis by simp
  qed
  with keeps [OF run(3) assms(2)] show ?thesis by blast
qed

text \<open>
  C33: what the tables of the lock manager record in every interleaving: a key is locked by exactly the
  transaction whose key set contains it, and that transaction is registered; a transaction that is recorded as waiting
  for a key is registered and is in the list of those waiting for that key; and only registered transactions are marked to be
  terminated. (The list of a key may contain more: a transaction that has given up stays in it. And
  \<open>onReleaseLock\<close> is never cleaned.)
\<close>

theorem lock_table_consistent:
  assumes "lock_run (locks_init c) evs s"
  shows "(\<forall>k t. lt_locks (sys_table s) k = Some t \<longleftrightarrow> k \<in> set (elems (lt_keys (sys_table s) t))) \<and>
    (\<forall>k t. lt_locks (sys_table s) k = Some t \<longrightarrow> t \<in> lt_registry (sys_table s)) \<and>
    (\<forall>t k. lt_waits (sys_table s) t = Some k \<longrightarrow>
       t \<in> lt_registry (sys_table s) \<and> t \<in> set (elems (lt_awaiting (sys_table s) k))) \<and>
    lt_terminate (sys_table s) \<subseteq> lt_registry (sys_table s)"
proof -
  have wf: "lock_wf (sys_table s)" using lock_run_wf [OF assms] by simp
  have "t \<in> lt_registry (sys_table s)" if "lt_locks (sys_table s) k = Some t" for k t
    using that lock_wfD(1) [OF wf, of k t] lock_wfD(2) [OF wf, of t] by (cases "lt_keys (sys_table s) t") auto
  then show ?thesis using lock_wfD(1,3,4,6) [OF wf] by blast
qed

text \<open>
  C32: deadlock detection returns in every consistent table. It names a victim exactly when a
  cycle of waiting transactions is reachable from the transaction that is checked; the victim is on such a cycle
  and is then marked to be terminated, and nothing else in the table changes.
\<close>

theorem deadlock_detected_iff_cycle:
  assumes "lock_wf l"
  shows "\<exists>r. detectDeadlock t l =
      Some (r, case r of None \<Rightarrow> l | Some v \<Rightarrow> l\<lparr>lt_terminate := insert v (lt_terminate l)\<rparr>) \<and>
    (r \<noteq> None \<longleftrightarrow> (\<exists>u. (t, u) \<in> (waits_rel (getNextDependingNode l))\<^sup>* \<and>
                        (u, u) \<in> (waits_rel (getNextDependingNode l))\<^sup>+)) \<and>
    (\<forall>v. r = Some v \<longrightarrow> (t, v) \<in> (waits_rel (getNextDependingNode l))\<^sup>* \<and>
                        (v, v) \<in> (waits_rel (getNextDependingNode l))\<^sup>+)"
proof (rule detectDeadlock_cases [OF assms, of t])
  fix ns v
  assume d: "detectDeadlock t l = Some (Some v, l\<lparr>lt_terminate := insert v (lt_terminate l)\<rparr>)"
    and c: "is_cycle (getNextDependingNode l) ns" "(t, hd ns) \<in> (waits_rel (getNextDependingNode l))\<^sup>*" "v \<in> set ns"
  have "hd ns \<in> set ns" using c(1) by (simp add: is_cycle_def)
  then have "(hd ns, v) \<in> (waits_rel (getNextDependingNode l))\<^sup>+" "(v, v) \<in> (waits_rel (getNextDependingNode l))\<^sup>+"
    using is_cycle_connected [OF c(1) _ c(3)] c(3) by simp_all
  then have "(t, v) \<in> (waits_rel (getNextDependingNode l))\<^sup>*" "(v, v) \<in> (waits_rel (getNextDependingNode l))\<^sup>+"
    using c(2) by (meson rtrancl_trans trancl_into_rtrancl)+
  with d show ?thesis by (intro exI [of _ "Some v"]) auto
qed auto

text \<open>After the victim has released its locks, no path of the waits-for graph runs through it.\<close>

lemma victim_released:
  assumes wf: "lock_wf l" and v: "v \<in> lt_registry l" and empty: "[] \<notin> lt_registry l"
    and tv: "(t, v) \<in> (waits_rel (getNextDependingNode l))\<^sup>*"
  defines "l2 \<equiv> snd (ReleaseLocksAndUnregisterTx v l)"
  shows "(t, t) \<notin> (waits_rel (getNextDependingNode l2))\<^sup>+"
proof -
  note r = release_fields [OF wf v, folded l2_def]
  have vnone: "getNextDependingNode l2 v = None" by (simp add: getNextDependingNode_def r)
  have wnone: "lt_waits l [] = None" using lock_wfD(3) [OF wf, of "[]"] empty by (cases "lt_waits l []") auto
  then have enone: "getNextDependingNode l2 [] = None" by (simp add: getNextDependingNode_def r)
  have "\<exists>x. (t, x) \<in> (waits_rel (getNextDependingNode l2))\<^sup>* \<and> getNextDependingNode l2 x = None"
    using tv
  proof (induction rule: converse_rtrancl_induct)
    case base
    show ?case using vnone by blast
  next
    case (step y z)
    show ?case
    proof (cases "y = v")
      case False
      with step(1) have "getNextDependingNode l2 y = Some z \<or> getNextDependingNode l2 y = Some []"
        by (auto simp: getNextDependingNode_def r split: option.splits)
      then show ?thesis
      proof
        assume "getNextDependingNode l2 y = Some z"
        with step(3) show ?thesis by (meson converse_rtrancl_into_rtrancl waits_rel_iff)
      next
        assume "getNextDependingNode l2 y = Some []"
        with enone show ?thesis by (meson r_into_rtrancl waits_rel_iff)
      qed
    qed (use vnone in blast)
  qed
  then obtain x where "(t, x) \<in> (waits_rel (getNextDependingNode l2))\<^sup>*" "getNextDependingNode l2 x = None"
    by blast
  then show ?thesis by (rule ends_no_cycle) simp
qed

text \<open>
  C31: a deadlock is resolved. For a transaction on a cycle of waiting transactions, detection marks
  a transaction of that cycle which holds the fewest locks; the next attempt of the victim fails,
  and once the victim has released its locks the cycle is gone. (No transaction has the empty
  identifier: identifiers are 64 hexadecimal digits.)
\<close>

theorem deadlock_resolved:
  assumes wf: "lock_wf l" and dead: "(t, t) \<in> (waits_rel (getNextDependingNode l))\<^sup>+"
    and empty: "[] \<notin> lt_registry l"
  shows "\<exists>v l'. detectDeadlock t l = Some (Some v, l') \<and>
    (t, v) \<in> (waits_rel (getNextDependingNode l))\<^sup>* \<and>
    (\<forall>k n. fst (acquire_attempt k v (n, l')) = Some ErrTerminatingToResolveDeadlock) \<and>
    lt_waits (snd (ReleaseLocksAndUnregisterTx v l')) v = None \<and>
    (\<forall>k. lt_locks (snd (ReleaseLocksAndUnregisterTx v l')) k \<noteq> Some v) \<and>
    (t, t) \<notin> (waits_rel (getNextDependingNode (snd (ReleaseLocksAndUnregisterTx v l'))))\<^sup>+"
proof (rule detectDeadlock_cases [OF wf, of t])
  fix ns v
  let ?l = "l\<lparr>lt_terminate := insert v (lt_terminate l)\<rparr>"
  assume d: "detectDeadlock t l = Some (Some v, ?l)"
    and c: "is_cycle (getNextDependingNode l) ns" "(t, hd ns) \<in> (waits_rel (getNextDependingNode l))\<^sup>*" "v \<in> set ns"
  have "hd ns \<in> set ns" using c(1) by (simp add: is_cycle_def)
  then have tv: "(t, v) \<in> (waits_rel (getNextDependingNode l))\<^sup>*"
    using c(2) is_cycle_connected [OF c(1) _ c(3)] by (meson rtrancl_trans trancl_into_rtrancl)
  have v: "v \<in> lt_registry l" using is_cycle_next [OF c(1,3)] waiting_registered [OF wf] by blast
  have wf': "lock_wf ?l" using detectDeadlock_wf [OF wf d] .
  have same: "getNextDependingNode ?l = getNextDependingNode l"
    by (rule ext) (simp add: getNextDependingNode_def split: option.split)
  have "fst (acquire_attempt k v (n, ?l)) = Some ErrTerminatingToResolveDeadlock" for k n
    using v by (simp add: acquire_attempt_def Let_def checkLockableLocked_def enqueueDeadlockDetectionJob_def)
  with d tv v release_fields [OF wf', of v] victim_released [OF wf', of v t] empty show ?thesis
    by (intro exI [of _ v] exI [of _ ?l]) (simp add: same)
qed (use dead in blast)

text \<open>
  When the waiting time is used up, \<open>AcquireLock\<close> returns no error although another
  transaction still holds the lock: whenever the call returns while the other one keeps the key,
  it reports success.
\<close>

lemma acquire_timeout_unowned:
  assumes valid: "rc_CapTotalWaitTime (lt_retry l) > 0"
    and t: "t \<in> lt_registry l" "t \<notin> lt_terminate l" "lt_locks l key = Some u" "u \<noteq> t"
    and env: "\<And>i l. t \<in> lt_registry l \<and> t \<notin> lt_terminate l \<and> lt_locks l key = Some u \<Longrightarrow>
      t \<in> lt_registry (env i l) \<and> t \<notin> lt_terminate (env i l) \<and> lt_locks (env i l) key = Some u"
    and ret: "AcquireLock rnd env key t l = Some (err, cb, l')"
  shows "err = None \<and> lt_locks l' key = Some u"
proof -
  define P where "P = (\<lambda>q :: int \<times> 'a lock_table. t \<in> lt_registry (snd q) \<and> t \<notin> lt_terminate (snd q) \<and>
    lt_locks (snd q) key = Some u)"
  have fails: "keeps_failing P (\<lambda>i. apsnd (env i)) (acquire_attempt key t) IsFailedToAcquireLockErr"
    using t(4) env
    by (auto simp: keeps_failing_def P_def acquire_attempt_def Let_def checkLockableLocked_def
        enqueueDeadlockDetectionJob_def addAwaitingLocked_def IsFailedToAcquireLockErr_def)
  have out: "e = None \<and> P q" if "RetryWithConfig (lt_retry l) rnd (\<lambda>i. apsnd (env i))
      (acquire_attempt key t) IsFailedToAcquireLockErr (0, l) = Some (e, w, q)" for e w q
    using that retry_loop_exhausted [OF fails, of "(0, l)"] t valid
    by (auto simp: RetryWithConfig_def P_def)
  show ?thesis using ret out
    by (auto simp: AcquireLock_def P_def split: option.splits prod.splits)
qed

section \<open>The loop of \<open>AcquireLock\<close> runs by these steps\<close>

lemma acquire_attempt_refused:
  "acquire_attempt k t q = (Some e, q') \<Longrightarrow> IsFailedToAcquireLockErr e \<Longrightarrow> fst q' = fst q + 1"
  by (auto simp: acquire_attempt_def Let_def IsFailedToAcquireLockErr_def split: if_splits)

definition trying :: "(txid \<rightharpoonup> acquirer) \<Rightarrow> txid \<Rightarrow> bytes \<Rightarrow> int \<times> 'c lock_table \<Rightarrow> 'c lock_sys" where
  "trying acq t key q = \<lparr>sys_table = snd q, sys_acquirers = acq(t \<mapsto> Trying key (fst q))\<rparr>"

definition finished :: "(txid \<rightharpoonup> acquirer) \<Rightarrow> txid \<Rightarrow> lock_error option \<Rightarrow> int \<times> 'c lock_table \<Rightarrow> 'c lock_sys" where
  "finished acq t err q = \<lparr>sys_table = snd q, sys_acquirers = acq(t := map_option Failing err)\<rparr>"

text \<open>One call of the function literal is one step, and so is giving up.\<close>

lemma attempt_step:
  assumes "acquire_attempt key t q = (r, q')"
  shows "r = None \<Longrightarrow> lock_step (trying acq t key q) (Acquired t key) (finished acq t None q')"
    "r = Some e \<Longrightarrow> IsFailedToAcquireLockErr e \<Longrightarrow>
       lock_step (trying acq t key q) (Refused t key) (trying acq t key q')"
    "r = Some e \<Longrightarrow> \<not> IsFailedToAcquireLockErr e \<Longrightarrow>
       lock_step (trying acq t key q) (Rejected t e) (finished acq t (Some e) q')"
  using assms lock_step.acquire [of "trying acq t key q" t key "fst q" "fst q'" "snd q'"]
    lock_step.refuse [of "trying acq t key q" t key "fst q" e "fst q'" "snd q'"]
    lock_step.reject [of "trying acq t key q" t key "fst q" e "fst q'" "snd q'"]
  by (simp_all add: trying_def finished_def)

lemma give_up_step:
  "0 < fst q \<Longrightarrow> lock_step (trying acq t key q) (GaveUp t key) (finished acq t None q)"
  using lock_step.give_up [of "trying acq t key q" t key "fst q"] by (simp add: trying_def finished_def)

lemma acquire_loop_runs:
  assumes env: "\<And>i s. \<exists>evs. lock_run s evs (s\<lparr>sys_table := env i (sys_table s)\<rparr>)"
    and loop: "retry_loop c rnd (\<lambda>i. apsnd (env i)) (acquire_attempt key t) IsFailedToAcquireLockErr
      i b w q = Some (err, w', q')"
    and "fst q = int i"
  shows "\<exists>evs. lock_run (trying acq t key q) evs (finished acq t err q')"
  using loop assms(3)
proof (induction rule: retry_loop_run)
  case (limit i b)
  then show ?case using give_up_step [of q' acq t key]
    by (intro exI [of _ "[GaveUp t key]"]) (simp add: lock_run_Cons)
next
  case (ok i b q)
  then show ?case using attempt_step(1) [OF ok(3)]
    by (intro exI [of _ "[Acquired t key]"]) (simp add: lock_run_Cons)
next
  case (error i b q e)
  then show ?case using attempt_step(3) [OF error(3)]
    by (intro exI [of _ "[Rejected t e]"]) (simp add: lock_run_Cons)
next
  case (gave_up i b q e)
  then show ?case
    using attempt_step(2) [OF gave_up(3) refl gave_up(4), of acq] give_up_step [of q' acq t key]
      acquire_attempt_refused [OF gave_up(3,4)]
    by (intro exI [of _ "[Refused t key, GaveUp t key]"]) (auto simp: lock_run_Cons)
next
  case (again i b w q q1 e b')
  obtain evs where "lock_run (trying acq t key q1) evs (trying acq t key (apsnd (env i) q1))"
    using env [of "trying acq t key q1" i] by (auto simp: trying_def)
  moreover have "fst q1 = int (Suc i)" using acquire_attempt_refused [OF again(2,3)] again.prems by simp
  ultimately obtain evs' where
    "lock_run (trying acq t key q) (Refused t key # evs @ evs') (finished acq t err q')"
    using again.IH attempt_step(2) [OF again(2) refl again(3), of acq]
    by (auto simp: lock_run_Cons lock_run_append)
  then show ?case by blast
qed

text \<open>
  A call of \<open>AcquireLock\<close> whose pauses are filled with steps of other goroutines is a run of the
  step relation: what holds of every interleaving holds of the code's retry loop.
\<close>

lemma acquire_refines_steps:
  assumes env: "\<And>i s. \<exists>evs. lock_run s evs (s\<lparr>sys_table := env i (sys_table s)\<rparr>)"
    and valid: "rc_CapTotalWaitTime (lt_retry l) > 0 \<or> rc_MaxRetries (lt_retry l) > 0"
    and idle: "acq t = None"
    and ret: "AcquireLock rnd env key t l = Some (err, cb, l')"
  shows "\<exists>evs. lock_run \<lparr>sys_table = l, sys_acquirers = acq\<rparr> evs \<lparr>sys_table = l', sys_acquirers = acq\<rparr>"
proof -
  let ?s = "\<lparr>sys_table = l, sys_acquirers = acq\<rparr>"
  have start: "lock_step ?s (Started t key) \<lparr>sys_table = l, sys_acquirers = acq(t \<mapsto> Trying key 0)\<rparr>"
    using lock_step.start [of ?s t key] idle by simp
  obtain e w n1 l1 where loop: "retry_loop (lt_retry l) rnd (\<lambda>i. apsnd (env i)) (acquire_attempt key t)
      IsFailedToAcquireLockErr 0 (rc_InitialBackoff (lt_retry l)) 0 (0, l) = Some (e, w, (n1, l1))"
    and res: "l' = (if e = None then l1 else snd (ReleaseLocksAndUnregisterTx t l1))"
    using ret valid by (auto simp: AcquireLock_def RetryWithConfig_def split: option.splits prod.splits)
  obtain evs where run: "lock_run \<lparr>sys_table = l, sys_acquirers = acq(t \<mapsto> Trying key 0)\<rparr> evs
      \<lparr>sys_table = l1, sys_acquirers = acq(t := map_option Failing e)\<rparr>"
    using acquire_loop_runs [OF env loop, of acq] by (auto simp: trying_def finished_def)
  have upd: "acq(t := None) = acq" using idle by (simp add: fun_upd_idem)
  show ?thesis
  proof (cases e)
    case None
    with start run res upd show ?thesis by (auto simp: lock_run_Cons intro!: exI [of _ "Started t key # evs"])
  next
    case (Some x)
    let ?s1 = "\<lparr>sys_table = l1, sys_acquirers = acq(t \<mapsto> Failing x)\<rparr>"
    have "lock_step ?s1 (Released t) \<lparr>sys_table = l', sys_acquirers = acq\<rparr>"
      using lock_step.fail [of ?s1 t x] Some res upd by simp
    with start run Some show ?thesis
      by (intro exI [of _ "Started t key # evs @ [Released t]"]) (auto simp: lock_run_Cons lock_run_append)
  qed
qed

section \<open>Sample runs\<close>

lemma acquire_step:
  "sys_acquirers s t = Some (Trying k n) \<Longrightarrow> fst (acquire_attempt k t (n, sys_table s)) = None \<Longrightarrow>
     lock_step s (Acquired t k)
       (s\<lparr>sys_table := snd (snd (acquire_attempt k t (n, sys_table s))), sys_acquirers := (sys_acquirers s)(t := None)\<rparr>)"
  by (cases "acquire_attempt k t (n, sys_table s)") (auto intro: lock_step.acquire)

lemmas lock_eval = acquire_attempt_def checkLockableLocked_def RegisterTx_def NewLocks_def
  addToLockLocked_def removeAwaitingLocked_def ReleaseLocksAndUnregisterTx_def removeFromLockLocked_def
  addAwaitingLocked_def add_elem_def

text \<open>Transaction a takes a key and releases it, then b takes it.\<close>

lemma sample_run:
  "\<exists>s. lock_run (locks_init DefaultRetryConfig)
     [Registered ''a'' (None :: unit option), Registered ''b'' None, Started ''a'' [107], Acquired ''a'' [107],
      Released ''a'', Started ''b'' [107], Acquired ''b'' [107]] s"
  unfolding lock_run_Cons
  apply (intro exI conjI)
         apply (rule lock_step.register)
        apply (rule lock_step.register)
       apply (rule lock_step.start, simp)
      apply (rule acquire_step, simp, simp add: lock_eval)
     apply (rule lock_step.release)
    apply (rule lock_step.start, simp add: lock_eval)
   apply (rule acquire_step, simp, simp add: lock_eval)
  apply (rule lock_run.nil)
  done

lemma refuse_step:
  "sys_acquirers s t = Some (Trying k n) \<Longrightarrow> fst (acquire_attempt k t (n, sys_table s)) = Some ErrFailedToAcquireLock \<Longrightarrow>
     lock_step s (Refused t k)
       (s\<lparr>sys_table := snd (snd (acquire_attempt k t (n, sys_table s))),
          sys_acquirers := (sys_acquirers s)(t \<mapsto> Trying k (fst (snd (acquire_attempt k t (n, sys_table s)))))\<rparr>)"
  by (cases "acquire_attempt k t (n, sys_table s)") (auto intro: lock_step.refuse simp: IsFailedToAcquireLockErr_def)

text \<open>Transaction a takes a key; b tries for it, is refused and gives up.\<close>

lemma sample_give_up:
  "\<exists>s. lock_run (locks_init DefaultRetryConfig)
     [Registered ''a'' (None :: unit option), Registered ''b'' None, Started ''a'' [107], Acquired ''a'' [107],
      Started ''b'' [107], Refused ''b'' [107], GaveUp ''b'' [107]] s"
  unfolding lock_run_Cons
  apply (intro exI conjI)
         apply (rule lock_step.register)
        apply (rule lock_step.register)
       apply (rule lock_step.start, simp)
      apply (rule acquire_step, simp, simp add: lock_eval)
     apply (rule lock_step.start, simp add: lock_eval)
    apply (rule refuse_step, simp, simp add: lock_eval)
   apply (rule lock_step.give_up, simp, simp add: lock_eval)
  apply (rule lock_run.nil)
  done

theorem lock_mutual_exclusion_witness:
  "\<exists>s. lock_run (locks_init DefaultRetryConfig)
     [Registered ''a'' (None :: unit option), Registered ''b'' None, Started ''a'' [107], Acquired ''a'' [107],
      Started ''b'' [107], Refused ''b'' [107], GaveUp ''b'' [107]] s \<and> lt_locks (sys_table s) [107] = Some ''a''"
proof -
  obtain s where s: "lock_run (locks_init DefaultRetryConfig)
     ([Registered ''a'' (None :: unit option), Registered ''b'' None, Started ''a'' [107]] @ Acquired ''a'' [107] #
      [Started ''b'' [107], Refused ''b'' [107], GaveUp ''b'' [107]]) s"
    using sample_give_up by auto
  have "lt_locks (sys_table s) [107] = Some ''a''" using lock_mutual_exclusion [OF s] by simp
  with s show ?thesis by auto
qed

theorem lock_table_consistent_witness:
  "\<exists>s. lock_run (locks_init DefaultRetryConfig)
     [Registered ''a'' (None :: unit option), Registered ''b'' None, Started ''a'' [107], Acquired ''a'' [107],
      Released ''a'', Started ''b'' [107], Acquired ''b'' [107]] s \<and> lt_terminate (sys_table s) \<subseteq> lt_registry (sys_table s)"
  using sample_run lock_table_consistent by blast

text \<open>Two transactions that hold one key each and wait for the key of the other.\<close>

definition crossed :: "unit lock_table" where
  "crossed = \<lparr>lt_registry = {''a'', ''b''}, lt_onRelease = [''a'' \<mapsto> None, ''b'' \<mapsto> None],
     lt_locks = [[1] \<mapsto> ''a'', [2] \<mapsto> ''b''], lt_keys = [''a'' \<mapsto> [[1]], ''b'' \<mapsto> [[2]]],
     lt_awaiting = [[2] \<mapsto> [''a''], [1] \<mapsto> [''b'']], lt_waits = [''a'' \<mapsto> [2], ''b'' \<mapsto> [1]],
     lt_terminate = {}, lt_retry = \<lparr>rc_MaxRetries = 1, rc_InitialBackoff = 10, rc_MaxBackoff = 10, rc_CapTotalWaitTime = 20\<rparr>,
     lt_jobs = NewQueue None, lt_done = False\<rparr>"

lemma crossed_wf: "lock_wf crossed"
  unfolding lock_wf_def crossed_def by auto

lemma crossed_cycle: "(''a'', ''a'') \<in> (waits_rel (getNextDependingNode crossed))\<^sup>+"
proof -
  have "(''a'', ''b'') \<in> waits_rel (getNextDependingNode crossed)" "(''b'', ''a'') \<in> waits_rel (getNextDependingNode crossed)"
    by (simp_all add: getNextDependingNode_def crossed_def)
  then show ?thesis by (meson trancl.r_into_trancl trancl.trancl_into_trancl)
qed

theorem deadlock_detected_iff_cycle_witness:
  "\<exists>v. detectDeadlock ''a'' crossed = Some (Some v, crossed\<lparr>lt_terminate := insert v (lt_terminate crossed)\<rparr>)"
  using deadlock_detected_iff_cycle [OF crossed_wf, of "''a''"] crossed_cycle by fastforce

theorem deadlock_resolved_witness:
  "\<exists>v l'. detectDeadlock ''a'' crossed = Some (Some v, l') \<and>
    lt_waits (snd (ReleaseLocksAndUnregisterTx v l')) v = None \<and>
    (''a'', ''a'') \<notin> (waits_rel (getNextDependingNode (snd (ReleaseLocksAndUnregisterTx v l'))))\<^sup>+"
  using deadlock_resolved [OF crossed_wf crossed_cycle] by (auto simp: crossed_def)

end
