(* ===== verification/Transactions.thy ===== *)
theory Transactions
  imports Storage_Recovery Lock_Table
begin

text \<open>
  Transactions (\<open>src/pkg/transaction/transaction.go\<close>, \<open>manager.go\<close>, \<open>common.go\<close>, \<open>errors.go\<close>) over the
  storage manager, the record locks and the write buffer. The transaction objects live in a heap under
  their identifiers. The lock \<open>txLock\<close> is a Go \<open>RWMutex\<close>: held by one writer or by a number of readers;
  releasing it when it is not held is a fatal error. A result \<open>None\<close> is that fatal error, a panic, or
  a call that never returns. The definitions are whole calls on a transaction that no other call on the same
  transaction overlaps (the code allows that: \<open>Rollback\<close> works in part without the mutex of the transaction, see
  \<open>rollback_commit_race\<close> in \<open>Tx_Isolation\<close>); other goroutines (\<open>env\<close>) run while a call sleeps for a record lock.
\<close>

section \<open>State\<close>

datatype tx_mode = UnknownTxMode | ReadOnly | ReadWriteSerialized | WriteReadCommitted

definition tx_IsValid :: "tx_mode \<Rightarrow> bool" where
  "tx_IsValid tm \<longleftrightarrow> tm = ReadOnly \<or> tm = ReadWriteSerialized \<or> tm = WriteReadCommitted"

datatype tx_error =
    ErrReadOnlyTransaction | ErrTransactionClosed | ErrInvalidTxMode | ErrUnknownTransactionMode
  | TxLockError "lock_error retry_error" | TxStorageError storage_error

definition IsReadOnlyTransactionErr :: "tx_error \<Rightarrow> bool" where
  "IsReadOnlyTransactionErr err \<longleftrightarrow> err = ErrReadOnlyTransaction"

definition IsTransactionClosedErr :: "tx_error \<Rightarrow> bool" where
  "IsTransactionClosedErr err \<longleftrightarrow> err = ErrTransactionClosed"

record transaction =
  tx_mode :: tx_mode
  tx_buffer :: buffer
  tx_active :: bool

text \<open>A lock's release callback is the rollback of a transaction, so it is the identifier of that one.\<close>

record tx_manager =
  tm_storage :: storage
  tm_locks :: "txid lock_table"
  tm_writer :: bool
  tm_readers :: nat
  tm_txs :: "txid \<rightharpoonup> transaction"
  tm_started :: u64
  tm_completed :: u64
  tm_aborted :: u64

definition NewTxManager :: "storage \<Rightarrow> tx_manager" where
  "NewTxManager s =
     \<lparr>tm_storage = s, tm_locks = NewLocksWithDefaults, tm_writer = False, tm_readers = 0, tm_txs = Map.empty,
      tm_started = 0, tm_completed = 0, tm_aborted = 0\<rparr>"

section \<open>The isolation lock\<close>

definition AcquireSerializeLock :: "tx_manager \<Rightarrow> tx_manager option" where
  "AcquireSerializeLock m = (if tm_writer m \<or> tm_readers m > 0 then None else Some (m\<lparr>tm_writer := True\<rparr>))"

definition ReleaseSerializeLock :: "tx_manager \<Rightarrow> tx_manager option" where
  "ReleaseSerializeLock m = (if tm_writer m then Some (m\<lparr>tm_writer := False\<rparr>) else None)"

definition AcquireNonSerializeLock :: "tx_manager \<Rightarrow> tx_manager option" where
  "AcquireNonSerializeLock m = (if tm_writer m then None else Some (m\<lparr>tm_readers := Suc (tm_readers m)\<rparr>))"

definition ReleaseNonSerializeLock :: "tx_manager \<Rightarrow> tx_manager option" where
  "ReleaseNonSerializeLock m = (if tm_readers m > 0 then Some (m\<lparr>tm_readers := tm_readers m - 1\<rparr>) else None)"

section \<open>Beginning\<close>

definition put_tx :: "txid \<Rightarrow> transaction \<Rightarrow> tx_manager \<Rightarrow> tx_manager" where
  "put_tx txId tx m = m\<lparr>tm_txs := (tm_txs m)(txId \<mapsto> tx)\<rparr>"

text \<open>\<open>txId\<close> is the 256-bit random identifier of the new transaction. \<open>None\<close>: the call waits for the isolation lock.\<close>

definition BeginTransaction :: "txid \<Rightarrow> tx_mode \<Rightarrow> tx_manager \<Rightarrow> ((tx_error + txid) \<times> tx_manager) option" where
  "BeginTransaction txId mode m =
     (let m1 = m\<lparr>tm_started := tm_started m + 1\<rparr>;
          tx = \<lparr>tx_mode = mode, tx_buffer = NewBuffer, tx_active = True\<rparr>
      in case mode of
           ReadWriteSerialized \<Rightarrow>
             map_option (\<lambda>m2. (Inr txId, put_tx txId tx m2)) (AcquireSerializeLock m1)
         | ReadOnly \<Rightarrow>
             map_option (\<lambda>m2. (Inr txId, put_tx txId tx m2)) (AcquireNonSerializeLock m1)
         | WriteReadCommitted \<Rightarrow>
             map_option (\<lambda>m2. (Inr txId, put_tx txId tx (m2\<lparr>tm_locks := RegisterTx txId (Some txId) (tm_locks m2)\<rparr>)))
               (AcquireNonSerializeLock m1)
         | UnknownTxMode \<Rightarrow> Some (Inl ErrUnknownTransactionMode, m1))"

section \<open>Ending\<close>

definition IncrementTxCompleted :: "tx_manager \<Rightarrow> tx_manager" where
  "IncrementTxCompleted m = m\<lparr>tm_completed := tm_completed m + 1\<rparr>"

definition IncrementTxAborted :: "tx_manager \<Rightarrow> tx_manager" where
  "IncrementTxAborted m = m\<lparr>tm_aborted := tm_aborted m + 1\<rparr>"

text \<open>The end of both rollbacks: release the isolation lock of the mode and count the abort.\<close>

definition release_mode :: "tx_mode \<Rightarrow> tx_manager \<Rightarrow> (tx_error option \<times> tx_manager) option" where
  "release_mode mode m =
     (case mode of
        ReadOnly \<Rightarrow> map_option (\<lambda>m'. (None, IncrementTxAborted m')) (ReleaseNonSerializeLock m)
      | WriteReadCommitted \<Rightarrow> map_option (\<lambda>m'. (None, IncrementTxAborted m')) (ReleaseNonSerializeLock m)
      | ReadWriteSerialized \<Rightarrow> map_option (\<lambda>m'. (None, IncrementTxAborted m')) (ReleaseSerializeLock m)
      | UnknownTxMode \<Rightarrow> Some (Some ErrUnknownTransactionMode, m))"

definition rollbackSafeForRegisterTxLocked :: "txid \<Rightarrow> tx_manager \<Rightarrow> (tx_error option \<times> tx_manager) option" where
  "rollbackSafeForRegisterTxLocked txId m =
     (case tm_txs m txId of
        None \<Rightarrow> None
      | Some tx \<Rightarrow>
          if \<not> tx_active tx then Some (Some ErrTransactionClosed, m)
          else release_mode (tx_mode tx) (put_tx txId (tx\<lparr>tx_active := False, tx_buffer := buffer_Clear (tx_buffer tx)\<rparr>) m))"

text \<open>\<open>ReleaseLocksAndUnregisterTx\<close> with the callback it runs; the callback's error is ignored.\<close>

definition release_tx :: "txid \<Rightarrow> tx_manager \<Rightarrow> tx_manager option" where
  "release_tx txId m =
     (case ReleaseLocksAndUnregisterTx txId (tm_locks m) of
        (None, l) \<Rightarrow> Some (m\<lparr>tm_locks := l\<rparr>)
      | (Some callback, l) \<Rightarrow> map_option snd (rollbackSafeForRegisterTxLocked callback (m\<lparr>tm_locks := l\<rparr>)))"

definition rollbackLocked :: "txid \<Rightarrow> tx_manager \<Rightarrow> (tx_error option \<times> tx_manager) option" where
  "rollbackLocked txId m =
     (case tm_txs m txId of
        None \<Rightarrow> None
      | Some tx \<Rightarrow>
          if \<not> tx_active tx then Some (Some ErrTransactionClosed, m)
          else let m1 = put_tx txId (tx\<lparr>tx_active := False, tx_buffer := buffer_Clear (tx_buffer tx)\<rparr>) m
               in case (if tx_mode tx = WriteReadCommitted then release_tx txId m1 else Some m1) of
                    None \<Rightarrow> None
                  | Some m2 \<Rightarrow> release_mode (tx_mode tx) m2)"

text \<open>
  \<open>Rollback\<close>: the record locks are released, with the callback run, before the mutex of the transaction is taken. As
  one function this is a call that no other call on the same transaction overlaps.
\<close>

definition Rollback :: "txid \<Rightarrow> tx_manager \<Rightarrow> (tx_error option \<times> tx_manager) option" where
  "Rollback txId m = (case release_tx txId m of None \<Rightarrow> None | Some m1 \<Rightarrow> rollbackLocked txId m1)"

definition batch_entries :: "operation list \<Rightarrow> wentry list" where
  "batch_entries ops =
     map (\<lambda>bop. if o_IsDelete bop then new_entry 0 OpTypeDelete (o_Key bop) None
               else new_entry 0 OpTypePut (o_Key bop) (o_Value bop)) ops"

text \<open>
  \<open>Commit\<close>: the buffered operations go to the storage as one batch, in key order; the deferred calls
  release the record locks first and the isolation lock last.
\<close>

definition end_commit :: "txid \<Rightarrow> tx_mode \<Rightarrow> tx_manager \<Rightarrow> tx_manager option" where
  "end_commit txId mode m =
     (if mode = WriteReadCommitted
      then case release_tx txId m of None \<Rightarrow> None | Some m1 \<Rightarrow> ReleaseNonSerializeLock m1
      else if mode = ReadWriteSerialized then ReleaseSerializeLock m else Some m)"

definition Commit ::
  "(nat \<Rightarrow> storage \<Rightarrow> storage) \<Rightarrow> world \<Rightarrow> txid \<Rightarrow> tx_manager \<Rightarrow> (tx_error option \<times> tx_manager) option" where
  "Commit senv wd txId m =
     (case tm_txs m txId of
        None \<Rightarrow> None
      | Some tx \<Rightarrow>
          if \<not> tx_active tx then Some (Some ErrTransactionClosed, m)
          else let m1 = put_tx txId (tx\<lparr>tx_active := False\<rparr>) m in
          if \<not> tx_IsValid (tx_mode tx) then Some (Some ErrInvalidTxMode, m1)
          else if tx_mode tx = ReadOnly
          then map_option (\<lambda>m2. (None, IncrementTxCompleted m2)) (ReleaseNonSerializeLock m1)
          else if NumberOfQueuedOperations (tx_buffer tx) > 0
          then case ApplyBatch senv wd (batch_entries (Operations (tx_buffer tx))) (tm_storage m1) of
                 None \<Rightarrow> None
               | Some (Some err, s) \<Rightarrow>
                   map_option (Pair (Some (TxStorageError err)))
                     (end_commit txId (tx_mode tx) (IncrementTxAborted (m1\<lparr>tm_storage := s\<rparr>)))
               | Some (None, s) \<Rightarrow>
                   map_option (Pair None) (end_commit txId (tx_mode tx) (IncrementTxCompleted (m1\<lparr>tm_storage := s\<rparr>)))
          else map_option (Pair None) (end_commit txId (tx_mode tx) (IncrementTxCompleted m1)))"

section \<open>Record locks\<close>

text \<open>
  \<open>AcquireLock\<close> as in \<open>Lock_Table\<close>, with the other goroutines acting on the whole manager between its
  attempts and the release callback run.
\<close>

definition on_locks :: "(int \<times> txid lock_table, lock_error) attempt \<Rightarrow> (int \<times> tx_manager, lock_error) attempt" where
  "on_locks f q = (case f (fst q, tm_locks (snd q)) of (e, n, l) \<Rightarrow> (e, n, (snd q)\<lparr>tm_locks := l\<rparr>))"

definition tx_AcquireLock ::
  "(nat \<Rightarrow> int) \<Rightarrow> (nat \<Rightarrow> tx_manager \<Rightarrow> tx_manager) \<Rightarrow> bytes \<Rightarrow> txid \<Rightarrow> tx_manager \<Rightarrow>
   (lock_error retry_error option \<times> tx_manager) option" where
  "tx_AcquireLock rnd env key txID m =
     (case RetryWithConfig (lt_retry (tm_locks m)) rnd (\<lambda>i. apsnd (env i)) (on_locks (acquire_attempt key txID))
             IsFailedToAcquireLockErr (0, m) of
        None \<Rightarrow> None
      | Some (None, _, (_, m')) \<Rightarrow> Some (None, m')
      | Some (Some err, _, (_, m')) \<Rightarrow> map_option (Pair (Some err)) (release_tx txID m'))"

definition acquireWriteTxLock ::
  "(nat \<Rightarrow> int) \<Rightarrow> (nat \<Rightarrow> tx_manager \<Rightarrow> tx_manager) \<Rightarrow> bytes \<Rightarrow> txid \<Rightarrow> tx_manager \<Rightarrow>
   ((tx_error + bool) \<times> tx_manager) option" where
  "acquireWriteTxLock rnd env key txId m =
     (case tm_txs m txId of
        None \<Rightarrow> None
      | Some tx \<Rightarrow>
          (case tx_mode tx of
             UnknownTxMode \<Rightarrow> Some (Inl ErrInvalidTxMode, m)
           | ReadOnly \<Rightarrow> Some (Inl ErrReadOnlyTransaction, m)
           | ReadWriteSerialized \<Rightarrow> Some (Inr True, m)
           | WriteReadCommitted \<Rightarrow>
               (case tx_AcquireLock rnd env key txId m of
                  None \<Rightarrow> None
                | Some (None, m1) \<Rightarrow> Some (Inr True, m1)
                | Some (Some err, m1) \<Rightarrow> map_option (\<lambda>r. (Inl (TxLockError err), snd r)) (rollbackLocked txId m1))))"

section \<open>Reading and writing\<close>

definition tx_Get :: "(bytes \<Rightarrow> u64) \<Rightarrow> bytes \<Rightarrow> txid \<Rightarrow> tx_manager \<Rightarrow> (tx_error + slice \<times> bool) option" where
  "tx_Get xx key txId m =
     (case tm_txs m txId of
        None \<Rightarrow> None
      | Some tx \<Rightarrow>
          if \<not> tx_active tx then Some (Inl ErrTransactionClosed)
          else (case buffer_Get key (tx_buffer tx) of
                  (val, True) \<Rightarrow> Some (Inr (if val = None then (None, False) else (val, True)))
                | (val, False) \<Rightarrow> map_option (map_sum TxStorageError id) (storage_Get xx key (tm_storage m))))"

text \<open>
  \<open>GetForUpdate\<close> holds \<open>tx.mu\<close> and calls \<open>Get\<close>, which waits for \<open>tx.mu\<close>: once the record lock is
  acquired the call never returns.
\<close>

definition GetForUpdate ::
  "(nat \<Rightarrow> int) \<Rightarrow> (nat \<Rightarrow> tx_manager \<Rightarrow> tx_manager) \<Rightarrow> bytes \<Rightarrow> txid \<Rightarrow> tx_manager \<Rightarrow>
   ((tx_error + slice \<times> bool \<times> bool) \<times> tx_manager) option" where
  "GetForUpdate rnd env key txId m =
     (case acquireWriteTxLock rnd env key txId m of
        None \<Rightarrow> None
      | Some (Inl err, m1) \<Rightarrow> Some (Inl err, m1)
      | Some (Inr False, m1) \<Rightarrow> Some (Inr (None, False, False), m1)
      | Some (Inr True, m1) \<Rightarrow> None)"

definition buffered_write ::
  "(nat \<Rightarrow> int) \<Rightarrow> (nat \<Rightarrow> tx_manager \<Rightarrow> tx_manager) \<Rightarrow> bytes \<Rightarrow> (buffer \<Rightarrow> buffer) \<Rightarrow> txid \<Rightarrow> tx_manager \<Rightarrow>
   ((tx_error + bool) \<times> tx_manager) option" where
  "buffered_write rnd env key change txId m =
     (case tm_txs m txId of
        None \<Rightarrow> None
      | Some tx0 \<Rightarrow>
          if \<not> tx_active tx0 then Some (Inl ErrTransactionClosed, m)
          else (case acquireWriteTxLock rnd env key txId m of
                  None \<Rightarrow> None
                | Some (Inl err, m1) \<Rightarrow> Some (Inl err, m1)
                | Some (Inr False, m1) \<Rightarrow> Some (Inr False, m1)
                | Some (Inr True, m1) \<Rightarrow>
                    (case tm_txs m1 txId of
                       None \<Rightarrow> None
                     | Some tx \<Rightarrow> Some (Inr True, put_tx txId (tx\<lparr>tx_buffer := change (tx_buffer tx)\<rparr>) m1))))"

definition tx_Put ::
  "(nat \<Rightarrow> int) \<Rightarrow> (nat \<Rightarrow> tx_manager \<Rightarrow> tx_manager) \<Rightarrow> bytes \<Rightarrow> slice \<Rightarrow> txid \<Rightarrow> tx_manager \<Rightarrow>
   ((tx_error + bool) \<times> tx_manager) option" where
  "tx_Put rnd env key value txId m = buffered_write rnd env key (buffer_Put key value) txId m"

definition tx_Delete ::
  "(nat \<Rightarrow> int) \<Rightarrow> (nat \<Rightarrow> tx_manager \<Rightarrow> tx_manager) \<Rightarrow> bytes \<Rightarrow> txid \<Rightarrow> tx_manager \<Rightarrow>
   ((tx_error + bool) \<times> tx_manager) option" where
  "tx_Delete rnd env key txId m = buffered_write rnd env key (buffer_Delete key) txId m"

section \<open>Iterators and information\<close>

text \<open>
  The iterator of a transaction: empty, the buffer's, the storage's, or both merged; limited to a
  range, the buffer's iterator is bounded before it is merged.
\<close>

datatype ('b, 'i) tx_iter = TxEmpty | TxBuffer 'b | TxStorage 'i | TxMerged "('b + 'i) hier"

definition tx_iterator :: "'b \<Rightarrow> 'e + 'i \<Rightarrow> transaction \<Rightarrow> ('b, 'i) tx_iter" where
  "tx_iterator bufferIter storageIter tx =
     (if \<not> tx_active tx then TxEmpty
      else case storageIter of
             Inl _ \<Rightarrow> TxBuffer bufferIter
           | Inr it \<Rightarrow>
               if NumberOfQueuedOperations (tx_buffer tx) = 0 then TxStorage it
               else TxMerged (NewHierarchicalIterator [Inl bufferIter, Inr it]))"

definition tx_NewIterator :: "txid \<Rightarrow> tx_manager \<Rightarrow> (buffer_iter, sst_iter engine_iter) tx_iter option" where
  "tx_NewIterator txId m =
     map_option (\<lambda>tx. tx_iterator (buffer_NewIterator (tx_buffer tx)) (GetIterator (tm_storage m)) tx) (tm_txs m txId)"

definition NewRangeIterator ::
  "slice \<Rightarrow> slice \<Rightarrow> txid \<Rightarrow> tx_manager \<Rightarrow> (buffer_iter bounded, sst_iter engine_iter bounded) tx_iter option" where
  "NewRangeIterator startKey endKey txId m =
     map_option (\<lambda>tx. tx_iterator (NewBoundedIterator (buffer_NewIterator (tx_buffer tx)) startKey endKey)
       (GetRangeIterator startKey endKey (tm_storage m)) tx) (tm_txs m txId)"

record tx_info =
  ti_TxID :: txid
  ti_Mode :: tx_mode
  ti_NumberOfQueuedOperations :: int
  ti_IsActive :: bool

definition GetInfo :: "txid \<Rightarrow> tx_manager \<Rightarrow> tx_info option" where
  "GetInfo txId m =
     map_option (\<lambda>tx. \<lparr>ti_TxID = txId, ti_Mode = tx_mode tx,
         ti_NumberOfQueuedOperations = int (NumberOfQueuedOperations (tx_buffer tx)), ti_IsActive = tx_active tx\<rparr>)
       (tm_txs m txId)"

definition GetTransactionStats :: "tx_manager \<Rightarrow> (string \<times> u64) list" where
  "GetTransactionStats m =
     [(''tx_started'', tm_started m), (''tx_completed'', tm_completed m), (''tx_aborted'', tm_aborted m),
      (''tx_active'', tm_started m - tm_completed m - tm_aborted m)]"

end
