(* ===== verification/Tx_Isolation.thy ===== *)
theory Tx_Isolation
  imports Transactions
begin

text \<open>
  Isolation: the transaction manager as a step relation over the methods of its transactions, and what
  every reachable state promises. A record lock is acquired in several steps, between which other
  goroutines run; every other call is one step, so calls on one transaction do not overlap here. What a \<open>Rollback\<close>
  does that overlaps a \<open>Commit\<close> of its transaction is shown separately.
\<close>

section \<open>The invariant\<close>

definition running :: "(tx_mode \<Rightarrow> bool) \<Rightarrow> tx_manager \<Rightarrow> txid set" where
  "running P m = {t. \<exists>tx. tm_txs m t = Some tx \<and> tx_active tx \<and> P (tx_mode tx)}"

abbreviation shared_mode :: "tx_mode \<Rightarrow> bool" where
  "shared_mode mode \<equiv> mode \<noteq> ReadWriteSerialized"

text \<open>
  The isolation lock counts the active transactions: held by the active serialized one, or by as many
  readers as there are active others. The transactions registered for record locks are the active ones
  that use them, each with its own rollback as the callback.
\<close>

definition tx_inv :: "tx_manager \<Rightarrow> bool" where
  "tx_inv m \<longleftrightarrow> finite (dom (tm_txs m)) \<and> lock_wf (tm_locks m) \<and>
     (\<forall>t tx. tm_txs m t = Some tx \<longrightarrow> tx_mode tx \<noteq> UnknownTxMode) \<and>
     tm_readers m = card (running shared_mode m) \<and>
     card (running (Not \<circ> shared_mode) m) = (if tm_writer m then 1 else 0) \<and>
     (tm_writer m \<longrightarrow> tm_readers m = 0) \<and>
     lt_registry (tm_locks m) = running ((=) WriteReadCommitted) m \<and>
     (\<forall>t \<in> lt_registry (tm_locks m). lt_onRelease (tm_locks m) t = Some (Some t))"

lemma running_finite: "finite (dom (tm_txs m)) \<Longrightarrow> finite (running P m)"
  by (rule finite_subset [of _ "dom (tm_txs m)"]) (auto simp: running_def)

lemma running_cong: "tm_txs m' = tm_txs m \<Longrightarrow> running P m' = running P m"
  by (simp add: running_def)

lemma running_put:
  "running P (put_tx t tx m) = (if tx_active tx \<and> P (tx_mode tx) then insert t (running P m) else running P m - {t})"
  by (auto simp: running_def put_tx_def)

lemma tx_invD:
  assumes "tx_inv m"
  shows "finite (dom (tm_txs m))" "lock_wf (tm_locks m)" "tm_txs m t = Some tx \<Longrightarrow> tx_mode tx \<noteq> UnknownTxMode"
    "tm_readers m = card (running shared_mode m)" "card (running (Not \<circ> shared_mode) m) = (if tm_writer m then 1 else 0)"
    "tm_writer m \<Longrightarrow> tm_readers m = 0" "lt_registry (tm_locks m) = running ((=) WriteReadCommitted) m"
    "t \<in> lt_registry (tm_locks m) \<Longrightarrow> lt_onRelease (tm_locks m) t = Some (Some t)"
  using assms unfolding tx_inv_def by blast+

lemma tx_inv_new: "tx_inv (NewTxManager s)"
  by (simp add: tx_inv_def NewTxManager_def running_def NewLocksWithDefaults_def) (simp add: NewLocks_def)

lemma put_tx_fields [simp]:
  "tm_txs (put_tx t tx m) = (tm_txs m)(t \<mapsto> tx)" "tm_locks (put_tx t tx m) = tm_locks m"
  "tm_readers (put_tx t tx m) = tm_readers m" "tm_writer (put_tx t tx m) = tm_writer m"
  "tm_storage (put_tx t tx m) = tm_storage m"
  by (simp_all add: put_tx_def)

lemma count_fields [simp]:
  "tm_txs (IncrementTxCompleted m) = tm_txs m" "tm_locks (IncrementTxCompleted m) = tm_locks m"
  "tm_readers (IncrementTxCompleted m) = tm_readers m" "tm_writer (IncrementTxCompleted m) = tm_writer m"
  "tm_storage (IncrementTxCompleted m) = tm_storage m"
  "tm_txs (IncrementTxAborted m) = tm_txs m" "tm_locks (IncrementTxAborted m) = tm_locks m"
  "tm_readers (IncrementTxAborted m) = tm_readers m" "tm_writer (IncrementTxAborted m) = tm_writer m"
  "tm_storage (IncrementTxAborted m) = tm_storage m"
  by (simp_all add: IncrementTxCompleted_def IncrementTxAborted_def)

text \<open>Changes that touch neither the transactions nor the isolation lock.\<close>

lemma tx_inv_cong:
  assumes "tx_inv m" "tm_txs m' = tm_txs m" "tm_readers m' = tm_readers m" "tm_writer m' = tm_writer m"
    and "lock_wf (tm_locks m')" "lt_registry (tm_locks m') = lt_registry (tm_locks m)"
    and "lt_onRelease (tm_locks m') = lt_onRelease (tm_locks m)"
  shows "tx_inv m'"
  using assms(1,5) unfolding tx_inv_def running_cong [OF assms(2)] assms(2-4,6,7) by blast

lemma tx_inv_buffer:
  assumes "tx_inv m" "tm_txs m t = Some tx"
  shows "tx_inv (put_tx t (tx\<lparr>tx_buffer := b\<rparr>) m)"
proof -
  have r: "running P (put_tx t (tx\<lparr>tx_buffer := b\<rparr>) m) = running P m" for P
    using assms(2) by (auto simp: running_def put_tx_def)
  show ?thesis using assms unfolding tx_inv_def r by auto
qed

text \<open>A transaction that ends: it gives up its record locks and its share of the isolation lock.\<close>

lemma tx_inv_retire:
  assumes "tx_inv m" "tm_txs m t = Some tx" "tx_active tx"
    and "tm_txs m' = (tm_txs m)(t \<mapsto> tx')" "\<not> tx_active tx'" "tx_mode tx' = tx_mode tx"
    and "tm_locks m' = snd (ReleaseLocksAndUnregisterTx t (tm_locks m))"
    and "tm_readers m' = (if shared_mode (tx_mode tx) then tm_readers m - 1 else tm_readers m)"
    and "tm_writer m' = (shared_mode (tx_mode tx) \<and> tm_writer m)"
  shows "tx_inv m'"
proof -
  note i = tx_invD [OF assms(1)]
  have r: "running P m' = running P m - {t}" for P using assms(4,5) by (auto simp: running_def)
  have t: "t \<in> running P m \<longleftrightarrow> P (tx_mode tx)" for P using assms(2,3) by (auto simp: running_def)
  have locks: "lt_registry (tm_locks m') = lt_registry (tm_locks m) - {t}" "lt_onRelease (tm_locks m') = lt_onRelease (tm_locks m)"
    unfolding assms(7)
    by (simp_all add: ReleaseLocksAndUnregisterTx_def checkLockableLocked_def Let_def fold_remove_fields)
  have wf: "lock_wf (tm_locks m')" unfolding assms(7) by (rule release_wf [OF i(2)])
  have "card (running P m') = card (running P m) - (if P (tx_mode tx) then 1 else 0)" for P
    unfolding r using t [of P] by (simp add: card_Diff_singleton_if)
  note c = this [of shared_mode] this [of "Not \<circ> shared_mode"]
  show ?thesis
    unfolding tx_inv_def using i(1,3,4-8) c locks wf assms(2,4,6,8,9) r [of "(=) WriteReadCommitted"]
    by (auto split: if_splits)
qed

lemma tx_inv_enter:
  assumes "tx_inv m" "tm_txs m t = None" "tm_txs m' = (tm_txs m)(t \<mapsto> tx)" "tx_active tx" "tx_mode tx \<noteq> UnknownTxMode"
    and "\<not> tm_writer m" "shared_mode (tx_mode tx) \<or> tm_readers m = 0"
    and "tm_readers m' = (if shared_mode (tx_mode tx) then Suc (tm_readers m) else tm_readers m)"
    and "tm_writer m' = (\<not> shared_mode (tx_mode tx))"
    and "tm_locks m' = (if tx_mode tx = WriteReadCommitted then RegisterTx t (Some t) (tm_locks m) else tm_locks m)"
  shows "tx_inv m'"
proof -
  note i = tx_invD [OF assms(1)]
  have r: "running P m' = (if P (tx_mode tx) then insert t (running P m) else running P m)" for P
    using assms(2-4) by (auto simp: running_def)
  have "card (running P m') = card (running P m) + (if P (tx_mode tx) then 1 else 0)" for P
    unfolding r using running_finite [OF i(1), of P] assms(2) by (simp add: running_def)
  note c = this [of shared_mode] this [of "Not \<circ> shared_mode"]
  have locks: "lt_registry (tm_locks m') = running ((=) WriteReadCommitted) m'"
    "\<forall>u \<in> lt_registry (tm_locks m'). lt_onRelease (tm_locks m') u = Some (Some u)"
    using i(7,8) assms(10) r [of "(=) WriteReadCommitted"] by (auto simp: RegisterTx_def)
  have wf: "lock_wf (tm_locks m')" using i(2) register_wf [OF i(2)] assms(10) by simp
  show ?thesis
    unfolding tx_inv_def using i(1,3,4-6) c locks wf assms(2,3,5-9) by auto
qed

lemma tx_inv_begin:
  assumes "tx_inv m" "tm_txs m t = None" "BeginTransaction t mode m = Some (r, m')"
  shows "tx_inv m'"
proof (cases "mode = UnknownTxMode")
  case True
  then have "m' = m\<lparr>tm_started := tm_started m + 1\<rparr>" using assms(3) by (simp add: BeginTransaction_def Let_def)
  then show ?thesis using tx_inv_cong [OF assms(1), of m'] tx_invD(2) [OF assms(1)] by simp
next
  case False
  let ?tx = "\<lparr>tx_mode = mode, tx_buffer = NewBuffer, tx_active = True\<rparr>"
  note defs = BeginTransaction_def Let_def AcquireSerializeLock_def AcquireNonSerializeLock_def put_tx_def
  show ?thesis
    by (rule tx_inv_enter [OF assms(1,2), of m' ?tx])
       (use assms(3) False in \<open>cases mode; auto simp: defs split: if_splits\<close>)+
qed

section \<open>Ending a transaction\<close>

lemma tx_running:
  assumes "tx_inv m" "tm_txs m t = Some tx" "tx_active tx"
  shows "shared_mode (tx_mode tx) \<Longrightarrow> 0 < tm_readers m" "\<not> shared_mode (tx_mode tx) \<Longrightarrow> tm_writer m"
    "t \<in> lt_registry (tm_locks m) \<longleftrightarrow> tx_mode tx = WriteReadCommitted"
proof -
  note i = tx_invD [OF assms(1)]
  have t: "t \<in> running P m \<longleftrightarrow> P (tx_mode tx)" for P using assms(2,3) by (auto simp: running_def)
  show "shared_mode (tx_mode tx) \<Longrightarrow> 0 < tm_readers m"
    using t [of shared_mode] running_finite [OF i(1), of shared_mode] i(4) by (auto simp: card_gt_0_iff)
  show "\<not> shared_mode (tx_mode tx) \<Longrightarrow> tm_writer m"
    using t [of "Not \<circ> shared_mode"] running_finite [OF i(1), of "Not \<circ> shared_mode"] i(5)
    by (auto simp: card_eq_0_iff split: if_splits)
  show "t \<in> lt_registry (tm_locks m) \<longleftrightarrow> tx_mode tx = WriteReadCommitted"
    using t [of "(=) WriteReadCommitted"] i(7) by auto
qed

lemma registered_running:
  assumes "tx_inv m" "t \<in> lt_registry (tm_locks m)"
  obtains tx where "tm_txs m t = Some tx" "tx_active tx" "tx_mode tx = WriteReadCommitted"
  using assms tx_invD(7) [OF assms(1)] by (auto simp: running_def)

text \<open>The rollback that a release of record locks runs.\<close>

definition rolled_back :: "txid \<Rightarrow> transaction \<Rightarrow> tx_manager \<Rightarrow> tx_manager" where
  "rolled_back t tx m =
     IncrementTxAborted (put_tx t (tx\<lparr>tx_active := False, tx_buffer := []\<rparr>)
       (m\<lparr>tm_locks := snd (ReleaseLocksAndUnregisterTx t (tm_locks m)),
          tm_readers := (if shared_mode (tx_mode tx) then tm_readers m - 1 else tm_readers m),
          tm_writer := (shared_mode (tx_mode tx) \<and> tm_writer m)\<rparr>))"

lemma rolled_back_inv:
  "tx_inv m \<Longrightarrow> tm_txs m t = Some tx \<Longrightarrow> tx_active tx \<Longrightarrow> tx_inv (rolled_back t tx m)"
  by (rule tx_inv_retire [of m t tx _ "tx\<lparr>tx_active := False, tx_buffer := []\<rparr>"])
     (simp_all add: rolled_back_def IncrementTxAborted_def put_tx_def)

lemma release_callback:
  assumes "tx_inv m" "t \<in> lt_registry (tm_locks m)"
  shows "ReleaseLocksAndUnregisterTx t (tm_locks m) = (Some t, snd (ReleaseLocksAndUnregisterTx t (tm_locks m)))"
  using tx_invD(8) [OF assms] assms(2)
  by (simp add: ReleaseLocksAndUnregisterTx_def checkLockableLocked_def Let_def fold_remove_fields)

lemma release_tx_running:
  assumes "tx_inv m" "tm_txs m t = Some tx" "tx_active tx"
  shows "release_tx t m = Some (if tx_mode tx = WriteReadCommitted then rolled_back t tx m else m)"
proof (cases "tx_mode tx = WriteReadCommitted")
  case True
  note run = tx_running [OF assms]
  obtain l where l: "ReleaseLocksAndUnregisterTx t (tm_locks m) = (Some t, l)"
    using release_callback [OF assms(1), of t] run(3) True by metis
  show ?thesis
    using assms(2,3) True run(1) l
    by (auto simp: release_tx_def rollbackSafeForRegisterTxLocked_def release_mode_def ReleaseNonSerializeLock_def rolled_back_def
          put_tx_def buffer_Clear_def IncrementTxAborted_def)
next
  case False
  then have "t \<notin> lt_registry (tm_locks m)" using tx_running(3) [OF assms] by simp
  with False show ?thesis by (simp add: release_tx_def release_unregistered)
qed

lemma release_tx_ended:
  assumes "tx_inv m" "tm_txs m t = Some tx" "\<not> tx_active tx"
  shows "release_tx t m = Some m"
proof -
  have "t \<notin> lt_registry (tm_locks m)" using assms tx_invD(7) [OF assms(1)] by (auto simp: running_def)
  then show ?thesis by (simp add: release_tx_def release_unregistered)
qed

lemma Rollback_running:
  assumes "tx_inv m" "tm_txs m t = Some tx" "tx_active tx"
  shows "Rollback t m = Some (if tx_mode tx = WriteReadCommitted then Some ErrTransactionClosed else None, rolled_back t tx m)"
proof (cases "tx_mode tx = WriteReadCommitted")
  case True
  then show ?thesis
    using release_tx_running [OF assms]
    by (simp add: Rollback_def rollbackLocked_def) (simp add: rolled_back_def IncrementTxAborted_def put_tx_def)
next
  case False
  then have "t \<notin> lt_registry (tm_locks m)" using tx_running(3) [OF assms] by simp
  with False show ?thesis
    using release_tx_running [OF assms] assms(2,3) tx_running(1,2) [OF assms] tx_invD(3) [OF assms(1,2)]
    by (cases "tx_mode tx")
       (auto simp: Rollback_def rollbackLocked_def release_mode_def ReleaseNonSerializeLock_def ReleaseSerializeLock_def
          rolled_back_def put_tx_def IncrementTxAborted_def release_unregistered buffer_Clear_def Let_def)
qed

lemma Rollback_ended:
  assumes "tx_inv m" "tm_txs m t = Some tx" "\<not> tx_active tx"
  shows "Rollback t m = Some (Some ErrTransactionClosed, m)"
  using release_tx_ended [OF assms] assms(2,3) by (simp add: Rollback_def rollbackLocked_def)

lemma release_tx_inactive:
  assumes "tm_txs m t = Some tx" "\<not> tx_active tx"
    and "t \<in> lt_registry (tm_locks m) \<Longrightarrow> lt_onRelease (tm_locks m) t = Some (Some t)"
  shows "release_tx t m = Some (m\<lparr>tm_locks := snd (ReleaseLocksAndUnregisterTx t (tm_locks m))\<rparr>)"
proof (cases "t \<in> lt_registry (tm_locks m)")
  case True
  then have "fst (ReleaseLocksAndUnregisterTx t (tm_locks m)) = Some t"
    using assms(3) by (simp add: ReleaseLocksAndUnregisterTx_def checkLockableLocked_def Let_def fold_remove_fields)
  then obtain l where "ReleaseLocksAndUnregisterTx t (tm_locks m) = (Some t, l)" by (metis prod.collapse)
  with assms(1,2) show ?thesis by (simp add: release_tx_def rollbackSafeForRegisterTxLocked_def)
qed (simp add: release_tx_def release_unregistered)

lemma rollbackLocked_running:
  assumes "tx_inv m" "tm_txs m t = Some tx" "tx_active tx"
  shows "rollbackLocked t m = Some (None, rolled_back t tx m)"
proof -
  note run = tx_running [OF assms] and i = tx_invD [OF assms(1)]
  let ?m1 = "put_tx t (tx\<lparr>tx_active := False, tx_buffer := buffer_Clear (tx_buffer tx)\<rparr>) m"
  have "release_tx t ?m1 = Some (?m1\<lparr>tm_locks := snd (ReleaseLocksAndUnregisterTx t (tm_locks m))\<rparr>)"
    using release_tx_inactive [of ?m1 t] i(8) [of t] by (simp add: put_tx_def)
  then show ?thesis
    using assms(2,3) run i(3) [OF assms(2)]
    by (cases "tx_mode tx")
       (auto simp: rollbackLocked_def release_mode_def ReleaseNonSerializeLock_def ReleaseSerializeLock_def
          rolled_back_def put_tx_def IncrementTxAborted_def release_unregistered buffer_Clear_def Let_def)
qed

lemma rollbackLocked_inv: "tx_inv m \<Longrightarrow> rollbackLocked t m = Some (e, m') \<Longrightarrow> tx_inv m'"
  using rollbackLocked_running [of m t] rolled_back_inv [of m t]
  by (cases "tm_txs m t"; cases "tx_active (the (tm_txs m t))") (auto simp: rollbackLocked_def)

lemma release_tx_inv:
  assumes "tx_inv m" "release_tx t m = Some m'"
  shows "tx_inv m'"
proof (cases "t \<in> lt_registry (tm_locks m)")
  case True
  then obtain tx where "tm_txs m t = Some tx" "tx_active tx" using registered_running [OF assms(1)] by metis
  with assms show ?thesis using release_tx_running rolled_back_inv by (auto split: if_splits)
qed (use assms in \<open>simp add: release_tx_def release_unregistered\<close>)

lemma Rollback_inv: "tx_inv m \<Longrightarrow> tm_txs m t \<noteq> None \<Longrightarrow> Rollback t m = Some (e, m') \<Longrightarrow> tx_inv m'"
  using Rollback_running [of m t] Rollback_ended [of m t] rolled_back_inv [of m t]
  by (cases "tx_active (the (tm_txs m t))") auto

text \<open>\<open>Commit\<close> ends an active transaction, whatever the storage says.\<close>

lemma end_commit_inv:
  assumes "tx_inv m" "tm_txs m t = Some tx" "tx_active tx" "shared_mode (tx_mode tx) \<Longrightarrow> tx_mode tx = WriteReadCommitted"
    and "tm_txs m1 = (tm_txs m)(t \<mapsto> tx\<lparr>tx_active := False\<rparr>)" "tm_locks m1 = tm_locks m"
    and "tm_readers m1 = tm_readers m" "tm_writer m1 = tm_writer m"
  shows "\<exists>m'. end_commit t (tx_mode tx) m1 = Some m' \<and> tx_inv m' \<and> tm_storage m' = tm_storage m1"
proof -
  note run = tx_running [OF assms(1-3)] and i = tx_invD [OF assms(1)]
  let ?l = "snd (ReleaseLocksAndUnregisterTx t (tm_locks m))"
  have rel: "release_tx t m1 = Some (m1\<lparr>tm_locks := ?l\<rparr>)"
    using release_tx_inactive [of m1 t] i(8) [of t] assms(5,6) by simp
  define m' where "m' = m1\<lparr>tm_locks := ?l, tm_readers := (if shared_mode (tx_mode tx) then tm_readers m - 1 else tm_readers m),
    tm_writer := (shared_mode (tx_mode tx) \<and> tm_writer m)\<rparr>"
  have "tx_inv m'"
    by (rule tx_inv_retire [OF assms(1-3), of m' "tx\<lparr>tx_active := False\<rparr>"]) (simp_all add: m'_def assms(5-8))
  moreover have "end_commit t (tx_mode tx) m1 = Some m'"
    using run rel assms(4,6-8)
    by (cases "shared_mode (tx_mode tx)")
       (auto simp: end_commit_def m'_def ReleaseNonSerializeLock_def ReleaseSerializeLock_def release_unregistered)
  ultimately show ?thesis by (simp add: m'_def)
qed

lemma Commit_inv:
  assumes "tx_inv m" "Commit senv wd t m = Some (e, m')"
  shows "tx_inv m'"
proof -
  obtain tx where tx: "tm_txs m t = Some tx" using assms(2) by (auto simp: Commit_def split: option.splits)
  show ?thesis
  proof (cases "tx_active tx")
    case False
    with assms tx show ?thesis by (auto simp: Commit_def)
  next
    case True
    note run = tx_running [OF assms(1) tx True] and e = end_commit_inv [OF assms(1) tx True]
    have un: "tx_mode tx \<noteq> UnknownTxMode" using tx_invD(3) [OF assms(1) tx] .
    show ?thesis
    proof (cases "tx_mode tx = ReadOnly")
      case ro: True
      then have "t \<notin> lt_registry (tm_locks m)" using run(3) by simp
      with ro show ?thesis
        using tx_inv_retire [OF assms(1) tx True, of m' "tx\<lparr>tx_active := False\<rparr>"] assms(2) tx True run(1)
        by (auto simp: Commit_def tx_IsValid_def ReleaseNonSerializeLock_def put_tx_def IncrementTxCompleted_def
            release_unregistered Let_def split: if_splits)
    next
      case False
      then have sh: "shared_mode (tx_mode tx) \<Longrightarrow> tx_mode tx = WriteReadCommitted" using un by (cases "tx_mode tx") auto
      have "tx_IsValid (tx_mode tx)" using un by (cases "tx_mode tx") (simp_all add: tx_IsValid_def)
      with assms(2) tx True False obtain m1 where "end_commit t (tx_mode tx) m1 = Some m'"
        "tm_txs m1 = (tm_txs m)(t \<mapsto> tx\<lparr>tx_active := False\<rparr>)" "tm_locks m1 = tm_locks m"
        "tm_readers m1 = tm_readers m" "tm_writer m1 = tm_writer m"
        by (auto simp: Commit_def Let_def split: if_splits option.splits)
      with e [OF sh] show ?thesis by fastforce
    qed
  qed
qed

section \<open>Interleavings\<close>

text \<open>
  The steps: a transaction begins under a fresh identifier, makes one attempt at a record lock, gives
  up its record locks after a failed attempt, rolls back, changes its buffer, commits; a deadlock check;
  anything that happens to the storage. \<open>Commit\<close> and \<open>Rollback\<close> are one step each: the relation describes the runs in
  which no two calls on the same transaction overlap. To calls on other transactions the parts of these two are
  visible only through the locks they release, which a transaction does after it has become inactive.
\<close>

inductive tx_step :: "tx_manager \<Rightarrow> tx_manager \<Rightarrow> bool" where
  enter: "tx_step m m'" if "tm_txs m t = None" "BeginTransaction t mode m = Some (r, m')"
| attempt: "tx_step m m'" if "on_locks (acquire_attempt key t) (n, m) = (e, n', m')"
| release: "tx_step m m'" if "release_tx t m = Some m'"
| undo: "tx_step m m'" if "rollbackLocked t m = Some (e, m')"
| buffer: "tx_step m (put_tx t (tx\<lparr>tx_buffer := b\<rparr>) m)" if "tm_txs m t = Some tx"
| commit: "tx_step m m'" if "Commit senv wd t m = Some (e, m')"
| rollback: "tx_step m m'" if "tm_txs m t \<noteq> None" "Rollback t m = Some (e, m')"
| check: "tx_step m (m\<lparr>tm_locks := l'\<rparr>)"
    if "Dequeue (lt_jobs (tm_locks m)) = Some (t, q)" "detectDeadlock t ((tm_locks m)\<lparr>lt_jobs := q\<rparr>) = Some (v, l')"
| storage: "tx_step m (m\<lparr>tm_storage := s\<rparr>)"

lemma acquire_attempt_registry:
  assumes "acquire_attempt k t (n, l) = (e, (n', l'))"
  shows "lt_registry l' = lt_registry l" "lt_onRelease l' = lt_onRelease l"
  using assms by (auto simp: acquire_attempt_def Let_def addToLockLocked_def addAwaitingLocked_def
      enqueueDeadlockDetectionJob_def split: if_splits)

lemma detectDeadlock_registry:
  assumes "detectDeadlock t l = Some (v, l')"
  shows "lt_registry l' = lt_registry l" "lt_onRelease l' = lt_onRelease l"
  using assms by (auto simp: detectDeadlock_def Let_def split: option.splits)

lemma tx_step_inv: "tx_step m m' \<Longrightarrow> tx_inv m \<Longrightarrow> tx_inv m'"
proof (induction rule: tx_step.induct)
  case (attempt key t n m e n' m')
  obtain l' where l': "acquire_attempt key t (n, tm_locks m) = (e, n', l')" "m' = m\<lparr>tm_locks := l'\<rparr>"
    using attempt(1) by (auto simp: on_locks_def split: prod.splits)
  show ?case
    by (rule tx_inv_cong [OF attempt.prems])
       (use l' acquire_attempt_wf [OF tx_invD(2) [OF attempt.prems] l'(1)] acquire_attempt_registry [OF l'(1)] in simp_all)
next
  case (check m t q v l')
  have wf: "lock_wf ((tm_locks m)\<lparr>lt_jobs := q\<rparr>)"
    using tx_invD(2) [OF check.prems] q.deq_wf [OF lock_wfD(7) [OF tx_invD(2) [OF check.prems]] check(1)] by (simp add: lock_wf_def)
  show ?case
    by (rule tx_inv_cong [OF check.prems])
       (use detectDeadlock_wf [OF wf check(2)] detectDeadlock_registry [OF check(2)] in simp_all)
next
  case (storage m s)
  then show ?case using tx_inv_cong [OF storage.prems, of "m\<lparr>tm_storage := s\<rparr>"] tx_invD(2) by simp
qed (auto intro: tx_inv_begin release_tx_inv rollbackLocked_inv tx_inv_buffer Commit_inv Rollback_inv)

lemma tx_run_inv: "tx_step\<^sup>*\<^sup>* m m' \<Longrightarrow> tx_inv m \<Longrightarrow> tx_inv m'"
  by (induction rule: rtranclp_induct) (auto intro: tx_step_inv)

text \<open>
  C15: serialized transactions are alone, if no two calls on the same transaction overlap. In every state
  that an interleaving of transactions, deadlock checks and storage changes reaches in which every transaction is used by
  one goroutine at a time, an active \<open>ReadWriteSerialized\<close> transaction is the only active one; the isolation lock is held
  by it or by exactly the other active ones, so that no end of a transaction releases a lock that is not held:
  \<open>Rollback\<close> returns for every transaction. (A \<open>Rollback\<close> that overlaps a \<open>Commit\<close> of the same transaction
  breaks this: \<open>rollback_commit_race\<close>.)
\<close>

theorem tx_serialized_alone:
  assumes "tx_step\<^sup>*\<^sup>* (NewTxManager s) m" "tm_txs m t = Some tx"
  shows "(tx_active tx \<and> tx_mode tx = ReadWriteSerialized \<longrightarrow> running (\<lambda>_. True) m = {t}) \<and>
    tm_readers m = card (running shared_mode m) \<and> (tm_writer m \<longleftrightarrow> running (Not \<circ> shared_mode) m \<noteq> {}) \<and>
    Rollback t m \<noteq> None"
proof -
  have inv: "tx_inv m" by (rule tx_run_inv [OF assms(1) tx_inv_new])
  note i = tx_invD [OF inv]
  have w: "tm_writer m \<longleftrightarrow> running (Not \<circ> shared_mode) m \<noteq> {}"
    using i(5) running_finite [OF i(1), of "Not \<circ> shared_mode"] by (auto simp: card_eq_0_iff split: if_splits)
  have alone: "running (\<lambda>_. True) m = {t}" if "tx_active tx" "tx_mode tx = ReadWriteSerialized"
  proof -
    have t: "t \<in> running (Not \<circ> shared_mode) m" using that assms(2) by (auto simp: running_def)
    then have "tm_writer m" using w by blast
    then have one: "card (running (Not \<circ> shared_mode) m) = 1" and none: "running shared_mode m = {}"
      using i(4-6) running_finite [OF i(1), of shared_mode] by auto
    from one t have "running (Not \<circ> shared_mode) m = {t}" by (metis card_1_singletonE singletonD)
    moreover have "running (\<lambda>_. True) m = running shared_mode m \<union> running (Not \<circ> shared_mode) m"
      by (auto simp: running_def)
    ultimately show ?thesis using none by simp
  qed
  moreover have "Rollback t m \<noteq> None"
    using Rollback_running [OF inv assms(2)] Rollback_ended [OF inv assms(2)] by (cases "tx_active tx") auto
  ultimately show ?thesis using i(4) w by blast
qed

theorem tx_serialized_alone_witness:
  "\<exists>s m. NewManager sample_config sample_world (\<lambda>_ _. True) (\<lambda>_. 0) [] [] = Some (Inr s) \<and>
     BeginTransaction ''t1'' ReadWriteSerialized (NewTxManager s) = Some (Inr ''t1'', m) \<and>
     running (\<lambda>_. True) m = {''t1''} \<and> BeginTransaction ''t2'' ReadOnly m = None"
proof -
  obtain s where s: "NewManager sample_config sample_world (\<lambda>_ _. True) (\<lambda>_. 0) [] [] = Some (Inr s)"
    by (rule sample_manager)
  define m where "m = snd (the (BeginTransaction ''t1'' ReadWriteSerialized (NewTxManager s)))"
  note defs = BeginTransaction_def AcquireSerializeLock_def AcquireNonSerializeLock_def NewTxManager_def Let_def
  have m: "BeginTransaction ''t1'' ReadWriteSerialized (NewTxManager s) = Some (Inr ''t1'', m)"
    "tm_txs m ''t1'' = Some \<lparr>tx_mode = ReadWriteSerialized, tx_buffer = NewBuffer, tx_active = True\<rparr>" "tm_writer m"
    by (simp_all add: m_def defs put_tx_def)
  have "tx_step\<^sup>*\<^sup>* (NewTxManager s) m"
    using tx_step.enter [OF _ m(1)] by (simp add: NewTxManager_def)
  from tx_serialized_alone [OF this m(2)] s m show ?thesis by (auto simp: defs)
qed

section \<open>A rollback that overlaps a commit\<close>

text \<open>
  \<open>Rollback\<close> lets the lock manager run the callback before it takes the mutex of the transaction, and the
  callback reads and then sets \<open>active\<close> without it. \<open>rollbackSafe_checked\<close> is the rest of the callback behind its check.
\<close>

definition rollbackSafe_checked :: "txid \<Rightarrow> tx_manager \<Rightarrow> (tx_error option \<times> tx_manager) option" where
  "rollbackSafe_checked txId m =
     (case tm_txs m txId of
        None \<Rightarrow> None
      | Some tx \<Rightarrow> release_mode (tx_mode tx) (put_tx txId (tx\<lparr>tx_active := False, tx_buffer := buffer_Clear (tx_buffer tx)\<rparr>) m))"

lemma rollbackSafe_split:
  "rollbackSafeForRegisterTxLocked txId m =
     (case tm_txs m txId of
        None \<Rightarrow> None
      | Some tx \<Rightarrow> if \<not> tx_active tx then Some (Some ErrTransactionClosed, m) else rollbackSafe_checked txId m)"
  by (simp add: rollbackSafeForRegisterTxLocked_def rollbackSafe_checked_def split: option.split)

text \<open>
  When another goroutine's \<open>Rollback\<close> of a \<open>WriteReadCommitted\<close> transaction has passed the check (and has unregistered
  the transaction), then a whole \<open>Commit\<close> runs, and then the callback goes on, the isolation lock is released twice: with a
  read-only transaction still active it is free, and a serialized transaction can begin beside it.
\<close>

lemma rollback_commit_race:
  assumes "tm_txs m t = Some tx" "tx_active tx" "tx_mode tx = WriteReadCommitted" "tx_buffer tx = []" "t \<notin> lt_registry (tm_locks m)"
    and "tm_txs m r = Some rx" "tx_active rx" "tx_mode rx = ReadOnly" "tm_txs m u = None" "tm_readers m = 2" "\<not> tm_writer m"
  shows "\<exists>m1 m2 m3. Commit senv wd t m = Some (None, m1) \<and> rollbackSafe_checked t m1 = Some (None, m2) \<and>
    BeginTransaction u ReadWriteSerialized m2 = Some (Inr u, m3) \<and> {r, u} \<subseteq> running (\<lambda>_. True) m3"
proof -
  have ne: "r \<noteq> t" "u \<noteq> t" "u \<noteq> r" using assms by auto
  define m1 where "m1 = (IncrementTxCompleted (put_tx t (tx\<lparr>tx_active := False\<rparr>) m))\<lparr>tm_readers := 1\<rparr>"
  have c: "Commit senv wd t m = Some (None, m1)"
    using assms by (simp add: Commit_def Let_def tx_IsValid_def NumberOfQueuedOperations_def end_commit_def release_tx_def
        ReleaseLocksAndUnregisterTx_def checkLockableLocked_def ReleaseNonSerializeLock_def IncrementTxCompleted_def put_tx_def m1_def)
  define m2 where "m2 = IncrementTxAborted ((put_tx t (tx\<lparr>tx_active := False, tx_buffer := []\<rparr>) m1)\<lparr>tm_readers := 0\<rparr>)"
  have "rollbackSafe_checked t m1 = Some (None, m2)"
    using assms(3,4) by (simp add: rollbackSafe_checked_def release_mode_def ReleaseNonSerializeLock_def buffer_Clear_def m1_def m2_def
        IncrementTxCompleted_def put_tx_def)
  moreover have f: "tm_writer m2 = tm_writer m" "tm_readers m2 = 0" "tm_txs m2 r = Some rx"
    using ne assms(6) by (simp_all add: m2_def m1_def IncrementTxCompleted_def IncrementTxAborted_def)
  define m3 where "m3 = snd (the (BeginTransaction u ReadWriteSerialized m2))"
  have "BeginTransaction u ReadWriteSerialized m2 = Some (Inr u, m3)" "{r, u} \<subseteq> running (\<lambda>_. True) m3"
    using f assms(7,11) ne by (auto simp: BeginTransaction_def AcquireSerializeLock_def m3_def running_def)
  ultimately show ?thesis using c by blast
qed

section \<open>Calls as runs\<close>

text \<open>A write whose wait for a record lock is interleaved with the steps of other goroutines is a run.\<close>

lemma tx_AcquireLock_run:
  assumes env: "\<And>i x. tx_step\<^sup>*\<^sup>* x (env i x)" and "tx_AcquireLock rnd env key t m = Some (e, m')"
  shows "tx_step\<^sup>*\<^sup>* m m'"
proof -
  obtain c err wt q where r: "RetryWithConfig c rnd (\<lambda>i. apsnd (env i)) (on_locks (acquire_attempt key t))
      IsFailedToAcquireLockErr (0, m) = Some (err, wt, q)"
    and end': "(case err of None \<Rightarrow> Some (None, snd q) | Some x \<Rightarrow> map_option (Pair (Some x)) (release_tx t (snd q))) = Some (e, m')"
    using assms(2) by (auto simp: tx_AcquireLock_def split: option.splits)
  have st: "tx_step\<^sup>*\<^sup>* (snd p) (snd p')" if "on_locks (acquire_attempt key t) p = (x, p')" for p x p'
    using tx_step.attempt [of key t "fst p" "snd p" x "fst p'" "snd p'"] that by simp
  have "tx_step\<^sup>*\<^sup>* (snd p) (snd q')"
    if "retry_loop c rnd (\<lambda>i. apsnd (env i)) (on_locks (acquire_attempt key t)) IsFailedToAcquireLockErr i b w p = Some (er, w', q')"
    for i b w p er w' q'
    using that
  proof (induction rule: retry_loop_run)
    case (again i b w s s1 e b')
    from st [OF again(2)] env [of "snd s1" i] again(6) show ?case
      by (metis (no_types, lifting) rtranclp_trans snd_apsnd)
  qed (auto dest: st)
  with r have "tx_step\<^sup>*\<^sup>* m (snd q)" by (fastforce simp: RetryWithConfig_def split: if_splits)
  also have "tx_step\<^sup>*\<^sup>* (snd q) m'" using end' by (auto split: option.splits intro: tx_step.release)
  finally show ?thesis .
qed

lemma buffered_write_run:
  assumes env: "\<And>i x. tx_step\<^sup>*\<^sup>* x (env i x)" and "buffered_write rnd env key change t m = Some (r, m')"
  shows "tx_step\<^sup>*\<^sup>* m m'"
proof -
  have "tx_step\<^sup>*\<^sup>* m m1" if "acquireWriteTxLock rnd env key t m = Some (a, m1)" for a m1
  proof -
    from that have "m1 = m \<or> (\<exists>e. tx_AcquireLock rnd env key t m = Some (e, m1)) \<or>
        (\<exists>e m2 e'. tx_AcquireLock rnd env key t m = Some (e, m2) \<and> rollbackLocked t m2 = Some (e', m1))"
      by (auto simp: acquireWriteTxLock_def split: option.splits tx_mode.splits)
    moreover have "tx_step\<^sup>*\<^sup>* m x" if "tx_AcquireLock rnd env key t m = Some (e, x)" for e x
      by (rule tx_AcquireLock_run [OF _ that]) (rule env)
    ultimately show ?thesis by (metis rtranclp.simps tx_step.undo)
  qed
  moreover have "tx_step\<^sup>*\<^sup>* m (put_tx t (tx\<lparr>tx_buffer := b\<rparr>) x)" if "tx_step\<^sup>*\<^sup>* m x" "tm_txs x t = Some tx" for x tx b
    using tx_step.buffer [OF that(2)] that(1) by (metis rtranclp.rtrancl_into_rtrancl)
  ultimately show ?thesis
    using assms(2) by (auto simp: buffered_write_def split: option.splits if_splits sum.splits bool.splits)
qed

end
