(* ===== verification/Tx_Commit.thy ===== *)
theory Tx_Commit
  imports Tx_Isolation
begin

text \<open>
  What a commit does to the storage: the buffered operations take effect together, as the map that the
  transaction saw. And what becomes of a committed transaction when the process restarts.
\<close>

section \<open>A batch in the storage\<close>

definition op_of :: "operation \<Rightarrow> kv_op" where
  "op_of bop = (if o_IsDelete bop then KvDelete (o_Key bop) else KvPut (o_Key bop) (bytes_of (o_Value bop)))"

text \<open>Operations that a buffer can hold and that fit a log record.\<close>

definition op_small :: "operation \<Rightarrow> bool" where
  "op_small bop \<longleftrightarrow> (o_IsDelete bop \<longleftrightarrow> o_Value bop = None) \<and>
     payloadSize OpTypePut (o_Key bop) (o_Value bop) \<le> MaxRecordSize"

lemma apply_entries_inv:
  assumes "pool_inv (sg_pool s) segs ws" "list_all op_small ops"
  shows "\<exists>p. apply_entries now sq (batch_entries ops) s =
      Some (s\<lparr>sg_pool := p, sg_lastSeqNum := (if ops = [] then sg_lastSeqNum s else sq + of_nat (length ops) - 1)\<rparr>) \<and>
    pool_inv p segs (ws @ op_writes sq (map op_of ops))"
  using assms
proof (induction ops arbitrary: s ws sq)
  case Nil
  then show ?case by (auto simp: batch_entries_def intro!: exI [of _ "sg_pool s"])
next
  case (Cons bop ops)
  let ?e = "op_write sq (op_of bop)"
  have pr: "proper ?e" by (simp add: op_of_def proper_def newEntry_def)
  obtain m where m: "mem_write ?e (mp_active (sg_pool s)) = Some m"
    "pool_inv (checkFlushConditions now ((sg_pool s)\<lparr>mp_active := m\<rparr>)) segs (ws @ [?e])"
    using pool_write_inv [OF Cons.prems(1) pr] by blast
  let ?s = "s\<lparr>sg_pool := checkFlushConditions now ((sg_pool s)\<lparr>mp_active := m\<rparr>), sg_lastSeqNum := sq\<rparr>"
  have step: "apply_entries now sq (batch_entries (bop # ops)) s = apply_entries now (sq + 1) (batch_entries ops) ?s"
    using m(1) Cons.prems(2)
    by (auto simp: batch_entries_def new_entry_def op_of_def op_small_def pool_Put_def pool_Delete_def mem_Put_write
        mem_Delete_write OpTypePut_def OpTypeDelete_def)
  have "pool_inv (sg_pool ?s) segs (ws @ [?e])" "list_all op_small ops" using m(2) Cons.prems(2) by simp_all
  from Cons.IH [OF this, of "sq + 1"] show ?case unfolding step by (auto simp: algebra_simps)
qed

lemma ApplyBatch_inv:
  assumes "storage_inv xx s hist" "unat (w_nextSequence (sg_wal s)) + length ops < 2 ^ 64" "list_all op_small ops" "ops \<noteq> []"
  obtains s' w where "ApplyBatch env wd (batch_entries ops) s = Some (None, s')"
    "storage_inv xx s' (hist @ op_writes (w_nextSequence (sg_wal s)) (map op_of ops))" "sg_sstables s' = sg_sstables s"
    "sg_wal s' = w" "AppendBatch (batch_entries ops) (sg_wal s) = (Inr (w_nextSequence (sg_wal s)), w)"
    "sg_walFiles s' = sg_walFiles s"
proof -
  let ?sq = "w_nextSequence (sg_wal s)" and ?es = "batch_entries ops"
  have i: "\<not> sg_closed s" "active (sg_wal s)" "w_fault (sg_wal s) = None" using assms(1) by (simp_all add: storage_inv_def)
  have "list_all (\<lambda>e. payloadSize OpTypePut (we_key e) (we_value e) \<le> MaxRecordSize) ?es"
    using assms(3) by (auto simp: batch_entries_def list_all_iff op_small_def new_entry_def payloadSize_def)
  then obtain sq w where w: "AppendBatch ?es (sg_wal s) = (Inr sq, w)" "w_fault w = None" "active w"
    using AppendBatch_completes i(2,3) by blast
  have ne: "?es \<noteq> []" "length ?es = length ops" using assms(4) by (simp_all add: batch_entries_def)
  have sq: "sq = ?sq" "w_nextSequence w = ?sq + of_nat (length ops)" using AppendBatch_ok [OF w(1) ne(1)] ne(2) by simp_all
  obtain segs ws where p: "pool_inv (sg_pool s) segs ws" "concat segs @ ws = hist"
    using assms(1) by (auto simp: storage_inv_def)
  obtain p' where p': "apply_entries (wo_now wd) ?sq ?es (s\<lparr>sg_wal := w\<rparr>) =
      Some (s\<lparr>sg_wal := w, sg_pool := p', sg_lastSeqNum := ?sq + of_nat (length ops) - 1\<rparr>)"
    "pool_inv p' segs (ws @ op_writes ?sq (map op_of ops))"
    using apply_entries_inv [of "s\<lparr>sg_wal := w\<rparr>" segs ws ops "wo_now wd" ?sq] p(1) assms(3,4) by auto
  define s1 where "s1 = s\<lparr>sg_wal := w, sg_pool := p', sg_lastSeqNum := ?sq + of_nat (length ops) - 1\<rparr>"
  define s' where "s' = flush_if_needed wd s1"
  have "append_op (AppendBatch ?es) (\<lambda>sq s. map_option (flush_if_needed wd) (apply_entries (wo_now wd) sq ?es s)) s = (None, s')"
    using w(1) sq(1) p'(1) by (simp add: append_op_def s'_def s1_def)
  then have run: "ApplyBatch env wd ?es s = Some (None, s')" using i(1) by (simp add: ApplyBatch_def retry_first)
  have pool: "\<exists>segs' ws'. pool_inv (sg_pool s') segs' ws' \<and> concat segs' @ ws' = hist @ op_writes ?sq (map op_of ops)"
    using flush_if_needed_inv [of s1 segs "ws @ op_writes ?sq (map op_of ops)" wd] p'(2)
    unfolding p(2) [symmetric] append_assoc by (simp add: s'_def s1_def)
  have b: "sorted (map me_seq (op_writes ?sq (map op_of ops)))"
    "\<forall>e \<in> set (op_writes ?sq (map op_of ops)). ?sq \<le> me_seq e \<and> me_seq e < w_nextSequence w"
    using op_writes_bounds [of ?sq "map op_of ops"] assms(2) sq(2) by auto
  have h: "\<forall>e \<in> set hist. me_seq e < ?sq" "sorted (map me_seq hist)" using assms(1) by (simp_all add: storage_inv_def)
  have lt: "?sq < w_nextSequence w"
    using assms(2,4) unfolding sq(2) by (simp add: word_less_nat_alt unat_word_ariths unat_of_nat)
  have "\<forall>x \<in> set hist. \<forall>y \<in> set (op_writes ?sq (map op_of ops)). me_seq x \<le> me_seq y"
    using h(1) b(2) by (meson less_imp_le order_trans)
  then have hist: "sorted (map me_seq (hist @ op_writes ?sq (map op_of ops)))" using h(2) b(1) by (simp add: sorted_append)
  have below: "\<forall>e \<in> set (hist @ op_writes ?sq (map op_of ops)). me_seq e < w_nextSequence w"
    using h(1) b(2) lt by (auto intro: less_trans)
  have "storage_inv xx s' (hist @ op_writes ?sq (map op_of ops))"
    using assms(1) pool hist below w(2,3) by (simp add: storage_inv_def s'_def s1_def)
  with that [OF run] w(1) sq(1) show thesis by (simp add: s'_def s1_def)
qed

text \<open>The bytes a batch adds to the memtable, and that a small batch forces no table switch.\<close>

definition entry_bytes :: "wentry \<Rightarrow> int" where
  "entry_bytes e =
     (if we_type e = OpTypePut then int (entry_size (newEntry (we_key e) (we_value e) TypeValue 0))
      else if we_type e = OpTypeDelete then int (entry_size (newEntry (we_key e) None TypeDeletion 0)) else 0)"

lemma entry_bytes_nonneg [simp]: "0 \<le> entry_bytes e" "0 \<le> (\<Sum>e\<leftarrow>es. entry_bytes e)"
  by (auto simp: entry_bytes_def intro!: sum_list_nonneg)

lemma apply_entries_quiet:
  assumes "apply_entries now sq es s = Some s'" "quiet T ((\<Sum>e\<leftarrow>es. entry_bytes e) + n) s" "0 \<le> n" "now \<le> T"
  shows "quiet T n s'"
  using assms
proof (induction es arbitrary: s sq)
  case (Cons e es)
  let ?n = "(\<Sum>e\<leftarrow>es. entry_bytes e) + n"
  have n: "0 \<le> ?n" using Cons.prems(3) by simp
  have q: "pool_quiet T (entry_bytes e + ?n) (sg_pool s)" "sg_immutableMTs s = []" "\<not> sg_flushSignal s"
    using Cons.prems(2) by (simp_all add: quiet_def add.assoc)
  obtain p where p: "(if we_type e = OpTypePut then pool_Put now (we_key e) (we_value e) sq (sg_pool s)
      else if we_type e = OpTypeDelete then pool_Delete now (we_key e) sq (sg_pool s) else Some (sg_pool s)) = Some p"
    "apply_entries now (sq + 1) es (s\<lparr>sg_pool := p, sg_lastSeqNum := sq\<rparr>) = Some s'"
    using Cons.prems(1) by (auto split: option.splits)
  have "pool_quiet T ?n p"
    using p(1) q(1) pool_Put_quiet [OF _ _ n Cons.prems(4)] pool_Delete_quiet [OF _ _ n Cons.prems(4)]
    by (auto simp: entry_bytes_def entry_size_seq [of _ _ _ sq] split: if_splits)
  then have "quiet T ?n (s\<lparr>sg_pool := p, sg_lastSeqNum := sq\<rparr>)" using q(2,3) by (simp add: quiet_def)
  from Cons.IH [OF p(2) this Cons.prems(3,4)] show ?case .
qed simp

lemma ApplyBatch_quiet:
  assumes "storage_inv xx s hist" "unat (w_nextSequence (sg_wal s)) + length ops < 2 ^ 64" "list_all op_small ops" "ops \<noteq> []"
    and "ApplyBatch env wd (batch_entries ops) s = Some (None, s')" "quiet T ((\<Sum>e\<leftarrow>batch_entries ops. entry_bytes e) + n) s"
    and "0 \<le> n" "wo_now wd \<le> T"
  shows "quiet T n s'"
proof -
  let ?sq = "w_nextSequence (sg_wal s)" and ?es = "batch_entries ops"
  obtain w where w: "AppendBatch ?es (sg_wal s) = (Inr ?sq, w)" by (rule ApplyBatch_inv [OF assms(1-4), of env wd])
  obtain segs ws where p: "pool_inv (sg_pool s) segs ws" using assms(1) by (auto simp: storage_inv_def)
  obtain s2 where s2: "apply_entries (wo_now wd) ?sq ?es (s\<lparr>sg_wal := w\<rparr>) = Some s2"
    using apply_entries_inv [of "s\<lparr>sg_wal := w\<rparr>" segs ws ops "wo_now wd" ?sq] p assms(3) by auto
  have q: "quiet T n s2"
    by (rule apply_entries_quiet [OF s2 _ assms(7,8)]) (use assms(6) in \<open>simp add: quiet_def\<close>)
  then have "append_op (AppendBatch ?es) (\<lambda>sq s. map_option (flush_if_needed wd) (apply_entries (wo_now wd) sq ?es s)) s = (None, s2)"
    using w s2 quiet_no_flush [of T n s2 wd] by (simp add: append_op_def quiet_def)
  then have "ApplyBatch env wd ?es s = Some (None, s2)" using assms(1) by (simp add: ApplyBatch_def retry_first storage_inv_def)
  with q assms(5) show ?thesis by simp
qed

section \<open>A buffer over a map\<close>

definition overlay :: "buffer \<Rightarrow> (bytes \<rightharpoonup> bytes) \<Rightarrow> (bytes \<rightharpoonup> bytes)" where
  "overlay b base = (\<lambda>key. case pending b key of None \<Rightarrow> base key | Some v \<Rightarrow> v)"

lemma kv_run_distinct:
  assumes "distinct (map o_Key ops)" "list_all (\<lambda>bop. o_IsDelete bop \<longleftrightarrow> o_Value bop = None) ops"
  shows "kv_run (map op_of ops) base key =
    (case map_of (map (\<lambda>bop. (o_Key bop, o_Value bop)) ops) key of None \<Rightarrow> base key | Some v \<Rightarrow> v)"
  using assms
proof (induction ops arbitrary: base)
  case (Cons bop ops)
  have "map_of (map (\<lambda>bop. (o_Key bop, o_Value bop)) ops) (o_Key bop) = None"
    using Cons.prems(1) by (auto simp: map_of_eq_None_iff)
  with Cons show ?case by (auto simp: op_of_def bytes_of_def split: option.splits)
qed simp

text \<open>The operations of a buffer, in key order, make the map that the buffer shows over the storage.\<close>

lemma kv_run_Operations:
  assumes "buffer_wf b"
  shows "kv_run (map op_of (Operations b)) base = overlay b base"
proof
  fix key
  let ?kv = "map (\<lambda>bop. (o_Key bop, o_Value bop)) (Operations b)"
  have strict: "sorted_wrt (<) (map o_Key (Operations b))" using Operations_sorted [OF assms] by (simp add: sorted_wrt_map)
  then have d: "distinct (map o_Key (Operations b))" using strict_sorted_iff by blast
  then have dk: "distinct (map fst ?kv)" by (simp add: comp_def)
  have del: "list_all (\<lambda>bop. o_IsDelete bop \<longleftrightarrow> o_Value bop = None) (Operations b)"
    using Operations_set [OF assms] by (simp add: list_all_iff)
  have "map_of ?kv key = pending b key"
  proof (cases "pending b key")
    case None
    then show ?thesis using Operations_set [OF assms] by (auto simp: map_of_eq_None_iff)
  next
    case (Some v)
    let ?op = "\<lparr>o_Key = key, o_Value = v, o_IsDelete = (v = None)\<rparr>"
    have "?op \<in> set (Operations b)" using Some Operations_set [OF assms, of ?op] by simp
    then have "(key, v) \<in> set ?kv" by force
    with dk Some show ?thesis by (simp add: map_of_is_SomeI)
  qed
  then show "kv_run (map op_of (Operations b)) base key = overlay b base key"
    using kv_run_distinct [OF d del, of base key] by (simp add: overlay_def)
qed

fun buf_step :: "kv_op \<Rightarrow> buffer \<Rightarrow> buffer" where
  "buf_step (KvPut k v) b = buffer_Put k (Some v) b"
| "buf_step (KvDelete k) b = buffer_Delete k b"

lemma overlay_step: "overlay (buf_step x b) base = kv_step x (overlay b base)"
  by (cases x) (auto simp: overlay_def pending_Put pending_Delete fun_eq_iff)

lemma overlay_run: "overlay (fold buf_step ops b) base = kv_run ops (overlay b base)"
  by (induction ops arbitrary: b) (simp_all add: overlay_step)

lemma buf_run_wf: "buffer_wf b \<Longrightarrow> buffer_wf (fold buf_step ops b)"
proof (induction ops arbitrary: b)
  case (Cons x ops)
  have "buffer_wf (buf_step x b)" using Cons.prems by (cases x) (simp_all add: buffer_Put_wf buffer_Delete_wf)
  with Cons.IH show ?case by simp
qed simp

fun kv_small :: "kv_op \<Rightarrow> bool" where
  "kv_small (KvPut k v) \<longleftrightarrow> payloadSize OpTypePut k (Some v) \<le> MaxRecordSize"
| "kv_small (KvDelete k) \<longleftrightarrow> payloadSize OpTypePut k None \<le> MaxRecordSize"

lemma pending_small:
  assumes "list_all kv_small ops" "\<And>k v. pending b k = Some v \<Longrightarrow> payloadSize OpTypePut k v \<le> MaxRecordSize"
    and "pending (fold buf_step ops b) k = Some v"
  shows "payloadSize OpTypePut k v \<le> MaxRecordSize"
  using assms
proof (induction ops arbitrary: b)
  case (Cons x ops)
  have "payloadSize OpTypePut k v \<le> MaxRecordSize" if "pending (buf_step x b) k = Some v" for k v
    using that Cons.prems(1,2) by (cases x) (auto simp: pending_Put pending_Delete split: if_splits)
  from Cons.IH [OF _ this] Cons.prems(1,3) show ?case by simp
qed simp

lemma Operations_small:
  assumes "list_all kv_small ops"
  shows "list_all op_small (Operations (fold buf_step ops NewBuffer))"
proof -
  have wf: "buffer_wf (fold buf_step ops NewBuffer)" by (rule buf_run_wf [OF NewBuffer_wf])
  have "payloadSize OpTypePut k v \<le> MaxRecordSize" if "pending (fold buf_step ops NewBuffer) k = Some v" for k v
    by (rule pending_small [OF assms _ that]) (simp add: pending_def NewBuffer_def)
  then show ?thesis using Operations_set [OF wf] by (simp add: list_all_iff op_small_def)
qed

section \<open>A transaction from begin to commit\<close>

definition tx_exec ::
  "txid \<Rightarrow> ((nat \<Rightarrow> int) \<times> (nat \<Rightarrow> tx_manager \<Rightarrow> tx_manager)) \<times> kv_op \<Rightarrow> tx_manager \<Rightarrow> tx_manager option" where
  "tx_exec t rx m =
     (case (case snd rx of KvPut k v \<Rightarrow> tx_Put (fst (fst rx)) (snd (fst rx)) k (Some v) t m
            | KvDelete k \<Rightarrow> tx_Delete (fst (fst rx)) (snd (fst rx)) k t m) of
        Some (Inr True, m') \<Rightarrow> Some m'
      | _ \<Rightarrow> None)"

definition tx_get :: "(bytes \<Rightarrow> u64) \<Rightarrow> txid \<Rightarrow> bytes \<Rightarrow> tx_manager \<Rightarrow> bytes option option" where
  "tx_get xx t key m =
     (case tx_Get xx key t m of Some (Inr (v, found)) \<Rightarrow> Some (if found then v else None) | _ \<Rightarrow> None)"

lemma tx_exec_serialized:
  assumes "tm_txs m t = Some tx" "tx_active tx" "tx_mode tx = ReadWriteSerialized"
  shows "tx_exec t (re, x) m = Some (put_tx t (tx\<lparr>tx_buffer := buf_step x (tx_buffer tx)\<rparr>) m)"
  using assms by (cases x) (simp_all add: tx_exec_def tx_Put_def tx_Delete_def buffered_write_def acquireWriteTxLock_def)

lemma tx_run_serialized:
  assumes "tm_txs m t = Some tx" "tx_active tx" "tx_mode tx = ReadWriteSerialized"
  shows "run_all (tx_exec t) ops m = Some (put_tx t (tx\<lparr>tx_buffer := fold buf_step (map snd ops) (tx_buffer tx)\<rparr>) m)"
  using assms
proof (induction ops arbitrary: m tx)
  case Nil
  then show ?case by (simp add: put_tx_def fun_upd_idem)
next
  case (Cons rx ops)
  obtain re x where rx: "rx = (re, x)" by (cases rx)
  let ?tx = "tx\<lparr>tx_buffer := buf_step x (tx_buffer tx)\<rparr>"
  have "run_all (tx_exec t) ops (put_tx t ?tx m) =
      Some (put_tx t (?tx\<lparr>tx_buffer := fold buf_step (map snd ops) (tx_buffer ?tx)\<rparr>) (put_tx t ?tx m))"
    by (rule Cons.IH) (use Cons.prems in simp_all)
  then show ?case using tx_exec_serialized [OF Cons.prems, of re x] by (simp add: rx put_tx_def)
qed

text \<open>What the transaction reads: its buffer over the storage.\<close>

lemma tx_get_overlay:
  assumes "tm_txs m t = Some tx" "tx_active tx" "buffer_wf (tx_buffer tx)"
    and "\<And>key. storage_get xx key (tm_storage m) = Some (base key)"
  shows "tx_get xx t key m = Some (overlay (tx_buffer tx) base key)"
proof -
  obtain v f where g: "storage_Get xx key (tm_storage m) = Some (Inr (v, f))" "base key = (if f then v else None)"
    using assms(4) [of key] by (auto simp: storage_get_def split: option.splits sum.splits)
  show ?thesis
    using assms(1,2) g buffer_Get_pending [OF assms(3), of key]
    by (auto simp: tx_get_def tx_Get_def overlay_def split: option.splits)
qed

lemma Commit_applies:
  assumes "tx_inv m" "tm_txs m t = Some tx" "tx_active tx" "tx_mode tx \<noteq> ReadOnly" "buffer_wf (tx_buffer tx)"
    and "list_all op_small (Operations (tx_buffer tx))" "storage_inv xx (tm_storage m) hist"
    and "unat (w_nextSequence (sg_wal (tm_storage m))) + length (Operations (tx_buffer tx)) < 2 ^ 64"
  obtains m' hist' where "Commit senv wd t m = Some (None, m')" "tx_inv m'" "storage_inv xx (tm_storage m') hist'"
    "\<And>T. sg_sstables (tm_storage m) = T \<Longrightarrow> hist_get (tables_get xx T) hist' = overlay (tx_buffer tx) (hist_get (tables_get xx T) hist)"
    "sg_sstables (tm_storage m') = sg_sstables (tm_storage m)" "sg_walFiles (tm_storage m') = sg_walFiles (tm_storage m)"
    "Operations (tx_buffer tx) \<noteq> [] \<Longrightarrow> AppendBatch (batch_entries (Operations (tx_buffer tx))) (sg_wal (tm_storage m)) =
      (Inr (w_nextSequence (sg_wal (tm_storage m))), sg_wal (tm_storage m'))"
proof -
  let ?b = "tx_buffer tx" and ?ops = "Operations (tx_buffer tx)" and ?s = "tm_storage m"
  let ?m1 = "put_tx t (tx\<lparr>tx_active := False\<rparr>) m"
  have un: "tx_mode tx \<noteq> UnknownTxMode" using tx_invD(3) [OF assms(1,2)] .
  then have val: "tx_IsValid (tx_mode tx)" by (cases "tx_mode tx") (simp_all add: tx_IsValid_def)
  have sh: "tx_mode tx \<noteq> ReadWriteSerialized \<Longrightarrow> tx_mode tx = WriteReadCommitted" using un assms(4) by (cases "tx_mode tx") auto
  have e: "\<exists>m'. end_commit t (tx_mode tx) (IncrementTxCompleted (?m1\<lparr>tm_storage := s\<rparr>)) = Some m' \<and> tx_inv m' \<and> tm_storage m' = s" for s
    using end_commit_inv [OF assms(1-3) sh, of "IncrementTxCompleted (?m1\<lparr>tm_storage := s\<rparr>)"] by simp
  have n: "length ?b = length ?ops" by (simp add: Operations_def)
  have lt: "\<forall>x \<in> set hist. me_seq x < w_nextSequence (sg_wal ?s)" using assms(7) by (simp add: storage_inv_def)
  have view: "hist_get T (hist @ op_writes (w_nextSequence (sg_wal ?s)) (map op_of ?ops)) = overlay ?b (hist_get T hist)" for T
    using hist_get_ops [OF lt, of "map op_of ?ops" T] assms(8) kv_run_Operations [OF assms(5)] by simp
  show thesis
  proof (cases "?ops = []")
    case True
    obtain m' where m': "end_commit t (tx_mode tx) (IncrementTxCompleted (?m1\<lparr>tm_storage := ?s\<rparr>)) = Some m'" "tx_inv m'" "tm_storage m' = ?s"
      using e by blast
    have same: "?m1\<lparr>tm_storage := ?s\<rparr> = ?m1" by (simp add: put_tx_def)
    have "Commit senv wd t m = Some (None, m')"
      using assms(2-4) val m'(1) [unfolded same] True n by (simp add: Commit_def NumberOfQueuedOperations_def)
    from that [OF this m'(2), of hist] m'(3) assms(7) view True show thesis by simp
  next
    case False
    obtain s' where s': "ApplyBatch senv wd (batch_entries ?ops) ?s = Some (None, s')"
      "storage_inv xx s' (hist @ op_writes (w_nextSequence (sg_wal ?s)) (map op_of ?ops))" "sg_sstables s' = sg_sstables ?s"
      "AppendBatch (batch_entries ?ops) (sg_wal ?s) = (Inr (w_nextSequence (sg_wal ?s)), sg_wal s')" "sg_walFiles s' = sg_walFiles ?s"
      using ApplyBatch_inv [OF assms(7,8,6) False, of senv wd] by metis
    obtain m' where m': "end_commit t (tx_mode tx) (IncrementTxCompleted (?m1\<lparr>tm_storage := s'\<rparr>)) = Some m'" "tx_inv m'" "tm_storage m' = s'"
      using e by blast
    have "Commit senv wd t m = Some (None, m')"
      using assms(2-4) val m'(1) s'(1) False n by (simp add: Commit_def NumberOfQueuedOperations_def)
    from that [OF this m'(2)] m'(3) s'(2-5) view show thesis by simp
  qed
qed

text \<open>A serialized transaction that has run the operations \<open>ops\<close> and is about to commit.\<close>

lemma buf_run_length: "length (fold buf_step xs b) \<le> length b + length xs"
proof (induction xs arbitrary: b)
  case (Cons x xs)
  have upd: "length (AList.update k v b) \<le> Suc (length b)" for k v by (induction b) (auto split: if_splits)
  have "length (buf_step x b) \<le> Suc (length b)" by (cases x) (simp_all add: buffer_Put_def buffer_Delete_def upd)
  with Cons [of "buf_step x b"] show ?case by simp
qed simp

lemma serialized_run:
  assumes "tx_inv m" "tm_txs m t = None" "running (\<lambda>_. True) m = {}"
  obtains m1 m2 tx where "BeginTransaction t ReadWriteSerialized m = Some (Inr t, m1)" "run_all (tx_exec t) ops m1 = Some m2"
    "tx_inv m2" "tm_txs m2 t = Some tx" "tx_active tx" "tx_mode tx = ReadWriteSerialized"
    "tx_buffer tx = fold buf_step (map snd ops) NewBuffer" "tm_storage m2 = tm_storage m"
proof -
  note i = tx_invD [OF assms(1)]
  have none: "running P m = {}" for P using assms(3) by (auto simp: running_def)
  then have free: "\<not> tm_writer m" "tm_readers m = 0" using i(4,5) by (simp_all split: if_splits)
  let ?tx = "\<lparr>tx_mode = ReadWriteSerialized, tx_buffer = NewBuffer, tx_active = True\<rparr>"
  let ?b = "fold buf_step (map snd ops) NewBuffer"
  define m1 where "m1 = put_tx t ?tx (m\<lparr>tm_started := tm_started m + 1, tm_writer := True\<rparr>)"
  define m2 where "m2 = put_tx t (?tx\<lparr>tx_buffer := ?b\<rparr>) m1"
  have begin': "BeginTransaction t ReadWriteSerialized m = Some (Inr t, m1)"
    using free by (simp add: BeginTransaction_def AcquireSerializeLock_def m1_def Let_def)
  have inv1: "tx_inv m1" by (rule tx_inv_begin [OF assms(1,2) begin'])
  have run: "run_all (tx_exec t) ops m1 = Some m2"
    using tx_run_serialized [of m1 t ?tx ops] by (simp add: m1_def m2_def)
  have "tx_inv m2" unfolding m2_def by (rule tx_inv_buffer [OF inv1]) (simp add: m1_def)
  then show thesis using that [OF begin' run, of "?tx\<lparr>tx_buffer := ?b\<rparr>"] by (simp add: m2_def m1_def)
qed

text \<open>\<open>Commit\<close> on such a transaction: every operation fits a log record and there are numbers left.\<close>

lemma serialized_commit:
  assumes "tx_inv m" "tm_txs m t = Some tx" "tx_active tx" "tx_mode tx = ReadWriteSerialized"
    and "tx_buffer tx = fold buf_step ops NewBuffer" "list_all kv_small ops" "storage_room xx (length ops) (tm_storage m)"
  obtains m' where "Commit senv wd t m = Some (None, m')"
    "\<And>key. storage_get xx key (tm_storage m') = Some (overlay (tx_buffer tx) (\<lambda>key. the (storage_get xx key (tm_storage m))) key)"
    "sg_walFiles (tm_storage m') = sg_walFiles (tm_storage m)"
    "Operations (tx_buffer tx) \<noteq> [] \<Longrightarrow> AppendBatch (batch_entries (Operations (tx_buffer tx))) (sg_wal (tm_storage m)) =
      (Inr (w_nextSequence (sg_wal (tm_storage m))), sg_wal (tm_storage m'))"
proof -
  obtain hist where h: "storage_inv xx (tm_storage m) hist" using assms(7) by (auto simp: storage_room_def)
  have wf: "buffer_wf (tx_buffer tx)" unfolding assms(5) by (rule buf_run_wf [OF NewBuffer_wf])
  have small: "list_all op_small (Operations (tx_buffer tx))" unfolding assms(5) by (rule Operations_small [OF assms(6)])
  have "length (Operations (tx_buffer tx)) \<le> length ops"
    using buf_run_length [of ops NewBuffer] by (simp add: Operations_def NewBuffer_def assms(5))
  then have room: "unat (w_nextSequence (sg_wal (tm_storage m))) + length (Operations (tx_buffer tx)) < 2 ^ 64"
    using assms(7) by (simp add: storage_room_def)
  let ?T = "tables_get xx (sg_sstables (tm_storage m))"
  have base: "(\<lambda>key. the (storage_get xx key (tm_storage m))) = hist_get ?T hist"
    using storage_get_inv [OF h] by (simp add: fun_eq_iff)
  have w: "tx_mode tx \<noteq> ReadOnly" using assms(4) by simp
  obtain m' hist' where m': "Commit senv wd t m = Some (None, m')" "storage_inv xx (tm_storage m') hist'"
    "\<And>T. sg_sstables (tm_storage m) = T \<Longrightarrow> hist_get (tables_get xx T) hist' = overlay (tx_buffer tx) (hist_get (tables_get xx T) hist)"
    "sg_sstables (tm_storage m') = sg_sstables (tm_storage m)" "sg_walFiles (tm_storage m') = sg_walFiles (tm_storage m)"
    "Operations (tx_buffer tx) \<noteq> [] \<Longrightarrow> AppendBatch (batch_entries (Operations (tx_buffer tx))) (sg_wal (tm_storage m)) =
      (Inr (w_nextSequence (sg_wal (tm_storage m))), sg_wal (tm_storage m'))"
    using Commit_applies [OF assms(1-3) w wf small h room, of senv wd] by blast
  have "storage_get xx key (tm_storage m') = Some (overlay (tx_buffer tx) (\<lambda>key. the (storage_get xx key (tm_storage m))) key)" for key
    using storage_get_inv [OF m'(2), of key] m'(3) [OF refl] m'(4) base by simp
  with m'(1,5,6) that show thesis by blast
qed

text \<open>A transaction's batch is no larger than its operations: a later operation on a key replaces the earlier one.\<close>

abbreviation bop_bytes :: "operation \<Rightarrow> int" where
  "bop_bytes bop \<equiv> entry_bytes (if o_IsDelete bop then new_entry 0 OpTypeDelete (o_Key bop) None
     else new_entry 0 OpTypePut (o_Key bop) (o_Value bop))"

lemma update_bytes: "(\<Sum>p\<leftarrow>AList.update k bop b. bop_bytes (snd p)) \<le> (\<Sum>p\<leftarrow>b. bop_bytes (snd p)) + bop_bytes bop"
  by (induction b) auto

lemma buf_step_bytes: "(\<Sum>p\<leftarrow>buf_step x b. bop_bytes (snd p)) \<le> (\<Sum>p\<leftarrow>b. bop_bytes (snd p)) + op_bytes x"
proof (cases x)
  case (KvPut k v)
  have "bop_bytes \<lparr>o_Key = k, o_Value = Some v, o_IsDelete = False\<rparr> = op_bytes x"
    by (simp add: KvPut entry_bytes_def new_entry_def op_bytes_def)
  then show ?thesis using update_bytes [of k "\<lparr>o_Key = k, o_Value = Some v, o_IsDelete = False\<rparr>" b] KvPut
    by (simp add: buffer_Put_def)
next
  case (KvDelete k)
  have "bop_bytes \<lparr>o_Key = k, o_Value = None, o_IsDelete = True\<rparr> = op_bytes x"
    by (simp add: KvDelete entry_bytes_def new_entry_def op_bytes_def OpTypePut_def OpTypeDelete_def)
  then show ?thesis using update_bytes [of k "\<lparr>o_Key = k, o_Value = None, o_IsDelete = True\<rparr>" b] KvDelete
    by (simp add: buffer_Delete_def)
qed

lemma buf_run_bytes: "(\<Sum>p\<leftarrow>fold buf_step xs b. bop_bytes (snd p)) \<le> (\<Sum>p\<leftarrow>b. bop_bytes (snd p)) + (\<Sum>x\<leftarrow>xs. op_bytes x)"
proof (induction xs arbitrary: b)
  case (Cons x xs)
  from Cons [of "buf_step x b"] buf_step_bytes [of x b] show ?case by simp
qed simp

lemma batch_bytes: "(\<Sum>e\<leftarrow>batch_entries (Operations b). entry_bytes e) = (\<Sum>p\<leftarrow>b. bop_bytes (snd p))"
proof -
  have "(\<Sum>e\<leftarrow>batch_entries (Operations b). entry_bytes e) = sum_mset (image_mset bop_bytes (mset (map snd b)))"
    by (simp add: batch_entries_def Operations_def comp_def flip: sum_mset_sum_list)
  also have "\<dots> = (\<Sum>p\<leftarrow>b. bop_bytes (snd p))"
    by (simp add: multiset.map_comp comp_def flip: sum_mset_sum_list)
  finally show ?thesis .
qed

lemma serialized_commit_quiet:
  assumes "tm_txs m t = Some tx" "tx_active tx" "tx_mode tx = ReadWriteSerialized"
    and "tx_buffer tx = fold buf_step ops NewBuffer" "list_all kv_small ops" "storage_room xx (length ops) (tm_storage m)"
    and "Commit senv wd t m = Some (None, m')" "quiet T ((\<Sum>x\<leftarrow>ops. op_bytes x) + n) (tm_storage m)" "0 \<le> n" "wo_now wd \<le> T"
  shows "quiet T n (tm_storage m')"
proof -
  let ?ops = "Operations (tx_buffer tx)"
  obtain hist where h: "storage_inv xx (tm_storage m) hist" using assms(6) by (auto simp: storage_room_def)
  have small: "list_all op_small ?ops" unfolding assms(4) by (rule Operations_small [OF assms(5)])
  have len: "length ?ops \<le> length ops" using buf_run_length [of ops NewBuffer] by (simp add: Operations_def NewBuffer_def assms(4))
  have fit: "unat (w_nextSequence (sg_wal (tm_storage m))) + length ?ops < 2 ^ 64" using assms(6) len by (simp add: storage_room_def)
  have "(\<Sum>e\<leftarrow>batch_entries ?ops. entry_bytes e) \<le> (\<Sum>x\<leftarrow>ops. op_bytes x)"
    using buf_run_bytes [of ops NewBuffer] unfolding batch_bytes assms(4) by (simp add: NewBuffer_def)
  then have q: "quiet T ((\<Sum>e\<leftarrow>batch_entries ?ops. entry_bytes e) + n) (tm_storage m)" "quiet T n (tm_storage m)"
    using assms(8) quiet_mono entry_bytes_nonneg(2) [of "batch_entries ?ops"] by (meson add_le_cancel_right add_increasing order_refl order_trans)+
  have n: "length (tx_buffer tx) = length ?ops" by (simp add: Operations_def)
  show ?thesis
  proof (cases "?ops = []")
    case True
    then have "tm_storage m' = tm_storage m"
      using assms(1-3,7) n by (auto simp: Commit_def Let_def end_commit_def ReleaseSerializeLock_def NumberOfQueuedOperations_def split: if_splits)
    with q(2) show ?thesis by simp
  next
    case False
    obtain s' where s': "ApplyBatch senv wd (batch_entries ?ops) (tm_storage m) = Some (None, s')"
      by (rule ApplyBatch_inv [OF h fit small False, of senv wd])
    have "tm_storage m' = s'"
      using assms(1-3,7) s' n False
      by (auto simp: Commit_def Let_def end_commit_def ReleaseSerializeLock_def NumberOfQueuedOperations_def tx_IsValid_def split: if_splits)
    with ApplyBatch_quiet [OF h fit small False s' q(1) assms(9,10)] show ?thesis by simp
  qed
qed

text \<open>
  C14: a serialized transaction takes effect as a whole. Begun on a manager with no other transaction
  active, any puts and deletes succeed and leave the storage as it was; the transaction itself reads
  the map after its operations; \<open>Commit\<close> returns nil, and then the storage shows exactly the map the
  transaction saw. (Every operation fits a log record and there are sequence numbers left.)
\<close>

theorem tx_commit_atomic:
  assumes "tx_inv m" "tm_txs m t = None" "running (\<lambda>_. True) m = {}" "list_all (kv_small \<circ> snd) ops"
    and "storage_room xx (length ops) (tm_storage m)"
  defines "base \<equiv> \<lambda>key. the (storage_get xx key (tm_storage m))"
  shows "\<exists>m1 m2 m3. BeginTransaction t ReadWriteSerialized m = Some (Inr t, m1) \<and> run_all (tx_exec t) ops m1 = Some m2 \<and>
    Commit senv wd t m2 = Some (None, m3) \<and> tm_storage m2 = tm_storage m \<and>
    (\<forall>key. tx_get xx t key m2 = Some (kv_run (map snd ops) base key)) \<and>
    (\<forall>key. storage_get xx key (tm_storage m3) = Some (kv_run (map snd ops) base key))"
proof -
  obtain m1 m2 tx where r: "BeginTransaction t ReadWriteSerialized m = Some (Inr t, m1)" "run_all (tx_exec t) ops m1 = Some m2"
    "tx_inv m2" "tm_txs m2 t = Some tx" "tx_active tx" "tx_mode tx = ReadWriteSerialized"
    "tx_buffer tx = fold buf_step (map snd ops) NewBuffer" "tm_storage m2 = tm_storage m"
    by (rule serialized_run [OF assms(1-3)])
  have small: "list_all kv_small (map snd ops)" using assms(4) by (simp add: list.pred_map)
  have room: "storage_room xx (length (map snd ops)) (tm_storage m2)" using assms(5) r(8) by simp
  obtain m3 where m3: "Commit senv wd t m2 = Some (None, m3)"
    "\<And>key. storage_get xx key (tm_storage m3) = Some (overlay (tx_buffer tx) (\<lambda>key. the (storage_get xx key (tm_storage m2))) key)"
    using serialized_commit [OF r(3-7) small room, of senv wd] by metis
  have over: "overlay (tx_buffer tx) base = kv_run (map snd ops) base"
    using overlay_run [of "map snd ops" NewBuffer base] r(7) by (simp add: overlay_def pending_def NewBuffer_def)
  have wf: "buffer_wf (tx_buffer tx)" unfolding r(7) by (rule buf_run_wf [OF NewBuffer_wf])
  have base: "storage_get xx key (tm_storage m2) = Some (base key)" for key
    using st.get_content [OF assms(5), of key] r(8) by (simp add: base_def)
  have "tx_get xx t key m2 = Some (kv_run (map snd ops) base key)" for key
    using tx_get_overlay [OF r(4,5) wf base] over by simp
  moreover have "storage_get xx key (tm_storage m3) = Some (kv_run (map snd ops) base key)" for key
    using m3(2) [of key] over r(8) by (simp add: base_def)
  ultimately show ?thesis using r(1,2,8) m3(1) by blast
qed

theorem tx_commit_atomic_witness:
  "\<exists>s m1 m2 m3. NewManager sample_config sample_world (\<lambda>_ _. True) (\<lambda>_. 0) [] [] = Some (Inr s) \<and>
     BeginTransaction ''t1'' ReadWriteSerialized (NewTxManager s) = Some (Inr ''t1'', m1) \<and>
     run_all (tx_exec ''t1'') [((\<lambda>_. 0, \<lambda>_. id), KvPut [107] [1]), ((\<lambda>_. 0, \<lambda>_. id), KvDelete [97])] m1 = Some m2 \<and>
     Commit (\<lambda>_. id) sample_world ''t1'' m2 = Some (None, m3) \<and>
     storage_get (\<lambda>_. 0) [107] (tm_storage m3) = Some (Some [1]) \<and> storage_get (\<lambda>_. 0) [97] (tm_storage m3) = Some None"
proof -
  let ?ops = "[((\<lambda>_. 0, \<lambda>_. id), KvPut [107] [1]), ((\<lambda>_. 0, \<lambda>_. id), KvDelete [97])]"
  obtain s where s: "NewManager sample_config sample_world (\<lambda>_ _. True) (\<lambda>_. 0) [] [] = Some (Inr s)"
    "storage_inv (\<lambda>_. 0) s []" "w_nextSequence (sg_wal s) = 1"
    by (rule sample_manager)
  have "tm_txs (NewTxManager s) ''t1'' = None" "running (\<lambda>_. True) (NewTxManager s) = {}"
    by (simp_all add: NewTxManager_def running_def)
  moreover have "list_all (kv_small \<circ> snd) ?ops" by (simp add: payloadSize_def MaxRecordSize_def)
  moreover have "storage_room (\<lambda>_. 0) (length ?ops) (tm_storage (NewTxManager s))"
    using s(2,3) by (auto simp: storage_room_def NewTxManager_def)
  ultimately show ?thesis
    using tx_commit_atomic [OF tx_inv_new, of s "''t1''" ?ops "\<lambda>_. 0" "\<lambda>_. id" sample_world] s(1) by fastforce
qed

section \<open>Commits and restarts\<close>

text \<open>A log that starts with a batch recovers to an empty table: the batch header reads as corrupt.\<close>

lemma recover_batch_file:
  assumes "0 < n" "n < 2 ^ 32" "length rest < 32 * 1024" "fs = [] \<or> fs = [[]]"
  shows "RecoverFromWAL cfg opt rnds clock ((record_bytes RecordTypeFull (batch_header sq n) @ rest) # fs) =
    Some (Inr ([NewMemTable (rnds 0) (clock 0)], 0))"
proof -
  let ?f = "record_bytes RecordTypeFull (batch_header sq n) @ rest"
  let ?h = "entryHandler (case opt of None \<Rightarrow> DefaultRecoveryOptions cfg | Some r \<Rightarrow> r) rnds clock"
  let ?s = "Some ([NewMemTable (rnds 0) (clock 0)], 0)"
  have "ReplayWALFile ?f ?h ?s = (None, NewRecoveryStats\<lparr>EntriesSkipped := 1\<rparr>, ?s)"
    using replay_batch_header [of "[]" ?h ?s NewRecoveryStats ?s n rest sq] assms(1-3) by simp
  moreover have "ReplayWALFile [] ?h ?s = (None, NewRecoveryStats, ?s)"
    using ReplayWALFile_image [of "[]" ?h ?s] by simp
  ultimately obtain stats where "ReplayWALDir (?f # fs) ?h ?s = (None, stats, ?s)"
    using assms(4) by (auto simp: ReplayWALDir_def)
  then show ?thesis
    by (simp add: RecoverFromWAL_def mem_GetNextSequenceNumber_def NewMemTable_def)
qed

lemma manager_opens_nothing:
  assumes "world_ok wd" "0 < MaxMemTables cfg"
    and "\<And>fs. fs = [] \<or> fs = [[]] \<Longrightarrow>
      RecoverFromWAL cfg (Some (DefaultRecoveryOptions cfg)) rnds clock (f # fs) = Some (Inr ([NewMemTable (rnds 0) (clock 0)], 0))"
  shows "\<exists>s. NewManager cfg wd rnds clock [f] [] = Some (Inr s) \<and> storage_inv xx s [] \<and> sg_sstables s = []"
proof -
  obtain w olds files where w: "(case ReuseWAL cfg [f] 1 (wo_reuseFault wd) of Some w \<Rightarrow> Some (w, butlast [f], [f])
      | None \<Rightarrow> map_option (\<lambda>fault. (NewWAL cfg fault, [f], [f] @ [[]])) (wo_newWal wd)) = Some (w, olds, files)"
    "files = [f] \<or> files = [f, []]" "active w" "w_fault w = None"
    using assms(1) by (cases "ReuseWAL cfg [f] 1 (wo_reuseFault wd)")
      (auto simp: world_ok_def ReuseWAL_def NewWAL_def Let_def split: if_splits)
  have rec: "RecoverFromWAL cfg (Some (DefaultRecoveryOptions cfg)) rnds clock files = Some (Inr ([NewMemTable (rnds 0) (clock 0)], 0))"
    using w(2) assms(3) by auto
  obtain p where p: "NewMemTablePool cfg (wo_coins wd) (wo_now wd) = Some p" "mp_immutables p = []"
    "mem_ApproximateSize (mp_active p) = 0"
    using assms(2) by (auto simp: NewMemTablePool_def holds_new [unfolded holds_def])
  let ?s = "adopt_tables [NewMemTable (rnds 0) (clock 0)] 0
    \<lparr>sg_cfg = cfg, sg_wal = w, sg_walFiles = olds, sg_pool = p, sg_immutableMTs = [], sg_sstables = [], sg_sstFiles = [],
     sg_nextFileNum = 1, sg_lastSeqNum = 0, sg_flushSignal = False, sg_closed = False\<rparr>"
  have "NewManager cfg wd rnds clock [f] [] = Some (Inr ?s)"
    using w(1) p(1) rec by (simp add: NewManager_def recoverFromWAL_def)
  moreover have "pool_inv (sg_pool ?s) [] []"
    using p(2,3) by (simp add: adopt_tables_def SetActiveMemTable_def pool_inv_def)
  then have "\<exists>segs ws. pool_inv (sg_pool ?s) segs ws \<and> concat segs @ ws = []" by (intro exI [of _ "[]"]) simp
  then have "storage_inv xx ?s []" using w(3,4) by (simp add: storage_inv_def adopt_tables_def)
  ultimately show ?thesis by (auto simp: adopt_tables_def)
qed

text \<open>
  C16: a committed transaction does not survive a restart. On a new data directory a serialized
  transaction whose batch is smaller than 32 KB commits with nil and its writes are visible, but a
  manager opened on the log it left finds nothing: it opens without an error and every key is absent.
\<close>

theorem tx_commit_lost_on_restart:
  assumes "storage_inv xx s []" "w_stream (sg_wal s) = []" "w_nextSequence (sg_wal s) = 1"
    and "list_all (kv_small \<circ> snd) ops" "ops \<noteq> []" "length ops < 2 ^ 32"
    and "length (records_bytes (batch_records 1 (batch_entries (Operations (fold buf_step (map snd ops) NewBuffer))))) < 32 * 1024"
    and "world_ok wd'" "0 < MaxMemTables cfg"
  shows "\<exists>m1 m2 m3 s'. BeginTransaction t ReadWriteSerialized (NewTxManager s) = Some (Inr t, m1) \<and>
    run_all (tx_exec t) ops m1 = Some m2 \<and> Commit senv wd t m2 = Some (None, m3) \<and>
    NewManager cfg wd' rnds clock [w_stream (sg_wal (tm_storage m3))] [] = Some (Inr s') \<and>
    (\<forall>key. storage_get xx key s' = Some None)"
proof -
  let ?es = "batch_entries (Operations (fold buf_step (map snd ops) NewBuffer))"
  have new: "tm_txs (NewTxManager s) t = None" "running (\<lambda>_. True) (NewTxManager s) = {}" "tm_storage (NewTxManager s) = s"
    by (simp_all add: NewTxManager_def running_def)
  obtain m1 m2 tx where r: "BeginTransaction t ReadWriteSerialized (NewTxManager s) = Some (Inr t, m1)"
    "run_all (tx_exec t) ops m1 = Some m2" "tx_inv m2" "tm_txs m2 t = Some tx" "tx_active tx"
    "tx_mode tx = ReadWriteSerialized" "tx_buffer tx = fold buf_step (map snd ops) NewBuffer" "tm_storage m2 = s"
    using serialized_run [OF tx_inv_new new(1,2), of ops] new(3) by metis
  have small: "list_all kv_small (map snd ops)" using assms(4) by (simp add: list.pred_map)
  have room: "storage_room xx (length (map snd ops)) (tm_storage m2)"
    using assms(1,3,6) r(8) by (auto simp: storage_room_def)
  obtain m3 where m3: "Commit senv wd t m2 = Some (None, m3)"
    "Operations (tx_buffer tx) \<noteq> [] \<Longrightarrow> AppendBatch ?es (sg_wal s) = (Inr 1, sg_wal (tm_storage m3))"
    using serialized_commit [OF r(3-7) small room, of senv wd] r(7,8) assms(3) by metis
  have pos: "0 < length (fold buf_step xs b)" if "xs \<noteq> []" for xs b
  proof -
    obtain x ys where xs: "xs = ys @ [x]" using \<open>xs \<noteq> []\<close> by (metis rev_exhaust)
    have upd: "AList.update k v c \<noteq> []" for k v and c :: buffer by (cases c) auto
    show ?thesis unfolding xs by (cases x) (simp_all add: buffer_Put_def buffer_Delete_def upd)
  qed
  have len: "0 < length ?es" "length ?es < 2 ^ 32"
    using pos [of "map snd ops" NewBuffer] buf_run_length [of "map snd ops" NewBuffer] assms(5,6)
    by (simp_all add: batch_entries_def Operations_def NewBuffer_def)
  then have ops: "Operations (tx_buffer tx) \<noteq> []" "?es \<noteq> []" using r(7) by (auto simp: batch_entries_def)
  have f: "w_stream (sg_wal (tm_storage m3)) = record_bytes RecordTypeFull (batch_header 1 (length ?es)) @ records_bytes (batch_records 1 ?es)"
    using AppendBatch_ok(3) [OF m3(2) [OF ops(1)] ops(2)] assms(2) by simp
  obtain s' where s': "NewManager cfg wd' rnds clock [w_stream (sg_wal (tm_storage m3))] [] = Some (Inr s')"
    "storage_inv xx s' []" "sg_sstables s' = []"
    using manager_opens_nothing [OF assms(8,9), of rnds clock "w_stream (sg_wal (tm_storage m3))" xx]
      recover_batch_file [OF len assms(7)] unfolding f by auto
  have "storage_get xx key s' = Some None" for key
    using storage_get_inv [OF s'(2), of key] s'(3) by (simp add: hist_get_def tables_get_def newest_write_def)
  with r(1,2) m3(1) s'(1) show ?thesis by blast
qed

theorem tx_commit_lost_on_restart_witness:
  "\<exists>s m1 m2 m3 s'. NewManager sample_config sample_world (\<lambda>_ _. True) (\<lambda>_. 0) [] [] = Some (Inr s) \<and>
     BeginTransaction ''t1'' ReadWriteSerialized (NewTxManager s) = Some (Inr ''t1'', m1) \<and>
     run_all (tx_exec ''t1'') [((\<lambda>_. 0, \<lambda>_. id), KvPut [107] [1])] m1 = Some m2 \<and>
     Commit (\<lambda>_. id) sample_world ''t1'' m2 = Some (None, m3) \<and>
     NewManager sample_config sample_world (\<lambda>_ _. True) (\<lambda>_. 0) [w_stream (sg_wal (tm_storage m3))] [] = Some (Inr s') \<and>
     storage_get (\<lambda>_. 0) [107] s' = Some None"
proof -
  let ?ops = "[((\<lambda>_. 0, \<lambda>_. id), KvPut [107] [1])]"
  obtain s where s: "NewManager sample_config sample_world (\<lambda>_ _. True) (\<lambda>_. 0) [] [] = Some (Inr s)"
    "storage_inv (\<lambda>_. 0) s []" "w_nextSequence (sg_wal s) = 1" "w_stream (sg_wal s) = []"
    by (rule sample_manager)
  have "list_all (kv_small \<circ> snd) ?ops" by (simp add: payloadSize_def MaxRecordSize_def)
  moreover have "length (records_bytes (batch_records 1 (batch_entries (Operations (fold buf_step (map snd ?ops) NewBuffer))))) < 32 * 1024"
    by (simp add: NewBuffer_def buffer_Put_def Operations_def batch_entries_def new_entry_def batch_entry_record_def
        payloadSize_def HeaderSize_def)
  ultimately show ?thesis
    using tx_commit_lost_on_restart [OF s(2,4,3), of ?ops sample_world sample_config "''t1''" "\<lambda>_. id" sample_world "\<lambda>_ _. True" "\<lambda>_. 0"]
      s(1) sample_world_ok(1) sample_config_fits(1)
    by (fastforce simp: config_fits_def)
qed

section \<open>Rolling back\<close>

text \<open>
  \<open>Rollback\<close> of an active \<open>WriteReadCommitted\<close> transaction undoes it and still reports an error. In every
  reachable state it returns \<open>ErrTransactionClosed\<close>, although it has just ended the transaction: the buffer
  is empty, its record locks are free, its share of the isolation lock is returned and the storage is as it was.
\<close>

lemma tx_rollback_reports_closed:
  assumes "tx_step\<^sup>*\<^sup>* (NewTxManager s) m" "tm_txs m t = Some tx" "tx_active tx" "tx_mode tx = WriteReadCommitted"
  shows "\<exists>m'. Rollback t m = Some (Some ErrTransactionClosed, m') \<and>
    tm_txs m' t = Some (tx\<lparr>tx_active := False, tx_buffer := []\<rparr>) \<and> tm_storage m' = tm_storage m \<and>
    (\<forall>key. lt_locks (tm_locks m') key \<noteq> Some t) \<and> tm_readers m' + 1 = tm_readers m"
proof -
  have inv: "tx_inv m" by (rule tx_run_inv [OF assms(1) tx_inv_new])
  have reg: "t \<in> lt_registry (tm_locks m)" "0 < tm_readers m" using tx_running [OF inv assms(2,3)] assms(4) by simp_all
  have "lt_locks (snd (ReleaseLocksAndUnregisterTx t (tm_locks m))) key \<noteq> Some t" for key
    using release_fields(1) [OF tx_invD(2) [OF inv] reg(1), of key] by simp
  with Rollback_running [OF inv assms(2,3)] assms(4) reg(2) show ?thesis by (simp add: rolled_back_def)
qed

end
