(* ===== verification/Tx_Scan.thy ===== *)
theory Tx_Scan
  imports Tx_Commit
begin

text \<open>
  The iterator of a transaction: its pending writes over a scan of the storage. The buffer's iterator
  is one kind of source and the engine's iterator over memtables and tables the other.
\<close>

abbreviation tx_scan_ops :: "(bytes \<Rightarrow> u64) \<Rightarrow> (buffer_iter + sst_iter engine_iter) hier iter_ops" where
  "tx_scan_ops xx \<equiv> hier_ops (sum_ops buffer_iter_ops (engine_ops (sst_ops xx)))"

definition storage_items :: "storage \<Rightarrow> block_entry list list list \<Rightarrow> item list" where
  "storage_items s bss = merged (map table_items (GetMemTables (sg_pool s)) @ map blocks_items (rev bss))"

lemma buffer_NewIterator_inv:
  assumes "buffer_wf b"
  shows "bf_inv (buffer_NewIterator b)" "bf_items (buffer_NewIterator b) = map operation_item (Operations b)"
proof -
  have "sorted_wrt (<) (map o_Key (Operations b))" using Operations_sorted [OF assms] by (simp add: sorted_wrt_map)
  then show "bf_inv (buffer_NewIterator b)" by (simp add: bf_inv_def buffer_NewIterator_def strict_sorted_iff)
qed (simp add: bf_items_def buffer_NewIterator_def)

text \<open>
  C17: the scan of a transaction shows its own writes over the storage. An active transaction with
  pending operations gets an iterator that visits every key exactly once, in increasing order, with the
  pending operation of the key (a deletion as a tombstone) if there is one, and otherwise with what the
  scan of memtables and tables shows.
\<close>

theorem tx_scan:
  assumes "tm_txs m t = Some tx" "tx_active tx" "buffer_wf (tx_buffer tx)" "tx_buffer tx \<noteq> []"
    and "\<not> sg_closed (tm_storage m)" "list_all table_wf (GetMemTables (sg_pool (tm_storage m)))"
    and "list_all2 (table_reader xx) (sg_sstables (tm_storage m)) bss"
    and "length (merged [map operation_item (Operations (tx_buffer tx)), storage_items (tm_storage m) bss]) \<le> n"
  shows "\<exists>h it. tx_NewIterator t m = Some (TxMerged h) \<and> op_SeekToFirst (tx_scan_ops xx) h = Some it \<and>
    iter_collect (tx_scan_ops xx) n it =
      Some (merged [map operation_item (Operations (tx_buffer tx)), storage_items (tm_storage m) bss])"
proof -
  let ?c = "createBaseIterator (GetMemTables (sg_pool (tm_storage m))) (map sst_NewIterator (sg_sstables (tm_storage m)))"
  let ?b = "buffer_NewIterator (tx_buffer tx)"
  let ?h = "NewHierarchicalIterator [Inl ?b, Inr ?c]"
  obtain i j r where F: "forward_iterator (engine_ops (sst_ops xx)) i j r"
    and c: "i ?c" "j ?c = storage_items (tm_storage m) bss"
    by (rule engine_forward [of xx]) (use assms(6,7) in \<open>auto simp: storage_items_def\<close>)
  have S: "forward_iterator (sum_ops buffer_iter_ops (engine_ops (sst_ops xx))) (case_sum bf_inv i) (case_sum bf_items j) (case_sum bf_rest r)"
    by (rule two_forward.sum_forward [OF two_forward.intro [OF iterator.axioms(1) [OF buf.iterator_axioms] F]])
  note H = forward_iterator.hier_forward [OF S]
  have h: "forward_iterator.h_inv (case_sum bf_inv i) (case_sum bf_items j) (case_sum bf_rest r) ?h"
    "forward_iterator.h_items (case_sum bf_items j) ?h = merged [map operation_item (Operations (tx_buffer tx)), storage_items (tm_storage m) bss]"
    using c buffer_NewIterator_inv [OF assms(3)]
    by (simp_all add: forward_iterator.h_inv_def [OF S] forward_iterator.h_items_def [OF S] NewHierarchicalIterator_def)
  obtain it where it: "op_SeekToFirst (tx_scan_ops xx) ?h = Some it"
    "forward_iterator.h_inv (case_sum bf_inv i) (case_sum bf_items j) (case_sum bf_rest r) it"
    "forward_iterator.h_rest (case_sum bf_items j) it = forward_iterator.h_items (case_sum bf_items j) ?h"
    using forward_iterator.first [OF H h(1)] by metis
  have "tx_NewIterator t m = Some (TxMerged ?h)"
    using assms(1,2,4,5)
    by (simp add: tx_NewIterator_def tx_iterator_def GetIterator_def CreateIterator_def NumberOfQueuedOperations_def)
  moreover have "iter_collect (tx_scan_ops xx) n it = Some (merged [map operation_item (Operations (tx_buffer tx)), storage_items (tm_storage m) bss])"
    using forward_iterator.iter_collect_rest [OF H it(2), of n] it(3) h(2) assms(8) by simp
  ultimately show ?thesis using it(1) by blast
qed

theorem tx_scan_witness:
  "\<exists>s m1 m2 h it. NewManager sample_config sample_world (\<lambda>_ _. True) (\<lambda>_. 0) [] [] = Some (Inr s) \<and>
     BeginTransaction ''t1'' ReadWriteSerialized (NewTxManager s) = Some (Inr ''t1'', m1) \<and>
     run_all (tx_exec ''t1'') [((\<lambda>_. 0, \<lambda>_. id), KvPut [107] [1])] m1 = Some m2 \<and>
     tx_NewIterator ''t1'' m2 = Some (TxMerged h) \<and> op_SeekToFirst (tx_scan_ops (\<lambda>_. 0)) h = Some it \<and>
     iter_collect (tx_scan_ops (\<lambda>_. 0)) 3 it = Some [([107], Some [1], False)]"
proof -
  let ?ops = "[((\<lambda>_. 0, \<lambda>_. id), KvPut [107] [1])] :: (((nat \<Rightarrow> int) \<times> (nat \<Rightarrow> tx_manager \<Rightarrow> tx_manager)) \<times> kv_op) list"
  obtain s where s: "NewManager sample_config sample_world (\<lambda>_ _. True) (\<lambda>_. 0) [] [] = Some (Inr s)"
    "storage_inv (\<lambda>_. 0) s []" "pool_inv (sg_pool s) [] []" "sg_sstables s = []"
    by (rule sample_manager)
  have new: "tm_txs (NewTxManager s) ''t1'' = None" "running (\<lambda>_. True) (NewTxManager s) = {}"
    by (simp_all add: NewTxManager_def running_def)
  obtain m1 m2 tx where r: "BeginTransaction ''t1'' ReadWriteSerialized (NewTxManager s) = Some (Inr ''t1'', m1)"
    "run_all (tx_exec ''t1'') ?ops m1 = Some m2" "tx_inv m2" "tm_txs m2 ''t1'' = Some tx" "tx_active tx" "tx_mode tx = ReadWriteSerialized"
    "tx_buffer tx = fold buf_step (map snd ?ops) NewBuffer" "tm_storage m2 = tm_storage (NewTxManager s)"
    by (rule serialized_run [OF tx_inv_new new])
  have st: "tm_storage m2 = s" using r(8) by (simp add: NewTxManager_def)
  have b: "tx_buffer tx = [([107], \<lparr>o_Key = [107], o_Value = Some [1], o_IsDelete = False\<rparr>)]"
    using r(7) by (simp add: NewBuffer_def buffer_Put_def)
  have wf: "buffer_wf (tx_buffer tx)" unfolding r(7) by (rule buf_run_wf [OF NewBuffer_wf])
  have t: "GetMemTables (sg_pool s) = [mp_active (sg_pool s)]" "holds (mp_active (sg_pool s)) []"
    using s(3) by (simp_all add: pool_inv_def GetMemTables_def)
  have "storage_items s [] = []"
    using t by (simp add: storage_items_def holds_def table_items_def merged_def source_keys_def)
  then have items: "merged [map operation_item (Operations (tx_buffer tx)), storage_items (tm_storage m2) []] = [([107], Some [1], False)]"
    using b st by (simp add: Operations_def operation_item_def merged_def source_keys_def merged_item_def)
  have "\<not> sg_closed (tm_storage m2)" "list_all table_wf (GetMemTables (sg_pool (tm_storage m2)))"
    "list_all2 (table_reader (\<lambda>_. 0)) (sg_sstables (tm_storage m2)) []"
    using s(2,4) t st by (simp_all add: storage_inv_def holds_def)
  from tx_scan [OF r(4,5) wf _ this, of 3, unfolded items] b r(1,2) s(1) show ?thesis by auto
qed

end
