(* ===== verification/Compaction.thy ===== *)
theory Compaction
  imports Storage "HOL-Library.AList"
begin

text \<open>
  Compaction (\<open>src/pkg/compaction\<close>): the bookkeeping of deletions (\<open>tombstone.go\<close>) and of files
  (\<open>file_tracker.go\<close>), the description of tables (\<open>compaction.go\<close>), the choice of the files to merge
  (\<open>base_strategy.go\<close>, \<open>tiered_strategy.go\<close>) and the merge itself (\<open>executor.go\<close>). A path is the triple
  of level, number and time stamp that the file name spells out, the directory a list of files as in
  \<open>Storage\<close>. Go's maps are lists where the code ranges over them: the order of the list is one of the
  orders the runtime may choose. Times are nanoseconds. A \<open>cworld\<close> is what an operation takes from
  outside: the checksum function and filter dimensions of the table writer, the time stamps and the
  file system faults of each output file, the time at which the tombstone of a key is looked at,
  whether the directory can be read and files can be removed, and the division of \<open>float64\<close>.
\<close>

section \<open>Tombstones\<close>

record tombstone_tracker =
  tt_deletions :: "bytes \<rightharpoonup> int"
  tt_preserveForever :: "bytes set"
  tt_retention :: int

definition NewTombstoneTracker :: "int \<Rightarrow> tombstone_tracker" where
  "NewTombstoneTracker retentionPeriod =
     \<lparr>tt_deletions = Map.empty, tt_preserveForever = {}, tt_retention = retentionPeriod\<rparr>"

definition tracker_AddTombstone :: "int \<Rightarrow> bytes \<Rightarrow> tombstone_tracker \<Rightarrow> tombstone_tracker" where
  "tracker_AddTombstone now key t = t\<lparr>tt_deletions := (tt_deletions t)(key \<mapsto> now)\<rparr>"

definition ForcePreserveTombstone :: "bytes \<Rightarrow> tombstone_tracker \<Rightarrow> tombstone_tracker" where
  "ForcePreserveTombstone key t = t\<lparr>tt_preserveForever := insert key (tt_preserveForever t)\<rparr>"

definition ShouldKeepTombstone :: "int \<Rightarrow> bytes \<Rightarrow> tombstone_tracker \<Rightarrow> bool" where
  "ShouldKeepTombstone now key t =
     (if key \<in> tt_preserveForever t then True
      else case tt_deletions t key of
             None \<Rightarrow> False
           | Some timestamp \<Rightarrow> now - timestamp < tt_retention t)"

definition CollectGarbage :: "int \<Rightarrow> tombstone_tracker \<Rightarrow> tombstone_tracker" where
  "CollectGarbage now t =
     t\<lparr>tt_deletions := (\<lambda>key. case tt_deletions t key of
                          None \<Rightarrow> None
                        | Some timestamp \<Rightarrow> if now - timestamp > tt_retention t then None else Some timestamp)\<rparr>"

record basic_filter =
  bt_level :: nat
  bt_maxTombstoneLevel :: int
  bt_tracker :: "tombstone_tracker option"

definition basic_ShouldKeep :: "int \<Rightarrow> basic_filter \<Rightarrow> bytes \<Rightarrow> slice \<Rightarrow> bool" where
  "basic_ShouldKeep now f key value =
     (if value \<noteq> None then True
      else case bt_tracker f of
             Some t \<Rightarrow> ShouldKeepTombstone now key t
           | None \<Rightarrow> int (bt_level f) \<le> bt_maxTombstoneLevel f)"

record time_filter =
  tf_deletionTimes :: "bytes \<rightharpoonup> int"
  tf_now :: int
  tf_retention :: int

definition NewTimeBasedTombstoneFilter :: "int \<Rightarrow> (bytes \<rightharpoonup> int) \<Rightarrow> int \<Rightarrow> time_filter" where
  "NewTimeBasedTombstoneFilter now deletionTimes retention =
     \<lparr>tf_deletionTimes = deletionTimes, tf_now = now, tf_retention = retention\<rparr>"

definition time_ShouldKeep :: "time_filter \<Rightarrow> bytes \<Rightarrow> slice \<Rightarrow> bool" where
  "time_ShouldKeep f key value =
     (if value \<noteq> None then True
      else case tf_deletionTimes f key of
             None \<Rightarrow> True
           | Some deleteTime \<Rightarrow> tf_now f - deleteTime \<le> tf_retention f)"

record range_filter =
  rf_minKey :: slice
  rf_maxKey :: slice
  rf_delegate :: "bytes \<Rightarrow> slice \<Rightarrow> bool"

definition in_filter_range :: "range_filter \<Rightarrow> bytes \<Rightarrow> bool" where
  "in_filter_range f key =
     (\<not> (rf_minKey f \<noteq> None \<and> bytes_compare key (bytes_of (rf_minKey f)) < 0) \<and>
      \<not> (rf_maxKey f \<noteq> None \<and> bytes_compare key (bytes_of (rf_maxKey f)) \<ge> 0))"

definition range_ShouldKeep :: "range_filter \<Rightarrow> bytes \<Rightarrow> slice \<Rightarrow> bool" where
  "range_ShouldKeep f key value =
     (if value \<noteq> None then True
      else if \<not> in_filter_range f key then True
      else rf_delegate f key value)"

section \<open>Files\<close>

type_synonym sst_dir = "(sst_name \<times> bytes) list"

datatype compaction_error =
    ReadDirFailed | OpenFailed sst_name sst_error | FinishFailed sst_error | NewWriterFailed sst_error
  | AddFailed sst_error | RemoveFailed sst_name | LoadFailed compaction_error
  | CompactionFailed compaction_error | CleanUpFailed compaction_error | ReloadFailed compaction_error
  | NotStarted

definition dir_write :: "sst_name \<Rightarrow> bytes \<Rightarrow> sst_dir \<Rightarrow> sst_dir" where
  "dir_write name content d = insort_key fst (name, content) (filter (\<lambda>f. fst f \<noteq> name) d)"

definition dir_remove :: "sst_name \<Rightarrow> sst_dir \<Rightarrow> sst_dir" where
  "dir_remove name d = filter (\<lambda>f. fst f \<noteq> name) d"

definition dir_has :: "sst_name \<Rightarrow> sst_dir \<Rightarrow> bool" where
  "dir_has name d = (name \<in> fst ` set d)"

record file_tracker =
  tr_obsoleteFiles :: "sst_name list"
  tr_pendingFiles :: "sst_name list"

definition NewFileTracker :: file_tracker where
  "NewFileTracker = \<lparr>tr_obsoleteFiles = [], tr_pendingFiles = []\<rparr>"

definition MarkFileObsolete :: "sst_name \<Rightarrow> file_tracker \<Rightarrow> file_tracker" where
  "MarkFileObsolete path f = f\<lparr>tr_obsoleteFiles := List.insert path (tr_obsoleteFiles f)\<rparr>"

definition MarkFilePending :: "sst_name \<Rightarrow> file_tracker \<Rightarrow> file_tracker" where
  "MarkFilePending path f = f\<lparr>tr_pendingFiles := List.insert path (tr_pendingFiles f)\<rparr>"

definition UnmarkFilePending :: "sst_name \<Rightarrow> file_tracker \<Rightarrow> file_tracker" where
  "UnmarkFilePending path f = f\<lparr>tr_pendingFiles := removeAll path (tr_pendingFiles f)\<rparr>"

definition IsFileObsolete :: "sst_name \<Rightarrow> file_tracker \<Rightarrow> bool" where
  "IsFileObsolete path f = (path \<in> set (tr_obsoleteFiles f))"

definition IsFilePending :: "sst_name \<Rightarrow> file_tracker \<Rightarrow> bool" where
  "IsFilePending path f = (path \<in> set (tr_pendingFiles f))"

text \<open>The loop of \<open>CleanupObsoleteFiles\<close> over the obsolete files in some order.\<close>

fun cleanup_loop ::
  "(sst_name \<Rightarrow> bool) \<Rightarrow> sst_name list \<Rightarrow> file_tracker \<Rightarrow> sst_dir \<Rightarrow> compaction_error option \<times> file_tracker \<times> sst_dir" where
  "cleanup_loop rmFails [] f d = (None, f, d)"
| "cleanup_loop rmFails (path # paths) f d =
     (if path \<in> set (tr_pendingFiles f) then cleanup_loop rmFails paths f d
      else if \<not> dir_has path d
      then cleanup_loop rmFails paths (f\<lparr>tr_obsoleteFiles := removeAll path (tr_obsoleteFiles f)\<rparr>) d
      else if rmFails path then (Some (RemoveFailed path), f, d)
      else cleanup_loop rmFails paths (f\<lparr>tr_obsoleteFiles := removeAll path (tr_obsoleteFiles f)\<rparr>) (dir_remove path d))"

definition CleanupObsoleteFiles ::
  "(sst_name \<Rightarrow> bool) \<Rightarrow> file_tracker \<Rightarrow> sst_dir \<Rightarrow> compaction_error option \<times> file_tracker \<times> sst_dir" where
  "CleanupObsoleteFiles rmFails f d = cleanup_loop rmFails (tr_obsoleteFiles f) f d"

section \<open>Tables and levels\<close>

record sstable_info =
  inf_Path :: sst_name
  inf_Level :: nat
  inf_Sequence :: u64
  inf_Timestamp :: u64
  inf_Size :: u64
  inf_KeyCount :: nat
  inf_FirstKey :: bytes
  inf_LastKey :: bytes
  inf_Reader :: "sst_reader option"

definition ranges_overlap :: "bytes \<Rightarrow> bytes \<Rightarrow> bytes \<Rightarrow> bytes \<Rightarrow> bool" where
  "ranges_overlap sFirst sLast otherFirst otherLast =
     (if sFirst = [] \<or> sLast = [] \<or> otherFirst = [] \<or> otherLast = [] then False
      else \<not> (bytes_compare sLast otherFirst < 0 \<or> bytes_compare sFirst otherLast > 0))"

definition Overlaps :: "sstable_info \<Rightarrow> sstable_info \<Rightarrow> bool" where
  "Overlaps s other = ranges_overlap (inf_FirstKey s) (inf_LastKey s) (inf_FirstKey other) (inf_LastKey other)"

type_synonym levels = "(nat \<times> sstable_info list) list"

definition level_files :: "levels \<Rightarrow> nat \<Rightarrow> sstable_info list" where
  "level_files lv level = (case map_of lv level of None \<Rightarrow> [] | Some fs \<Rightarrow> fs)"

definition add_to_level :: "sstable_info \<Rightarrow> levels \<Rightarrow> levels" where
  "add_to_level info lv = AList.update (inf_Level info) (level_files lv (inf_Level info) @ [info]) lv"

record compaction_task =
  ct_InputFiles :: levels
  ct_TargetLevel :: nat

definition input_paths :: "compaction_task \<Rightarrow> sst_name list" where
  "input_paths task = concat (map (\<lambda>(_, files). map inf_Path files) (ct_InputFiles task))"

record cworld =
  cw_xx :: "bytes \<Rightarrow> u64"
  cw_dims :: "u64 \<times> u64"
  cw_stamp :: "u64 \<Rightarrow> u64"
  cw_finishTime :: "u64 \<Rightarrow> u64"
  cw_fault :: "u64 \<Rightarrow> nat option"
  cw_now :: "bytes \<Rightarrow> int"
  cw_readDir :: "nat \<Rightarrow> bool"
  cw_rmFails :: "sst_name \<Rightarrow> bool"
  cw_fdiv :: "int \<Rightarrow> int \<Rightarrow> rat"

text \<open>
  One file of the directory. \<open>Sscanf\<close> reads at most six digits of the number and an \<open>int64\<close> time
  stamp, so that a longer number makes the file invisible to compaction.
\<close>

definition name_parses :: "sst_name \<Rightarrow> bool" where
  "name_parses name = (case name of (level, sequence, timestamp) \<Rightarrow> unat sequence < 10 ^ 6 \<and> unat timestamp < 2 ^ 63)"

definition load_info :: "(bytes \<Rightarrow> u64) \<Rightarrow> sst_name \<Rightarrow> bytes \<Rightarrow> (compaction_error + sstable_info) option" where
  "load_info xx name content =
     (case OpenTable xx (Some content) of
        None \<Rightarrow> None
      | Some (Inl e) \<Rightarrow> Some (Inl (OpenFailed name e))
      | Some (Inr reader) \<Rightarrow>
          (case st_SeekToFirst xx (sst_NewIterator reader) of
             None \<Rightarrow> None
           | Some it1 \<Rightarrow>
               (case st_SeekToLast xx it1 of
                  None \<Rightarrow> None
                | Some it2 \<Rightarrow>
                    Some (Inr \<lparr>inf_Path = name, inf_Level = fst name, inf_Sequence = fst (snd name),
                               inf_Timestamp = snd (snd name), inf_Size = of_nat (length content),
                               inf_KeyCount = GetKeyCount reader,
                               inf_FirstKey = (if st_Valid it1 then bytes_of (st_Key it1) else []),
                               inf_LastKey = (if st_Valid it2 then bytes_of (st_Key it2) else []),
                               inf_Reader = Some reader\<rparr>))))"

fun load_loop :: "(bytes \<Rightarrow> u64) \<Rightarrow> sst_dir \<Rightarrow> levels \<Rightarrow> (compaction_error option \<times> levels) option" where
  "load_loop xx [] lv = Some (None, lv)"
| "load_loop xx ((name, content) # fs) lv =
     (if \<not> name_parses name then load_loop xx fs lv
      else case load_info xx name content of
             None \<Rightarrow> None
           | Some (Inl e) \<Rightarrow> Some (Some e, lv)
           | Some (Inr info) \<Rightarrow> load_loop xx fs (add_to_level info lv))"

definition sort_levels :: "levels \<Rightarrow> levels" where
  "sort_levels lv = map (\<lambda>(level, files). (level, sort_key inf_Sequence files)) lv"

text \<open>\<open>nth_read\<close> counts the calls of one operation.\<close>

definition LoadSSTables :: "cworld \<Rightarrow> nat \<Rightarrow> sst_dir \<Rightarrow> (compaction_error option \<times> levels) option" where
  "LoadSSTables wd nth_read d =
     (if \<not> cw_readDir wd nth_read then Some (Some ReadDirFailed, [])
      else case load_loop (cw_xx wd) d [] of
             None \<Rightarrow> None
           | Some (Some e, lv) \<Rightarrow> Some (Some e, lv)
           | Some (None, lv) \<Rightarrow> Some (None, sort_levels lv))"

definition strategy_Close :: "levels \<Rightarrow> levels" where
  "strategy_Close lv = map (\<lambda>(level, files). (level, map (\<lambda>f. f\<lparr>inf_Reader := None\<rparr>) files)) lv"

definition GetLevelSize :: "levels \<Rightarrow> nat \<Rightarrow> u64" where
  "GetLevelSize lv level = foldl (\<lambda>n f. n + inf_Size f) 0 (level_files lv level)"

definition max_level :: "levels \<Rightarrow> nat" where
  "max_level lv = foldl (\<lambda>m (level, _). if level > m then level else m) 0 lv"

section \<open>Choosing files\<close>

text \<open>The key range of the chosen files: the loop over \<open>minKey\<close> and \<open>maxKey\<close>.\<close>

definition widen :: "bytes \<times> bytes \<Rightarrow> sstable_info \<Rightarrow> bytes \<times> bytes" where
  "widen r f =
     (case r of (minKey, maxKey) \<Rightarrow>
        (if length minKey = 0 \<or> bytes_compare (inf_FirstKey f) minKey < 0 then inf_FirstKey f else minKey,
         if length maxKey = 0 \<or> bytes_compare (inf_LastKey f) maxKey > 0 then inf_LastKey f else maxKey))"

definition key_range :: "sstable_info list \<Rightarrow> bytes \<times> bytes" where
  "key_range files = foldl widen ([], []) files"

text \<open>The result \<open>None\<close> is a panic, \<open>Some None\<close> that nothing needs compaction.\<close>

definition selectL0Compaction :: "config \<Rightarrow> levels \<Rightarrow> compaction_task option option" where
  "selectL0Compaction cfg lv =
     (if length (level_files lv 0) < 2 then Some None
      else let files = sort_key inf_Sequence (level_files lv 0);
               maxCompactFiles = (if MaxMemTables cfg > int (length files) then int (length files) else MaxMemTables cfg)
           in if maxCompactFiles < 0 then None
              else let selectedFiles = take (nat maxCompactFiles) files;
                       (minKey, maxKey) = key_range selectedFiles;
                       l1Files = filter (\<lambda>f. ranges_overlap (inf_FirstKey f) (inf_LastKey f) minKey maxKey) (level_files lv 1)
                   in Some (Some \<lparr>ct_InputFiles = [(0, selectedFiles), (1, l1Files)], ct_TargetLevel = 1\<rparr>))"

definition selectPromotionCompaction :: "nat \<Rightarrow> levels \<Rightarrow> compaction_task option option" where
  "selectPromotionCompaction level lv =
     (case sort_key inf_Sequence (level_files lv level) of
        [] \<Rightarrow> None
      | f # _ \<Rightarrow> Some (Some \<lparr>ct_InputFiles = [(level, [f])], ct_TargetLevel = level + 1\<rparr>))"

definition selectOverlappingCompaction :: "nat \<Rightarrow> levels \<Rightarrow> compaction_task option option" where
  "selectOverlappingCompaction level lv =
     (case sort_key inf_Sequence (level_files lv level) of
        [] \<Rightarrow> None
      | f # _ \<Rightarrow>
          Some (Some \<lparr>ct_InputFiles = [(level, [f]), (level + 1, filter (Overlaps f) (level_files lv (level + 1)))],
                      ct_TargetLevel = level + 1\<rparr>))"

fun select_by_size :: "cworld \<Rightarrow> config \<Rightarrow> levels \<Rightarrow> nat list \<Rightarrow> compaction_task option option" where
  "select_by_size wd cfg lv [] = Some None"
| "select_by_size wd cfg lv (level # rest) =
     (let thisLevelSize = GetLevelSize lv level; nextLevelSize = GetLevelSize lv (level + 1) in
      if thisLevelSize = 0 then select_by_size wd cfg lv rest
      else if nextLevelSize = 0 \<and> length (level_files lv level) > 0 then selectPromotionCompaction level lv
      else if cw_fdiv wd (sint thisLevelSize) (sint nextLevelSize) \<ge> CompactionRatio cfg
           then selectOverlappingCompaction level lv
      else select_by_size wd cfg lv rest)"

definition SelectCompaction :: "cworld \<Rightarrow> config \<Rightarrow> levels \<Rightarrow> compaction_task option option" where
  "SelectCompaction wd cfg lv =
     (if int (length (level_files lv 0)) \<ge> MaxMemTables cfg then selectL0Compaction cfg lv
      else select_by_size wd cfg lv [0..<max_level lv])"

section \<open>Merging files\<close>

record merge_state =
  ms_outputFiles :: "sst_name list"
  ms_writer :: "sst_writer option"
  ms_path :: sst_name
  ms_seq :: u64
  ms_entries :: nat
  ms_dir :: sst_dir

type_synonym 'a merge_op = "(merge_state, compaction_error, 'a) op"

text \<open>The readers of the input files, level by level.\<close>

definition task_iterators :: "compaction_task \<Rightarrow> sst_iter list" where
  "task_iterators task =
     concat (map (\<lambda>level. map sst_NewIterator (List.map_filter inf_Reader (level_files (ct_InputFiles task) level)))
                 [0..<ct_TargetLevel task + 1])"

definition finish_current :: "cworld \<Rightarrow> unit merge_op" where
  "finish_current wd s =
     (case ms_writer s of
        None \<Rightarrow> (Inr (), s)
      | Some w \<Rightarrow>
          (case writer_Finish (cw_xx wd) (cw_dims wd) (cw_finishTime wd (fst (snd (ms_path s)))) w of
             (Inl e, w') \<Rightarrow> (Inl (FinishFailed e), s\<lparr>ms_writer := Some w'\<rparr>)
           | (Inr _, w') \<Rightarrow>
               (Inr (), s\<lparr>ms_writer := Some w', ms_outputFiles := ms_outputFiles s @ [ms_path s],
                          ms_dir := (case fm_final (sw_fm w') of None \<Rightarrow> ms_dir s
                                     | Some content \<Rightarrow> dir_write (ms_path s) content (ms_dir s))\<rparr>)))"

definition open_output :: "cworld \<Rightarrow> nat \<Rightarrow> unit merge_op" where
  "open_output wd target s =
     (let sq = ms_seq s; s1 = s\<lparr>ms_path := (target, sq, cw_stamp wd sq), ms_seq := sq + 1\<rparr> in
      case NewWriter (cw_dims wd) (cw_fault wd sq) of
        Inl e \<Rightarrow> (Inl (NewWriterFailed e), s1\<lparr>ms_writer := None\<rparr>)
      | Inr w \<Rightarrow> (Inr (), s1\<lparr>ms_writer := Some w, ms_entries := 0\<rparr>))"

definition createNewOutputFile :: "cworld \<Rightarrow> nat \<Rightarrow> unit merge_op" where
  "createNewOutputFile wd target = bind_op (finish_current wd) (\<lambda>_. open_output wd target)"

definition should_keep :: "cworld \<Rightarrow> config \<Rightarrow> tombstone_tracker option \<Rightarrow> nat \<Rightarrow> bytes \<Rightarrow> bool \<Rightarrow> bool" where
  "should_keep wd cfg tm target key isTombstone =
     (if tm \<noteq> None \<and> isTombstone
      then basic_ShouldKeep (cw_now wd key)
             \<lparr>bt_level = target, bt_maxTombstoneLevel = MaxLevelWithTombstones cfg, bt_tracker = tm\<rparr> key None
      else \<not> isTombstone \<or> int target \<le> MaxLevelWithTombstones cfg)"

definition merge_write :: "cworld \<Rightarrow> bytes \<Rightarrow> slice \<Rightarrow> bool \<Rightarrow> unit merge_op" where
  "merge_write wd key value isTombstone s =
     (case ms_writer s of
        None \<Rightarrow> (Inl (AddFailed SstPanic), s)
      | Some w \<Rightarrow>
          (case (if isTombstone then AddTombstone (cw_xx wd) (cw_dims wd) key w
                 else writer_Add (cw_xx wd) (cw_dims wd) key value w) of
             (Inl e, w') \<Rightarrow> (Inl (AddFailed e), s\<lparr>ms_writer := Some w'\<rparr>)
           | (Inr _, w') \<Rightarrow> (Inr (), s\<lparr>ms_writer := Some w', ms_entries := ms_entries s + 1\<rparr>)))"

definition merge_entry :: "cworld \<Rightarrow> config \<Rightarrow> tombstone_tracker option \<Rightarrow> nat \<Rightarrow> bytes \<Rightarrow> slice \<Rightarrow> bool \<Rightarrow> unit merge_op" where
  "merge_entry wd cfg tm target key value isTombstone =
     bind_op (if should_keep wd cfg tm target key isTombstone then merge_write wd key value isTombstone else ret ()) (\<lambda>_ s.
       if int (ms_entries s) \<ge> SSTableMaxSize cfg then createNewOutputFile wd target s else (Inr (), s))"

text \<open>\<open>lastKey\<close> stays nil as long as only empty keys were copied into it.\<close>

definition remember :: "slice \<Rightarrow> bytes \<Rightarrow> slice" where
  "remember lastKey key = (if lastKey = None \<and> key = [] then None else Some key)"

partial_function (option) merge_loop ::
  "cworld \<Rightarrow> config \<Rightarrow> tombstone_tracker option \<Rightarrow> nat \<Rightarrow> sst_iter hier \<Rightarrow> slice \<Rightarrow> merge_state \<Rightarrow>
   ((compaction_error + unit) \<times> merge_state) option" where
  "merge_loop wd cfg tm target it lastKey s =
     (if \<not> hier_Valid it then Some (Inr (), s)
      else let key = bytes_of (hier_Key it) in
           if lastKey = Some key then
             (case hier_Next (sst_ops (cw_xx wd)) it of
                None \<Rightarrow> None
              | Some (_, it') \<Rightarrow> merge_loop wd cfg tm target it' lastKey s)
           else let r = merge_entry wd cfg tm target key (hier_Value it) (hier_IsTombstone it) s in
                (case fst r of
                   Inl e \<Rightarrow> Some (Inl e, snd r)
                 | Inr _ \<Rightarrow>
                     (case hier_Next (sst_ops (cw_xx wd)) it of
                        None \<Rightarrow> None
                      | Some (_, it') \<Rightarrow> merge_loop wd cfg tm target it' (remember lastKey key) (snd r))))"

definition close_output :: "cworld \<Rightarrow> unit merge_op" where
  "close_output wd s =
     (case ms_writer s of
        None \<Rightarrow> (Inr (), s)
      | Some w \<Rightarrow>
          if ms_entries s > 0 then finish_current wd s
          else (Inr (), s\<lparr>ms_writer := Some (snd (writer_Abort w))\<rparr>))"

definition merge_start :: "sst_dir \<Rightarrow> merge_state" where
  "merge_start d = \<lparr>ms_outputFiles = [], ms_writer = None, ms_path = (0, 0, 0), ms_seq = 1, ms_entries = 0, ms_dir = d\<rparr>"

definition CompactFiles ::
  "cworld \<Rightarrow> config \<Rightarrow> tombstone_tracker option \<Rightarrow> compaction_task \<Rightarrow> sst_dir \<Rightarrow>
   ((compaction_error + sst_name list) \<times> sst_dir) option" where
  "CompactFiles wd cfg tm task d =
     (case createNewOutputFile wd (ct_TargetLevel task) (merge_start d) of
        (Inl e, s) \<Rightarrow> Some (Inl e, ms_dir s)
      | (Inr _, s) \<Rightarrow>
          (case hier_SeekToFirst (sst_ops (cw_xx wd)) (NewHierarchicalIterator (task_iterators task)) of
             None \<Rightarrow> None
           | Some it \<Rightarrow>
               (case merge_loop wd cfg tm (ct_TargetLevel task) it None s of
                  None \<Rightarrow> None
                | Some (Inl e, s1) \<Rightarrow> Some (Inl e, ms_dir s1)
                | Some (Inr _, s1) \<Rightarrow>
                    (case close_output wd s1 of
                       (Inl e, s2) \<Rightarrow> Some (Inl e, ms_dir s2)
                     | (Inr _, s2) \<Rightarrow> Some (Inr (ms_outputFiles s2), ms_dir s2)))))"

fun DeleteCompactedFiles :: "(sst_name \<Rightarrow> bool) \<Rightarrow> sst_name list \<Rightarrow> sst_dir \<Rightarrow> compaction_error option \<times> sst_dir" where
  "DeleteCompactedFiles rmFails [] d = (None, d)"
| "DeleteCompactedFiles rmFails (path # paths) d =
     (if \<not> dir_has path d \<or> rmFails path then (Some (RemoveFailed path), d)
      else DeleteCompactedFiles rmFails paths (dir_remove path d))"

text \<open>The files of every level that meet a key range.\<close>

definition range_task :: "bytes \<Rightarrow> bytes \<Rightarrow> levels \<Rightarrow> compaction_task" where
  "range_task minKey maxKey lv =
     \<lparr>ct_InputFiles = filter (\<lambda>(_, files). files \<noteq> [])
        (map (\<lambda>level. (level, filter (\<lambda>f. ranges_overlap (inf_FirstKey f) (inf_LastKey f) minKey maxKey) (level_files lv level)))
           [0..<max_level lv + 1]),
      ct_TargetLevel = max_level lv + 1\<rparr>"

definition strategy_CompactRange ::
  "cworld \<Rightarrow> config \<Rightarrow> tombstone_tracker option \<Rightarrow> bytes \<Rightarrow> bytes \<Rightarrow> levels \<Rightarrow> sst_dir \<Rightarrow>
   (compaction_error option \<times> levels \<times> sst_dir) option" where
  "strategy_CompactRange wd cfg tm minKey maxKey lv d =
     (let task = range_task minKey maxKey lv in
      if length (input_paths task) = 0 then Some (None, lv, d)
      else case CompactFiles wd cfg tm task d of
             None \<Rightarrow> None
           | Some (Inl e, d1) \<Rightarrow> Some (Some (CompactionFailed e), lv, d1)
           | Some (Inr _, d1) \<Rightarrow>
               (case DeleteCompactedFiles (cw_rmFails wd) (input_paths task) d1 of
                  (Some e, d2) \<Rightarrow> Some (Some (CleanUpFailed e), lv, d2)
                | (None, d2) \<Rightarrow>
                    map_option (\<lambda>(err, lv'). (map_option ReloadFailed err, lv', d2)) (LoadSSTables wd 1 d2)))"

end
