(* ===== verification/Compaction_Load.thy ===== *)
theory Compaction_Load
  imports Compaction
begin

text \<open>
  What compaction learns about the tables of a directory: \<open>SeekToLast\<close> of the table iterator lands on
  the last entry, so that \<open>LoadSSTables\<close> (\<open>src/pkg/compaction/base_strategy.go\<close>) finds the first and the
  last key of every table it can open, and groups the tables by level in the order of their numbers.
\<close>

section \<open>The last entry of a table\<close>

abbreviation block_off :: "(bytes \<Rightarrow> u64) \<Rightarrow> block_entry list list \<Rightarrow> nat \<Rightarrow> u64" where
  "block_off xx bs k \<equiv> of_nat (block_offset xx bs k)"

text \<open>One step of a walk over the index: the next position, or the end.\<close>

lemma index_step:
  assumes "on xx (index_block xx bs) k i idx"
  obtains (onward) idx' k' where "bk_Next idx = Some (True, idx')" "on xx (index_block xx bs) k' (Suc k') idx'" "i = k'" "i < length bs"
  | (stop) idx' where "bk_Next idx = Some (False, idx')" "exhausted xx (index_block xx bs) idx'" "Suc k = length bs" "i = length bs"
proof (cases "i < length bs")
  case True
  then show thesis using onward Next_on(1) [OF assms] by auto
next
  case False
  then have "i = length bs" "Suc k = length bs" using index_on(1) [OF assms] assms by (auto simp: on_def)
  then show thesis using stop Next_on(2) [OF assms] by auto
qed

lemma last_offset_loop_on:
  assumes "on xx (index_block xx bs) k i idx" "table_ok xx now bfs bs"
    "block_off xx bs k \<in> set seen \<longrightarrow> found = Some (block_off xx bs k)"
    "\<forall>m. k < m \<and> m < length bs \<longrightarrow> block_off xx bs m \<notin> set seen"
  shows "\<exists>idx'. last_offset_loop seen found idx = Some (Some (block_off xx bs (length bs - 1)), idx') \<and>
    exhausted xx (index_block xx bs) idx'"
  using assms(1,3,4)
proof (induction "2 * length bs - k - i" arbitrary: k i idx seen found rule: less_induct)
  case less
  note ix = index_on [OF less.prems(1)]
  let ?seen = "if block_off xx bs k \<in> set seen then seen else block_off xx bs k # seen"
  have found: "(if block_off xx bs k \<in> set seen then found else Some (block_off xx bs k)) = Some (block_off xx bs k)"
    using less.prems(2) by auto
  have i: "i = Suc k \<or> i = k" using less.prems(1) by (auto simp: on_def)
  from less.prems(1) show ?case
  proof (cases rule: index_step)
    case (onward idx' k')
    have "last_offset_loop seen found idx = last_offset_loop ?seen (Some (block_off xx bs k)) idx'"
      using onward(1) ix found by (subst last_offset_loop.simps) (auto simp: Let_def)
    moreover have "\<exists>idx''. last_offset_loop ?seen (Some (block_off xx bs k)) idx' =
        Some (Some (block_off xx bs (length bs - 1)), idx'') \<and> exhausted xx (index_block xx bs) idx''"
    proof (rule less.hyps [OF _ onward(2)])
      show "2 * length bs - k' - Suc k' < 2 * length bs - k - i" using onward(3,4) i ix(1) by auto
      have "block_off xx bs m \<noteq> block_off xx bs k" if "k < m" "m < length bs" for m
        using block_offset_inj [OF assms(2), of m k] that ix(1) by auto
      then show "block_off xx bs k' \<in> set ?seen \<longrightarrow> Some (block_off xx bs k) = Some (block_off xx bs k')"
        "\<forall>m. k' < m \<and> m < length bs \<longrightarrow> block_off xx bs m \<notin> set ?seen"
        using i onward(3,4) less.prems(3) by auto
    qed
    ultimately show ?thesis by simp
  next
    case (stop idx')
    have "last_offset_loop seen found idx = last_offset_loop ?seen (Some (block_off xx bs k)) idx'"
      using stop(1) ix found by (subst last_offset_loop.simps) (auto simp: Let_def)
    moreover have "k = length bs - 1" using stop(3) by simp
    ultimately show ?thesis using stop exhausted_invalid [OF stop(2)] by (subst (asm) (2) last_offset_loop.simps) simp
  qed
qed

lemma find_offset_on:
  assumes "on xx (index_block xx bs) k i idx" "table_ok xx now bfs bs" "k \<le> m" "m < length bs"
  shows "\<exists>i' idx'. find_offset (block_off xx bs m) idx = Some idx' \<and> on xx (index_block xx bs) m i' idx'"
  using assms(1,3)
proof (induction "2 * length bs - k - i" arbitrary: k i idx rule: less_induct)
  case less
  note ix = index_on [OF less.prems(1)]
  have i: "i = Suc k \<or> i = k" using less.prems(1) by (auto simp: on_def)
  show ?case
  proof (cases "k = m")
    case True
    then show ?thesis using ix less.prems(1) by (subst find_offset.simps) auto
  next
    case False
    then have ne: "block_off xx bs k \<noteq> block_off xx bs m" using block_offset_inj [OF assms(2) ix(1) assms(4)] by auto
    from less.prems(1) show ?thesis
    proof (cases rule: index_step)
      case (onward idx' k')
      have "find_offset (block_off xx bs m) idx = find_offset (block_off xx bs m) idx'"
        using onward(1) ix ne by (subst find_offset.simps) simp
      moreover have "2 * length bs - k' - Suc k' < 2 * length bs - k - i" "k' \<le> m"
        using onward(3,4) i ix(1) less.prems(2) False by auto
      ultimately show ?thesis using less.hyps [OF _ onward(2)] by simp
    next
      case (stop idx')
      then show ?thesis using False less.prems(2) assms(4) by simp
    qed
  qed
qed

lemma st_SeekToLast_at:
  assumes "over_table xx bs it"
  shows "\<exists>it'. st_SeekToLast xx it = Some it' \<and>
    Sst_Iter.at xx bs (length bs - 1) (length (last bs) - 1) (length (last bs)) it'"
proof -
  obtain now bfs where o: "is_open xx now bfs bs (si_reader it)" and ov: "over xx (index_block xx bs) (si_index it)"
    using assms by (auto simp: over_table_def)
  have ok: "table_ok xx now bfs bs" using o by (simp add: is_open_def)
  then have ne: "bs \<noteq> []" by (simp add: table_ok_def blocks_ok_def)
  let ?k = "length bs - 1"
  have k: "?k < length bs" "bs ! ?k = last bs" using ne by (auto simp: last_conv_nth)
  obtain idx where idx: "findLastUniqueBlockOffset (si_index it) = Some (Some (block_off xx bs ?k), idx)"
    "exhausted xx (index_block xx bs) idx"
    using last_offset_loop_on [OF SeekToFirst_on [OF ov] ok, of "[]" None] by (auto simp: findLastUniqueBlockOffset_def)
  have "over xx (index_block xx bs) idx" using idx(2) by (simp add: exhausted_def)
  from find_offset_on [OF SeekToFirst_on [OF this] ok _ k(1)] obtain i' idx' where
    idx': "find_offset (block_off xx bs ?k) (bk_SeekToFirst idx) = Some idx'" "on xx (index_block xx bs) ?k i' idx'" by auto
  let ?it = "it\<lparr>si_err := None, si_index := idx'\<rparr>"
  have ld: "loadCurrentDataBlock xx ?it = ?it\<lparr>si_data := Some (block_Iterator (opened xx (last bs)))\<rparr>"
    using load_on [of xx bs ?k i' ?it now bfs] idx'(2) o k by simp
  have "block_ok (last bs)" using table_ok_block [OF ok k(1)] k(2) by simp
  then obtain d where d: "bk_SeekToLast (block_Iterator (opened xx (last bs))) = Some d"
    "on xx (last bs) (length (last bs) - 1) (length (last bs)) d"
    using SeekToLast_on [OF Iterator_over] by blast
  have "st_SeekToLast xx it = Some (?it\<lparr>si_data := Some d, si_initialized := True\<rparr>)"
    using idx(1) idx'(1) ld d(1) by (simp add: st_SeekToLast_def)
  moreover have "Sst_Iter.at xx bs ?k (length (last bs) - 1) (length (last bs)) (?it\<lparr>si_data := Some d, si_initialized := True\<rparr>)"
    using idx'(2) d(2) o k by (auto simp: Sst_Iter.at_def over_table_def on_def)
  ultimately show ?thesis by blast
qed

section \<open>Loading the tables\<close>

definition first_key :: "block_entry list list \<Rightarrow> bytes" where
  "first_key bs = be_key (hd (hd bs))"

definition last_key :: "block_entry list list \<Rightarrow> bytes" where
  "last_key bs = be_key (last (last bs))"

text \<open>The description of a table with a name, a content and blocks.\<close>

definition describes :: "(bytes \<Rightarrow> u64) \<Rightarrow> sst_name \<times> bytes \<Rightarrow> block_entry list list \<Rightarrow> sstable_info \<Rightarrow> bool" where
  "describes xx f bs info \<longleftrightarrow>
     inf_Path info = fst f \<and> inf_Level info = fst (fst f) \<and> inf_Sequence info = fst (snd (fst f)) \<and>
     inf_Timestamp info = snd (snd (fst f)) \<and> inf_Size info = of_nat (length (snd f)) \<and>
     inf_KeyCount info = length (concat bs) \<and> inf_FirstKey info = first_key bs \<and> inf_LastKey info = last_key bs \<and>
     (\<exists>r. inf_Reader info = Some r \<and> table_reader xx r bs)"

definition table_content :: "(bytes \<Rightarrow> u64) \<Rightarrow> bytes \<Rightarrow> block_entry list list \<Rightarrow> bool" where
  "table_content xx content bs \<longleftrightarrow> (\<exists>r. OpenTable xx (Some content) = Some (Inr r) \<and> table_reader xx r bs)"

lemma load_info_describes:
  assumes "table_content xx content bs"
  shows "\<exists>info. load_info xx name content = Some (Inr info) \<and> describes xx (name, content) bs info"
proof -
  obtain r where r: "OpenTable xx (Some content) = Some (Inr r)" "table_reader xx r bs"
    using assms by (auto simp: table_content_def)
  then obtain now bfs where o: "is_open xx now bfs bs r" by (auto simp: table_reader_def)
  then have ne: "bs \<noteq> []" "[] \<notin> set bs" by (simp_all add: is_open_def table_ok_def blocks_ok_def)
  then have ne': "hd bs \<noteq> []" "last bs \<noteq> []" using hd_in_set last_in_set by metis+
  obtain it1 where it1: "st_SeekToFirst xx (sst_NewIterator r) = Some it1" "Sst_Iter.at xx bs 0 0 0 it1"
    using st_SeekToFirst_at [OF NewIterator_over(1) [OF r(2)]] by blast
  then have "over_table xx bs it1" by (simp add: Sst_Iter.at_def)
  then obtain it2 where it2: "st_SeekToLast xx it1 = Some it2"
    "Sst_Iter.at xx bs (length bs - 1) (length (last bs) - 1) (length (last bs)) it2"
    using st_SeekToLast_at by blast
  have "GetKeyCount r = length (concat bs)" using o by (simp add: GetKeyCount_def is_open_def)
  moreover have "st_Valid it1" "st_Key it1 = Some (first_key bs)"
    using at_current [OF it1(2)] ne ne' by (auto simp: sst_ops_def first_key_def hd_conv_nth item_of_def)
  moreover have "st_Valid it2" "st_Key it2 = Some (last_key bs)"
    using at_current [OF it2(2)] ne ne' by (auto simp: sst_ops_def last_key_def last_conv_nth item_of_def)
  ultimately show ?thesis using r it1(1) it2(1) by (simp add: load_info_def describes_def)
qed

text \<open>The loop over the directory, and the files of a level after it.\<close>

lemma level_files_add:
  "level_files (add_to_level info lv) l = (if inf_Level info = l then level_files lv l @ [info] else level_files lv l)"
  by (simp add: level_files_def add_to_level_def update_conv)

lemma level_files_adds: "level_files (fold add_to_level infos lv) l = level_files lv l @ filter (\<lambda>i. inf_Level i = l) infos"
  by (induction infos arbitrary: lv) (auto simp: level_files_add)

lemma level_files_sort [simp]: "level_files (sort_levels lv) l = sort_key inf_Sequence (level_files lv l)"
  by (induction lv) (auto simp: level_files_def sort_levels_def)

definition dir_tables :: "(bytes \<Rightarrow> u64) \<Rightarrow> sst_dir \<Rightarrow> block_entry list list list \<Rightarrow> bool" where
  "dir_tables xx d bss \<longleftrightarrow> list_all2 (\<lambda>f bs. name_parses (fst f) \<and> table_content xx (snd f) bs) d bss"

lemma load_loop_tables:
  "dir_tables xx d bss \<Longrightarrow> \<exists>infos. load_loop xx d lv = Some (None, fold add_to_level infos lv) \<and>
     length infos = length d \<and> (\<forall>i < length d. describes xx (d ! i) (bss ! i) (infos ! i))"
proof (induction d arbitrary: bss lv)
  case Nil
  show ?case by (rule exI [of _ "[]"]) simp
next
  case (Cons f d)
  obtain name content where f: "f = (name, content)" by (cases f)
  obtain bs bss' where b: "bss = bs # bss'" "name_parses name" "table_content xx content bs" "dir_tables xx d bss'"
    using Cons.prems f by (auto simp: dir_tables_def list_all2_Cons1)
  obtain info where i: "load_info xx name content = Some (Inr info)" "describes xx (name, content) bs info"
    using load_info_describes [OF b(3)] by blast
  obtain infos where tl: "load_loop xx d (add_to_level info lv) = Some (None, fold add_to_level infos (add_to_level info lv))"
    "length infos = length d" "\<forall>i < length d. describes xx (d ! i) (bss' ! i) (infos ! i)"
    using Cons.IH [OF b(4)] by blast
  show ?case
    using tl i b(1,2) f by (intro exI [of _ "info # infos"]) (auto simp: nth_Cons')
qed

lemma LoadSSTables_tables:
  assumes "dir_tables (cw_xx wd) d bss" "cw_readDir wd n"
  shows "\<exists>lv infos. LoadSSTables wd n d = Some (None, lv) \<and> length infos = length d \<and>
    (\<forall>i < length d. describes (cw_xx wd) (d ! i) (bss ! i) (infos ! i)) \<and>
    (\<forall>l. level_files lv l = sort_key inf_Sequence (filter (\<lambda>i. inf_Level i = l) infos))"
proof -
  obtain infos where infos: "load_loop (cw_xx wd) d [] = Some (None, fold add_to_level infos [])"
    "length infos = length d" "\<forall>i < length d. describes (cw_xx wd) (d ! i) (bss ! i) (infos ! i)"
    using load_loop_tables [OF assms(1)] by blast
  have "level_files (sort_levels (fold add_to_level infos [])) l = sort_key inf_Sequence (filter (\<lambda>i. inf_Level i = l) infos)" for l
    by (simp add: level_files_adds) (simp add: level_files_def)
  then show ?thesis using infos assms(2) by (simp add: LoadSSTables_def) blast
qed

end
