(* ===== verification/Compaction_Merge.thy ===== *)
theory Compaction_Merge
  imports Compaction_Load
begin

text \<open>
  The merge of table files (\<open>CompactFiles\<close> of \<open>src/pkg/compaction/executor.go\<close>): the loop over the
  merged iterator is a loop over the list of merged items, and what it leaves in the directory are
  files that hold these items cut into pieces of \<open>SSTableMaxSize\<close> entries.
\<close>

section \<open>The loop as a loop over the merged items\<close>

fun merge_items :: "cworld \<Rightarrow> config \<Rightarrow> tombstone_tracker option \<Rightarrow> nat \<Rightarrow> item list \<Rightarrow> unit merge_op" where
  "merge_items wd cfg tm target [] = ret ()"
| "merge_items wd cfg tm target ((k, v, t) # items) =
     bind_op (merge_entry wd cfg tm target k v t) (\<lambda>_. merge_items wd cfg tm target items)"

lemma merge_loop_items:
  assumes F: "forward_iterator (hier_ops (sst_ops (cw_xx wd))) hinv hitems rest"
    and "hinv it" "sorted_wrt (<) (map fst (rest it))" "\<forall>k. lastKey = Some k \<longrightarrow> k \<notin> fst ` set (rest it)"
  shows "merge_loop wd cfg tm target it lastKey s = Some (merge_items wd cfg tm target (rest it) s)"
  using assms(2-)
proof (induction "rest it" arbitrary: it lastKey s)
  case Nil
  then have "\<not> hier_Valid it" using forward_iterator.valid_iff [OF F Nil.prems(1)] by (simp add: hier_ops_def)
  then show ?case using Nil.hyps by (subst merge_loop.simps) (simp add: ret_def)
next
  case (Cons x r)
  obtain k v t where x: "x = (k, v, t)" by (cases x)
  have rs: "rest it = (k, v, t) # r" using Cons.hyps(2) x by simp
  have cur: "hier_Valid it" "hier_Key it = Some k" "hier_Value it = v" "hier_IsTombstone it = t"
    using forward_iterator.valid_iff [OF F Cons.prems(1)] forward_iterator.current [OF F Cons.prems(1) rs] rs
    by (auto simp: hier_ops_def)
  obtain it' where n: "hier_Next (sst_ops (cw_xx wd)) it = Some (rest it' \<noteq> [], it')" "hinv it'" "rest it' = r"
    using forward_iterator.step [OF F Cons.prems(1)] rs by (auto simp: hier_ops_def)
  have last: "lastKey \<noteq> Some k" using Cons.prems(3) rs by auto
  have srt: "sorted_wrt (<) (map fst r)" "k \<notin> fst ` set r" using Cons.prems(2) rs by auto
  show ?case
  proof (cases "merge_entry wd cfg tm target k v t s")
    case (Pair res s')
    have "merge_loop wd cfg tm target it' (remember lastKey k) s' = Some (merge_items wd cfg tm target r s')"
      using Cons.hyps(1) [of it' "remember lastKey k" s'] n srt by (auto simp: remember_def split: if_splits)
    then show ?thesis
      using cur last n(1) Pair by (subst merge_loop.simps) (cases res; simp add: rs bind_op_def Let_def)
  qed
qed

section \<open>The output files\<close>

fun chunks_from :: "int \<Rightarrow> 'a list \<Rightarrow> 'a list \<Rightarrow> 'a list list" where
  "chunks_from m cur [] = (if cur = [] then [] else [cur])"
| "chunks_from m cur (x # xs) =
     (if m \<le> int (length cur + 1) then (cur @ [x]) # chunks_from m [] xs else chunks_from m (cur @ [x]) xs)"

lemma concat_chunks [simp]: "concat (chunks_from m cur xs) = cur @ xs"
  by (induction m cur xs rule: chunks_from.induct) auto

lemma chunks_nonempty: "c \<in> set (chunks_from m cur xs) \<Longrightarrow> c \<noteq> []"
  by (induction m cur xs rule: chunks_from.induct) (auto split: if_splits)

lemma length_chunks: "length (chunks_from m cur xs) \<le> length cur + length xs"
proof (induction m cur xs rule: chunks_from.induct)
  case (1 m cur)
  then show ?case by (cases cur) auto
qed auto

definition output_name :: "cworld \<Rightarrow> nat \<Rightarrow> u64 \<Rightarrow> sst_name" where
  "output_name wd target sq = (target, sq, cw_stamp wd sq)"

fun emit ::
  "cworld \<Rightarrow> nat \<Rightarrow> u64 \<Rightarrow> (bytes \<times> slice) list list \<Rightarrow> sst_name list \<times> sst_dir \<Rightarrow> sst_name list \<times> sst_dir" where
  "emit wd target sq [] r = r"
| "emit wd target sq (c # cs) (outs, d) =
     emit wd target (sq + 1) cs
       (outs @ [output_name wd target sq],
        dir_write (output_name wd target sq)
          (the (write_sst (cw_xx wd) (cw_dims wd) True (cw_finishTime wd sq) c)) d)"

definition no_faults :: "cworld \<Rightarrow> bool" where
  "no_faults wd \<longleftrightarrow> (\<forall>sq. cw_fault wd sq = None) \<and> dims_ok (cw_dims wd)"

text \<open>The state of the merge: the file with number \<open>sq\<close> has taken the entries \<open>cur\<close>.\<close>

definition merging ::
  "cworld \<Rightarrow> nat \<Rightarrow> u64 \<Rightarrow> (bytes \<times> slice) list \<Rightarrow> sst_name list \<Rightarrow> sst_dir \<Rightarrow> merge_state \<Rightarrow> bool" where
  "merging wd target sq cur outs d s \<longleftrightarrow>
     (\<exists>w0 w. NewWriter (cw_dims wd) None = Inr w0 \<and> add_entries (cw_xx wd) (cw_dims wd) cur w0 = (Inr (), w) \<and>
        s = \<lparr>ms_outputFiles = outs, ms_writer = Some w, ms_path = output_name wd target sq, ms_seq = sq + 1,
             ms_entries = length cur, ms_dir = d\<rparr>)"

lemma add_entries_snoc:
  "add_entries xx dims kvs w = (Inr (), w1) \<Longrightarrow>
     add_entries xx dims (kvs @ [kv]) w = writer_Add xx dims (fst kv) (snd kv) w1"
proof (induction kvs arbitrary: w)
  case Nil
  then show ?case by (cases "writer_Add xx dims (fst kv) (snd kv) w") (auto simp: bind_op_def ret_def split: sum.splits)
next
  case (Cons a kvs)
  then show ?case by (auto simp: bind_op_def split: prod.splits sum.splits)
qed

lemma add_legal:
  assumes "legal_entries (map entry_of kvs)" "dims_ok dims" "NewWriter dims None = Inr w0"
  shows "\<exists>w1. add_entries xx dims kvs w0 = (Inr (), w1) \<and>
    (\<exists>w2 c. writer_Finish xx dims now w1 = (Inr (), w2) \<and> fm_final (sw_fm w2) = Some c \<and>
      write_sst xx dims True now kvs = Some c)"
proof -
  obtain w w1 w2 bfs where w: "NewWriterWithOptions dims True 1000 None = Inr w" "add_entries xx dims kvs w = (Inr (), w1)"
    "writer_Finish xx dims now w1 = (Inr (), w2)" "fm_final (sw_fm w2) = Some (table_image xx now bfs (cut_blocks [] (map entry_of kvs)))"
    using write_table [OF assms(1,2) refl, of True 1000 xx now] by blast
  then have "w = w0" using assms(3) by (simp add: NewWriter_def)
  with w show ?thesis by (auto simp: write_sst_def bind_op_def)
qed

lemma open_output_merging:
  assumes "no_faults wd" "ms_seq s = sq" "ms_outputFiles s = outs" "ms_dir s = d"
  shows "\<exists>s'. open_output wd target s = (Inr (), s') \<and> merging wd target sq [] outs d s'"
proof -
  obtain w0 where w0: "NewWriter (cw_dims wd) None = Inr w0"
    by (auto simp: NewWriter_def NewWriterWithOptions_def NewFileManager_def)
  then show ?thesis
    using assms by (cases s) (auto simp: open_output_def merging_def no_faults_def output_name_def ret_def Let_def)
qed

lemma finish_merging:
  assumes "merging wd target sq cur outs d s" "legal_entries (map entry_of cur)" "no_faults wd"
  shows "\<exists>s'. finish_current wd s = (Inr (), s') \<and> ms_seq s' = sq + 1 \<and>
    ms_outputFiles s' = outs @ [output_name wd target sq] \<and>
    ms_dir s' = dir_write (output_name wd target sq) (the (write_sst (cw_xx wd) (cw_dims wd) True (cw_finishTime wd sq) cur)) d"
proof -
  obtain w0 w where w: "NewWriter (cw_dims wd) None = Inr w0" "add_entries (cw_xx wd) (cw_dims wd) cur w0 = (Inr (), w)"
    "s = \<lparr>ms_outputFiles = outs, ms_writer = Some w, ms_path = output_name wd target sq, ms_seq = sq + 1,
          ms_entries = length cur, ms_dir = d\<rparr>"
    using assms(1) by (auto simp: merging_def)
  have dims: "dims_ok (cw_dims wd)" using assms(3) by (simp add: no_faults_def)
  obtain w2 c where "writer_Finish (cw_xx wd) (cw_dims wd) (cw_finishTime wd sq) w = (Inr (), w2)"
    "fm_final (sw_fm w2) = Some c" "write_sst (cw_xx wd) (cw_dims wd) True (cw_finishTime wd sq) cur = Some c"
    using add_legal [OF assms(2) dims w(1), of "cw_xx wd" "cw_finishTime wd sq"] w(2) by auto
  then show ?thesis using w(3) by (auto simp: finish_current_def output_name_def)
qed

text \<open>One entry: it joins the current file, and the file is finished when it is full.\<close>

lemma merge_entry_merging:
  assumes "merging wd target sq cur outs d s" "legal_entries (map entry_of (cur @ [(k, Some v)]))" "no_faults wd"
  shows "\<exists>s'. merge_entry wd cfg tm target k (Some v) False s = (Inr (), s') \<and>
    (if SSTableMaxSize cfg \<le> int (length cur + 1)
     then merging wd target (sq + 1) [] (outs @ [output_name wd target sq])
       (dir_write (output_name wd target sq)
         (the (write_sst (cw_xx wd) (cw_dims wd) True (cw_finishTime wd sq) (cur @ [(k, Some v)]))) d) s'
     else merging wd target sq (cur @ [(k, Some v)]) outs d s')"
proof -
  obtain w0 w where w: "NewWriter (cw_dims wd) None = Inr w0" "add_entries (cw_xx wd) (cw_dims wd) cur w0 = (Inr (), w)"
    "s = \<lparr>ms_outputFiles = outs, ms_writer = Some w, ms_path = output_name wd target sq, ms_seq = sq + 1,
          ms_entries = length cur, ms_dir = d\<rparr>"
    using assms(1) by (auto simp: merging_def)
  obtain w1 where w1: "add_entries (cw_xx wd) (cw_dims wd) (cur @ [(k, Some v)]) w0 = (Inr (), w1)"
    using add_legal [OF assms(2) _ w(1), of "cw_xx wd"] assms(3) by (auto simp: no_faults_def)
  then have "writer_Add (cw_xx wd) (cw_dims wd) k (Some v) w = (Inr (), w1)" using add_entries_snoc [OF w(2)] by simp
  then obtain s1 where s1: "merge_write wd k (Some v) False s = (Inr (), s1)"
    "merging wd target sq (cur @ [(k, Some v)]) outs d s1" "ms_entries s1 = length cur + 1"
    using w w1 by (auto simp: merge_write_def merging_def)
  have keep: "should_keep wd cfg tm target k False" by (simp add: should_keep_def)
  show ?thesis
  proof (cases "SSTableMaxSize cfg \<le> int (length cur + 1)")
    case True
    obtain s2 where s2: "finish_current wd s1 = (Inr (), s2)" "ms_seq s2 = sq + 1"
      "ms_outputFiles s2 = outs @ [output_name wd target sq]"
      "ms_dir s2 = dir_write (output_name wd target sq)
        (the (write_sst (cw_xx wd) (cw_dims wd) True (cw_finishTime wd sq) (cur @ [(k, Some v)]))) d"
      using finish_merging [OF s1(2) assms(2,3)] by blast
    obtain s3 where "open_output wd target s2 = (Inr (), s3)" "merging wd target (sq + 1) [] (ms_outputFiles s2) (ms_dir s2) s3"
      using open_output_merging [OF assms(3) s2(2) refl refl] by blast
    then show ?thesis
      using True s1 s2 keep by (simp add: merge_entry_def createNewOutputFile_def bind_op_def)
  next
    case False
    then show ?thesis using s1 keep by (simp add: merge_entry_def bind_op_def)
  qed
qed

definition item_kv :: "item \<Rightarrow> bytes \<times> slice" where
  "item_kv i = (fst i, fst (snd i))"

definition live_item :: "item \<Rightarrow> bool" where
  "live_item i \<longleftrightarrow> fst (snd i) \<noteq> None \<and> \<not> snd (snd i)"

lemma legal_or_empty_snoc: "legal_or_empty (es @ e # fs) \<Longrightarrow> legal_entries (es @ [e])"
  by (auto simp: legal_or_empty_def legal_entries_def sorted_wrt_append)

lemma merge_items_emit:
  assumes "merging wd target sq cur outs d s" "no_faults wd"
    "legal_or_empty (map entry_of (cur @ map item_kv items))" "list_all live_item items"
  shows "\<exists>s'. bind_op (merge_items wd cfg tm target items) (\<lambda>_. close_output wd) s = (Inr (), s') \<and>
    (ms_outputFiles s', ms_dir s') = emit wd target sq (chunks_from (SSTableMaxSize cfg) cur (map item_kv items)) (outs, d)"
  using assms(1,3,4)
proof (induction items arbitrary: sq cur outs d s)
  case Nil
  show ?case
  proof (cases "cur = []")
    case True
    with Nil.prems(1) show ?thesis by (auto simp: bind_op_def ret_def close_output_def merging_def)
  next
    case False
    then have "legal_entries (map entry_of cur)" using Nil.prems(2) by (simp add: legal_or_empty_def)
    from finish_merging [OF Nil.prems(1) this assms(2)] False Nil.prems(1) show ?thesis
      by (auto simp: bind_op_def ret_def close_output_def merging_def)
  qed
next
  case (Cons i items)
  obtain k v where i: "i = (k, Some v, False)" using Cons.prems(3) by (cases i) (auto simp: live_item_def)
  have kv: "item_kv i = (k, Some v)" by (simp add: i item_kv_def)
  have le: "legal_entries (map entry_of (cur @ [(k, Some v)]))"
    using legal_or_empty_snoc [of "map entry_of cur"] Cons.prems(2) kv by simp
  obtain s1 where s1: "merge_entry wd cfg tm target k (Some v) False s = (Inr (), s1)"
    "if SSTableMaxSize cfg \<le> int (length cur + 1)
     then merging wd target (sq + 1) [] (outs @ [output_name wd target sq])
       (dir_write (output_name wd target sq)
         (the (write_sst (cw_xx wd) (cw_dims wd) True (cw_finishTime wd sq) (cur @ [(k, Some v)]))) d) s1
     else merging wd target sq (cur @ [(k, Some v)]) outs d s1"
    using merge_entry_merging [OF Cons.prems(1) le assms(2)] by blast
  have run: "bind_op (merge_items wd cfg tm target (i # items)) (\<lambda>_. close_output wd) s =
      bind_op (merge_items wd cfg tm target items) (\<lambda>_. close_output wd) s1"
    using s1(1) by (simp add: i bind_op_def)
  show ?case
  proof (cases "SSTableMaxSize cfg \<le> int (length cur + 1)")
    case True
    moreover have "legal_or_empty (map entry_of (map item_kv items))"
      using legal_or_empty_append [of "map entry_of (cur @ [item_kv i])"] Cons.prems(2) by simp
    ultimately show ?thesis
      unfolding run using Cons.IH [of "sq + 1" "[]"] s1(2) Cons.prems(3) kv by simp
  next
    case False
    then show ?thesis
      unfolding run using Cons.IH [of sq "cur @ [(k, Some v)]"] s1(2) Cons.prems(2,3) kv by simp
  qed
qed

section \<open>The merged tables\<close>

lemma merged_strict: "sorted_wrt (<) (map fst (merged srcs))"
  by (simp add: merged_def merged_item_def comp_def)

lemma merged_fun: "(k, v, t) \<in> set (merged srcs) \<Longrightarrow> v = source_value k srcs \<and> t = (v = None) \<and> k \<in> source_keys srcs"
  by (auto simp: merged_def merged_item_def)

lemma merged_keys: "fst ` set (merged srcs) = source_keys srcs"
  by (force simp: merged_def merged_item_def)

lemma source_value_mem: "k \<in> source_keys srcs \<Longrightarrow> \<exists>src \<in> set srcs. \<exists>t. (k, source_value k srcs, t) \<in> set src"
proof (induction srcs)
  case (Cons src srcs)
  show ?case
  proof (cases "map_of src k")
    case None
    then have "k \<in> source_keys srcs" using Cons.prems by (auto simp: source_keys_def map_of_eq_None_iff)
    with Cons.IH None show ?thesis by auto
  next
    case (Some vt)
    then show ?thesis using map_of_SomeD by (cases vt) fastforce
  qed
qed (simp add: source_keys_def)

lemma merged_cong:
  assumes "source_keys srcs = source_keys srcs'" "\<And>k. k \<in> source_keys srcs \<Longrightarrow> source_value k srcs = source_value k srcs'"
  shows "merged srcs = merged srcs'"
  using assms by (auto simp: merged_def merged_item_def)

lemma blocks_items_set: "[] \<notin> set bs \<Longrightarrow> set (blocks_items bs) = item_of ` set (concat bs)"
proof (induction bs)
  case (Cons b bs)
  then have "b \<noteq> []" by auto
  then have "set (twice b) = set b" by (cases b) (auto simp: twice_def)
  with Cons show ?case by (auto simp: blocks_items_def image_Un)
qed (simp add: blocks_items_def)

lemma table_reader_blocks: "table_reader xx r bs \<Longrightarrow> blocks_ok bs"
  by (auto simp: table_reader_def is_open_def table_ok_def)

lemma merged_entry:
  assumes "list_all blocks_ok bss" "i \<in> set (merged (map blocks_items bss))"
  obtains bs e where "bs \<in> set bss" "e \<in> set (concat bs)" "i = (be_key e, Some (be_value e), False)"
proof -
  obtain k v t where i: "i = (k, v, t)" by (cases i)
  then have f: "v = source_value k (map blocks_items bss)" "t = (v = None)" "k \<in> source_keys (map blocks_items bss)"
    using merged_fun assms(2) by blast+
  obtain bs t' where bs: "bs \<in> set bss" "(k, v, t') \<in> set (blocks_items bs)"
    using source_value_mem [OF f(3)] f(1) by auto
  have "[] \<notin> set bs" using assms(1) bs(1) by (auto simp: list_all_iff blocks_ok_def)
  then obtain e where "e \<in> set (concat bs)" "(k, v, t') = item_of e" using bs(2) blocks_items_set by auto
  then show thesis using that [OF bs(1), of e] i f(2) by (simp add: item_of_def)
qed

lemma merged_live: "list_all blocks_ok bss \<Longrightarrow> list_all live_item (merged (map blocks_items bss))"
  by (auto simp: list_all_iff live_item_def elim!: merged_entry [unfolded list_all_iff])

lemma merged_legal:
  assumes "list_all blocks_ok bss"
  shows "legal_or_empty (map entry_of (map item_kv (merged (map blocks_items bss))))"
proof -
  have "be_key e \<noteq> [] \<and> length (be_key e) < 2 ^ 16 \<and> length (be_value e) < 2 ^ 32"
    if m: "e \<in> set (map entry_of (map item_kv (merged (map blocks_items bss))))" for e
  proof -
    obtain i where i: "i \<in> set (merged (map blocks_items bss))" "e = entry_of (item_kv i)" using m by auto
    obtain bs e' where "bs \<in> set bss" "e' \<in> set (concat bs)" "i = (be_key e', Some (be_value e'), False)"
      using merged_entry [OF assms i(1)] by blast
    moreover from this have "legal_entries (concat bs)" using assms by (auto simp: list_all_iff blocks_ok_def)
    ultimately show ?thesis using i(2) by (auto simp: legal_entries_def item_kv_def)
  qed
  moreover have "map be_key (map entry_of (map item_kv items)) = map fst items" for items
    by (induction items) (auto simp: item_kv_def)
  ultimately show ?thesis using merged_strict by (simp only: legal_or_empty_iff) blast
qed

section \<open>Compacting a set of tables\<close>

definition task_readers :: "compaction_task \<Rightarrow> sst_reader list" where
  "task_readers task =
     concat (map (\<lambda>level. List.map_filter inf_Reader (level_files (ct_InputFiles task) level)) [0..<ct_TargetLevel task + 1])"

lemma task_iterators_readers: "task_iterators task = map sst_NewIterator (task_readers task)"
  by (simp add: task_iterators_def task_readers_def map_concat comp_def)

definition merged_kvs :: "block_entry list list list \<Rightarrow> (bytes \<times> slice) list" where
  "merged_kvs bss = map item_kv (merged (map blocks_items bss))"

lemma merge_tables:
  assumes "list_all2 (table_reader xx) rs bss"
  obtains i j r it where "forward_iterator (hier_ops (sst_ops xx)) i j r"
    "hier_SeekToFirst (sst_ops xx) (NewHierarchicalIterator (map sst_NewIterator rs)) = Some it" "i it"
    "r it = merged (map blocks_items bss)"
proof -
  note S = sst.forward_iterator_axioms [of xx]
  note H = forward_iterator.hier_forward [OF S]
  let ?h = "NewHierarchicalIterator (map sst_NewIterator rs)"
  have "list_all (sst_inv xx) (map sst_NewIterator rs)" "map (sst_items xx) (map sst_NewIterator rs) = map blocks_items bss"
    using assms NewIterator_over by (auto simp: list_all2_conv_all_nth list_all_length list_eq_iff_nth_eq)
  then have "forward_iterator.h_inv (sst_inv xx) (sst_items xx) (sst_rest xx) ?h"
    "forward_iterator.h_items (sst_items xx) ?h = merged (map blocks_items bss)"
    by (simp_all add: forward_iterator.h_inv_def [OF S] forward_iterator.h_items_def [OF S] NewHierarchicalIterator_def del: map_map)
  then show thesis using forward_iterator.first [OF H, of ?h] that [OF H] by (auto simp: hier_ops_def)
qed

lemma CompactFiles_emit:
  assumes "no_faults wd" "list_all2 (table_reader (cw_xx wd)) (task_readers task) bss"
  shows "CompactFiles wd cfg tm task d = Some (map_prod Inr id
    (emit wd (ct_TargetLevel task) 1 (chunks_from (SSTableMaxSize cfg) [] (merged_kvs bss)) ([], d)))"
proof -
  let ?t = "ct_TargetLevel task" and ?m = "merged (map blocks_items bss)"
  have ok: "list_all blocks_ok bss"
    using assms(2) table_reader_blocks by (auto simp: list_all2_conv_all_nth list_all_length)
  obtain s where s: "createNewOutputFile wd ?t (merge_start d) = (Inr (), s)" "merging wd ?t 1 [] [] d s"
    using open_output_merging [OF assms(1), of "merge_start d" 1 "[]" d ?t]
    by (auto simp: createNewOutputFile_def bind_op_def finish_current_def merge_start_def)
  obtain i j r it where F: "forward_iterator (hier_ops (sst_ops (cw_xx wd))) i j r"
    and it: "hier_SeekToFirst (sst_ops (cw_xx wd)) (NewHierarchicalIterator (task_iterators task)) = Some it" "i it" "r it = ?m"
    using merge_tables [OF assms(2)] by (metis task_iterators_readers)
  have lp: "merge_loop wd cfg tm ?t it None s = Some (merge_items wd cfg tm ?t ?m s)"
    using merge_loop_items [OF F it(2)] it(3) merged_strict by simp
  obtain s' where "bind_op (merge_items wd cfg tm ?t ?m) (\<lambda>_. close_output wd) s = (Inr (), s')"
    "(ms_outputFiles s', ms_dir s') = emit wd ?t 1 (chunks_from (SSTableMaxSize cfg) [] (map item_kv ?m)) ([], d)"
    using merge_items_emit [OF s(2) assms(1), of ?m cfg tm] merged_legal [OF ok] merged_live [OF ok] by auto
  then show ?thesis
    using s(1) it(1) lp unfolding CompactFiles_def merged_kvs_def
    by (cases "merge_items wd cfg tm ?t ?m s")
       (auto simp: bind_op_def map_prod_def split: prod.splits sum.splits)
qed

end
