(* ===== verification/Compaction_Coord.thy ===== *)
theory Compaction_Coord
  imports Compaction
begin

text \<open>
  The coordinator of compaction (\<open>src/pkg/compaction/coordinator.go\<close>, \<open>compat.go\<close>) and the manager the
  engine starts it with (\<open>src/pkg/engine/compaction/manager.go\<close>). The strategy keeps the levels of the
  last load, executor and coordinator share one tombstone tracker. The background goroutine is the
  round it makes at every tick while it runs; \<open>compactingMu\<close> makes rounds and calls exclude each
  other. The state of a step is the coordinator with the directory it works on.
\<close>

section \<open>The coordinator\<close>

record coordinator =
  co_cfg :: config
  co_levels :: levels
  co_nextFileSeq :: u64
  co_fileTracker :: file_tracker
  co_tombstones :: tombstone_tracker
  co_nextSeq :: u64
  co_running :: bool
  co_lastOutputs :: "sst_name list"
  co_interval :: int

definition day :: int where "day = 24 * 60 * 60 * 10 ^ 9"

definition NewCompactionCoordinator :: "config \<Rightarrow> int \<Rightarrow> coordinator" where
  "NewCompactionCoordinator cfg compactionInterval =
     \<lparr>co_cfg = cfg, co_levels = [], co_nextFileSeq = 1, co_fileTracker = NewFileTracker,
      co_tombstones = NewTombstoneTracker day, co_nextSeq = 1, co_running = False, co_lastOutputs = [],
      co_interval = (if compactionInterval \<le> 0 then 1 else compactionInterval)\<rparr>"

definition NewCompactionManager :: "config \<Rightarrow> coordinator" where
  "NewCompactionManager cfg = NewCompactionCoordinator cfg (CompactionInterval cfg)"

definition coord_load :: "cworld \<Rightarrow> sst_dir \<Rightarrow> coordinator \<Rightarrow> (compaction_error option \<times> coordinator) option" where
  "coord_load wd d c =
     map_option (\<lambda>(err, lv). (map_option LoadFailed err, c\<lparr>co_levels := lv\<rparr>)) (LoadSSTables wd 0 d)"

definition coord_Start :: "cworld \<Rightarrow> sst_dir \<Rightarrow> coordinator \<Rightarrow> (compaction_error option \<times> coordinator) option" where
  "coord_Start wd d c =
     (if co_running c then Some (None, c)
      else case coord_load wd d c of
             None \<Rightarrow> None
           | Some (Some e, c1) \<Rightarrow> Some (Some e, c1)
           | Some (None, c1) \<Rightarrow> Some (None, c1\<lparr>co_running := True\<rparr>))"

definition coord_Stop :: "coordinator \<Rightarrow> compaction_error option \<times> coordinator" where
  "coord_Stop c =
     (if \<not> co_running c then (None, c)
      else (None, c\<lparr>co_running := False, co_levels := strategy_Close (co_levels c)\<rparr>))"

definition coord_TrackTombstone :: "int \<Rightarrow> bytes \<Rightarrow> coordinator \<Rightarrow> coordinator" where
  "coord_TrackTombstone now key c = c\<lparr>co_tombstones := tracker_AddTombstone now key (co_tombstones c)\<rparr>"

definition coord_ForcePreserve :: "bytes \<Rightarrow> coordinator \<Rightarrow> coordinator" where
  "coord_ForcePreserve key c = c\<lparr>co_tombstones := ForcePreserveTombstone key (co_tombstones c)\<rparr>"

definition coord_MarkFileObsolete :: "sst_name \<Rightarrow> coordinator \<Rightarrow> coordinator" where
  "coord_MarkFileObsolete path c = c\<lparr>co_fileTracker := MarkFileObsolete path (co_fileTracker c)\<rparr>"

definition coord_Cleanup :: "cworld \<Rightarrow> coordinator \<Rightarrow> sst_dir \<Rightarrow> compaction_error option \<times> coordinator \<times> sst_dir" where
  "coord_Cleanup wd c d =
     (case CleanupObsoleteFiles (cw_rmFails wd) (co_fileTracker c) d of
        (err, f, d') \<Rightarrow> (err, c\<lparr>co_fileTracker := f\<rparr>, d'))"

text \<open>One cycle, from the reload of the directory to the removal of the merged files.\<close>

definition cycle_task ::
  "cworld \<Rightarrow> compaction_task \<Rightarrow> coordinator \<Rightarrow> sst_dir \<Rightarrow> (compaction_error option \<times> coordinator \<times> sst_dir) option" where
  "cycle_task wd task c d =
     (let marked = fold MarkFilePending (input_paths task) (co_fileTracker c) in
      case CompactFiles wd (co_cfg c) (Some (co_tombstones c)) task d of
        None \<Rightarrow> None
      | Some (r, d1) \<Rightarrow>
          let c1 = c\<lparr>co_fileTracker := fold UnmarkFilePending (input_paths task) marked\<rparr> in
          (case r of
             Inl e \<Rightarrow> Some (Some (CompactionFailed e), c1, d1)
           | Inr outputFiles \<Rightarrow>
               let c2 = (if outputFiles = [] then c1 else c1\<lparr>co_lastOutputs := outputFiles\<rparr>);
                   c3 = c2\<lparr>co_fileTracker := fold MarkFileObsolete (input_paths task) (co_fileTracker c2)\<rparr>
               in Some (coord_Cleanup wd c3 d1)))"

definition runCompactionCycle ::
  "cworld \<Rightarrow> coordinator \<Rightarrow> sst_dir \<Rightarrow> (compaction_error option \<times> coordinator \<times> sst_dir) option" where
  "runCompactionCycle wd c d =
     (case coord_load wd d c of
        None \<Rightarrow> None
      | Some (Some e, c1) \<Rightarrow> Some (Some e, c1, d)
      | Some (None, c1) \<Rightarrow>
          (case SelectCompaction wd (co_cfg c1) (co_levels c1) of
             None \<Rightarrow> None
           | Some None \<Rightarrow> Some (None, c1, d)
           | Some (Some task) \<Rightarrow> cycle_task wd task c1 d))"

definition coord_CompactRange ::
  "cworld \<Rightarrow> bytes \<Rightarrow> bytes \<Rightarrow> coordinator \<Rightarrow> sst_dir \<Rightarrow> (compaction_error option \<times> coordinator \<times> sst_dir) option" where
  "coord_CompactRange wd minKey maxKey c d =
     (case coord_load wd d c of
        None \<Rightarrow> None
      | Some (Some e, c1) \<Rightarrow> Some (Some e, c1, d)
      | Some (None, c1) \<Rightarrow>
          map_option (\<lambda>(err, lv, d'). (err, c1\<lparr>co_levels := lv\<rparr>, d'))
            (strategy_CompactRange wd (co_cfg c1) (Some (co_tombstones c1)) minKey maxKey (co_levels c1) d))"

text \<open>What the goroutine does at a tick; the errors of the cycle and of the clean-up are dropped.\<close>

definition compactionWorker_round :: "cworld \<Rightarrow> int \<Rightarrow> coordinator \<Rightarrow> sst_dir \<Rightarrow> (coordinator \<times> sst_dir) option" where
  "compactionWorker_round wd now c d =
     (case runCompactionCycle wd c d of
        None \<Rightarrow> None
      | Some (_, c1, d1) \<Rightarrow>
          (case coord_Cleanup wd c1 d1 of
             (_, c2, d2) \<Rightarrow> Some (c2\<lparr>co_tombstones := CollectGarbage now (co_tombstones c2)\<rparr>, d2)))"

definition coord_GetCompactionStats :: "coordinator \<Rightarrow> nat \<times> sst_name list" where
  "coord_GetCompactionStats c = (length (co_lastOutputs c), co_lastOutputs c)"

section \<open>The manager of the engine\<close>

record compaction_manager =
  cm_coordinator :: coordinator
  cm_started :: bool

definition NewCManager :: "config \<Rightarrow> compaction_manager" where
  "NewCManager cfg = \<lparr>cm_coordinator = NewCompactionCoordinator cfg (CompactionInterval cfg), cm_started = False\<rparr>"

definition cm_Start :: "cworld \<Rightarrow> sst_dir \<Rightarrow> compaction_manager \<Rightarrow> (compaction_error option \<times> compaction_manager) option" where
  "cm_Start wd d m =
     map_option (\<lambda>(err, c).
        (err, if err = None then m\<lparr>cm_coordinator := c, cm_started := True\<rparr> else m\<lparr>cm_coordinator := c\<rparr>))
       (coord_Start wd d (cm_coordinator m))"

definition cm_Stop :: "compaction_manager \<Rightarrow> compaction_error option \<times> compaction_manager" where
  "cm_Stop m =
     (if \<not> cm_started m then (None, m)
      else case coord_Stop (cm_coordinator m) of
             (err, c) \<Rightarrow> (err, if err = None then m\<lparr>cm_coordinator := c, cm_started := False\<rparr> else m\<lparr>cm_coordinator := c\<rparr>))"

definition cm_TriggerCompaction ::
  "cworld \<Rightarrow> compaction_manager \<Rightarrow> sst_dir \<Rightarrow> (compaction_error option \<times> compaction_manager \<times> sst_dir) option" where
  "cm_TriggerCompaction wd m d =
     (if \<not> cm_started m then Some (Some NotStarted, m, d)
      else map_option (\<lambda>(err, c, d'). (err, m\<lparr>cm_coordinator := c\<rparr>, d')) (runCompactionCycle wd (cm_coordinator m) d))"

definition cm_CompactRange ::
  "cworld \<Rightarrow> bytes \<Rightarrow> bytes \<Rightarrow> compaction_manager \<Rightarrow> sst_dir \<Rightarrow> (compaction_error option \<times> compaction_manager \<times> sst_dir) option" where
  "cm_CompactRange wd startKey endKey m d =
     (if \<not> cm_started m then Some (Some NotStarted, m, d)
      else map_option (\<lambda>(err, c, d'). (err, m\<lparr>cm_coordinator := c\<rparr>, d'))
             (coord_CompactRange wd startKey endKey (cm_coordinator m) d))"

definition cm_TrackTombstone :: "int \<Rightarrow> bytes \<Rightarrow> compaction_manager \<Rightarrow> compaction_manager" where
  "cm_TrackTombstone now key m = m\<lparr>cm_coordinator := coord_TrackTombstone now key (cm_coordinator m)\<rparr>"

definition cm_ForcePreserveTombstone :: "bytes \<Rightarrow> compaction_manager \<Rightarrow> compaction_manager" where
  "cm_ForcePreserveTombstone key m = m\<lparr>cm_coordinator := coord_ForcePreserve key (cm_coordinator m)\<rparr>"

definition cm_GetCompactionStats :: "int \<Rightarrow> compaction_manager \<Rightarrow> (nat \<times> sst_name list) \<times> bool \<times> nat \<times> int" where
  "cm_GetCompactionStats now m = (coord_GetCompactionStats (cm_coordinator m), cm_started m, 0, now)"

end
