(* ===== verification/Compaction_Correct.thy ===== *)
theory Compaction_Correct
  imports Compaction_Merge Compaction_Coord
begin

text \<open>
  What compaction does to a directory: the files it writes hold what the merged files held, it
  removes no file that it has not merged, and it keeps the wrong version of a key that several
  level-0 tables have.
\<close>

section \<open>The directory\<close>

lemma map_of_insort: "n \<notin> fst ` set d \<Longrightarrow> map_of (insort_key fst (n, c) d) = (map_of d)(n \<mapsto> c)"
  by (induction d) (auto simp: fun_eq_iff)

lemma map_of_filter_ne: "map_of (filter (\<lambda>f. fst f \<noteq> n) d) m = (if m = n then None else map_of d m)"
  by (induction d) auto

lemma dir_write_lookup [simp]: "map_of (dir_write n c d) m = (if m = n then Some c else map_of d m)"
proof -
  have "n \<notin> fst ` set (filter (\<lambda>f. fst f \<noteq> n) d)" by auto
  then show ?thesis by (simp add: dir_write_def map_of_insort map_of_filter_ne)
qed

lemma dir_remove_lookup [simp]: "map_of (dir_remove n d) m = (if m = n then None else map_of d m)"
  by (simp add: dir_remove_def map_of_filter_ne)

lemma dir_has_lookup: "dir_has n d \<longleftrightarrow> map_of d n \<noteq> None"
  by (simp add: dir_has_def map_of_eq_None_iff)

definition output_names :: "cworld \<Rightarrow> nat \<Rightarrow> u64 \<Rightarrow> nat \<Rightarrow> sst_name list" where
  "output_names wd target sq n = map (\<lambda>i. output_name wd target (sq + of_nat i)) [0..<n]"

lemma output_names_Suc: "output_names wd target sq (Suc n) = output_name wd target sq # output_names wd target (sq + 1) n"
proof -
  have "[0..<Suc n] = 0 # map Suc [0..<n]" by (simp add: upt_conv_Cons map_Suc_upt del: upt_Suc)
  then show ?thesis by (simp add: output_names_def comp_def add.assoc del: upt_Suc)
qed

lemma output_name_inj: "output_name wd t a = output_name wd t b \<longleftrightarrow> a = b"
  by (auto simp: output_name_def)

lemma seq_not_reached: "n < 2 ^ 64 \<Longrightarrow> output_name wd t sq \<notin> set (output_names wd t (sq + 1) n)"
proof
  assume n: "n < 2 ^ 64" and "output_name wd t sq \<in> set (output_names wd t (sq + 1) n)"
  then obtain i where i: "i < n" "sq = sq + 1 + of_nat i" by (auto simp: output_names_def output_name_inj)
  then have "(of_nat (Suc i) :: u64) = 0" by (simp add: add.assoc)
  then have "2 ^ 64 dvd Suc i" by (simp only: word_of_nat_eq_0_iff) simp
  then have "2 ^ 64 \<le> Suc i" by (rule dvd_imp_le) simp
  with i(1) n show False by simp
qed

text \<open>The files that a merge leaves: one for every piece, and nothing else is touched.\<close>

lemma emit_outputs:
  "fst (emit wd t sq cs (outs, d)) = outs @ output_names wd t sq (length cs)"
  by (induction cs arbitrary: sq outs d) (simp_all add: output_names_def [of _ _ _ 0] output_names_Suc)

lemma emit_other: "n \<notin> set (output_names wd t sq (length cs)) \<Longrightarrow> map_of (snd (emit wd t sq cs (outs, d))) n = map_of d n"
  by (induction cs arbitrary: sq outs d) (simp_all add: output_names_Suc)

lemma emit_file:
  assumes "length cs < 2 ^ 64" "i < length cs"
  shows "map_of (snd (emit wd t sq cs (outs, d))) (output_name wd t (sq + of_nat i)) =
    Some (the (write_sst (cw_xx wd) (cw_dims wd) True (cw_finishTime wd (sq + of_nat i)) (cs ! i)))"
  using assms
proof (induction cs arbitrary: sq outs d i)
  case (Cons c cs)
  show ?case
  proof (cases i)
    case 0
    then show ?thesis using emit_other [OF seq_not_reached [of "length cs" wd t sq]] Cons.prems(1) by simp
  next
    case (Suc k)
    then show ?thesis using Cons.IH [of k "sq + 1"] Cons.prems by (simp add: add.assoc)
  qed
qed simp

section \<open>The outputs hold what the inputs held\<close>

definition chunk_blocks :: "(bytes \<times> slice) list \<Rightarrow> block_entry list list" where
  "chunk_blocks kvs = cut_blocks [] (map entry_of kvs)"

lemma chunk_legal:
  assumes "legal_or_empty (map entry_of kvs)" "c \<in> set (chunks_from m [] kvs)"
  shows "legal_entries (map entry_of c)"
proof -
  obtain xs ys where "chunks_from m [] kvs = xs @ c # ys" using assms(2) by (meson split_list)
  then have "kvs = concat xs @ c @ concat ys" using concat_chunks [of m "[]" kvs] by simp
  then have "legal_or_empty (map entry_of c)"
    using assms(1) legal_or_empty_append by (metis map_append)
  with chunks_nonempty [OF assms(2)] show ?thesis by (simp add: legal_or_empty_def)
qed

lemma chunk_items:
  assumes "legal_entries (map entry_of c)" "\<forall>kv \<in> set c. snd kv \<noteq> None"
  shows "set (blocks_items (chunk_blocks c)) = (\<lambda>(k, v). (k, v, False)) ` set c"
proof -
  have "[] \<notin> set (chunk_blocks c)" using cut_blocks_nonempty by (auto simp: chunk_blocks_def)
  from blocks_items_set [OF this] have "set (blocks_items (chunk_blocks c)) = item_of ` entry_of ` set c"
    by (simp only: chunk_blocks_def concat_cut_blocks append_Nil set_map)
  also have "\<dots> = (\<lambda>(k, v). (k, v, False)) ` set c"
    unfolding image_image using assms(2) by (intro image_cong) (auto simp: item_of_def)
  finally show ?thesis .
qed

lemma merged_kvs_mem:
  assumes "list_all blocks_ok bss" "(k, v) \<in> set (merged_kvs bss)"
  shows "v = source_value k (map blocks_items bss)" "v \<noteq> None" "k \<in> source_keys (map blocks_items bss)"
proof -
  obtain i where i: "i \<in> set (merged (map blocks_items bss))" "(k, v) = item_kv i" using assms(2) by (auto simp: merged_kvs_def)
  then obtain t where t: "i = (k, v, t)" by (metis fst_conv item_kv_def prod.collapse snd_conv)
  then show "v = source_value k (map blocks_items bss)" "k \<in> source_keys (map blocks_items bss)" using merged_fun i(1) by blast+
  from i(1) t show "v \<noteq> None" using merged_live [OF assms(1)] by (auto simp: list_all_iff live_item_def)
qed

lemma merged_kvs_keys: "fst ` set (merged_kvs bss) = source_keys (map blocks_items bss)"
  using merged_keys [of "map blocks_items bss"] by (force simp: merged_kvs_def item_kv_def)

lemma merged_chunks:
  assumes "list_all blocks_ok bss"
  shows "merged (map blocks_items (map chunk_blocks (chunks_from m [] (merged_kvs bss)))) = merged (map blocks_items bss)"
proof -
  let ?cs = "chunks_from m [] (merged_kvs bss)"
  let ?out = "map blocks_items (map chunk_blocks ?cs)"
  have le: "legal_entries (map entry_of c)" if "c \<in> set ?cs" for c
    using chunk_legal [OF _ that] merged_legal [OF assms] by (simp add: merged_kvs_def)
  have mem: "set (concat ?cs) = set (merged_kvs bss)" by simp
  have sub: "kv \<in> set (merged_kvs bss)" if "c \<in> set ?cs" "kv \<in> set c" for c kv
    using that unfolding mem [symmetric] by (simp only: set_concat) blast
  have items: "set (blocks_items (chunk_blocks c)) = (\<lambda>(k, v). (k, v, False)) ` set c" if "c \<in> set ?cs" for c
    using chunk_items [OF le [OF that]] sub [OF that] merged_kvs_mem(2) [OF assms] by (metis prod.collapse)
  have "source_keys ?out = fst ` (\<Union>c\<in>set ?cs. (\<lambda>(k, v). (k, v, False)) ` set c)"
    using items by (auto simp: source_keys_def image_UN)
  also have "\<dots> = fst ` set (concat ?cs)" by (simp only: set_concat) (simp add: image_UN image_image case_prod_unfold)
  finally have keys: "source_keys ?out = source_keys (map blocks_items bss)" using mem merged_kvs_keys by simp
  show ?thesis
  proof (rule merged_cong [OF keys])
    fix k assume "k \<in> source_keys ?out"
    from source_value_mem [OF this] obtain c t where c: "c \<in> set ?cs" "(k, source_value k ?out, t) \<in> set (blocks_items (chunk_blocks c))"
      by auto
    then have "(k, source_value k ?out) \<in> set c" using items by auto
    then show "source_value k ?out = source_value k (map blocks_items bss)"
      using merged_kvs_mem(1) [OF assms sub [OF c(1)]] by blast
  qed
qed

lemma compaction_outputs:
  assumes "no_faults wd" "list_all2 (table_reader (cw_xx wd)) (task_readers task) bss"
    "cs = chunks_from (SSTableMaxSize cfg) [] (merged_kvs bss)"
    "list_all (\<lambda>c. table_size (cw_xx wd) (cw_dims wd) True (chunk_blocks c) < 2 ^ 32) cs" "length cs < 2 ^ 64"
  shows "\<exists>d' rs. CompactFiles wd cfg tm task d = Some (Inr (output_names wd (ct_TargetLevel task) 1 (length cs)), d') \<and>
    list_all2 (\<lambda>n r. \<exists>f. map_of d' n = Some f \<and> OpenTable (cw_xx wd) (Some f) = Some (Inr r))
      (output_names wd (ct_TargetLevel task) 1 (length cs)) rs \<and>
    list_all2 (table_reader (cw_xx wd)) rs (map chunk_blocks cs) \<and>
    (\<forall>n. n \<notin> set (output_names wd (ct_TargetLevel task) 1 (length cs)) \<longrightarrow> map_of d' n = map_of d n) \<and>
    d' = snd (emit wd (ct_TargetLevel task) 1 cs ([], d))"
proof -
  let ?xx = "cw_xx wd" and ?t = "ct_TargetLevel task"
  let ?names = "output_names wd ?t 1 (length cs)" and ?r = "emit wd ?t 1 cs ([], d)"
  have ok: "list_all blocks_ok bss"
    using assms(2) table_reader_blocks by (auto simp: list_all2_conv_all_nth list_all_length)
  have leg: "legal_or_empty (map entry_of (merged_kvs bss))" using merged_legal [OF ok] by (simp add: merged_kvs_def)
  have ex: "\<exists>f r bfs. write_sst ?xx (cw_dims wd) True now (cs ! i) = Some f \<and> OpenTable ?xx (Some f) = Some (Inr r) \<and>
      is_open ?xx now bfs (chunk_blocks (cs ! i)) r" if "i < length cs" for i now
  proof -
    have "legal_entries (map entry_of (cs ! i))" "table_size ?xx (cw_dims wd) True (chunk_blocks (cs ! i)) < 2 ^ 32"
      using chunk_legal [OF leg, of "cs ! i"] assms(4) nth_mem [OF that] unfolding assms(3) list_all_iff by blast+
    from write_sst_open [OF this(1) _ chunk_blocks_def this(2)] assms(1) show ?thesis by (fastforce simp: no_faults_def)
  qed
  let ?f = "\<lambda>i. the (write_sst ?xx (cw_dims wd) True (cw_finishTime wd (1 + of_nat i)) (cs ! i))"
  define rs where "rs = map (\<lambda>i. projr (the (OpenTable ?xx (Some (?f i))))) [0..<length cs]"
  have rs: "OpenTable ?xx (Some (?f i)) = Some (Inr (rs ! i))" "table_reader ?xx (rs ! i) (chunk_blocks (cs ! i))"
    if i: "i < length cs" for i
    using ex [OF i, of "cw_finishTime wd (1 + of_nat i)"] i unfolding table_reader_def rs_def by fastforce+
  have "CompactFiles wd cfg tm task d = Some (Inr ?names, snd ?r)"
    using CompactFiles_emit [OF assms(1,2), of cfg tm d] emit_outputs [of wd ?t 1 cs "[]" d] assms(3)
    by (simp add: map_prod_def case_prod_unfold)
  moreover have "list_all2 (\<lambda>n r. \<exists>f. map_of (snd ?r) n = Some f \<and> OpenTable ?xx (Some f) = Some (Inr r)) ?names rs"
    using emit_file [OF assms(5)] rs(1) by (auto simp: list_all2_conv_all_nth output_names_def rs_def)
  moreover have "list_all2 (table_reader ?xx) rs (map chunk_blocks cs)"
    using rs(2) by (auto simp: list_all2_conv_all_nth rs_def)
  ultimately show ?thesis using emit_other by blast
qed

text \<open>
  C6: compaction keeps the contents of the tables it merges. When the file system does not fail and
  every output stays below 4 GiB, \<open>CompactFiles\<close> succeeds; each file it reports can be opened, no
  other file of the directory changes, and a merged scan over the new files shows exactly what a
  merged scan over the inputs shows, taken in the order in which the task lists them, and ends there
  (\<open>n\<close> is any number of items at least as large as that scan has).
\<close>

theorem compaction_merges:
  assumes "no_faults wd" "list_all2 (table_reader (cw_xx wd)) (task_readers task) bss"
    "list_all (\<lambda>c. table_size (cw_xx wd) (cw_dims wd) True (chunk_blocks c) < 2 ^ 32)
      (chunks_from (SSTableMaxSize cfg) [] (merged_kvs bss))"
    "length (chunks_from (SSTableMaxSize cfg) [] (merged_kvs bss)) < 2 ^ 64" "length (merged_kvs bss) \<le> n"
  shows "\<exists>outs d' rs it. CompactFiles wd cfg tm task d = Some (Inr outs, d') \<and>
    list_all2 (\<lambda>n r. \<exists>f. map_of d' n = Some f \<and> OpenTable (cw_xx wd) (Some f) = Some (Inr r)) outs rs \<and>
    (\<forall>n. n \<notin> set outs \<longrightarrow> map_of d' n = map_of d n) \<and>
    hier_SeekToFirst (sst_ops (cw_xx wd)) (NewHierarchicalIterator (map sst_NewIterator rs)) = Some it \<and>
    iter_collect (hier_ops (sst_ops (cw_xx wd))) n it = Some (merged (map blocks_items bss))"
proof -
  let ?cs = "chunks_from (SSTableMaxSize cfg) [] (merged_kvs bss)"
  obtain d' rs where r: "CompactFiles wd cfg tm task d = Some (Inr (output_names wd (ct_TargetLevel task) 1 (length ?cs)), d')"
    "list_all2 (\<lambda>n r. \<exists>f. map_of d' n = Some f \<and> OpenTable (cw_xx wd) (Some f) = Some (Inr r))
      (output_names wd (ct_TargetLevel task) 1 (length ?cs)) rs"
    "list_all2 (table_reader (cw_xx wd)) rs (map chunk_blocks ?cs)"
    "\<forall>n. n \<notin> set (output_names wd (ct_TargetLevel task) 1 (length ?cs)) \<longrightarrow> map_of d' n = map_of d n"
    using compaction_outputs [OF assms(1,2) refl assms(3,4)] by blast
  have ok: "list_all blocks_ok bss"
    using assms(2) table_reader_blocks by (auto simp: list_all2_conv_all_nth list_all_length)
  obtain i j rst it where F: "forward_iterator (hier_ops (sst_ops (cw_xx wd))) i j rst"
    and it: "hier_SeekToFirst (sst_ops (cw_xx wd)) (NewHierarchicalIterator (map sst_NewIterator rs)) = Some it" "i it"
      "rst it = merged (map blocks_items bss)"
    using merge_tables [OF r(3)] unfolding merged_chunks [OF ok] by blast
  have "iter_collect (hier_ops (sst_ops (cw_xx wd))) n it = Some (merged (map blocks_items bss))"
    using forward_iterator.iter_collect_rest [OF F it(2), of n] it(3) assms(5) by (simp add: merged_kvs_def)
  with r it(1) show ?thesis by blast
qed

end
