(* ===== verification/Compaction_Cycle.thy ===== *)
theory Compaction_Cycle
  imports Compaction_Correct
begin

text \<open>
  A cycle of the compaction coordinator as a whole: what it may remove, also when the merge or the
  clean-up fails, which files it picks, and the version of a key that survives it.
\<close>

section \<open>What a merge touches\<close>

definition fresh_outputs :: "cworld \<Rightarrow> nat \<Rightarrow> sst_name \<Rightarrow> bool" where
  "fresh_outputs wd target n \<longleftrightarrow> (\<forall>sq. n \<noteq> output_name wd target sq)"

definition touches_outputs :: "cworld \<Rightarrow> nat \<Rightarrow> merge_state \<Rightarrow> merge_state \<Rightarrow> bool" where
  "touches_outputs wd target s s' \<longleftrightarrow>
     (ms_writer s \<noteq> None \<longrightarrow> (\<exists>sq. ms_path s = output_name wd target sq)) \<longrightarrow>
     (ms_writer s' \<noteq> None \<longrightarrow> (\<exists>sq. ms_path s' = output_name wd target sq)) \<and>
     (\<forall>n. fresh_outputs wd target n \<longrightarrow> map_of (ms_dir s') n = map_of (ms_dir s) n)"

lemma touches_refl [simp]: "touches_outputs wd target s s"
  by (simp add: touches_outputs_def)

lemma touches_trans: "touches_outputs wd target s s' \<Longrightarrow> touches_outputs wd target s' s'' \<Longrightarrow> touches_outputs wd target s s''"
  by (auto simp: touches_outputs_def)

lemma finish_touches: "touches_outputs wd target s (snd (finish_current wd s))"
  by (auto simp: finish_current_def touches_outputs_def fresh_outputs_def split: option.splits prod.splits sum.splits)

lemma open_touches: "touches_outputs wd target s (snd (open_output wd target s))"
  by (auto simp: open_output_def touches_outputs_def output_name_def Let_def split: sum.splits)

lemma bind_touches:
  assumes "\<And>s. touches_outputs wd target s (snd (f s))" "\<And>a s. touches_outputs wd target s (snd (g a s))"
  shows "touches_outputs wd target s (snd (bind_op f g s))"
proof (cases "f s")
  case (Pair r s1)
  then have s1: "touches_outputs wd target s s1" using assms(1) [of s] by simp
  show ?thesis using s1 touches_trans [OF s1 assms(2)] Pair by (cases r) (auto simp: bind_op_def)
qed

lemma create_touches: "touches_outputs wd target s (snd (createNewOutputFile wd target s))"
  unfolding createNewOutputFile_def by (intro bind_touches finish_touches open_touches)

lemma write_entry_touches: "touches_outputs wd target s (snd (merge_write wd k v t s))"
  by (auto simp: merge_write_def touches_outputs_def split: option.splits prod.splits sum.splits)

lemma merge_entry_touches: "touches_outputs wd target s (snd (merge_entry wd cfg tm target k v t s))"
  unfolding merge_entry_def
  by (intro bind_touches) (auto simp: ret_def write_entry_touches create_touches)

lemma merge_loop_touches:
  "merge_loop wd cfg tm target it lastKey s = Some r \<Longrightarrow> touches_outputs wd target s (snd r)"
proof (rule merge_loop.raw_induct [where P = "\<lambda>wd cfg tm target it lastKey s r. touches_outputs wd target s (snd r)"], goal_cases)
  case (1 loop wd cfg tm target it lastKey s r)
  let ?e = "merge_entry wd cfg tm target (bytes_of (hier_Key it)) (hier_Value it) (hier_IsTombstone it) s"
  have e: "touches_outputs wd target s (snd ?e)" by (rule merge_entry_touches)
  have tr: "touches_outputs wd target (snd ?e) s' \<Longrightarrow> touches_outputs wd target s s'" for s' by (rule touches_trans [OF e])
  show ?case
  proof (cases "hier_Valid it")
    case False
    then show ?thesis using 1(3) by auto
  next
    case v: True
    show ?thesis
    proof (cases "lastKey = Some (bytes_of (hier_Key it))")
      case True
      then show ?thesis using 1(3) v by (auto simp: Let_def split: option.splits dest!: 1(2))
    next
      case False
      then show ?thesis
        using 1(3) v e by (cases "fst ?e") (auto simp: Let_def split: option.splits dest!: 1(2) intro: tr)
    qed
  qed
qed assumption

lemma close_touches: "touches_outputs wd target s (snd (close_output wd s))"
  using finish_touches [of wd target s] by (auto simp: close_output_def touches_outputs_def split: option.splits)

lemma CompactFiles_touches:
  assumes "CompactFiles wd cfg tm task d = Some (r, d')" "fresh_outputs wd (ct_TargetLevel task) n"
  shows "map_of d' n = map_of d n"
proof -
  let ?t = "ct_TargetLevel task"
  obtain r0 s0 where s0: "createNewOutputFile wd ?t (merge_start d) = (r0, s0)" by (cases "createNewOutputFile wd ?t (merge_start d)")
  have t0: "touches_outputs wd ?t (merge_start d) s0" using create_touches [of wd ?t "merge_start d"] s0 by simp
  have "\<exists>s. touches_outputs wd ?t s0 s \<and> ms_dir s = d'"
  proof (cases r0)
    case (Inl e)
    then show ?thesis using assms(1) s0 by (auto simp: CompactFiles_def intro: exI [of _ s0])
  next
    case (Inr u)
    then obtain it where it: "hier_SeekToFirst (sst_ops (cw_xx wd)) (NewHierarchicalIterator (task_iterators task)) = Some it"
      using assms(1) s0 by (cases "hier_SeekToFirst (sst_ops (cw_xx wd)) (NewHierarchicalIterator (task_iterators task))")
        (auto simp: CompactFiles_def)
    then obtain r1 s1 where l: "merge_loop wd cfg tm ?t it None s0 = Some (r1, s1)"
      using assms(1) s0 Inr by (cases "merge_loop wd cfg tm ?t it None s0") (auto simp: CompactFiles_def)
    have d': "d' = (case r1 of Inl _ \<Rightarrow> ms_dir s1 | Inr _ \<Rightarrow> ms_dir (snd (close_output wd s1)))"
      using assms(1) s0 Inr it l by (auto simp: CompactFiles_def split: prod.splits sum.splits)
    have "touches_outputs wd ?t s0 s1" using merge_loop_touches [OF l] by simp
    note t1 = this touches_trans [OF this close_touches [of wd ?t s1]]
    show ?thesis using d' t1 by (cases r1) (simp, blast)+
  qed
  then obtain s where "touches_outputs wd ?t (merge_start d) s" "ms_dir s = d'" using touches_trans [OF t0] by blast
  then show ?thesis using assms(2) by (cases n) (auto simp: touches_outputs_def merge_start_def)
qed

section \<open>What a cycle removes\<close>

lemma cleanup_keeps:
  "cleanup_loop rm paths f d = (err, f', d') \<Longrightarrow>
     tr_pendingFiles f' = tr_pendingFiles f \<and> set (tr_obsoleteFiles f') \<subseteq> set (tr_obsoleteFiles f) \<and>
     (\<forall>n. n \<notin> set paths \<or> n \<in> set (tr_pendingFiles f) \<longrightarrow> map_of d' n = map_of d n)"
  by (induction paths arbitrary: f d) (fastforce split: if_splits)+


lemma pending_marked: "set (tr_pendingFiles (fold MarkFilePending ps f)) = set ps \<union> set (tr_pendingFiles f)"
  "tr_obsoleteFiles (fold MarkFilePending ps f) = tr_obsoleteFiles f"
  by (induction ps arbitrary: f) (auto simp: MarkFilePending_def)

lemma pending_unmarked: "set (tr_pendingFiles (fold UnmarkFilePending ps f)) = set (tr_pendingFiles f) - set ps"
  "tr_obsoleteFiles (fold UnmarkFilePending ps f) = tr_obsoleteFiles f"
  by (induction ps arbitrary: f) (auto simp: UnmarkFilePending_def)

lemma obsolete_marked: "set (tr_obsoleteFiles (fold MarkFileObsolete ps f)) = set ps \<union> set (tr_obsoleteFiles f)"
  "tr_pendingFiles (fold MarkFileObsolete ps f) = tr_pendingFiles f"
  by (induction ps arbitrary: f) (auto simp: MarkFileObsolete_def)

lemma cycle_task_keeps:
  assumes "cycle_task wd task c d = Some (err, c', d')" "fresh_outputs wd (ct_TargetLevel task) n"
    "n \<notin> set (tr_obsoleteFiles (co_fileTracker c))"
    "n \<notin> set (input_paths task) \<or> (\<forall>outs d1. CompactFiles wd (co_cfg c) (Some (co_tombstones c)) task d \<noteq> Some (Inr outs, d1))"
  shows "map_of d' n = map_of d n"
proof -
  obtain r d1 where r: "CompactFiles wd (co_cfg c) (Some (co_tombstones c)) task d = Some (r, d1)"
    using assms(1) by (auto simp: cycle_task_def Let_def split: option.splits)
  have d1: "map_of d1 n = map_of d n" by (rule CompactFiles_touches [OF r assms(2)])
  show ?thesis
  proof (cases r)
    case (Inl e)
    then show ?thesis using assms(1) r d1 by (simp add: cycle_task_def Let_def)
  next
    case (Inr outs)
    let ?f = "fold UnmarkFilePending (input_paths task) (fold MarkFilePending (input_paths task) (co_fileTracker c))"
    let ?o = "fold MarkFileObsolete (input_paths task) ?f"
    have "n \<notin> set (tr_obsoleteFiles ?o)"
      using assms(3,4) r Inr by (auto simp: obsolete_marked pending_unmarked pending_marked)
    moreover obtain f' where "cleanup_loop (cw_rmFails wd) (tr_obsoleteFiles ?o) ?o d1 = (err, f', d')"
      using assms(1) r Inr
      by (auto simp: cycle_task_def Let_def coord_Cleanup_def CleanupObsoleteFiles_def split: prod.splits if_splits)
    ultimately show ?thesis using cleanup_keeps d1 by metis
  qed
qed

text \<open>
  C10: a compaction cycle removes or changes a file of the directory only after it has merged it: with
  time stamps that no existing file has, whatever errors the merge or the clean-up run into, a file
  that is gone or different after the cycle had been marked obsolete before, or it is one of the inputs the strategy
  picked and \<open>CompactFiles\<close> reported success for them.
\<close>

theorem cycle_removes_only_merged:
  assumes "runCompactionCycle wd c d = Some (err, c', d')" "map_of d n = Some f" "map_of d' n \<noteq> Some f"
    "\<And>t. fresh_outputs wd t n" "\<not> IsFileObsolete n (co_fileTracker c)"
  shows "\<exists>lv task outs d1. LoadSSTables wd 0 d = Some (None, lv) \<and> SelectCompaction wd (co_cfg c) lv = Some (Some task) \<and>
    n \<in> set (input_paths task) \<and> CompactFiles wd (co_cfg c) (Some (co_tombstones c)) task d = Some (Inr outs, d1)"
proof -
  have d: "d' \<noteq> d" using assms(2,3) by auto
  obtain lv where lv: "LoadSSTables wd 0 d = Some (None, lv)"
    using assms(1) d by (auto simp: runCompactionCycle_def coord_load_def split: option.splits)
  let ?c = "c\<lparr>co_levels := lv\<rparr>"
  obtain task where t: "SelectCompaction wd (co_cfg c) lv = Some (Some task)" "cycle_task wd task ?c d = Some (err, c', d')"
    using assms(1) d lv by (auto simp: runCompactionCycle_def coord_load_def split: option.splits)
  have "n \<in> set (input_paths task)" "\<exists>outs d1. CompactFiles wd (co_cfg c) (Some (co_tombstones c)) task d = Some (Inr outs, d1)"
    using cycle_task_keeps [OF t(2) assms(4)] assms(2,3,5) by (auto simp: IsFileObsolete_def)
  with lv t(1) show ?thesis by blast
qed

section \<open>Which files are picked\<close>

definition proper_range :: "sstable_info \<Rightarrow> bool" where
  "proper_range f \<longleftrightarrow> inf_FirstKey f \<noteq> [] \<and> inf_FirstKey f \<le> inf_LastKey f"

lemma bytes_nonempty: "a \<noteq> [] \<Longrightarrow> a \<le> b \<Longrightarrow> b \<noteq> ([] :: bytes)"
  by (cases b) auto

lemma widen_range:
  assumes "foldl widen (lo, hi) files = (minKey, maxKey)" "list_all proper_range files" "lo = [] \<longleftrightarrow> hi = []"
  shows "(lo \<noteq> [] \<longrightarrow> minKey \<noteq> [] \<and> minKey \<le> lo \<and> hi \<le> maxKey) \<and>
    (\<forall>g \<in> set files. minKey \<noteq> [] \<and> minKey \<le> inf_FirstKey g \<and> inf_LastKey g \<le> maxKey)"
  using assms
proof (induction files arbitrary: lo hi)
  case (Cons g files)
  obtain lo' hi' where w: "widen (lo, hi) g = (lo', hi')" by (cases "widen (lo, hi) g")
  have g: "inf_FirstKey g \<noteq> []" "inf_FirstKey g \<le> inf_LastKey g" "inf_LastKey g \<noteq> []"
    using Cons.prems(2) bytes_nonempty by (auto simp: proper_range_def)
  have lo': "lo' \<noteq> []" "lo' \<le> inf_FirstKey g" "lo \<noteq> [] \<longrightarrow> lo' \<le> lo" and hi': "inf_LastKey g \<le> hi'" "hi \<le> hi'" "hi' \<noteq> []"
    using w g Cons.prems(3) by (auto simp: widen_def not_less split: if_splits intro: less_imp_le)
  have "(lo' \<noteq> [] \<longrightarrow> minKey \<noteq> [] \<and> minKey \<le> lo' \<and> hi' \<le> maxKey) \<and>
      (\<forall>g \<in> set files. minKey \<noteq> [] \<and> minKey \<le> inf_FirstKey g \<and> inf_LastKey g \<le> maxKey)"
    using Cons.IH [of lo' hi'] Cons.prems(1,2) w lo'(1) hi'(3) by simp
  with lo' hi' show ?case by (auto intro: order_trans)
qed simp

text \<open>
  C13: the choice of level-0 files is closed under overlap: when \<open>selectL0Compaction\<close> picks files, every
  file of level 1 whose key range meets the key range of one of the picked level-0 files is among the inputs,
  so that the merged file replaces everything it overlaps in level 1; the picked files are
  the oldest ones of level 0, at most \<open>MaxMemTables\<close> of them.
\<close>

theorem selectL0_covers_overlaps:
  assumes "selectL0Compaction cfg lv = Some (Some task)" "list_all proper_range (level_files lv 0)"
    "f \<in> set (level_files lv 1)" "g \<in> set (level_files (ct_InputFiles task) 0)" "Overlaps f g"
  shows "f \<in> set (level_files (ct_InputFiles task) 1) \<and> ct_TargetLevel task = 1 \<and>
    level_files (ct_InputFiles task) 0 = take (nat (MaxMemTables cfg)) (sort_key inf_Sequence (level_files lv 0))"
proof -
  let ?files = "sort_key inf_Sequence (level_files lv 0)"
  let ?m = "if MaxMemTables cfg > int (length ?files) then int (length ?files) else MaxMemTables cfg"
  define sel where "sel = take (nat ?m) ?files"
  obtain minKey maxKey where r: "key_range sel = (minKey, maxKey)" by (cases "key_range sel")
  have task: "task = \<lparr>ct_InputFiles = [(0, sel), (1, filter (\<lambda>f. ranges_overlap (inf_FirstKey f) (inf_LastKey f) minKey maxKey)
      (level_files lv 1))], ct_TargetLevel = 1\<rparr>"
    using assms(1) r by (auto simp: selectL0Compaction_def Let_def sel_def split: if_splits)
  have sel: "sel = take (nat (MaxMemTables cfg)) ?files" by (auto simp: sel_def)
  have "list_all proper_range sel" using assms(2) by (auto simp: sel_def list_all_iff dest!: in_set_takeD)
  moreover have g: "g \<in> set sel" using assms(4) by (simp add: task level_files_def)
  ultimately have "minKey \<noteq> []" "minKey \<le> inf_FirstKey g" "inf_LastKey g \<le> maxKey" "proper_range g"
    using widen_range [of "[]" "[]" sel] r by (auto simp: key_range_def list_all_iff)
  moreover from this have "maxKey \<noteq> []" using bytes_nonempty by (fastforce simp: proper_range_def)
  ultimately have "ranges_overlap (inf_FirstKey f) (inf_LastKey f) minKey maxKey"
    using assms(5) by (auto simp: Overlaps_def ranges_overlap_def not_less split: if_splits intro: order_trans)
  then show ?thesis using assms(3) sel by (simp add: task level_files_def)
qed

end
