(* ===== verification/Compaction_Stale.thy ===== *)
theory Compaction_Stale
  imports Compaction_Cycle
begin

text \<open>
  A directory with two level-0 tables, followed through one cycle of compaction: loading, choosing,
  merging and cleaning up. The hierarchical iterator prefers the sources it is given first, the
  strategy lists the files by ascending number, and so the older version of a key survives.
\<close>

lemma tables_scan:
  assumes "list_all2 (table_reader xx) rs bss" "length (merged (map blocks_items (rev bss))) \<le> n"
  shows "\<exists>it. op_SeekToFirst (engine_ops (sst_ops xx)) (CreateIterator [] (map sst_NewIterator rs)) = Some it \<and>
    iter_collect (engine_ops (sst_ops xx)) n it = Some (merged (map blocks_items (rev bss)))"
proof -
  let ?c = "createBaseIterator [] (map sst_NewIterator rs)"
  obtain i j r where F: "forward_iterator (engine_ops (sst_ops xx)) i j r"
    and c: "i ?c" "j ?c = merged (map blocks_items (rev bss))"
    by (rule engine_forward [of xx]) (use assms in force)
  obtain it where "op_SeekToFirst (engine_ops (sst_ops xx)) ?c = Some it" "i it" "r it = j ?c"
    using forward_iterator.first [OF F c(1)] by auto
  with forward_iterator.iter_collect_rest [OF F, of it n] assms(2) c(2) show ?thesis
    by (simp add: CreateIterator_def)
qed

section \<open>One cycle over two tables\<close>

definition quiet :: "cworld \<Rightarrow> bool" where
  "quiet wd \<longleftrightarrow> no_faults wd \<and> cw_readDir wd 0 \<and> (\<forall>p. \<not> cw_rmFails wd p)"

lemma chunks_single: "int (length cur + length xs) < m \<Longrightarrow> cur @ xs \<noteq> [] \<Longrightarrow> chunks_from m cur xs = [cur @ xs]"
  by (induction xs arbitrary: cur) auto

lemma merged_kvs_nonempty:
  assumes "blocks_ok bs" "bs \<in> set bss"
  shows "merged_kvs bss \<noteq> []"
proof -
  obtain b e where "bs \<noteq> []" "b \<in> set bs" "e \<in> set b"
    using assms(1) by (metis blocks_ok_def hd_in_set)
  moreover have "[] \<notin> set bs" using assms(1) by (simp add: blocks_ok_def)
  ultimately have "item_of e \<in> set (blocks_items bs)" using blocks_items_set by auto
  then have "source_keys (map blocks_items bss) \<noteq> {}" using assms(2) by (force simp: source_keys_def)
  then show ?thesis using merged_kvs_keys [of bss] by auto
qed

lemma two_table_task:
  assumes "dir_tables (cw_xx wd) [((0, s1, t1), f1), ((0, s2, t2), f2)] [bs1, bs2]" "cw_readDir wd 0" "s1 < s2"
    "MaxMemTables cfg = 2"
  shows "\<exists>lv task r1 r2. LoadSSTables wd 0 [((0, s1, t1), f1), ((0, s2, t2), f2)] = Some (None, lv) \<and>
    SelectCompaction wd cfg lv = Some (Some task) \<and> ct_TargetLevel task = 1 \<and>
    input_paths task = [(0, s1, t1), (0, s2, t2)] \<and> task_readers task = [r1, r2] \<and>
    table_reader (cw_xx wd) r1 bs1 \<and> table_reader (cw_xx wd) r2 bs2"
proof -
  let ?d = "[((0, s1, t1), f1), ((0, s2, t2), f2)] :: sst_dir"
  obtain lv infos where lv: "LoadSSTables wd 0 ?d = Some (None, lv)" "length infos = length ?d"
    "\<forall>i < length ?d. describes (cw_xx wd) (?d ! i) ([bs1, bs2] ! i) (infos ! i)"
    "\<forall>l. level_files lv l = sort_key inf_Sequence (filter (\<lambda>i. inf_Level i = l) infos)"
    using LoadSSTables_tables [OF assms(1,2)] by blast
  obtain a b where ab: "infos = [a, b]" using lv(2) by (auto simp: length_Suc_conv)
  have a: "describes (cw_xx wd) ((0, s1, t1), f1) bs1 a" and b: "describes (cw_xx wd) ((0, s2, t2), f2) bs2 b"
    using lv(3) [rule_format, of 0] lv(3) [rule_format, of 1] ab by auto
  obtain r1 r2 where r: "inf_Reader a = Some r1" "table_reader (cw_xx wd) r1 bs1" "inf_Reader b = Some r2" "table_reader (cw_xx wd) r2 bs2"
    using a b by (auto simp: describes_def)
  have l: "level_files lv 0 = [a, b]" "level_files lv 1 = []"
    using lv(4) ab a b assms(3) by (auto simp: describes_def)
  let ?task = "\<lparr>ct_InputFiles = [(0, [a, b]), (1, [])], ct_TargetLevel = 1\<rparr>"
  have "sort_key inf_Sequence [a, b] = [a, b]" using a b assms(3) by (simp add: describes_def)
  then have "SelectCompaction wd cfg lv = Some (Some ?task)"
    using l assms(4) by (simp add: SelectCompaction_def selectL0Compaction_def case_prod_unfold Let_def)
  moreover have "input_paths ?task = [(0, s1, t1), (0, s2, t2)]" using a b by (simp add: input_paths_def describes_def)
  moreover have "task_readers ?task = [r1, r2]" using r by (simp add: task_readers_def level_files_def map_filter_simps)
  ultimately show ?thesis using lv(1) r(2,4) by (intro exI conjI) (assumption | simp)+
qed

lemma two_table_cycle:
  assumes "dir_tables (cw_xx wd) [((0, s1, t1), f1), ((0, s2, t2), f2)] [bs1, bs2]" "quiet wd" "s1 < s2"
    "MaxMemTables cfg = 2" "int (length (merged_kvs [bs1, bs2])) < SSTableMaxSize cfg"
    "table_size (cw_xx wd) (cw_dims wd) True (chunk_blocks (merged_kvs [bs1, bs2])) < 2 ^ 32"
    "co_cfg c = cfg" "co_fileTracker c = NewFileTracker"
  shows "\<exists>c' f r. runCompactionCycle wd c [((0, s1, t1), f1), ((0, s2, t2), f2)] = Some (None, c', [((1, 1, cw_stamp wd 1), f)]) \<and>
    OpenTable (cw_xx wd) (Some f) = Some (Inr r) \<and> table_reader (cw_xx wd) r (chunk_blocks (merged_kvs [bs1, bs2]))"
proof -
  let ?d = "[((0, s1, t1), f1), ((0, s2, t2), f2)] :: sst_dir" and ?n1 = "(0 :: nat, s1, t1)" and ?n2 = "(0 :: nat, s2, t2)"
  let ?n = "(1 :: nat, 1 :: u64, cw_stamp wd 1)"
  obtain lv task r1 r2 where t: "LoadSSTables wd 0 ?d = Some (None, lv)" "SelectCompaction wd cfg lv = Some (Some task)"
    "ct_TargetLevel task = 1" "input_paths task = [?n1, ?n2]" "task_readers task = [r1, r2]"
    "table_reader (cw_xx wd) r1 bs1" "table_reader (cw_xx wd) r2 bs2"
    using two_table_task [OF assms(1) _ assms(3,4)] assms(2) by (auto simp: quiet_def)
  have ne: "merged_kvs [bs1, bs2] \<noteq> []" using merged_kvs_nonempty [OF table_reader_blocks [OF t(6)]] by simp
  have cs: "chunks_from (SSTableMaxSize cfg) [] (merged_kvs [bs1, bs2]) = [merged_kvs [bs1, bs2]]"
    using chunks_single [of "[]" "merged_kvs [bs1, bs2]"] ne assms(5) by simp
  have on: "output_names wd 1 1 1 = [?n]" by (simp add: output_names_def output_name_def)
  obtain d' rs where cf: "CompactFiles wd cfg (Some (co_tombstones c)) task ?d = Some (Inr [?n], d')"
    "list_all2 (\<lambda>n r. \<exists>f. map_of d' n = Some f \<and> OpenTable (cw_xx wd) (Some f) = Some (Inr r)) [?n] rs"
    "list_all2 (table_reader (cw_xx wd)) rs [chunk_blocks (merged_kvs [bs1, bs2])]"
    "d' = snd (emit wd 1 1 [merged_kvs [bs1, bs2]] ([], ?d))"
    using compaction_outputs [of wd task "[bs1, bs2]" "[merged_kvs [bs1, bs2]]" cfg "Some (co_tombstones c)" ?d]
      assms(2,6) t(3,5-7) cs on by (auto simp: quiet_def)
  obtain f where d': "d' = ?d @ [(?n, f)]" using cf(4) by (auto simp: dir_write_def output_name_def)
  obtain r where r: "rs = [r]" "OpenTable (cw_xx wd) (Some f) = Some (Inr r)" "table_reader (cw_xx wd) r (chunk_blocks (merged_kvs [bs1, bs2]))"
    using cf(2,3) d' by (auto simp: list_all2_Cons1 list_all2_Cons2)
  let ?f = "\<lparr>tr_obsoleteFiles = [?n2, ?n1], tr_pendingFiles = []\<rparr>"
  have tr: "fold MarkFileObsolete [?n1, ?n2] (fold UnmarkFilePending [?n1, ?n2] (fold MarkFilePending [?n1, ?n2] NewFileTracker)) = ?f"
    using assms(3) by (auto simp: MarkFileObsolete_def UnmarkFilePending_def MarkFilePending_def NewFileTracker_def List.insert_def)
  have "\<exists>f'. CleanupObsoleteFiles (cw_rmFails wd) ?f d' = (None, f', [(?n, f)])"
    using assms(2,3) by (auto simp: CleanupObsoleteFiles_def d' dir_has_def dir_remove_def quiet_def)
  then obtain c' where "cycle_task wd task (c\<lparr>co_levels := lv\<rparr>) ?d = Some (None, c', [(?n, f)])"
    using cf(1) t(4) tr assms(7,8) by (auto simp: cycle_task_def Let_def coord_Cleanup_def)
  then have "runCompactionCycle wd c ?d = Some (None, c', [(?n, f)])"
    using t(1,2) assms(7) by (simp add: runCompactionCycle_def coord_load_def)
  with r show ?thesis by blast
qed

section \<open>Examples\<close>

definition sample_cworld :: cworld where
  "sample_cworld = \<lparr>cw_xx = (\<lambda>_. 0), cw_dims = (80, 7), cw_stamp = (\<lambda>_. 9), cw_finishTime = (\<lambda>_. 5), cw_fault = (\<lambda>_. None),
     cw_now = (\<lambda>_. 0), cw_readDir = (\<lambda>_. True), cw_rmFails = (\<lambda>_. False), cw_fdiv = (\<lambda>_ _. 0)\<rparr>"

definition one_kv :: "byte \<Rightarrow> (bytes \<times> slice) list" where
  "one_kv v = [([1], Some [v])]"

lemma sample_fields [simp]: "cw_xx sample_cworld = (\<lambda>_. 0)" "cw_dims sample_cworld = (80, 7)" "cw_stamp sample_cworld = (\<lambda>_. 9)"
  by (simp_all add: sample_cworld_def)

lemma sample_quiet: "quiet sample_cworld" "no_faults sample_cworld"
  using small_dims by (simp_all add: quiet_def no_faults_def sample_cworld_def)

lemma one_kv_cut: "chunk_blocks (one_kv v) = [map entry_of (one_kv v)]"
  by (simp add: chunk_blocks_def one_kv_def block_full_def block_estimate_def entries_size_def)

lemma one_kv_size: "table_size (\<lambda>_. 0) (80, 7) True (chunk_blocks (one_kv v)) < 2 ^ 32"
  unfolding one_kv_cut
  by (simp add: table_size_def one_kv_def blocks_image_def block_image_length entries_image_Suc FooterSize_def filter_bytes_def
      index_block_def index_of_def index_value_def entry_image_def full_bytes_def value_bytes_def num_restarts_def)

lemma one_kv_legal: "legal_entries (map entry_of (one_kv v))"
  by (simp add: one_kv_def legal_entries_def)

definition one_kv_table :: "byte \<Rightarrow> bytes" where
  "one_kv_table v = the (write_sst (\<lambda>_. 0) (80, 7) True 5 (one_kv v))"

lemma one_kv_content: "table_content (\<lambda>_. 0) (one_kv_table v) (chunk_blocks (one_kv v))"
  using write_sst_open [OF one_kv_legal small_dims refl, of "\<lambda>_. 0" True v 5] one_kv_size
  by (fastforce simp: one_kv_table_def table_content_def table_reader_def chunk_blocks_def)

lemma one_kv_items: "blocks_items (chunk_blocks (one_kv v)) = [([1], Some [v], False), ([1], Some [v], False)]"
  unfolding one_kv_cut by (simp add: blocks_items_def twice_def one_kv_def item_of_def)

lemma one_kv_merged:
  "merged (map blocks_items [chunk_blocks (one_kv v), chunk_blocks (one_kv w)]) = [([1], Some [v], False)]"
  by (simp add: one_kv_items merged_def source_keys_def merged_item_def)

lemma one_kv_merged_kvs: "merged_kvs [chunk_blocks (one_kv v), chunk_blocks (one_kv w)] = one_kv v"
  unfolding merged_kvs_def one_kv_merged by (simp add: item_kv_def one_kv_def)

definition two_files :: sst_dir where
  "two_files = [((0, 1, 5), one_kv_table 7), ((0, 2, 6), one_kv_table 8)]"

abbreviation two_blocks :: "block_entry list list list" where
  "two_blocks \<equiv> [chunk_blocks (one_kv 7), chunk_blocks (one_kv 8)]"

lemma two_files_tables: "dir_tables (\<lambda>_. 0) two_files two_blocks"
  by (simp add: dir_tables_def two_files_def one_kv_content name_parses_def)

definition two_config :: config where
  "two_config = (NewDefaultConfig ''wal'' ''sst'')\<lparr>MaxMemTables := 2\<rparr>"

lemma two_config_fields [simp]: "MaxMemTables two_config = 2" "SSTableMaxSize two_config = 67108864"
  by (simp_all add: two_config_def NewDefaultConfig_def)

text \<open>
  C9: compaction replaces newer versions by older ones. Two level-0 tables are loaded by the engine
  in the order of their numbers and scanned with the later one in front; one compaction cycle
  merges them, without an error, into a single level-1 table, removes them, and a scan of that table
  shows the older version of every key that both had.
\<close>

theorem compaction_keeps_older:
  assumes "dir_tables (cw_xx wd) [((0, s1, t1), f1), ((0, s2, t2), f2)] [bs1, bs2]" "quiet wd" "s1 < s2"
    "MaxMemTables cfg = 2" "int (length (merged_kvs [bs1, bs2])) < SSTableMaxSize cfg"
    "table_size (cw_xx wd) (cw_dims wd) True (chunk_blocks (merged_kvs [bs1, bs2])) < 2 ^ 32"
    "co_cfg c = cfg" "co_fileTracker c = NewFileTracker"
    "length (merged (map blocks_items [bs1, bs2])) \<le> n" "length (merged (map blocks_items [bs2, bs1])) \<le> n"
  shows "\<exists>r1 r2 it c' f r it'. OpenTable (cw_xx wd) (Some f1) = Some (Inr r1) \<and> OpenTable (cw_xx wd) (Some f2) = Some (Inr r2) \<and>
    op_SeekToFirst (engine_ops (sst_ops (cw_xx wd))) (CreateIterator [] (map sst_NewIterator [r1, r2])) = Some it \<and>
    iter_collect (engine_ops (sst_ops (cw_xx wd))) n it = Some (merged (map blocks_items [bs2, bs1])) \<and>
    runCompactionCycle wd c [((0, s1, t1), f1), ((0, s2, t2), f2)] = Some (None, c', [((1, 1, cw_stamp wd 1), f)]) \<and>
    OpenTable (cw_xx wd) (Some f) = Some (Inr r) \<and>
    op_SeekToFirst (engine_ops (sst_ops (cw_xx wd))) (CreateIterator [] (map sst_NewIterator [r])) = Some it' \<and>
    iter_collect (engine_ops (sst_ops (cw_xx wd))) n it' = Some (merged (map blocks_items [bs1, bs2]))"
proof -
  obtain r1 r2 where r12: "OpenTable (cw_xx wd) (Some f1) = Some (Inr r1)" "OpenTable (cw_xx wd) (Some f2) = Some (Inr r2)"
    "table_reader (cw_xx wd) r1 bs1" "table_reader (cw_xx wd) r2 bs2"
    using assms(1) by (auto simp: dir_tables_def table_content_def)
  obtain it where it: "op_SeekToFirst (engine_ops (sst_ops (cw_xx wd))) (CreateIterator [] (map sst_NewIterator [r1, r2])) = Some it"
    "iter_collect (engine_ops (sst_ops (cw_xx wd))) n it = Some (merged (map blocks_items [bs2, bs1]))"
    using tables_scan [of "cw_xx wd" "[r1, r2]" "[bs1, bs2]" n] r12(3,4) assms(10) by auto
  obtain c' f r where c': "runCompactionCycle wd c [((0, s1, t1), f1), ((0, s2, t2), f2)] = Some (None, c', [((1, 1, cw_stamp wd 1), f)])"
    "OpenTable (cw_xx wd) (Some f) = Some (Inr r)" "table_reader (cw_xx wd) r (chunk_blocks (merged_kvs [bs1, bs2]))"
    using two_table_cycle [OF assms(1-8)] by blast
  have ok: "list_all blocks_ok [bs1, bs2]" using r12(3,4) table_reader_blocks by auto
  have ne: "merged_kvs [bs1, bs2] \<noteq> []" using merged_kvs_nonempty [OF table_reader_blocks [OF r12(3)]] by simp
  have m: "merged [blocks_items (chunk_blocks (merged_kvs [bs1, bs2]))] = merged (map blocks_items [bs1, bs2])"
    using merged_chunks [OF ok, of "SSTableMaxSize cfg"] chunks_single [of "[]" "merged_kvs [bs1, bs2]"] ne assms(5) by simp
  obtain it' where "op_SeekToFirst (engine_ops (sst_ops (cw_xx wd))) (CreateIterator [] (map sst_NewIterator [r])) = Some it'"
    "iter_collect (engine_ops (sst_ops (cw_xx wd))) n it' = Some (merged (map blocks_items [bs1, bs2]))"
    using tables_scan [of "cw_xx wd" "[r]" "[chunk_blocks (merged_kvs [bs1, bs2])]" n] c'(3) assms(9) by (auto simp: m)
  with r12(1,2) it c'(1,2) show ?thesis by blast
qed

theorem compaction_keeps_older_witness:
  "\<exists>r1 r2 it c' f r it'. OpenTable (\<lambda>_. 0) (Some (one_kv_table 7)) = Some (Inr r1) \<and> OpenTable (\<lambda>_. 0) (Some (one_kv_table 8)) = Some (Inr r2) \<and>
    op_SeekToFirst (engine_ops (sst_ops (\<lambda>_. 0))) (CreateIterator [] (map sst_NewIterator [r1, r2])) = Some it \<and>
    iter_collect (engine_ops (sst_ops (\<lambda>_. 0))) 1 it = Some [([1], Some [8], False)] \<and>
    runCompactionCycle sample_cworld (NewCompactionManager two_config) two_files = Some (None, c', [((1, 1, 9), f)]) \<and>
    OpenTable (\<lambda>_. 0) (Some f) = Some (Inr r) \<and>
    op_SeekToFirst (engine_ops (sst_ops (\<lambda>_. 0))) (CreateIterator [] (map sst_NewIterator [r])) = Some it' \<and>
    iter_collect (engine_ops (sst_ops (\<lambda>_. 0))) 1 it' = Some [([1], Some [7], False)]"
  using compaction_keeps_older [of sample_cworld 1 5 "one_kv_table 7" 2 6 "one_kv_table 8" "chunk_blocks (one_kv 7)"
      "chunk_blocks (one_kv 8)" two_config "NewCompactionManager two_config" 1]
    two_files_tables sample_quiet one_kv_size
  unfolding one_kv_merged one_kv_merged_kvs
  by (simp add: two_files_def NewCompactionManager_def NewCompactionCoordinator_def one_kv_def)

theorem cycle_removes_only_merged_witness:
  "\<exists>c' d' lv task outs d1. runCompactionCycle sample_cworld (NewCompactionManager two_config) two_files = Some (None, c', d') \<and>
    map_of d' (0, 1, 5) = None \<and> LoadSSTables sample_cworld 0 two_files = Some (None, lv) \<and>
    SelectCompaction sample_cworld two_config lv = Some (Some task) \<and> (0, 1, 5) \<in> set (input_paths task) \<and>
    CompactFiles sample_cworld two_config (Some (NewTombstoneTracker day)) task two_files = Some (Inr outs, d1)"
proof -
  let ?c = "NewCompactionManager two_config"
  have c: "co_cfg ?c = two_config" "co_fileTracker ?c = NewFileTracker" "co_tombstones ?c = NewTombstoneTracker day"
    by (simp_all add: NewCompactionManager_def NewCompactionCoordinator_def)
  obtain c' f r where run: "runCompactionCycle sample_cworld ?c two_files = Some (None, c', [((1, 1, 9), f)])"
    using two_table_cycle [of sample_cworld 1 5 "one_kv_table 7" 2 6 "one_kv_table 8" "chunk_blocks (one_kv 7)"
        "chunk_blocks (one_kv 8)" two_config ?c] two_files_tables sample_quiet one_kv_size c
    unfolding one_kv_merged_kvs by (auto simp: two_files_def one_kv_def)
  have "map_of two_files (0, 1, 5) = Some (one_kv_table 7)" "\<And>t. fresh_outputs sample_cworld t (0, 1, 5)"
    "\<not> IsFileObsolete (0, 1, 5) (co_fileTracker ?c)"
    by (simp_all add: two_files_def fresh_outputs_def output_name_def IsFileObsolete_def c NewFileTracker_def)
  with cycle_removes_only_merged [OF run, of "(0, 1, 5)" "one_kv_table 7"] run show ?thesis by (auto simp: c)
qed

theorem compaction_merges_witness:
  "\<exists>r1 r2 outs d' rs it. OpenTable (\<lambda>_. 0) (Some (one_kv_table 7)) = Some (Inr r1) \<and> OpenTable (\<lambda>_. 0) (Some (one_kv_table 8)) = Some (Inr r2) \<and>
    CompactFiles sample_cworld two_config None
      \<lparr>ct_InputFiles = [(0, map (\<lambda>r. \<lparr>inf_Path = (0, 1, 5), inf_Level = 0, inf_Sequence = 1, inf_Timestamp = 5, inf_Size = 9,
         inf_KeyCount = 1, inf_FirstKey = [1], inf_LastKey = [1], inf_Reader = Some r\<rparr>) [r1, r2])], ct_TargetLevel = 1\<rparr> [] = Some (Inr outs, d') \<and>
    list_all2 (\<lambda>n r. \<exists>f. map_of d' n = Some f \<and> OpenTable (\<lambda>_. 0) (Some f) = Some (Inr r)) outs rs \<and>
    hier_SeekToFirst (sst_ops (\<lambda>_. 0)) (NewHierarchicalIterator (map sst_NewIterator rs)) = Some it \<and>
    iter_collect (hier_ops (sst_ops (\<lambda>_. 0))) 5 it = Some [([1], Some [7], False)]"
proof -
  obtain r1 r2 where r: "OpenTable (\<lambda>_. 0) (Some (one_kv_table 7)) = Some (Inr r1)" "OpenTable (\<lambda>_. 0) (Some (one_kv_table 8)) = Some (Inr r2)"
    "table_reader (\<lambda>_. 0) r1 (chunk_blocks (one_kv 7))" "table_reader (\<lambda>_. 0) r2 (chunk_blocks (one_kv 8))"
    using one_kv_content [of 7] one_kv_content [of 8] by (auto simp: table_content_def)
  let ?task = "\<lparr>ct_InputFiles = [(0, map (\<lambda>r. \<lparr>inf_Path = (0, 1, 5), inf_Level = 0, inf_Sequence = 1, inf_Timestamp = 5, inf_Size = 9,
         inf_KeyCount = 1, inf_FirstKey = [1], inf_LastKey = [1], inf_Reader = Some r\<rparr>) [r1, r2])], ct_TargetLevel = 1\<rparr>"
  have cs: "chunks_from (SSTableMaxSize two_config) [] (one_kv 7) = [one_kv 7]" by (simp add: one_kv_def)
  have rd: "list_all2 (table_reader (cw_xx sample_cworld)) (task_readers ?task) two_blocks"
    using r(3,4) by (simp add: task_readers_def level_files_def map_filter_simps)
  have sz: "list_all (\<lambda>c. table_size (\<lambda>_. 0) (80, 7) True (chunk_blocks c) < 2 ^ 32) [one_kv 7]" "length [one_kv 7] < 2 ^ 64"
    using one_kv_size [of 7] by simp_all
  have len: "length (one_kv 7) = 1" by (simp add: one_kv_def)
  have le: "(1 :: nat) \<le> 5" by simp
  note run = compaction_merges [OF sample_quiet(2) rd, of two_config 5 None "[]",
      unfolded one_kv_merged one_kv_merged_kvs cs sample_fields len, OF sz le]
  show ?thesis
    by (rule exI [of _ r1], rule exI [of _ r2]) (use r(1,2) run in blast)
qed

definition range_info :: "nat \<Rightarrow> u64 \<Rightarrow> bytes \<Rightarrow> bytes \<Rightarrow> sstable_info" where
  "range_info level sq lo hi =
     \<lparr>inf_Path = (level, sq, 5), inf_Level = level, inf_Sequence = sq, inf_Timestamp = 5, inf_Size = 100, inf_KeyCount = 2,
      inf_FirstKey = lo, inf_LastKey = hi, inf_Reader = None\<rparr>"

theorem selectL0_covers_overlaps_witness:
  "\<exists>task. selectL0Compaction two_config [(0, [range_info 0 1 [1] [3], range_info 0 2 [5] [6]]), (1, [range_info 1 1 [2] [4], range_info 1 2 [8] [9]])] = Some (Some task) \<and>
     level_files (ct_InputFiles task) 1 = [range_info 1 1 [2] [4]] \<and>
     range_info 1 1 [2] [4] \<in> set (level_files (ct_InputFiles task) 1)"
proof -
  let ?lv = "[(0 :: nat, [range_info 0 1 [1] [3], range_info 0 2 [5] [6]]), (1, [range_info 1 1 [2] [4], range_info 1 2 [8] [9]])]"
  let ?task = "\<lparr>ct_InputFiles = [(0 :: nat, [range_info 0 1 [1] [3], range_info 0 2 [5] [6]]), (1, [range_info 1 1 [2] [4]])], ct_TargetLevel = 1\<rparr>"
  have sel: "selectL0Compaction two_config ?lv = Some (Some ?task)"
    by (simp add: selectL0Compaction_def level_files_def range_info_def key_range_def widen_def ranges_overlap_def Let_def)
  have "range_info 1 1 [2] [4] \<in> set (level_files ?lv 1)" "range_info 0 1 [1] [3] \<in> set (level_files (ct_InputFiles ?task) 0)"
    "Overlaps (range_info 1 1 [2] [4]) (range_info 0 1 [1] [3])" "list_all proper_range (level_files ?lv 0)"
    by (simp_all add: level_files_def Overlaps_def ranges_overlap_def range_info_def proper_range_def)
  with selectL0_covers_overlaps [OF sel] have "range_info 1 1 [2] [4] \<in> set (level_files (ct_InputFiles ?task) 1)" by blast
  moreover have "level_files (ct_InputFiles ?task) 1 = [range_info 1 1 [2] [4]]" by (simp add: level_files_def)
  ultimately show ?thesis using sel by blast
qed

text \<open>
  C37: the levels that compaction works on are well formed: for a directory of readable tables,
  \<open>LoadSSTables\<close> succeeds and describes every file once, under the level of its name, with its true
  first and last key, number of keys, size and an open reader; within a level the files are in the
  order of their numbers.
\<close>

theorem load_sstables_wellformed:
  assumes "dir_tables (cw_xx wd) d bss" "cw_readDir wd n"
  shows "\<exists>lv infos. LoadSSTables wd n d = Some (None, lv) \<and>
    list_all2 (\<lambda>(f, bs) info. describes (cw_xx wd) f bs info) (zip d bss) infos \<and>
    (\<forall>l. mset (level_files lv l) = filter_mset (\<lambda>i. inf_Level i = l) (mset infos) \<and>
         sorted (map inf_Sequence (level_files lv l)))"
proof -
  obtain lv infos where l: "LoadSSTables wd n d = Some (None, lv)" "length infos = length d"
    "\<forall>i < length d. describes (cw_xx wd) (d ! i) (bss ! i) (infos ! i)"
    "\<forall>l. level_files lv l = sort_key inf_Sequence (filter (\<lambda>i. inf_Level i = l) infos)"
    using LoadSSTables_tables [OF assms] by blast
  have "length bss = length d" using assms(1) by (auto simp: dir_tables_def list_all2_lengthD)
  then show ?thesis using l by (intro exI [of _ lv] exI [of _ infos]) (auto simp: list_all2_conv_all_nth mset_filter)
qed

theorem load_sstables_wellformed_witness:
  "\<exists>lv a b. LoadSSTables sample_cworld 0 two_files = Some (None, lv) \<and> mset (level_files lv 0) = {#a, b#} \<and>
     inf_FirstKey a = [1] \<and> inf_Sequence b = 2"
proof -
  have "dir_tables (cw_xx sample_cworld) two_files two_blocks" "cw_readDir sample_cworld 0"
    using two_files_tables by (simp_all add: sample_cworld_def)
  from load_sstables_wellformed [OF this] obtain lv infos where l: "LoadSSTables sample_cworld 0 two_files = Some (None, lv)"
    "list_all2 (\<lambda>(f, bs) info. describes (cw_xx sample_cworld) f bs info) (zip two_files two_blocks) infos"
    "mset (level_files lv 0) = filter_mset (\<lambda>i. inf_Level i = 0) (mset infos)" by blast
  then obtain a b where ab: "infos = [a, b]" "describes (\<lambda>_. 0) ((0, 1, 5), one_kv_table 7) (chunk_blocks (one_kv 7)) a"
    "describes (\<lambda>_. 0) ((0, 2, 6), one_kv_table 8) (chunk_blocks (one_kv 8)) b"
    by (auto simp: two_files_def list_all2_Cons1)
  then have "mset (level_files lv 0) = {#a, b#}" "inf_FirstKey a = [1]" "inf_Sequence b = 2"
    using l(3) one_kv_cut [of 7] by (auto simp: describes_def first_key_def one_kv_def)
  with l(1) show ?thesis by blast
qed

end
