(* ===== verification/Stats.thy ===== *)
theory Stats
  imports Kevo_Prelude
begin

text \<open>
  The statistics collector (\<open>src/pkg/stats/collector.go\<close>): counters of 64 bits per operation and per
  error, time stamps, byte totals, recovery figures and latency trackers. Every operation is atomic
  here except the update of a latency tracker, whose two loops of loads and compare-and-swaps are
  also modelled step by step for any number of goroutines that update the same tracker.
\<close>

section \<open>The collector\<close>

datatype op_type =
    OpPut | OpGet | OpDelete | OpTxBegin | OpTxCommit | OpTxRollback | OpFlush | OpCompact | OpSeek | OpScan | OpScanRange

record latency_tracker =
  la_count :: u64
  la_sum :: u64
  la_max :: u64
  la_min :: u64

record wal_recovery_stats =
  rs_WALFilesRecovered :: u64
  rs_WALEntriesRecovered :: u64
  rs_WALCorruptedEntries :: u64
  rs_WALRecoveryDuration :: int

record collector =
  sc_counts :: "op_type \<rightharpoonup> u64"
  sc_lastOpTime :: "op_type \<rightharpoonup> int"
  sc_memTableSize :: u64
  sc_totalBytesRead :: u64
  sc_totalBytesWritten :: u64
  sc_errors :: "string \<rightharpoonup> u64"
  sc_flushCount :: u64
  sc_compactionCount :: u64
  sc_recoveryStats :: wal_recovery_stats
  sc_latencies :: "op_type \<rightharpoonup> latency_tracker"

definition NewAtomicCollector :: collector where
  "NewAtomicCollector =
     \<lparr>sc_counts = Map.empty, sc_lastOpTime = Map.empty, sc_memTableSize = 0, sc_totalBytesRead = 0,
      sc_totalBytesWritten = 0, sc_errors = Map.empty, sc_flushCount = 0, sc_compactionCount = 0,
      sc_recoveryStats = \<lparr>rs_WALFilesRecovered = 0, rs_WALEntriesRecovered = 0, rs_WALCorruptedEntries = 0,
                           rs_WALRecoveryDuration = 0\<rparr>,
      sc_latencies = Map.empty\<rparr>"

definition NewCollector :: collector where
  "NewCollector = NewAtomicCollector"

definition getOrCreateCounter :: "'k \<Rightarrow> ('k \<rightharpoonup> u64) \<Rightarrow> u64" where
  "getOrCreateCounter k m = (case m k of None \<Rightarrow> 0 | Some n \<Rightarrow> n)"

definition getOrCreateLatencyTracker :: "op_type \<Rightarrow> collector \<Rightarrow> latency_tracker" where
  "getOrCreateLatencyTracker kind c =
     (case sc_latencies c kind of
        None \<Rightarrow> \<lparr>la_count = 0, la_sum = 0, la_max = 0, la_min = 0\<rparr>
      | Some t \<Rightarrow> t)"

definition TrackOperation :: "int \<Rightarrow> op_type \<Rightarrow> collector \<Rightarrow> collector" where
  "TrackOperation now kind c =
     c\<lparr>sc_counts := (sc_counts c)(kind \<mapsto> getOrCreateCounter kind (sc_counts c) + 1),
       sc_lastOpTime := (sc_lastOpTime c)(kind \<mapsto> now)\<rparr>"

definition update_max :: "u64 \<Rightarrow> u64 \<Rightarrow> u64" where
  "update_max latencyNs current = (if latencyNs \<le> current then current else latencyNs)"

definition update_min :: "u64 \<Rightarrow> u64 \<Rightarrow> u64" where
  "update_min latencyNs current = (if current = 0 then latencyNs else if latencyNs \<ge> current then current else latencyNs)"

definition track_latency :: "u64 \<Rightarrow> latency_tracker \<Rightarrow> latency_tracker" where
  "track_latency latencyNs t =
     \<lparr>la_count = la_count t + 1, la_sum = la_sum t + latencyNs,
      la_max = update_max latencyNs (la_max t), la_min = update_min latencyNs (la_min t)\<rparr>"

definition TrackOperationWithLatency :: "int \<Rightarrow> op_type \<Rightarrow> u64 \<Rightarrow> collector \<Rightarrow> collector" where
  "TrackOperationWithLatency now kind latencyNs c =
     (TrackOperation now kind c)
       \<lparr>sc_latencies := (sc_latencies c)(kind \<mapsto> track_latency latencyNs (getOrCreateLatencyTracker kind c))\<rparr>"

definition TrackError :: "string \<Rightarrow> collector \<Rightarrow> collector" where
  "TrackError errorType c =
     c\<lparr>sc_errors := (sc_errors c)(errorType \<mapsto> getOrCreateCounter errorType (sc_errors c) + 1)\<rparr>"

definition TrackBytes :: "bool \<Rightarrow> u64 \<Rightarrow> collector \<Rightarrow> collector" where
  "TrackBytes isWrite n c =
     (if isWrite then c\<lparr>sc_totalBytesWritten := sc_totalBytesWritten c + n\<rparr>
      else c\<lparr>sc_totalBytesRead := sc_totalBytesRead c + n\<rparr>)"

definition TrackMemTableSize :: "u64 \<Rightarrow> collector \<Rightarrow> collector" where
  "TrackMemTableSize n c = c\<lparr>sc_memTableSize := n\<rparr>"

definition TrackFlush :: "collector \<Rightarrow> collector" where
  "TrackFlush c = c\<lparr>sc_flushCount := sc_flushCount c + 1\<rparr>"

definition TrackCompaction :: "collector \<Rightarrow> collector" where
  "TrackCompaction c = c\<lparr>sc_compactionCount := sc_compactionCount c + 1\<rparr>"

definition StartRecovery :: "collector \<Rightarrow> collector" where
  "StartRecovery c =
     c\<lparr>sc_recoveryStats := \<lparr>rs_WALFilesRecovered = 0, rs_WALEntriesRecovered = 0, rs_WALCorruptedEntries = 0,
                            rs_WALRecoveryDuration = 0\<rparr>\<rparr>"

definition FinishRecovery :: "int \<Rightarrow> u64 \<Rightarrow> u64 \<Rightarrow> u64 \<Rightarrow> collector \<Rightarrow> collector" where
  "FinishRecovery elapsed filesRecovered entriesRecovered corruptedEntries c =
     c\<lparr>sc_recoveryStats := \<lparr>rs_WALFilesRecovered = filesRecovered, rs_WALEntriesRecovered = entriesRecovered,
                            rs_WALCorruptedEntries = corruptedEntries, rs_WALRecoveryDuration = elapsed\<rparr>\<rparr>"

text \<open>What \<open>GetStats\<close> reports of a latency tracker: count, average, minimum and maximum; a zero minimum or maximum is left out.\<close>

definition latency_stats :: "latency_tracker \<Rightarrow> (u64 \<times> u64 \<times> u64 option \<times> u64 option) option" where
  "latency_stats t =
     (if la_count t = 0 then None
      else Some (la_count t, la_sum t div la_count t, if la_min t \<noteq> 0 then Some (la_min t) else None,
                 if la_max t \<noteq> 0 then Some (la_max t) else None))"

definition startsWith :: "string \<Rightarrow> string \<Rightarrow> bool" where
  "startsWith s prefix = (if length s < length prefix then False else take (length prefix) s = prefix)"

fun op_name :: "op_type \<Rightarrow> string" where
  "op_name OpPut = ''put''"
| "op_name OpGet = ''get''"
| "op_name OpDelete = ''delete''"
| "op_name OpTxBegin = ''tx_begin''"
| "op_name OpTxCommit = ''tx_commit''"
| "op_name OpTxRollback = ''tx_rollback''"
| "op_name OpFlush = ''flush''"
| "op_name OpCompact = ''compact''"
| "op_name OpSeek = ''seek''"
| "op_name OpScan = ''scan''"
| "op_name OpScanRange = ''scan_range''"

definition all_ops :: "op_type list" where
  "all_ops = [OpPut, OpGet, OpDelete, OpTxBegin, OpTxCommit, OpTxRollback, OpFlush, OpCompact, OpSeek, OpScan, OpScanRange]"

text \<open>The values of the map that \<open>GetStats\<close> returns; the groups of errors, of recovery and of latencies are maps themselves.\<close>

datatype stat = StatU u64 | StatI int | StatB bool | StatM "string \<rightharpoonup> stat"

definition put_all :: "(op_type \<Rightarrow> string) \<Rightarrow> (op_type \<Rightarrow> stat option) \<Rightarrow> (string \<rightharpoonup> stat) \<Rightarrow> (string \<rightharpoonup> stat)" where
  "put_all key val m = fold (\<lambda>kind m. case val kind of None \<Rightarrow> m | Some v \<Rightarrow> m(key kind \<mapsto> v)) all_ops m"

definition latency_map :: "latency_tracker \<Rightarrow> stat option" where
  "latency_map t =
     map_option (\<lambda>(n, avg, mn, mx).
        StatM ((Map.empty)(''count'' \<mapsto> StatU n, ''avg_ns'' \<mapsto> StatU avg, ''min_ns'' := map_option StatU mn,
               ''max_ns'' := map_option StatU mx)))
       (latency_stats t)"

definition GetStats :: "collector \<Rightarrow> (string \<rightharpoonup> stat)" where
  "GetStats c =
     (let m1 = put_all (\<lambda>kind. op_name kind @ ''_ops'') (\<lambda>kind. map_option StatU (sc_counts c kind)) Map.empty;
          m2 = put_all (\<lambda>kind. ''last_'' @ op_name kind @ ''_time'') (\<lambda>kind. map_option StatI (sc_lastOpTime c kind)) m1;
          m3 = m2(''memtable_size'' \<mapsto> StatU (sc_memTableSize c), ''total_bytes_read'' \<mapsto> StatU (sc_totalBytesRead c),
                  ''total_bytes_written'' \<mapsto> StatU (sc_totalBytesWritten c), ''flush_count'' \<mapsto> StatU (sc_flushCount c),
                  ''compaction_count'' \<mapsto> StatU (sc_compactionCount c),
                  ''errors'' \<mapsto> StatM (\<lambda>e. map_option StatU (sc_errors c e)));
          r = sc_recoveryStats c;
          rm = [''wal_files_recovered'' \<mapsto> StatU (rs_WALFilesRecovered r), ''wal_entries_recovered'' \<mapsto> StatU (rs_WALEntriesRecovered r),
                ''wal_corrupted_entries'' \<mapsto> StatU (rs_WALCorruptedEntries r)];
          rm' = (if rs_WALRecoveryDuration r > 0 then rm(''wal_recovery_duration_ms'' \<mapsto> StatI (rs_WALRecoveryDuration r div 1000000)) else rm)
      in put_all (\<lambda>kind. op_name kind @ ''_latency'') (\<lambda>kind. Option.bind (sc_latencies c kind) latency_map) (m3(''recovery'' \<mapsto> StatM rm')))"

definition GetStatsFiltered :: "string \<Rightarrow> collector \<Rightarrow> (string \<rightharpoonup> stat)" where
  "GetStatsFiltered prefix c = (\<lambda>key. if length prefix = 0 \<or> startsWith key prefix then GetStats c key else None)"

text \<open>What the map says of one operation: its counter, the time of its last call and its latencies.\<close>

lemma op_name_inj: "op_name a = op_name b \<Longrightarrow> a = b"
  by (cases a; cases b) simp_all

lemma all_ops_complete [simp]: "kind \<in> set all_ops"
  by (cases kind) (simp_all add: all_ops_def)

lemma all_ops_distinct: "distinct all_ops"
  by (simp add: all_ops_def)

lemma put_fold_other:
  "(\<And>kind. kind \<in> set ks \<Longrightarrow> key kind \<noteq> k) \<Longrightarrow>
   fold (\<lambda>kind m. case val kind of None \<Rightarrow> m | Some v \<Rightarrow> m(key kind \<mapsto> v)) ks m k = m k"
  by (induction ks arbitrary: m) (auto split: option.splits)

lemma put_fold_same:
  assumes "inj key" "distinct ks"
  shows "fold (\<lambda>kind m. case val kind of None \<Rightarrow> m | Some v \<Rightarrow> m(key kind \<mapsto> v)) ks m (key kind) =
    (if kind \<in> set ks \<and> val kind \<noteq> None then val kind else m (key kind))"
  using assms(2)
proof (induction ks arbitrary: m)
  case (Cons k ks)
  show ?case
  proof (cases "k = kind")
    case True
    then have "\<And>j. j \<in> set ks \<Longrightarrow> key j \<noteq> key kind" using Cons.prems assms(1) by (auto dest: injD)
    then show ?thesis using True by (simp add: put_fold_other split: option.splits)
  next
    case False
    then have "key k \<noteq> key kind" using assms(1) by (auto dest: injD)
    then show ?thesis using Cons False by (auto split: option.splits)
  qed
qed simp

lemma put_all_other: "(\<And>kind. key kind \<noteq> k) \<Longrightarrow> put_all key val m k = m k"
  by (simp add: put_all_def put_fold_other)

lemma put_all_same: "inj key \<Longrightarrow> put_all key val m (key kind) = (if val kind \<noteq> None then val kind else m (key kind))"
  using put_fold_same [of key all_ops val m kind] by (simp add: put_all_def all_ops_distinct)

lemma GetStats_ops: "GetStats c (op_name kind @ ''_ops'') = map_option StatU (sc_counts c kind)"
proof -
  let ?k = "op_name kind @ ''_ops''"
  have other: "op_name j @ ''_latency'' \<noteq> ?k" "''last_'' @ op_name j @ ''_time'' \<noteq> ?k" for j
    by (cases j; cases kind; simp)+
  have fixed: "?k \<notin> {''memtable_size'', ''total_bytes_read'', ''total_bytes_written'', ''flush_count'', ''compaction_count'', ''errors'', ''recovery''}"
    by (cases kind) simp_all
  have i: "inj (\<lambda>kind. op_name kind @ ''_ops'')" by (auto intro!: injI dest: op_name_inj)
  show ?thesis
    using fixed put_all_same [OF i, of "\<lambda>kind. map_option StatU (sc_counts c kind)" Map.empty kind]
    unfolding GetStats_def Let_def put_all_other [OF other(1)]
    by (simp add: put_all_other [OF other(2)] del: append_Cons)
qed

section \<open>Latency trackers under concurrent updates\<close>

text \<open>
  A goroutine is in the loop for the maximum or the minimum, before its load or between its load and
  its compare-and-swap, or has left both loops.
\<close>

datatype cas_pc = AtMax | MaxLoaded u64 | AtMin | MinLoaded u64 | Finished

record cas_state =
  cs_max :: u64
  cs_min :: u64
  cs_pc :: "nat \<Rightarrow> cas_pc"

definition set_pc :: "nat \<Rightarrow> cas_pc \<Rightarrow> cas_state \<Rightarrow> cas_state" where
  "set_pc i p s = s\<lparr>cs_pc := (cs_pc s)(i := p)\<rparr>"

inductive cas_step :: "(nat \<Rightarrow> u64) \<Rightarrow> cas_state \<Rightarrow> cas_state \<Rightarrow> bool" for lat where
  max_load: "cs_pc s i = AtMax \<Longrightarrow> cas_step lat s (set_pc i (if lat i \<le> cs_max s then AtMin else MaxLoaded (cs_max s)) s)"
| max_swap: "cs_pc s i = MaxLoaded current \<Longrightarrow> cs_max s = current \<Longrightarrow> cas_step lat s (set_pc i AtMin (s\<lparr>cs_max := lat i\<rparr>))"
| max_retry: "cs_pc s i = MaxLoaded current \<Longrightarrow> cs_max s \<noteq> current \<Longrightarrow> cas_step lat s (set_pc i AtMax s)"
| min_load: "cs_pc s i = AtMin \<Longrightarrow>
    cas_step lat s (set_pc i (if cs_min s \<noteq> 0 \<and> lat i \<ge> cs_min s then Finished else MinLoaded (cs_min s)) s)"
| min_swap: "cs_pc s i = MinLoaded current \<Longrightarrow> cs_min s = current \<Longrightarrow> cas_step lat s (set_pc i Finished (s\<lparr>cs_min := lat i\<rparr>))"
| min_retry: "cs_pc s i = MinLoaded current \<Longrightarrow> cs_min s \<noteq> current \<Longrightarrow> cas_step lat s (set_pc i AtMin s)"

definition cas_start :: "latency_tracker \<Rightarrow> cas_state" where
  "cas_start t = \<lparr>cs_max = la_max t, cs_min = la_min t, cs_pc = (\<lambda>_. AtMax)\<rparr>"

fun past_max :: "cas_pc \<Rightarrow> bool" where
  "past_max AtMax = False"
| "past_max (MaxLoaded c) = False"
| "past_max p = True"

definition max_inv :: "(nat \<Rightarrow> u64) \<Rightarrow> u64 \<Rightarrow> cas_state \<Rightarrow> bool" where
  "max_inv lat m0 s \<longleftrightarrow> m0 \<le> cs_max s \<and> (cs_max s = m0 \<or> (\<exists>i. past_max (cs_pc s i) \<and> cs_max s = lat i)) \<and>
     (\<forall>i. past_max (cs_pc s i) \<longrightarrow> lat i \<le> cs_max s) \<and> (\<forall>i c. cs_pc s i = MaxLoaded c \<longrightarrow> c < lat i)"

definition min_inv :: "(nat \<Rightarrow> u64) \<Rightarrow> u64 \<Rightarrow> cas_state \<Rightarrow> bool" where
  "min_inv lat m0 s \<longleftrightarrow> (m0 \<noteq> 0 \<longrightarrow> cs_min s \<noteq> 0 \<and> cs_min s \<le> m0) \<and>
     (cs_min s = m0 \<or> (\<exists>i. cs_pc s i = Finished \<and> cs_min s = lat i)) \<and>
     (\<forall>i. cs_pc s i = Finished \<longrightarrow> cs_min s \<noteq> 0 \<and> cs_min s \<le> lat i) \<and>
     (\<forall>i c. cs_pc s i = MinLoaded c \<longrightarrow> c = 0 \<or> lat i < c)"

lemma set_pc_fields [simp]: "cs_max (set_pc i p s) = cs_max s" "cs_min (set_pc i p s) = cs_min s"
  "cs_pc (set_pc i p s) = (cs_pc s)(i := p)"
  by (simp_all add: set_pc_def)

lemma max_invI:
  assumes "m0 \<le> cs_max s" "cs_max s = m0 \<or> (\<exists>i. past_max (cs_pc s i) \<and> cs_max s = lat i)"
    "\<And>i. past_max (cs_pc s i) \<Longrightarrow> lat i \<le> cs_max s" "\<And>i c. cs_pc s i = MaxLoaded c \<Longrightarrow> c < lat i"
  shows "max_inv lat m0 s"
  using assms by (simp add: max_inv_def)

lemma max_invD:
  assumes "max_inv lat m0 s"
  shows "m0 \<le> cs_max s" "cs_max s = m0 \<or> (\<exists>i. past_max (cs_pc s i) \<and> cs_max s = lat i)"
    "past_max (cs_pc s i) \<Longrightarrow> lat i \<le> cs_max s" "cs_pc s i = MaxLoaded c \<Longrightarrow> c < lat i"
  using assms by (simp_all add: max_inv_def)

text \<open>A goroutine that stays on its side of the loop for the maximum keeps the invariant.\<close>

lemma max_inv_same:
  assumes "max_inv lat m0 s" "cs_max s' = cs_max s" "\<And>j. past_max (cs_pc s' j) = past_max (cs_pc s j)"
    "\<And>j c. cs_pc s' j = MaxLoaded c \<Longrightarrow> cs_pc s j = MaxLoaded c"
  shows "max_inv lat m0 s'"
  using assms by (simp add: max_inv_def)

lemma cas_step_max: "cas_step lat s s' \<Longrightarrow> max_inv lat m0 s \<Longrightarrow> max_inv lat m0 s'"
proof (induction rule: cas_step.induct)
  case (max_load s i)
  note I = max_invD [OF max_load.prems]
  show ?case
  proof (rule max_invI)
    show "cs_max (set_pc i (if lat i \<le> cs_max s then AtMin else MaxLoaded (cs_max s)) s) = m0 \<or>
        (\<exists>j. past_max (cs_pc (set_pc i (if lat i \<le> cs_max s then AtMin else MaxLoaded (cs_max s)) s) j) \<and>
          cs_max (set_pc i (if lat i \<le> cs_max s then AtMin else MaxLoaded (cs_max s)) s) = lat j)"
      using I(2) max_load.hyps by (cases "cs_max s = m0") (auto intro!: exI)
  qed (use I in \<open>auto split: if_splits\<close>)
next
  case (max_swap s i current)
  note I = max_invD [OF max_swap.prems]
  have lt: "cs_max s < lat i" using I(4) max_swap.hyps by blast
  show ?case
  proof (rule max_invI)
    show "m0 \<le> cs_max (set_pc i AtMin (s\<lparr>cs_max := lat i\<rparr>))" using I(1) lt by simp
    show "lat j \<le> cs_max (set_pc i AtMin (s\<lparr>cs_max := lat i\<rparr>))"
      if "past_max (cs_pc (set_pc i AtMin (s\<lparr>cs_max := lat i\<rparr>)) j)" for j
      using I(3) [of j] lt that by (cases "j = i") auto
  qed (use I in \<open>auto split: if_splits\<close>)
next
  case (max_retry s i current)
  then show ?case by (intro max_inv_same [OF max_retry.prems]) (auto split: if_splits)
next
  case (min_load s i)
  then show ?case by (intro max_inv_same [OF min_load.prems]) (auto split: if_splits)
next
  case (min_swap s i current)
  then show ?case by (intro max_inv_same [OF min_swap.prems]) (auto split: if_splits)
next
  case (min_retry s i current)
  then show ?case by (intro max_inv_same [OF min_retry.prems]) (auto split: if_splits)
qed

lemma min_invD:
  assumes "min_inv lat m0 s"
  shows "m0 \<noteq> 0 \<Longrightarrow> cs_min s \<noteq> 0 \<and> cs_min s \<le> m0" "cs_min s = m0 \<or> (\<exists>i. cs_pc s i = Finished \<and> cs_min s = lat i)"
    "cs_pc s i = Finished \<Longrightarrow> cs_min s \<noteq> 0 \<and> cs_min s \<le> lat i" "cs_pc s i = MinLoaded c \<Longrightarrow> c = 0 \<or> lat i < c"
  using assms by (simp_all add: min_inv_def)

lemma min_inv_same:
  assumes "min_inv lat m0 s" "cs_min s' = cs_min s" "\<And>j. cs_pc s' j = Finished \<longleftrightarrow> cs_pc s j = Finished"
    "\<And>j c. cs_pc s' j = MinLoaded c \<Longrightarrow> cs_pc s j = MinLoaded c \<or> c = 0 \<or> lat j < c"
  shows "min_inv lat m0 s'"
  using assms unfolding min_inv_def by metis

lemma cas_step_min: "cas_step lat s s' \<Longrightarrow> \<forall>i. lat i \<noteq> 0 \<Longrightarrow> min_inv lat m0 s \<Longrightarrow> min_inv lat m0 s'"
proof (induction rule: cas_step.induct)
  case (min_load s i)
  note I = min_invD [OF min_load.prems(2)]
  show ?case
  proof (cases "cs_min s \<noteq> 0 \<and> lat i \<ge> cs_min s")
    case True
    have "cs_min s = m0 \<or> (\<exists>j. cs_pc (set_pc i Finished s) j = Finished \<and> cs_min s = lat j)" using I(2) by auto
    then show ?thesis using I(1,3,4) True by (auto simp: min_inv_def)
  next
    case False
    then show ?thesis
      by (intro min_inv_same [OF min_load.prems(2)]) (use min_load.hyps in \<open>auto simp: not_le split: if_splits\<close>)
  qed
next
  case (min_swap s i current)
  note I = min_invD [OF min_swap.prems(2)]
  have lt: "cs_min s = 0 \<or> lat i < cs_min s" using I(4) min_swap.hyps by blast
  have "lat i \<noteq> 0" using min_swap.prems(1) by simp
  moreover have "m0 \<noteq> 0 \<longrightarrow> lat i \<le> m0" using I(1) lt by auto
  moreover have "lat i \<le> lat j" if "cs_pc s j = Finished" for j using I(3) [OF that] lt by auto
  ultimately show ?case using I(4) by (auto simp: min_inv_def)
next
  case (max_load s i)
  then show ?case by (intro min_inv_same [OF max_load.prems(2)]) (auto split: if_splits)
next
  case (max_swap s i current)
  then show ?case by (intro min_inv_same [OF max_swap.prems(2)]) (auto split: if_splits)
next
  case (max_retry s i current)
  then show ?case by (intro min_inv_same [OF max_retry.prems(2)]) (auto split: if_splits)
next
  case (min_retry s i current)
  then show ?case by (intro min_inv_same [OF min_retry.prems(2)]) (auto split: if_splits)
qed

lemma cas_run_inv:
  assumes "(cas_step lat)\<^sup>*\<^sup>* (cas_start t) s" "\<forall>i. lat i \<noteq> 0"
  shows "max_inv lat (la_max t) s \<and> min_inv lat (la_min t) s"
  using assms(1)
proof (induction rule: rtranclp_induct)
  case base
  show ?case by (simp add: max_inv_def min_inv_def cas_start_def)
next
  case (step s s')
  then show ?case using cas_step_max cas_step_min assms(2) by blast
qed

text \<open>The same updates one after the other.\<close>

lemma fold_track_max:
  "la_max t \<le> la_max (fold track_latency ls t) \<and> (\<forall>l \<in> set ls. l \<le> la_max (fold track_latency ls t)) \<and>
   (la_max (fold track_latency ls t) = la_max t \<or> la_max (fold track_latency ls t) \<in> set ls)"
proof (induction ls arbitrary: t)
  case (Cons l ls)
  note I = Cons.IH [of "track_latency l t"]
  have "la_max t \<le> la_max (track_latency l t)" "l \<le> la_max (track_latency l t)"
    "la_max (track_latency l t) = la_max t \<or> la_max (track_latency l t) = l"
    by (auto simp: track_latency_def update_max_def)
  with I show ?case by (auto intro: order_trans)
qed simp

lemma fold_track_min:
  "0 \<notin> set ls \<Longrightarrow>
     (la_min t \<noteq> 0 \<longrightarrow> la_min (fold track_latency ls t) \<le> la_min t) \<and> (\<forall>l \<in> set ls. la_min (fold track_latency ls t) \<le> l) \<and>
     (la_min t \<noteq> 0 \<or> ls \<noteq> [] \<longrightarrow> la_min (fold track_latency ls t) \<noteq> 0) \<and>
     (la_min (fold track_latency ls t) = la_min t \<or> la_min (fold track_latency ls t) \<in> set ls)"
proof (induction ls arbitrary: t)
  case (Cons l ls)
  have I: "(la_min (track_latency l t) \<noteq> 0 \<longrightarrow> la_min (fold track_latency ls (track_latency l t)) \<le> la_min (track_latency l t)) \<and>
     (\<forall>m \<in> set ls. la_min (fold track_latency ls (track_latency l t)) \<le> m) \<and>
     (la_min (track_latency l t) \<noteq> 0 \<or> ls \<noteq> [] \<longrightarrow> la_min (fold track_latency ls (track_latency l t)) \<noteq> 0) \<and>
     (la_min (fold track_latency ls (track_latency l t)) = la_min (track_latency l t) \<or>
      la_min (fold track_latency ls (track_latency l t)) \<in> set ls)"
    using Cons.IH [of "track_latency l t"] Cons.prems by simp
  have "l \<noteq> 0" using Cons.prems by auto
  then have "la_min (track_latency l t) \<noteq> 0" "la_min (track_latency l t) \<le> l"
    "la_min t \<noteq> 0 \<longrightarrow> la_min (track_latency l t) \<le> la_min t"
    "la_min (track_latency l t) = la_min t \<or> la_min (track_latency l t) = l"
    by (auto simp: track_latency_def update_min_def)
  with I show ?case by (auto intro: order_trans)
qed simp

text \<open>
  C38: the lock-free update of a latency tracker loses nothing: when any number of goroutines run the
  two compare-and-swap loops of \<open>TrackOperationWithLatency\<close> on one tracker, in any interleaving, and
  all have finished, its maximum and minimum are those of the same updates made one after the other,
  provided that no latency is zero (a zero minimum means that there is none yet).
\<close>

theorem latency_linearizable:
  assumes "(cas_step lat)\<^sup>*\<^sup>* (cas_start t) s" "\<forall>i. lat i \<noteq> 0"
    "cs_pc s = (\<lambda>i. if i < n then Finished else AtMax)"
  shows "cs_max s = la_max (fold track_latency (map lat [0..<n]) t) \<and> cs_min s = la_min (fold track_latency (map lat [0..<n]) t)"
proof
  let ?ls = "map lat [0..<n]"
  have inv: "max_inv lat (la_max t) s" "min_inv lat (la_min t) s" using cas_run_inv [OF assms(1,2)] by auto
  note M = max_invD [OF inv(1)] and N = min_invD [OF inv(2)] and F = fold_track_max [of t ?ls]
  have nz: "0 \<notin> set ?ls" using assms(2) by (auto simp: image_iff)
  note G = fold_track_min [OF nz, of t]
  have mem: "cs_max s = la_max t \<or> cs_max s \<in> set ?ls" "cs_min s = la_min t \<or> cs_min s \<in> set ?ls"
    using M(2) N(2) assms(3) by (auto split: if_splits)
  have up: "l \<le> cs_max s" "cs_min s \<noteq> 0 \<and> cs_min s \<le> l" if l: "l \<in> set ?ls" for l
  proof -
    obtain i where i: "l = lat i" "cs_pc s i = Finished" using l assms(3) by auto
    then show "l \<le> cs_max s" "cs_min s \<noteq> 0 \<and> cs_min s \<le> l" using M(3) [of i] N(3) [of i] by auto
  qed
  show "cs_max s = la_max (fold track_latency ?ls t)"
    using M(1) mem(1) up(1) F by (metis order_antisym)
  show "cs_min s = la_min (fold track_latency ?ls t)"
  proof (cases "la_min t = 0 \<and> ?ls = []")
    case True
    then show ?thesis using mem(2) by auto
  next
    case False
    then show ?thesis using N(1) mem(2) up(2) G by (metis order_antisym)
  qed
qed

theorem latency_linearizable_witness:
  "\<exists>s. (cas_step (\<lambda>_. 5))\<^sup>*\<^sup>* (cas_start \<lparr>la_count = 1, la_sum = 9, la_max = 9, la_min = 9\<rparr>) s \<and> cs_max s = 9 \<and> cs_min s = 5"
proof -
  let ?t = "\<lparr>la_count = 1, la_sum = 9, la_max = 9, la_min = 9\<rparr>"
  let ?s0 = "cas_start ?t"
  let ?s1 = "set_pc 0 AtMin ?s0" let ?s2 = "set_pc 0 (MinLoaded 9) ?s1" let ?s3 = "set_pc 0 Finished (?s2\<lparr>cs_min := 5\<rparr>)"
  have "cas_step (\<lambda>_. 5) ?s0 ?s1" using max_load [of ?s0 0 "\<lambda>_. 5"] by (simp add: cas_start_def)
  moreover have "cas_step (\<lambda>_. 5) ?s1 ?s2" using min_load [of ?s1 0 "\<lambda>_. 5"] by (simp add: cas_start_def)
  moreover have "cas_step (\<lambda>_. 5) ?s2 ?s3" using min_swap [of ?s2 0 9 "\<lambda>_. 5"] by (simp add: cas_start_def)
  ultimately have run: "(cas_step (\<lambda>_. 5))\<^sup>*\<^sup>* ?s0 ?s3" by (meson converse_rtranclp_into_rtranclp rtranclp.rtrancl_refl)
  have pc: "cs_pc ?s3 = (\<lambda>i. if i < 1 then Finished else AtMax)" by (auto simp: cas_start_def)
  have "cs_max ?s3 = 9 \<and> cs_min ?s3 = 5"
    using latency_linearizable [OF run _ pc] by (simp add: track_latency_def update_max_def update_min_def)
  with run show ?thesis by blast
qed

end
