(* ===== verification/Manifest.thy ===== *)
theory Manifest
  imports Config
begin

text \<open>
  The configuration file of a data directory (\<open>LoadConfigFromManifest\<close> and \<open>SaveManifest\<close> of
  \<open>src/pkg/config/config.go\<close>) and the manifest (\<open>src/pkg/config/manifest.go\<close>), a list of
  configurations with the files registered under the last of them. Both write the same file name. The JSON
  codec of the standard library is an argument, a pair of an encoder and a decoder; the file system
  is the manifest file and its temporary neighbour, with the outcome of each call as an argument.
  \<open>None\<close> is a panic: the dereference of a configuration that is null in the file.
\<close>

section \<open>The files\<close>

datatype manifest_error =
    ErrManifestNotFound | OpenFailed | ReadFailed | ErrInvalidManifest | ManifestConfig config_error
  | MkdirFailed | WriteFailed | RenameFailed

record manifest_files =
  md_manifest :: "bytes option"
  md_temp :: "bytes option"

text \<open>What \<open>os.Open\<close> and \<open>io.ReadAll\<close> do, and how far \<open>MkdirAll\<close>, \<open>WriteFile\<close> and \<open>Rename\<close> get.\<close>

datatype load_fault = LoadsFine | OpenFault | ReadFault
datatype save_fault = SavesFine | MkdirFault | WriteFault bytes | RenameFault

definition read_manifest :: "load_fault \<Rightarrow> manifest_files \<Rightarrow> manifest_error + bytes" where
  "read_manifest lf d =
     (if lf = OpenFault then Inl OpenFailed
      else case md_manifest d of
             None \<Rightarrow> Inl ErrManifestNotFound
           | Some data \<Rightarrow> if lf = ReadFault then Inl ReadFailed else Inr data)"

definition write_manifest :: "save_fault \<Rightarrow> bytes \<Rightarrow> manifest_files \<Rightarrow> manifest_error option \<times> manifest_files" where
  "write_manifest sf data d =
     (case sf of
        MkdirFault \<Rightarrow> (Some MkdirFailed, d)
      | WriteFault partial \<Rightarrow> (Some WriteFailed, d\<lparr>md_temp := Some partial\<rparr>)
      | RenameFault \<Rightarrow> (Some RenameFailed, d\<lparr>md_temp := Some data\<rparr>)
      | SavesFine \<Rightarrow> (None, \<lparr>md_manifest = Some data, md_temp = None\<rparr>))"

section \<open>The configuration file\<close>

definition LoadConfigFromManifest :: "(bytes \<Rightarrow> config option) \<Rightarrow> load_fault \<Rightarrow> manifest_files \<Rightarrow> manifest_error + config" where
  "LoadConfigFromManifest dec lf d =
     (case read_manifest lf d of
        Inl e \<Rightarrow> Inl (if e = OpenFailed then ReadFailed else e)
      | Inr data \<Rightarrow>
          (case dec data of
             None \<Rightarrow> Inl ErrInvalidManifest
           | Some cfg \<Rightarrow> (case Validate cfg of Some e \<Rightarrow> Inl (ManifestConfig e) | None \<Rightarrow> Inr cfg)))"

definition SaveManifest :: "(config \<Rightarrow> bytes) \<Rightarrow> save_fault \<Rightarrow> config \<Rightarrow> manifest_files \<Rightarrow> manifest_error option \<times> manifest_files" where
  "SaveManifest enc sf c d =
     (case Validate c of Some e \<Rightarrow> (Some (ManifestConfig e), d) | None \<Rightarrow> write_manifest sf (enc c) d)"

definition config_Update :: "(config \<Rightarrow> config) \<Rightarrow> config \<Rightarrow> config" where
  "config_Update f c = f c"

section \<open>The manifest\<close>

record manifest_entry =
  mn_Timestamp :: int
  mn_Version :: int
  mn_Config :: "config option"
  mn_FileSystem :: "(string \<rightharpoonup> int) option"

text \<open>
  \<open>Current\<close> is a pointer: to an entry of its own after \<open>NewManifest\<close>, to an element of \<open>Entries\<close> otherwise.
\<close>

datatype current_ref = Own manifest_entry | Element nat

record manifest =
  mf_DBPath :: string
  mf_Entries :: "manifest_entry list"
  mf_Current :: current_ref
  mf_LastUpdate :: int

definition Current :: "manifest \<Rightarrow> manifest_entry" where
  "Current m = (case mf_Current m of Own e \<Rightarrow> e | Element i \<Rightarrow> mf_Entries m ! i)"

definition set_Current :: "manifest_entry \<Rightarrow> manifest \<Rightarrow> manifest" where
  "set_Current e m =
     (case mf_Current m of
        Own _ \<Rightarrow> m\<lparr>mf_Current := Own e\<rparr>
      | Element i \<Rightarrow> m\<lparr>mf_Entries := (mf_Entries m)[i := e]\<rparr>)"

definition CurrentManifestVersion :: int where "CurrentManifestVersion = 1"

definition NewManifest :: "string \<times> string \<Rightarrow> int \<Rightarrow> string \<Rightarrow> config option \<Rightarrow> manifest_error + manifest" where
  "NewManifest dirs now dbPath cfg =
     (let c = (case cfg of None \<Rightarrow> NewDefaultConfig (fst dirs) (snd dirs) | Some c \<Rightarrow> c) in
      case Validate c of
        Some e \<Rightarrow> Inl (ManifestConfig e)
      | None \<Rightarrow>
          let entry = \<lparr>mn_Timestamp = now, mn_Version = CurrentManifestVersion, mn_Config = Some c, mn_FileSystem = None\<rparr>
          in Inr \<lparr>mf_DBPath = dbPath, mf_Entries = [entry], mf_Current = Own entry, mf_LastUpdate = now\<rparr>)"

definition LoadManifest ::
  "(bytes \<Rightarrow> manifest_entry list option) \<Rightarrow> load_fault \<Rightarrow> int \<Rightarrow> string \<Rightarrow> manifest_files \<Rightarrow> (manifest_error + manifest) option" where
  "LoadManifest dec lf now dbPath d =
     (case read_manifest lf d of
        Inl e \<Rightarrow> Some (Inl e)
      | Inr data \<Rightarrow>
          (case dec data of
             None \<Rightarrow> Some (Inl ErrInvalidManifest)
           | Some entries \<Rightarrow>
               if entries = [] then Some (Inl ErrInvalidManifest)
               else (case mn_Config (last entries) of
                       None \<Rightarrow> None
                     | Some c \<Rightarrow>
                         (case Validate c of
                            Some e \<Rightarrow> Some (Inl (ManifestConfig e))
                          | None \<Rightarrow>
                              Some (Inr \<lparr>mf_DBPath = dbPath, mf_Entries = entries,
                                         mf_Current = Element (length entries - 1), mf_LastUpdate = now\<rparr>)))))"

definition manifest_Save ::
  "(manifest_entry list \<Rightarrow> bytes) \<Rightarrow> save_fault \<Rightarrow> int \<Rightarrow> manifest \<Rightarrow> manifest_files \<Rightarrow>
   (manifest_error option \<times> manifest \<times> manifest_files) option" where
  "manifest_Save enc sf now m d =
     (case mn_Config (Current m) of
        None \<Rightarrow> None
      | Some c \<Rightarrow>
          (case Validate c of
             Some e \<Rightarrow> Some (Some (ManifestConfig e), m, d)
           | None \<Rightarrow>
               (case write_manifest sf (enc (mf_Entries m)) d of
                  (Some e, d') \<Rightarrow> Some (Some e, m, d')
                | (None, d') \<Rightarrow> Some (None, m\<lparr>mf_LastUpdate := now\<rparr>, d'))))"

text \<open>\<open>UpdateConfig\<close> changes a copy of the current configuration, made by encoding and decoding it.\<close>

definition UpdateConfig ::
  "(config option \<Rightarrow> bytes) \<Rightarrow> (bytes \<Rightarrow> config option) \<Rightarrow> int \<Rightarrow> (config \<Rightarrow> config) \<Rightarrow> manifest \<Rightarrow>
   manifest_error option \<times> manifest" where
  "UpdateConfig enc dec now f m =
     (case dec (enc (mn_Config (Current m))) of
        None \<Rightarrow> (Some ErrInvalidManifest, m)
      | Some c \<Rightarrow>
          let newConfig = f c in
          (case Validate newConfig of
             Some e \<Rightarrow> (Some (ManifestConfig e), m)
           | None \<Rightarrow>
               let entry = \<lparr>mn_Timestamp = now, mn_Version = CurrentManifestVersion, mn_Config = Some newConfig,
                            mn_FileSystem = None\<rparr>;
                   entries = mf_Entries m @ [entry]
               in (None, m\<lparr>mf_Entries := entries, mf_Current := Element (length entries - 1)\<rparr>)))"

definition AddFile :: "string \<Rightarrow> int \<Rightarrow> manifest \<Rightarrow> manifest" where
  "AddFile path seqNum m =
     (let fs = (case mn_FileSystem (Current m) of None \<Rightarrow> Map.empty | Some f \<Rightarrow> f)
      in set_Current ((Current m)\<lparr>mn_FileSystem := Some (fs(path \<mapsto> seqNum))\<rparr>) m)"

definition RemoveFile :: "string \<Rightarrow> manifest \<Rightarrow> manifest" where
  "RemoveFile path m =
     (case mn_FileSystem (Current m) of
        None \<Rightarrow> m
      | Some f \<Rightarrow> set_Current ((Current m)\<lparr>mn_FileSystem := Some (f(path := None))\<rparr>) m)"

definition GetConfig :: "manifest \<Rightarrow> config option" where
  "GetConfig m = mn_Config (Current m)"

definition GetFiles :: "manifest \<Rightarrow> (string \<rightharpoonup> int)" where
  "GetFiles m = (case mn_FileSystem (Current m) of None \<Rightarrow> Map.empty | Some f \<Rightarrow> f)"

section \<open>Saving and loading\<close>

text \<open>
  A manifest is well formed when \<open>Current\<close> is the last element, or an entry of its own that has the
  configuration of the only element.
\<close>

definition manifest_wf :: "manifest \<Rightarrow> bool" where
  "manifest_wf m \<longleftrightarrow> mf_Entries m \<noteq> [] \<and>
     (case mf_Current m of
        Own e \<Rightarrow> mn_Config e = mn_Config (last (mf_Entries m)) \<and> mn_FileSystem (last (mf_Entries m)) = None
      | Element i \<Rightarrow> Suc i = length (mf_Entries m))"

lemma Current_last: "manifest_wf m \<Longrightarrow> mf_Current m = Element i \<Longrightarrow> Current m = last (mf_Entries m)"
proof -
  assume "manifest_wf m" "mf_Current m = Element i"
  then have "i = length (mf_Entries m) - 1" "mf_Entries m \<noteq> []" "Current m = mf_Entries m ! i"
    by (auto simp: manifest_wf_def Current_def)
  then show ?thesis by (simp add: last_conv_nth)
qed

lemma manifest_wf_last: "manifest_wf m \<Longrightarrow> mn_Config (Current m) = mn_Config (last (mf_Entries m))"
  by (cases "mf_Current m") (simp_all add: Current_last, simp add: manifest_wf_def Current_def)

lemma NewManifest_wf: "NewManifest dirs now dbPath cfg = Inr m \<Longrightarrow> manifest_wf m"
  by (auto simp: NewManifest_def manifest_wf_def Let_def split: option.splits)

lemma UpdateConfig_wf: "UpdateConfig enc dec now f m = (None, m') \<Longrightarrow> manifest_wf m'"
  by (auto simp: UpdateConfig_def manifest_wf_def Let_def split: option.splits)

lemma set_Current_wf:
  assumes "manifest_wf m" "mn_Config e = mn_Config (Current m)"
  shows "manifest_wf (set_Current e m)"
  using assms by (auto simp: manifest_wf_def set_Current_def Current_def split: current_ref.splits)

lemma AddFile_wf: "manifest_wf m \<Longrightarrow> manifest_wf (AddFile path n m)"
  by (auto simp: AddFile_def Let_def intro: set_Current_wf)

lemma RemoveFile_wf: "manifest_wf m \<Longrightarrow> manifest_wf (RemoveFile path m)"
  by (auto simp: RemoveFile_def intro: set_Current_wf split: option.splits)

text \<open>A save that fails at any point leaves the manifest file as it was.\<close>

lemma save_atomic:
  assumes "manifest_Save enc sf now m d = Some (err, m', d')"
  shows "md_manifest d' = (if err = None then Some (enc (mf_Entries m)) else md_manifest d)"
  using assms by (auto simp: manifest_Save_def write_manifest_def split: option.splits save_fault.splits prod.splits)

text \<open>What the JSON codec does to an entry: \<open>omitempty\<close> turns an empty map of files into no map.\<close>

definition json_entry :: "manifest_entry \<Rightarrow> manifest_entry" where
  "json_entry e = e\<lparr>mn_FileSystem := (if mn_FileSystem e = Some Map.empty then None else mn_FileSystem e)\<rparr>"

text \<open>
  C39: a saved manifest loads again. When the JSON codec decodes the entries it encoded, a \<open>Save\<close> that
  reports no error is followed by a \<open>LoadManifest\<close> that returns a well-formed manifest with the same
  current configuration. It has the registered files of the saved one if that was loaded or updated
  before; of a manifest fresh from \<open>NewManifest\<close> it has none, because \<open>AddFile\<close> changed the entry \<open>Current\<close>
  points to and \<open>Save\<close> writes the copy of it in \<open>Entries\<close>.
\<close>

theorem manifest_save_load:
  assumes "dec (enc (mf_Entries m)) = Some (map json_entry (mf_Entries m))" "manifest_wf m"
    and "manifest_Save enc sf now m d = Some (None, m', d')"
  shows "\<exists>m2. LoadManifest dec LoadsFine later path d' = Some (Inr m2) \<and> manifest_wf m2 \<and> GetConfig m2 = GetConfig m \<and>
    GetFiles m2 = (case mf_Current m of Own _ \<Rightarrow> Map.empty | Element _ \<Rightarrow> GetFiles m)"
proof -
  let ?es = "mf_Entries m"
  obtain c where c: "mn_Config (Current m) = Some c" "Validate c = None"
    using assms(3) by (auto simp: manifest_Save_def split: option.splits prod.splits)
  have f: "md_manifest d' = Some (enc ?es)" using save_atomic [OF assms(3)] by simp
  have ne: "?es \<noteq> []" using assms(2) by (simp add: manifest_wf_def)
  have cl: "mn_Config (last ?es) = Some c" using manifest_wf_last [OF assms(2)] c(1) by simp
  define m2 where "m2 = \<lparr>mf_DBPath = path, mf_Entries = map json_entry ?es, mf_Current = Element (length ?es - 1), mf_LastUpdate = later\<rparr>"
  have load: "LoadManifest dec LoadsFine later path d' = Some (Inr m2)"
    using f assms(1) ne cl c(2) by (simp add: LoadManifest_def read_manifest_def last_map json_entry_def m2_def)
  have cur: "Current m2 = json_entry (last ?es)" using ne by (simp add: Current_def m2_def last_conv_nth)
  have files: "GetFiles m2 = (case mf_Current m of Own _ \<Rightarrow> Map.empty | Element _ \<Rightarrow> GetFiles m)"
  proof (cases "mf_Current m")
    case (Own e)
    then show ?thesis using assms(2) cur by (simp add: manifest_wf_def GetFiles_def json_entry_def)
  next
    case (Element i)
    then have "Current m = last ?es" using Current_last [OF assms(2)] by simp
    then show ?thesis using Element cur by (auto simp: GetFiles_def json_entry_def split: option.splits)
  qed
  have "manifest_wf m2" using ne by (simp add: manifest_wf_def m2_def)
  moreover have "GetConfig m2 = GetConfig m" using cur cl c(1) by (simp add: GetConfig_def json_entry_def)
  ultimately show ?thesis using load files by blast
qed

definition sample_manifest :: manifest where
  "sample_manifest =
     (let e = \<lparr>mn_Timestamp = 5, mn_Version = 1, mn_Config = Some (NewDefaultConfig ''w'' ''s''), mn_FileSystem = None\<rparr>
      in \<lparr>mf_DBPath = ''db'', mf_Entries = [e], mf_Current = Own e, mf_LastUpdate = 5\<rparr>)"

theorem manifest_save_load_witness:
  "NewManifest (''w'', ''s'') 5 ''db'' None = Inr sample_manifest \<and> GetFiles (AddFile ''f'' 7 sample_manifest) ''f'' = Some 7 \<and>
   (\<exists>m' d' m2. manifest_Save (\<lambda>_. [1]) SavesFine 6 (AddFile ''f'' 7 sample_manifest) \<lparr>md_manifest = None, md_temp = None\<rparr> = Some (None, m', d') \<and>
     LoadManifest (\<lambda>_. Some (mf_Entries sample_manifest)) LoadsFine 8 ''db'' d' = Some (Inr m2) \<and> GetFiles m2 = Map.empty)"
proof -
  let ?m = "AddFile ''f'' 7 sample_manifest" and ?d = "\<lparr>md_manifest = None, md_temp = None\<rparr>"
  have v: "Validate (NewDefaultConfig ''w'' ''s'') = None" by (simp add: Validate_default)
  have new: "NewManifest (''w'', ''s'') 5 ''db'' None = Inr sample_manifest"
    by (simp add: NewManifest_def sample_manifest_def v CurrentManifestVersion_def Let_def)
  have wf: "manifest_wf ?m" by (rule AddFile_wf [OF NewManifest_wf [OF new]])
  have own: "mf_Entries ?m = mf_Entries sample_manifest" "\<exists>e. mf_Current ?m = Own e"
    by (simp_all add: AddFile_def set_Current_def sample_manifest_def Let_def)
  obtain m' d' where s: "manifest_Save (\<lambda>_. [1]) SavesFine 6 ?m ?d = Some (None, m', d')"
    by (simp add: manifest_Save_def write_manifest_def AddFile_def set_Current_def Current_def sample_manifest_def v Let_def)
  have json: "(\<lambda>_. Some (mf_Entries sample_manifest)) [1::byte] = Some (map json_entry (mf_Entries ?m))"
    unfolding own(1) by (simp add: sample_manifest_def json_entry_def Let_def)
  have "GetFiles ?m ''f'' = Some 7"
    by (simp add: GetFiles_def AddFile_def set_Current_def Current_def sample_manifest_def Let_def)
  then show ?thesis using manifest_save_load [OF json wf s, of 8 "''db''"] own(2) new s by auto
qed

end
