(* ===== verification/Engine_Facade.thy ===== *)
theory Engine_Facade
  imports Stats Manifest Compaction_Coord Transactions
begin

text \<open>
  The engine that clients open (\<open>src/pkg/engine/facade.go\<close>, \<open>errors.go\<close>, \<open>replication.go\<close>): the storage
  manager, the transaction manager over it, the compaction manager on the same table files and the
  statistics collector, behind a closed and a read-only flag. The storage is the one of the
  transaction manager. An \<open>ecall\<close> is what a call takes from outside: the worlds of the storage and
  of compaction, what other goroutines do to the storage while the call waits for the log to rotate, and
  the clock. The collector records the calls of the facade; those of the storage and the transaction
  manager are left out. \<open>None\<close> is a panic, or a call that waits for a lock.
\<close>

section \<open>The engine\<close>

record engine =
  ef_cfg :: config
  ef_tx :: tx_manager
  ef_compaction :: compaction_manager
  ef_stats :: collector
  ef_closed :: bool
  ef_readOnly :: bool

record ecall =
  ec_world :: world
  ec_env :: "nat \<Rightarrow> storage \<Rightarrow> storage"
  ec_cworld :: cworld
  ec_start :: int
  ec_stop :: int
  ec_latency :: u64

datatype engine_error =
    ErrEngineClosed | ErrReadOnlyMode | EngineStorage storage_error | EngineTx tx_error
  | EngineCompaction compaction_error | DataDirFailed | ConfigFailed manifest_error | SaveConfigFailed manifest_error

abbreviation ef_storage :: "engine \<Rightarrow> storage" where
  "ef_storage e \<equiv> tm_storage (ef_tx e)"

definition set_storage :: "storage \<Rightarrow> engine \<Rightarrow> engine" where
  "set_storage s e = e\<lparr>ef_tx := (ef_tx e)\<lparr>tm_storage := s\<rparr>\<rparr>"

definition on_stats :: "(collector \<Rightarrow> collector) \<Rightarrow> engine \<Rightarrow> engine" where
  "on_stats f e = e\<lparr>ef_stats := f (ef_stats e)\<rparr>"

text \<open>The frame of every operation: counted when it starts, and again with its latency when it ends.\<close>

definition tracked :: "ecall \<Rightarrow> op_type \<Rightarrow> (engine \<Rightarrow> ('r \<times> engine) option) \<Rightarrow> engine \<Rightarrow> ('r \<times> engine) option" where
  "tracked c kind body e =
     map_option (apsnd (on_stats (TrackOperationWithLatency (ec_stop c) kind (ec_latency c))))
       (body (on_stats (TrackOperation (ec_start c) kind) e))"

definition on_storage :: "(storage \<Rightarrow> (storage_error option \<times> storage) option) \<Rightarrow> engine \<Rightarrow> (engine_error option \<times> engine) option" where
  "on_storage f e = map_option (\<lambda>(err, s). (map_option EngineStorage err, set_storage s e)) (f (ef_storage e))"

definition on_tables ::
  "(compaction_manager \<Rightarrow> sst_dir \<Rightarrow> (compaction_error option \<times> compaction_manager \<times> sst_dir) option) \<Rightarrow> engine \<Rightarrow>
   (engine_error option \<times> engine) option" where
  "on_tables f e =
     map_option (\<lambda>(err, m, d). (map_option EngineCompaction err, set_storage ((ef_storage e)\<lparr>sg_sstFiles := d\<rparr>) (e\<lparr>ef_compaction := m\<rparr>)))
       (f (ef_compaction e) (sg_sstFiles (ef_storage e)))"

definition slice_len :: "slice \<Rightarrow> nat" where
  "slice_len v = length (bytes_of v)"

section \<open>Opening\<close>

definition NewEngineFacade ::
  "(config \<Rightarrow> bytes) \<Rightarrow> (bytes \<Rightarrow> config option) \<Rightarrow> bool \<Rightarrow> load_fault \<Rightarrow> save_fault \<Rightarrow> string \<times> string \<Rightarrow> ecall \<Rightarrow>
   (nat \<Rightarrow> nat \<Rightarrow> bool) \<Rightarrow> (nat \<Rightarrow> int) \<Rightarrow> bytes list \<Rightarrow> sst_dir \<Rightarrow> manifest_files \<Rightarrow>
   ((engine_error + engine) \<times> manifest_files) option" where
  "NewEngineFacade enc dec mkdir lf sf dirs c rnds clock walFiles sstFiles d =
     (if \<not> mkdir then Some (Inl DataDirFailed, d)
      else
        let opened = (case LoadConfigFromManifest dec lf d of
                        Inr cfg \<Rightarrow> (Inr cfg, d)
                      | Inl err \<Rightarrow>
                          if err \<noteq> ErrManifestNotFound then (Inl (ConfigFailed err), d)
                          else let cfg = NewDefaultConfig (fst dirs) (snd dirs) in
                               (case SaveManifest enc sf cfg d of
                                  (Some err, d') \<Rightarrow> (Inl (SaveConfigFailed err), d')
                                | (None, d') \<Rightarrow> (Inr cfg, d')))
        in case fst opened of
             Inl err \<Rightarrow> Some (Inl err, snd opened)
           | Inr cfg \<Rightarrow>
               (case NewManager cfg (ec_world c) rnds clock walFiles sstFiles of
                  None \<Rightarrow> None
                | Some (Inl err) \<Rightarrow> Some (Inl (EngineStorage err), snd opened)
                | Some (Inr s) \<Rightarrow>
                    map_option (\<lambda>(err, m).
                        (Inr \<lparr>ef_cfg = cfg, ef_tx = NewTxManager s, ef_compaction = m,
                              ef_stats = (if err = None then NewAtomicCollector
                                          else TrackError ''compaction_start_error'' NewAtomicCollector),
                              ef_closed = False, ef_readOnly = False\<rparr>, snd opened))
                      (cm_Start (ec_cworld c) (sg_sstFiles s) (NewCManager cfg))))"

definition engine_ReloadSSTables :: "(bytes \<Rightarrow> u64) \<Rightarrow> engine \<Rightarrow> (engine_error option \<times> engine) option" where
  "engine_ReloadSSTables xx e = on_storage (ReloadSSTables xx) e"

section \<open>Reading and writing\<close>

definition put_body :: "ecall \<Rightarrow> bytes \<Rightarrow> slice \<Rightarrow> engine \<Rightarrow> (engine_error option \<times> engine) option" where
  "put_body c key value e =
     map_option (\<lambda>(err, e1).
        (err, on_stats (if err = None then TrackBytes True (of_nat (length key + slice_len value)) else TrackError ''put_error'') e1))
       (tracked c OpPut (on_storage (storage_Put (ec_env c) (ec_world c) key value)) e)"

definition engine_Put :: "ecall \<Rightarrow> bytes \<Rightarrow> slice \<Rightarrow> engine \<Rightarrow> (engine_error option \<times> engine) option" where
  "engine_Put c key value e =
     (if ef_closed e then Some (Some ErrEngineClosed, e)
      else if ef_readOnly e then Some (Some ErrReadOnlyMode, e)
      else put_body c key value e)"

definition PutInternal :: "ecall \<Rightarrow> bytes \<Rightarrow> slice \<Rightarrow> engine \<Rightarrow> (engine_error option \<times> engine) option" where
  "PutInternal c key value e = (if ef_closed e then Some (Some ErrEngineClosed, e) else put_body c key value e)"

definition engine_Get :: "ecall \<Rightarrow> bytes \<Rightarrow> engine \<Rightarrow> ((engine_error + slice \<times> bool) \<times> engine) option" where
  "engine_Get c key e =
     (if ef_closed e then Some (Inl ErrEngineClosed, e)
      else map_option (\<lambda>(r, e1).
             (map_sum EngineStorage id r,
              on_stats (case r of
                  Inr (v, found) \<Rightarrow> TrackBytes False (of_nat (length key + slice_len v))
                | Inl err \<Rightarrow> TrackError ''get_error'') e1))
             (tracked c OpGet (\<lambda>e. map_option (\<lambda>r. (r, e)) (storage_Get (wo_xx (ec_world c)) key (ef_storage e))) e))"

definition track_tombstone :: "ecall \<Rightarrow> bytes \<Rightarrow> engine \<Rightarrow> engine" where
  "track_tombstone c key e = e\<lparr>ef_compaction := cm_TrackTombstone (ec_stop c) key (ef_compaction e)\<rparr>"

definition delete_body :: "ecall \<Rightarrow> bytes \<Rightarrow> engine \<Rightarrow> (engine_error option \<times> engine) option" where
  "delete_body c key e =
     map_option (\<lambda>(err, e1).
        (err, if err = None then track_tombstone c key (on_stats (TrackBytes True (of_nat (length key))) e1)
              else on_stats (TrackError ''delete_error'') e1))
       (tracked c OpDelete (on_storage (storage_Delete (ec_env c) (ec_world c) key)) e)"

definition engine_Delete :: "ecall \<Rightarrow> bytes \<Rightarrow> engine \<Rightarrow> (engine_error option \<times> engine) option" where
  "engine_Delete c key e =
     (if ef_closed e then Some (Some ErrEngineClosed, e)
      else if ef_readOnly e then Some (Some ErrReadOnlyMode, e)
      else delete_body c key e)"

definition DeleteInternal :: "ecall \<Rightarrow> bytes \<Rightarrow> engine \<Rightarrow> (engine_error option \<times> engine) option" where
  "DeleteInternal c key e = (if ef_closed e then Some (Some ErrEngineClosed, e) else delete_body c key e)"

definition engine_GetIterator :: "ecall \<Rightarrow> engine \<Rightarrow> ((engine_error + sst_iter engine_iter) \<times> engine) option" where
  "engine_GetIterator c e =
     (if ef_closed e then Some (Inl ErrEngineClosed, e)
      else tracked c OpScan (\<lambda>e. Some (map_sum EngineStorage id (GetIterator (ef_storage e)), e)) e)"

definition engine_GetRangeIterator ::
  "ecall \<Rightarrow> slice \<Rightarrow> slice \<Rightarrow> engine \<Rightarrow> ((engine_error + sst_iter engine_iter bounded) \<times> engine) option" where
  "engine_GetRangeIterator c startKey endKey e =
     (if ef_closed e then Some (Inl ErrEngineClosed, e)
      else tracked c OpScanRange (\<lambda>e. Some (map_sum EngineStorage id (GetRangeIterator startKey endKey (ef_storage e)), e)) e)"

definition engine_BeginTransaction :: "ecall \<Rightarrow> txid \<Rightarrow> tx_mode \<Rightarrow> engine \<Rightarrow> ((engine_error + txid) \<times> engine) option" where
  "engine_BeginTransaction c txId mode e =
     (if ef_closed e then Some (Inl ErrEngineClosed, e)
      else
        let mode' = (if ef_readOnly e then ReadOnly else mode) in
        tracked c OpTxBegin (\<lambda>e. map_option (\<lambda>(r, m). (map_sum EngineTx id r, e\<lparr>ef_tx := m\<rparr>))
          (BeginTransaction txId mode' (ef_tx e))) e)"

definition total_bytes :: "wentry list \<Rightarrow> u64" where
  "total_bytes entries =
     fold (\<lambda>entry n. let n1 = n + of_nat (length (we_key entry)) in
        if we_value entry \<noteq> None then n1 + of_nat (slice_len (we_value entry)) else n1) entries 0"

definition batch_body :: "ecall \<Rightarrow> wentry list \<Rightarrow> engine \<Rightarrow> (engine_error option \<times> engine) option" where
  "batch_body c entries e =
     map_option (\<lambda>(err, e1).
        (err, if err = None
              then fold (\<lambda>entry e. if we_type entry = OpTypeDelete then track_tombstone c (we_key entry) e else e) entries
                     (on_stats (TrackBytes True (total_bytes entries)) e1)
              else on_stats (TrackError ''batch_error'') e1))
       (tracked c OpPut (on_storage (ApplyBatch (ec_env c) (ec_world c) entries)) e)"

definition engine_ApplyBatch :: "ecall \<Rightarrow> wentry list \<Rightarrow> engine \<Rightarrow> (engine_error option \<times> engine) option" where
  "engine_ApplyBatch c entries e =
     (if ef_closed e then Some (Some ErrEngineClosed, e)
      else if ef_readOnly e then Some (Some ErrReadOnlyMode, e)
      else batch_body c entries e)"

definition ApplyBatchInternal :: "ecall \<Rightarrow> wentry list \<Rightarrow> engine \<Rightarrow> (engine_error option \<times> engine) option" where
  "ApplyBatchInternal c entries e = (if ef_closed e then Some (Some ErrEngineClosed, e) else batch_body c entries e)"

section \<open>Maintenance\<close>

definition FlushImMemTables :: "ecall \<Rightarrow> (nat \<Rightarrow> world) \<Rightarrow> engine \<Rightarrow> (engine_error option \<times> engine) option" where
  "FlushImMemTables c wds e =
     (if ef_closed e then Some (Some ErrEngineClosed, e) else tracked c OpFlush (on_storage (FlushMemTables wds)) e)"

definition after_compaction :: "string \<Rightarrow> engine_error option \<times> engine \<Rightarrow> engine_error option \<times> engine" where
  "after_compaction label r = (fst r, on_stats (if fst r \<noteq> None then TrackError label else TrackCompaction) (snd r))"

definition TriggerCompaction :: "ecall \<Rightarrow> engine \<Rightarrow> (engine_error option \<times> engine) option" where
  "TriggerCompaction c e =
     (if ef_closed e then Some (Some ErrEngineClosed, e)
      else map_option (after_compaction ''compaction_trigger_error'')
             (tracked c OpCompact (on_tables (cm_TriggerCompaction (ec_cworld c))) e))"

definition CompactRange :: "ecall \<Rightarrow> bytes \<Rightarrow> bytes \<Rightarrow> engine \<Rightarrow> (engine_error option \<times> engine) option" where
  "CompactRange c startKey endKey e =
     (if ef_closed e then Some (Some ErrEngineClosed, e)
      else map_option (after_compaction ''compaction_range_error'')
             (tracked c OpCompact
                (\<lambda>e. on_tables (cm_CompactRange (ec_cworld c) startKey endKey)
                       (on_stats (TrackBytes False (of_nat (length startKey + length endKey))) e)) e))"

definition engine_GetStats :: "engine \<Rightarrow> (string \<rightharpoonup> stat)" where
  "engine_GetStats e =
     (fold (\<lambda>(k, v) m. m(''tx_'' @ k \<mapsto> StatU v)) (GetTransactionStats (ef_tx e))
       (fold (\<lambda>(k, v) m. m(''storage_'' @ k \<mapsto> StatI v)) (GetStorageStats (ef_storage e)) (GetStats (ef_stats e))))
       (''closed'' \<mapsto> StatB (ef_closed e))"

definition engine_GetCompactionStats :: "int \<Rightarrow> engine \<Rightarrow> engine_error + (nat \<times> sst_name list) \<times> bool \<times> nat \<times> int" where
  "engine_GetCompactionStats now e =
     (if ef_closed e then Inl ErrEngineClosed else Inr (cm_GetCompactionStats now (ef_compaction e)))"

definition engine_Close :: "ecall \<Rightarrow> engine \<Rightarrow> engine_error option \<times> engine" where
  "engine_Close c e =
     (if ef_closed e then (None, e)
      else
        let e1 = on_stats (TrackOperation (ec_start c) OpCompact) (e\<lparr>ef_closed := True\<rparr>);
            (compErr, m) = cm_Stop (ef_compaction e1);
            e2 = e1\<lparr>ef_compaction := m\<rparr>;
            e3 = (if compErr \<noteq> None then on_stats (TrackError ''close_compaction_error'') e2 else e2);
            (storageErr, s) = storage_Close (ef_storage e3);
            e4 = set_storage s e3;
            e5 = (if storageErr \<noteq> None then on_stats (TrackError ''close_storage_error'') e4 else e4);
            err = (if compErr \<noteq> None then map_option EngineCompaction compErr else map_option EngineStorage storageErr)
        in (err, on_stats (TrackOperationWithLatency (ec_stop c) OpFlush (ec_latency c)) e5))"

section \<open>Replication support\<close>

definition engine_GetWAL :: "engine \<Rightarrow> wal" where
  "engine_GetWAL e = sg_wal (ef_storage e)"

definition SetReadOnly :: "bool \<Rightarrow> engine \<Rightarrow> engine" where
  "SetReadOnly b e = e\<lparr>ef_readOnly := b\<rparr>"

definition IsReadOnly :: "engine \<Rightarrow> bool" where
  "IsReadOnly e = ef_readOnly e"

text \<open>The transaction calls of a client act on the transaction manager of the engine.\<close>

definition on_tx :: "(tx_manager \<Rightarrow> ('r \<times> tx_manager) option) \<Rightarrow> engine \<Rightarrow> ('r \<times> engine) option" where
  "on_tx f e = map_option (\<lambda>(r, m). (r, e\<lparr>ef_tx := m\<rparr>)) (f (ef_tx e))"

end
