(* ===== verification/Engine_Correct.thy ===== *)
theory Engine_Correct
  imports Engine_Facade Tx_Commit
begin

text \<open>
  What the engine promises its clients: while the memtable is not switched, every write and every serialized
  transaction of a client acts on one map from keys to values (\<open>engine_refines_map\<close>, through the contract \<open>kv_tx_store\<close>), and an
  engine in read-only mode never changes its data on behalf of a client (\<open>readonly_keeps_data\<close>),
  unless a write transaction was open when the mode was set (\<open>readonly_commit_goes_through\<close>).
\<close>

section \<open>The engine as a key-value store\<close>

lemma stats_fields [simp]:
  "ef_tx (on_stats f e) = ef_tx e" "ef_closed (on_stats f e) = ef_closed e" "ef_readOnly (on_stats f e) = ef_readOnly e"
  "ef_compaction (on_stats f e) = ef_compaction e"
  by (simp_all add: on_stats_def)

lemma tombstone_fields [simp]:
  "ef_tx (track_tombstone c key e) = ef_tx e" "ef_closed (track_tombstone c key e) = ef_closed e"
  "ef_readOnly (track_tombstone c key e) = ef_readOnly e"
  by (simp_all add: track_tombstone_def)

lemma set_storage_fields [simp]:
  "ef_storage (set_storage s e) = s" "ef_closed (set_storage s e) = ef_closed e" "ef_readOnly (set_storage s e) = ef_readOnly e"
  "tm_txs (ef_tx (set_storage s e)) = tm_txs (ef_tx e)" "running P (ef_tx (set_storage s e)) = running P (ef_tx e)"
  by (simp_all add: set_storage_def running_def)

lemma set_storage_inv [simp]: "tx_inv (ef_tx (set_storage s e)) = tx_inv (ef_tx e)"
  by (simp add: set_storage_def tx_inv_def running_def)

definition engine_exec :: "ecall \<Rightarrow> kv_op \<Rightarrow> engine \<Rightarrow> engine option" where
  "engine_exec c x e =
     (case (case x of KvPut k v \<Rightarrow> engine_Put c k (Some v) e | KvDelete k \<Rightarrow> engine_Delete c k e) of
        Some (None, e') \<Rightarrow> Some e'
      | _ \<Rightarrow> None)"

definition engine_get :: "ecall \<Rightarrow> bytes \<Rightarrow> engine \<Rightarrow> bytes option option" where
  "engine_get c key e =
     (case engine_Get c key e of
        Some (Inr (v, found), _) \<Rightarrow> Some (if found then v else None)
      | _ \<Rightarrow> None)"

text \<open>A serialized transaction from begin to commit. It never waits for a record lock.\<close>

definition no_wait :: "(nat \<Rightarrow> int) \<times> (nat \<Rightarrow> tx_manager \<Rightarrow> tx_manager)" where
  "no_wait = (\<lambda>_. 0, \<lambda>_. id)"

definition engine_atomic :: "ecall \<Rightarrow> txid \<Rightarrow> kv_op list \<Rightarrow> engine \<Rightarrow> engine option" where
  "engine_atomic c t xs e =
     (case engine_BeginTransaction c t ReadWriteSerialized e of
        Some (Inr t', e1) \<Rightarrow>
          (case run_all (tx_exec t') (map (Pair no_wait) xs) (ef_tx e1) of
             Some m \<Rightarrow>
               (case Commit (ec_env c) (ec_world c) t' m of
                  Some (None, m') \<Rightarrow> Some (e1\<lparr>ef_tx := m'\<rparr>)
                | _ \<Rightarrow> None)
           | None \<Rightarrow> None)
      | _ \<Rightarrow> None)"

definition engine_room :: "(bytes \<Rightarrow> u64) \<Rightarrow> nat \<Rightarrow> engine \<Rightarrow> bool" where
  "engine_room xx n e \<longleftrightarrow> \<not> ef_closed e \<and> \<not> ef_readOnly e \<and> storage_room xx n (ef_storage e) \<and> tx_inv (ef_tx e) \<and>
     running (\<lambda>_. True) (ef_tx e) = {}"

lemma engine_get_storage: "\<not> ef_closed e \<Longrightarrow> engine_get c key e = storage_get (wo_xx (ec_world c)) key (ef_storage e)"
  by (auto simp: engine_get_def engine_Get_def tracked_def storage_get_def split: option.splits sum.splits)

text \<open>A put or delete of the engine is one of the storage; the rest of the engine stays as it is.\<close>

lemma engine_exec_storage:
  assumes "\<not> ef_closed e" "\<not> ef_readOnly e" "storage_exec (ec_env c, ec_world c) x (ef_storage e) = Some s"
  obtains e' where "engine_exec c x e = Some e'" "ef_tx e' = (ef_tx e)\<lparr>tm_storage := s\<rparr>" "\<not> ef_closed e'" "\<not> ef_readOnly e'"
proof -
  have st: "(case x of KvPut k v \<Rightarrow> storage_Put (ec_env c) (ec_world c) k (Some v) (ef_storage e)
      | KvDelete k \<Rightarrow> storage_Delete (ec_env c) (ec_world c) k (ef_storage e)) = Some (None, s)"
    using assms(3) by (cases x) (simp_all add: storage_exec_def split: option.splits prod.splits)
  show thesis
  proof (cases x)
    case (KvPut k v)
    with st assms(1,2) that show thesis
      by (simp add: engine_exec_def engine_Put_def put_body_def tracked_def on_storage_def set_storage_def on_stats_def)
  next
    case (KvDelete k)
    with st assms(1,2) that show thesis
      by (simp add: engine_exec_def engine_Delete_def delete_body_def tracked_def on_storage_def set_storage_def on_stats_def
          track_tombstone_def)
  qed
qed

lemma tx_inv_storage [simp]: "tx_inv (m\<lparr>tm_storage := s\<rparr>) = tx_inv m" "running P (m\<lparr>tm_storage := s\<rparr>) = running P m"
  by (simp_all add: tx_inv_def running_def)

text \<open>\<open>Commit\<close> of a serialized transaction ends it and takes a sequence number for every operation.\<close>

lemma Commit_serialized_fields:
  assumes "Commit senv wd t m = Some (None, m')" "tm_txs m t = Some tx" "tx_active tx" "tx_mode tx = ReadWriteSerialized"
  shows "tm_txs m' = (tm_txs m)(t \<mapsto> tx\<lparr>tx_active := False\<rparr>)" "Operations (tx_buffer tx) = [] \<Longrightarrow> tm_storage m' = tm_storage m"
proof -
  have len: "length (tx_buffer tx) = length (Operations (tx_buffer tx))" by (simp add: Operations_def)
  show "tm_txs m' = (tm_txs m)(t \<mapsto> tx\<lparr>tx_active := False\<rparr>)"
    using assms by (auto simp: Commit_def Let_def end_commit_def ReleaseSerializeLock_def split: if_splits option.splits)
  show "tm_storage m' = tm_storage m" if "Operations (tx_buffer tx) = []"
    using assms that len
    by (auto simp: Commit_def Let_def end_commit_def ReleaseSerializeLock_def NumberOfQueuedOperations_def split: if_splits option.splits)
qed

lemma serialized_commit_room:
  assumes "tx_inv m" "tm_txs m t = Some tx" "tx_active tx" "tx_mode tx = ReadWriteSerialized"
    and "tx_buffer tx = fold buf_step ops NewBuffer" "list_all kv_small ops" "storage_room xx (n + length ops) (tm_storage m)"
  obtains m' where "Commit senv wd t m = Some (None, m')" "tx_inv m'" "storage_room xx n (tm_storage m')"
    "tm_txs m' = (tm_txs m)(t \<mapsto> tx\<lparr>tx_active := False\<rparr>)"
    "\<And>key. storage_get xx key (tm_storage m') = Some (overlay (tx_buffer tx) (\<lambda>key. the (storage_get xx key (tm_storage m))) key)"
proof -
  let ?ops = "Operations (tx_buffer tx)" and ?next = "\<lambda>m. w_nextSequence (sg_wal (tm_storage m))"
  obtain hist where h: "storage_inv xx (tm_storage m) hist" using assms(7) by (auto simp: storage_room_def)
  have wf: "buffer_wf (tx_buffer tx)" unfolding assms(5) by (rule buf_run_wf [OF NewBuffer_wf])
  have small: "list_all op_small ?ops" unfolding assms(5) by (rule Operations_small [OF assms(6)])
  have len: "length ?ops \<le> length ops" using buf_run_length [of ops NewBuffer] by (simp add: Operations_def NewBuffer_def assms(5))
  have fit: "unat (?next m) + (n + length ops) < 2 ^ 64" using assms(7) by (simp add: storage_room_def)
  have w: "tx_mode tx \<noteq> ReadOnly" "unat (?next m) + length ?ops < 2 ^ 64" using assms(4) len fit by simp_all
  obtain m' hist' where m': "Commit senv wd t m = Some (None, m')" "tx_inv m'" "storage_inv xx (tm_storage m') hist'"
    "\<And>T. sg_sstables (tm_storage m) = T \<Longrightarrow> hist_get (tables_get xx T) hist' = overlay (tx_buffer tx) (hist_get (tables_get xx T) hist)"
    "sg_sstables (tm_storage m') = sg_sstables (tm_storage m)"
    "?ops \<noteq> [] \<Longrightarrow> AppendBatch (batch_entries ?ops) (sg_wal (tm_storage m)) = (Inr (?next m), sg_wal (tm_storage m'))"
    using Commit_applies [OF assms(1-3) w(1) wf small h w(2), of senv wd] by metis
  note f = Commit_serialized_fields [OF m'(1) assms(2-4)]
  have "unat (?next m') + n < 2 ^ 64"
  proof (cases "?ops = []")
    case True
    then show ?thesis using f(2) fit by simp
  next
    case False
    have "batch_entries ?ops \<noteq> []" "length (batch_entries ?ops) = length ?ops" using False by (simp_all add: batch_entries_def)
    with AppendBatch_ok(2) [OF m'(6) [OF False]] have eq: "?next m' = ?next m + of_nat (length ?ops)" by simp
    have "unat (?next m') = unat (?next m) + length ?ops" using w(2) unfolding eq by (simp add: unat_word_ariths unat_of_nat)
    then show ?thesis using fit len by simp
  qed
  then have room: "storage_room xx n (tm_storage m')" using m'(3) by (auto simp: storage_room_def)
  have "storage_get xx key (tm_storage m') = Some (overlay (tx_buffer tx) (\<lambda>key. the (storage_get xx key (tm_storage m))) key)" for key
    using storage_get_inv [OF m'(3)] storage_get_inv [OF h] m'(4) [OF refl] m'(5) by (simp add: fun_eq_iff)
  from that [OF m'(1,2) room f(1) this] show thesis .
qed

text \<open>The whole transaction, call by call.\<close>

lemma engine_tx_steps:
  assumes "engine_room xx (n + length xs) e" "t \<notin> dom (tm_txs (ef_tx e))" "list_all kv_small xs"
  obtains e1 m2 m3 where "engine_BeginTransaction c t ReadWriteSerialized e = Some (Inr t, e1)" "\<not> ef_closed e1" "\<not> ef_readOnly e1"
    "run_all (tx_exec t) (map (Pair no_wait) xs) (ef_tx e1) = Some m2" "tm_storage m2 = ef_storage e"
    "Commit (ec_env c) (ec_world c) t m2 = Some (None, m3)" "tx_inv m3" "running (\<lambda>_. True) m3 = {}" "storage_room xx n (tm_storage m3)"
    "dom (tm_txs m3) = insert t (dom (tm_txs (ef_tx e)))"
    "\<And>key. storage_get xx key (tm_storage m3) = Some (kv_run xs (\<lambda>key. the (storage_get xx key (ef_storage e))) key)"
    "\<And>T k. quiet T ((\<Sum>x\<leftarrow>xs. op_bytes x) + k) (ef_storage e) \<Longrightarrow> 0 \<le> k \<Longrightarrow> wo_now (ec_world c) \<le> T \<Longrightarrow> quiet T k (tm_storage m3)"
proof -
  let ?m = "ef_tx e" and ?ops = "map (Pair no_wait) xs"
  have r: "\<not> ef_closed e" "\<not> ef_readOnly e" "storage_room xx (n + length xs) (ef_storage e)" "tx_inv ?m" "running (\<lambda>_. True) ?m = {}"
    using assms(1) by (simp_all add: engine_room_def)
  have "tm_txs ?m t = None" using assms(2) by auto
  then obtain m1 m2 tx where s: "BeginTransaction t ReadWriteSerialized ?m = Some (Inr t, m1)" "run_all (tx_exec t) ?ops m1 = Some m2"
    "tx_inv m2" "tm_txs m2 t = Some tx" "tx_active tx" "tx_mode tx = ReadWriteSerialized"
    "tx_buffer tx = fold buf_step (map snd ?ops) NewBuffer" "tm_storage m2 = tm_storage ?m"
    by (rule serialized_run [OF r(4) _ r(5), of t ?ops])
  have b: "tx_buffer tx = fold buf_step xs NewBuffer" using s(7) by (simp add: comp_def)
  have room: "storage_room xx (n + length xs) (tm_storage m2)" using r(3) s(8) by simp
  obtain m3 where m3: "Commit (ec_env c) (ec_world c) t m2 = Some (None, m3)" "tx_inv m3" "storage_room xx n (tm_storage m3)"
    "tm_txs m3 = (tm_txs m2)(t \<mapsto> tx\<lparr>tx_active := False\<rparr>)"
    "\<And>key. storage_get xx key (tm_storage m3) = Some (overlay (tx_buffer tx) (\<lambda>key. the (storage_get xx key (tm_storage m2))) key)"
    using serialized_commit_room [OF s(3-6) b assms(3) room, of "ec_env c" "ec_world c"] by blast
  have t: "tm_txs m2 = (tm_txs ?m)(t \<mapsto> tx)"
  proof -
    let ?tx = "\<lparr>tx_mode = ReadWriteSerialized, tx_buffer = NewBuffer, tx_active = True\<rparr>"
    have m1: "tm_txs m1 = (tm_txs ?m)(t \<mapsto> ?tx)" using s(1) by (auto simp: BeginTransaction_def AcquireSerializeLock_def split: if_splits)
    then have "m2 = put_tx t (?tx\<lparr>tx_buffer := fold buf_step (map snd ?ops) (tx_buffer ?tx)\<rparr>) m1"
      using tx_run_serialized [of m1 t ?tx ?ops] s(2) by simp
    then show ?thesis using m1 s(4) by simp
  qed
  have idle: "running (\<lambda>_. True) m3 = {}" using r(5) m3(4) t by (auto simp: running_def)
  have over: "overlay (tx_buffer tx) base = kv_run xs base" for base
    using overlay_run [of xs NewBuffer base] b by (simp add: overlay_def pending_def NewBuffer_def)
  obtain e1 where e1: "engine_BeginTransaction c t ReadWriteSerialized e = Some (Inr t, e1)" "ef_tx e1 = m1"
    "\<not> ef_closed e1" "\<not> ef_readOnly e1"
    using s(1) r(1,2) by (simp add: engine_BeginTransaction_def tracked_def)
  have get: "storage_get xx key (tm_storage m3) = Some (kv_run xs (\<lambda>key. the (storage_get xx key (ef_storage e))) key)" for key
    using m3(5) [of key] over s(8) by simp
  have "run_all (tx_exec t) ?ops (ef_tx e1) = Some m2" "dom (tm_txs m3) = insert t (dom (tm_txs ?m))" using s(2) e1(2) m3(4) t by simp_all
  moreover have "storage_room xx (length xs) (tm_storage m2)" using room by (auto simp: storage_room_def)
  then have "quiet T k (tm_storage m3)"
    if "quiet T ((\<Sum>x\<leftarrow>xs. op_bytes x) + k) (ef_storage e)" "0 \<le> k" "wo_now (ec_world c) \<le> T" for T k
    using serialized_commit_quiet [OF s(4-6) b assms(3) _ m3(1)] that s(8) by simp
  ultimately show thesis using that [OF e1(1,3,4) _ s(8) m3(1,2) idle m3(3) _ get] by blast
qed

lemma engine_atomic_steps:
  assumes "engine_room xx (n + length xs) e" "t \<notin> dom (tm_txs (ef_tx e))" "list_all kv_small xs"
  obtains e' where "engine_atomic c t xs e = Some e'" "engine_room xx n e'" "dom (tm_txs (ef_tx e')) = insert t (dom (tm_txs (ef_tx e)))"
    "\<And>key. storage_get xx key (ef_storage e') = Some (kv_run xs (\<lambda>key. the (storage_get xx key (ef_storage e))) key)"
    "\<And>T k. quiet T ((\<Sum>x\<leftarrow>xs. op_bytes x) + k) (ef_storage e) \<Longrightarrow> 0 \<le> k \<Longrightarrow> wo_now (ec_world c) \<le> T \<Longrightarrow> quiet T k (ef_storage e')"
proof (rule engine_tx_steps [OF assms, of c], goal_cases)
  case (1 e1 m2 m3)
  then show thesis
    by (intro that [of "e1\<lparr>ef_tx := m3\<rparr>"]) (simp_all add: engine_atomic_def engine_room_def)
qed

interpretation eng: kv_tx_store engine_exec "engine_get g" "engine_room (wo_xx (ec_world g))" engine_atomic
  "\<lambda>e. dom (tm_txs (ef_tx e))" kv_small for g
proof
  let ?xx = "wo_xx (ec_world g)"
  show "\<exists>v. engine_get g key e = Some v" if "engine_room ?xx n e" for n e key
    using that st.get_returns [of ?xx n "ef_storage e" key] by (simp add: engine_room_def engine_get_storage)
  fix n e x and c :: ecall and m :: "bytes \<rightharpoonup> bytes"
  assume room: "engine_room ?xx (Suc n) e"
  then have r: "\<not> ef_closed e" "\<not> ef_readOnly e" "storage_room ?xx (Suc n) (ef_storage e)" "tx_inv (ef_tx e)" "running (\<lambda>_. True) (ef_tx e) = {}"
    by (simp_all add: engine_room_def)
  obtain s where s: "storage_exec (ec_env c, ec_world c) x (ef_storage e) = Some s" "storage_room ?xx n s"
    "st.content ?xx s = kv_step x (st.content ?xx (ef_storage e))"
    using st.write_content [OF r(3)] by blast
  obtain e' where e': "engine_exec c x e = Some e'" "ef_tx e' = (ef_tx e)\<lparr>tm_storage := s\<rparr>" "\<not> ef_closed e'" "\<not> ef_readOnly e'"
    by (rule engine_exec_storage [OF r(1,2) s(1)])
  have room': "engine_room ?xx n e'" using e' r s(2) by (simp add: engine_room_def)
  show "dom (tm_txs (ef_tx e1)) = dom (tm_txs (ef_tx e))" if "engine_exec c x e = Some e1" for e1
    using e' that by simp
  assume get: "\<And>key. engine_get g key e = Some (m key)"
  have "st.content ?xx (ef_storage e) = m"
    using get r(1) by (simp add: st.content_def engine_get_storage fun_eq_iff)
  then have "engine_get g key e' = Some (kv_step x m key)" for key
    using s(2,3) e'(2,3) st.get_content [OF s(2), of key] by (simp add: engine_get_storage)
  then show "\<exists>e1. engine_exec c x e = Some e1 \<and> engine_room ?xx n e1 \<and> (\<forall>key. engine_get g key e1 = Some (kv_step x m key))"
    using e'(1) room' by blast
next
  let ?xx = "wo_xx (ec_world g)"
  fix n e t xs and c :: ecall and m :: "bytes \<rightharpoonup> bytes"
  assume room: "engine_room ?xx (n + length xs) e" and t: "t \<notin> dom (tm_txs (ef_tx e))" "list_all kv_small xs"
    and get: "\<And>key. engine_get g key e = Some (m key)"
  obtain e' where e': "engine_atomic c t xs e = Some e'" "engine_room ?xx n e'" "dom (tm_txs (ef_tx e')) = insert t (dom (tm_txs (ef_tx e)))"
    "\<And>key. storage_get ?xx key (ef_storage e') = Some (kv_run xs (\<lambda>key. the (storage_get ?xx key (ef_storage e))) key)"
    by (rule engine_atomic_steps [OF room t, of c]) presburger
  have c: "\<not> ef_closed e" "\<not> ef_closed e'" using room e'(2) by (simp_all add: engine_room_def)
  have "(\<lambda>key. the (storage_get ?xx key (ef_storage e))) = m" using get c(1) by (simp add: engine_get_storage fun_eq_iff)
  then show "\<exists>e1. engine_atomic c t xs e = Some e1 \<and> engine_room ?xx n e1 \<and>
      dom (tm_txs (ef_tx e1)) = insert t (dom (tm_txs (ef_tx e))) \<and> (\<forall>key. engine_get g key e1 = Some (kv_run xs m key))"
    using e' c(2) by (auto simp: engine_get_storage)
qed

text \<open>Opening an empty data directory: the default configuration is saved and every component starts.\<close>

lemma recoverFromWAL_tables: "recoverFromWAL wd rnds clock files s = Some (err, s') \<Longrightarrow> sg_sstFiles s' = sg_sstFiles s"
  by (auto simp: recoverFromWAL_def adopt_tables_def Let_def split: option.splits sum.splits prod.splits if_splits)

lemma NewManager_tables: "NewManager cfg wd rnds clock files [] = Some (Inr s) \<Longrightarrow> sg_sstFiles s = []"
  by (auto simp: NewManager_def Let_def dest!: recoverFromWAL_tables split: option.splits sum.splits prod.splits)

lemma engine_opens:
  assumes "fst dirs \<noteq> []" "snd dirs \<noteq> []" "world_ok (ec_world c)" "1 + n < 2 ^ 64"
  obtains e where
    "NewEngineFacade enc dec True LoadsFine SavesFine dirs c rnds clock [] [] \<lparr>md_manifest = None, md_temp = None\<rparr> =
      Some (Inr e, \<lparr>md_manifest = Some (enc (NewDefaultConfig (fst dirs) (snd dirs))), md_temp = None\<rparr>)"
    "engine_room xx n e" "ef_tx e = NewTxManager (ef_storage e)"
    "\<And>key. storage_get xx key (ef_storage e) = Some None"
    "just_opened (NewDefaultConfig (fst dirs) (snd dirs)) (clock 0) (ef_storage e)" "pool_inv (sg_pool (ef_storage e)) [] []"
proof -
  let ?cfg = "NewDefaultConfig (fst dirs) (snd dirs)" and ?d = "\<lparr>md_manifest = None, md_temp = None\<rparr>"
  have cfg: "Validate ?cfg = None" using assms(1,2) by (rule Validate_default)
  have "disk_inv [] []" "config_fits ?cfg []" by (simp_all add: disk_inv_def config_fits_def NewDefaultConfig_def)
  then obtain s where s: "NewManager ?cfg (ec_world c) rnds clock [] [] = Some (Inr s)" "storage_inv xx s []"
    "w_nextSequence (sg_wal s) = 1" "sg_sstables s = []" "just_opened ?cfg (clock 0) s" "pool_inv (sg_pool s) [] []"
    using manager_opens [OF _ _ assms(3), of "[]" "[]" ?cfg rnds clock xx] by auto
  have files: "sg_sstFiles s = []" using NewManager_tables s(1) by blast
  have "cm_Start (ec_cworld c) [] (NewCManager ?cfg) \<noteq> None"
    by (cases "cw_readDir (ec_cworld c) 0")
       (simp_all add: cm_Start_def coord_Start_def coord_load_def LoadSSTables_def NewCManager_def NewCompactionCoordinator_def)
  then obtain err cm where cm: "cm_Start (ec_cworld c) [] (NewCManager ?cfg) = Some (err, cm)" by auto
  define e where "e = \<lparr>ef_cfg = ?cfg, ef_tx = NewTxManager s, ef_compaction = cm,
    ef_stats = (if err = None then NewAtomicCollector else TrackError ''compaction_start_error'' NewAtomicCollector),
    ef_closed = False, ef_readOnly = False\<rparr>"
  have tm: "tm_storage (NewTxManager s) = s" "running (\<lambda>_. True) (NewTxManager s) = {}" by (simp_all add: NewTxManager_def running_def)
  show thesis
  proof (rule that)
    show "NewEngineFacade enc dec True LoadsFine SavesFine dirs c rnds clock [] [] ?d =
        Some (Inr e, \<lparr>md_manifest = Some (enc ?cfg), md_temp = None\<rparr>)"
      using s(1) cm files cfg
      by (simp add: NewEngineFacade_def LoadConfigFromManifest_def read_manifest_def SaveManifest_def write_manifest_def e_def Let_def)
    show "engine_room xx n e"
      using assms(4) s(2,3) tm tx_inv_new [of s] by (auto simp: engine_room_def e_def storage_room_def)
    show "ef_tx e = NewTxManager (ef_storage e)" by (simp add: e_def tm)
    show "storage_get xx key (ef_storage e) = Some None" for key
      using get_reopened [of xx s "[]" key] s(2,4) tm by (simp add: e_def)
    show "just_opened ?cfg (clock 0) (ef_storage e)" "pool_inv (sg_pool (ef_storage e)) [] []" using s(5,6) tm by (simp_all add: e_def)
  qed
qed

text \<open>
  What happens to an engine: calls of clients (a put, a delete, or a serialized transaction from begin to
  commit) and rounds of the flusher of its storage manager. (The compaction worker finds no tables to compact
  as long as nothing has been flushed.)
\<close>

datatype engine_event =
    ClientCall ecall txid kv_call
  | EngineFlusher bool "nat \<Rightarrow> world"

fun engine_step :: "engine_event \<Rightarrow> engine \<Rightarrow> engine option" where
  "engine_step (ClientCall c t (Single x)) e = engine_exec c x e"
| "engine_step (ClientCall c t (Atomic xs)) e = engine_atomic c t xs e"
| "engine_step (EngineFlusher signalled wds) e =
     map_option (\<lambda>r. set_storage (snd r) e) (backgroundFlush_round wds (signalled \<and> sg_flushSignal (ef_storage e)) (ef_storage e))"

fun client_calls :: "engine_event list \<Rightarrow> (ecall \<times> txid \<times> kv_call) list" where
  "client_calls [] = []"
| "client_calls (ClientCall c t k # evs) = (c, t, k) # client_calls evs"
| "client_calls (EngineFlusher b wds # evs) = client_calls evs"

lemma engine_exec_quiet:
  assumes "engine_room xx (Suc n) e" "engine_exec c x e = Some e'" "quiet T (op_bytes x + k) (ef_storage e)" "0 \<le> k" "wo_now (ec_world c) \<le> T"
  shows "quiet T k (ef_storage e')"
proof -
  have r: "\<not> ef_closed e" "\<not> ef_readOnly e" "storage_room xx (Suc n) (ef_storage e)" using assms(1) by (simp_all add: engine_room_def)
  obtain hist where h: "storage_inv xx (ef_storage e) hist" using r(3) by (auto simp: storage_room_def)
  obtain s where s: "storage_exec (ec_env c, ec_world c) x (ef_storage e) = Some s"
    using st.write_content [OF r(3)] by blast
  obtain e2 where "engine_exec c x e = Some e2" "ef_tx e2 = (ef_tx e)\<lparr>tm_storage := s\<rparr>"
    by (rule engine_exec_storage [OF r(1,2) s])
  then have "ef_storage e' = s" using assms(2) by simp
  with storage_exec_quiet [OF h s assms(3,4)] assms(5) show ?thesis by simp
qed

text \<open>While the writes force no table switch the rounds of the flusher change nothing.\<close>

lemma engine_events_quiet:
  fixes g :: ecall
  assumes "engine_room xx (length (all_ops_of (client_calls evs))) e" "xx = wo_xx (ec_world g)" "eng.calls_ok (client_calls evs) e"
    and "quiet T ((\<Sum>x\<leftarrow>all_ops_of (client_calls evs). op_bytes x) + 0) (ef_storage e)"
    and "list_all (\<lambda>(c, t, k). wo_now (ec_world c) \<le> T) (client_calls evs)"
  shows "run_all engine_step evs e = run_all eng.call (client_calls evs) e"
  using assms
proof (induction evs arbitrary: e)
  case (Cons ev evs)
  let ?n = "length (all_ops_of (client_calls evs))" and ?k = "(\<Sum>x\<leftarrow>all_ops_of (client_calls evs). op_bytes x) + 0"
  have k: "0 \<le> ?k" by (auto simp: op_bytes_def intro!: sum_list_nonneg)
  show ?case
  proof (cases ev)
    case (EngineFlusher b wds)
    then show ?thesis using Cons flusher_quiet [of T _ "ef_storage e" wds b] by (simp add: set_storage_def)
  next
    case (ClientCall c t call)
    have step: "engine_step ev e = eng.call (c, t, call) e" by (cases call) (simp_all add: ClientCall eng.call_def)
    have i: "t \<notin> dom (tm_txs (ef_tx e))" "\<And>xs. call = Atomic xs \<Longrightarrow> list_all kv_small xs"
      using Cons.prems(3) ClientCall by (auto simp: eng.calls_ok_def)
    have room: "engine_room (wo_xx (ec_world g)) (?n + length (call_ops call)) e"
      using Cons.prems(1,2) ClientCall by (simp add: add.commute)
    obtain m where m: "\<And>key. engine_get g key e = Some (m key)" using eng.get_content [OF room] by blast
    obtain e1 where e1: "eng.call (c, t, call) e = Some e1" "engine_room (wo_xx (ec_world g)) ?n e1"
      "dom (tm_txs (ef_tx e1)) \<subseteq> insert t (dom (tm_txs (ef_tx e)))"
      using eng.call_steps [OF room i m, of c] by blast
    have ok: "eng.calls_ok (client_calls evs) e1" using Cons.prems(3) e1(3) ClientCall by (auto simp: eng.calls_ok_def)
    have "quiet T ?k (ef_storage e1)"
    proof (cases call)
      case (Single x)
      then show ?thesis
        using engine_exec_quiet [of "wo_xx (ec_world g)" ?n e c x e1 T ?k] room e1(1) Cons.prems(4,5) k ClientCall
        by (simp add: eng.call_def add.assoc)
    next
      case (Atomic xs)
      then have "engine_room (wo_xx (ec_world g)) (?n + length xs) e" "list_all kv_small xs" using room i(2) by simp_all
      then obtain e2 where "engine_atomic c t xs e = Some e2" "\<And>T k. quiet T ((\<Sum>x\<leftarrow>xs. op_bytes x) + k) (ef_storage e) \<Longrightarrow> 0 \<le> k \<Longrightarrow> wo_now (ec_world c) \<le> T \<Longrightarrow> quiet T k (ef_storage e2)"
        by (rule engine_atomic_steps [OF _ i(1), of _ _ _ c]) presburger
      then show ?thesis using e1(1) Atomic Cons.prems(4,5) k ClientCall by (simp add: eng.call_def add.assoc)
    qed
    from Cons.IH [OF _ Cons.prems(2) ok this] e1(2) Cons.prems(2,5) e1(1) step ClientCall show ?thesis by simp
  qed
qed simp

text \<open>
  C1: the engine is a map with transactions while its memtable is not switched. On an empty data directory
  \<open>NewEngineFacade\<close> returns an engine with the default configuration, and whatever sequence of puts, deletes and
  serialized transactions (begin, puts and deletes, commit) a client runs, with rounds of the background flusher between
  them, every call succeeds and \<open>Get\<close> answers afterwards as the map of all the writes in order, a transaction's taken
  together. The writes fit one memtable (32 MB) and are made within ten minutes of its creation, so that no table switch
  wakes the flusher (it would rotate the log, and then \<open>storage_rotate_stale\<close> applies); the identifiers of the
  transactions are distinct and their operations fit a log record. (A round inside a transaction changes nothing
  either: by \<open>flusher_quiet\<close> it is the identity on such a manager.)
\<close>

theorem engine_refines_map:
  assumes "fst dirs \<noteq> []" "snd dirs \<noteq> []" "world_ok (ec_world c)" "length (all_ops_of (client_calls evs)) < 2 ^ 64 - 1"
    and "distinct (map (fst \<circ> snd) (client_calls evs))"
    and "list_all (\<lambda>(w, i, c). case c of Single x \<Rightarrow> True | Atomic xs \<Rightarrow> list_all kv_small xs) (client_calls evs)"
    and "writes_size (op_writes 1 (all_ops_of (client_calls evs))) < 32 * 1024 * 1024"
    and "list_all (\<lambda>(w, i, k). wo_now (ec_world w) \<le> clock 0 + 600 * 10 ^ 9) (client_calls evs)"
  shows "\<exists>e d e'. NewEngineFacade enc dec True LoadsFine SavesFine dirs c rnds clock [] [] \<lparr>md_manifest = None, md_temp = None\<rparr> = Some (Inr e, d) \<and>
    run_all engine_step evs e = Some e' \<and>
    (\<forall>key. engine_get g key e' = Some (kv_run (all_ops_of (client_calls evs)) Map.empty key))"
proof -
  let ?xx = "wo_xx (ec_world g)" and ?d = "\<lparr>md_manifest = None, md_temp = None\<rparr>" and ?calls = "client_calls evs"
  let ?cfg = "NewDefaultConfig (fst dirs) (snd dirs)"
  have n: "1 + (0 + length (all_ops_of ?calls)) < 2 ^ 64" using assms(4) by simp
  obtain e d where e: "NewEngineFacade enc dec True LoadsFine SavesFine dirs c rnds clock [] [] ?d = Some (Inr e, d)"
    "engine_room ?xx (0 + length (all_ops_of ?calls)) e" "ef_tx e = NewTxManager (ef_storage e)"
    "\<And>key. storage_get ?xx key (ef_storage e) = Some None"
    "just_opened ?cfg (clock 0) (ef_storage e)" "pool_inv (sg_pool (ef_storage e)) [] []"
    using engine_opens [OF assms(1-3) n, of enc dec rnds clock ?xx] by blast
  have "dom (tm_txs (ef_tx e)) = {}" by (subst e(3)) (simp add: NewTxManager_def)
  then have ok: "eng.calls_ok ?calls e" using assms(5,6) by (simp add: eng.calls_ok_def)
  have q: "quiet (clock 0 + 600 * 10 ^ 9) ((\<Sum>x\<leftarrow>all_ops_of ?calls. op_bytes x) + 0) (ef_storage e)"
    by (rule just_opened_quiet [OF e(5,6)]) (use assms(7) in \<open>simp_all add: NewDefaultConfig_def writes_size_ops\<close>)
  have run: "run_all engine_step evs e = run_all eng.call ?calls e"
    using engine_events_quiet [OF _ refl ok q assms(8)] e(2) by simp
  have "engine_get g key e = Some None" for key
    using e(2,4) by (simp add: engine_room_def engine_get_storage)
  from eng.calls_refine [OF e(2) ok this] run e(1) show ?thesis by auto
qed

definition sample_call :: ecall where
  "sample_call =
     \<lparr>ec_world = sample_world, ec_env = (\<lambda>_. id),
      ec_cworld = \<lparr>cw_xx = (\<lambda>_. 0), cw_dims = (64, 3), cw_stamp = id, cw_finishTime = id, cw_fault = (\<lambda>_. None), cw_now = (\<lambda>_. 0),
                   cw_readDir = (\<lambda>_. True), cw_rmFails = (\<lambda>_. False), cw_fdiv = (\<lambda>a b. of_int a / of_int b)\<rparr>,
      ec_start = 0, ec_stop = 1, ec_latency = 1\<rparr>"

definition sample_events :: "engine_event list" where
  "sample_events = [ClientCall sample_call ''a'' (Single (KvPut [107] [1])), EngineFlusher True (\<lambda>_. sample_world),
     ClientCall sample_call ''t1'' (Atomic [KvPut [108] [2], KvDelete [107]])]"

theorem engine_refines_map_witness:
  "\<exists>e d e'. NewEngineFacade (\<lambda>_. [1]) (\<lambda>_. None) True LoadsFine SavesFine (''w'', ''s'') sample_call (\<lambda>_ _. True) (\<lambda>_. 0) [] []
      \<lparr>md_manifest = None, md_temp = None\<rparr> = Some (Inr e, d) \<and>
     run_all engine_step sample_events e = Some e' \<and>
     engine_get sample_call [108] e' = Some (Some [2]) \<and> engine_get sample_call [107] e' = Some None"
proof -
  have "list_all (\<lambda>(w, i, c). case c of Single x \<Rightarrow> True | Atomic xs \<Rightarrow> list_all kv_small xs) (client_calls sample_events)"
    by (simp add: sample_events_def payloadSize_def MaxRecordSize_def)
  moreover have "writes_size (op_writes 1 (all_ops_of (client_calls sample_events))) < 32 * 1024 * 1024"
    "list_all (\<lambda>(w, i, k). wo_now (ec_world w) \<le> (\<lambda>_. 0) (0 :: nat) + 600 * 10 ^ 9) (client_calls sample_events)"
    by (simp_all add: sample_events_def newEntry_def entry_size_def sample_call_def sample_world_def)
  moreover have "world_ok (ec_world sample_call)" by (simp add: sample_call_def)
  ultimately show ?thesis
    using engine_refines_map [of "(''w'', ''s'')" sample_call sample_events "\<lambda>_. 0" "\<lambda>_. [1]" "\<lambda>_. None" "\<lambda>_ _. True" sample_call]
    by (fastforce simp: sample_events_def)
qed

section \<open>Read-only mode\<close>

text \<open>The calls a client can make on its data: reads, writes, batches and transactions of every mode.\<close>

inductive client_step :: "engine \<Rightarrow> engine \<Rightarrow> bool" where
  put: "engine_Put c key v e = Some (r, e') \<Longrightarrow> client_step e e'"
| delete: "engine_Delete c key e = Some (r, e') \<Longrightarrow> client_step e e'"
| batch: "engine_ApplyBatch c entries e = Some (r, e') \<Longrightarrow> client_step e e'"
| read: "engine_Get c key e = Some (v, e') \<Longrightarrow> client_step e e'"
| scan: "engine_GetIterator c e = Some (it, e') \<Longrightarrow> client_step e e'"
| scan_range: "engine_GetRangeIterator c startKey endKey e = Some (itr, e') \<Longrightarrow> client_step e e'"
| enter: "engine_BeginTransaction c t mode e = Some (b, e') \<Longrightarrow> client_step e e'"
| tx_put: "on_tx (tx_Put rnd env key v t) e = Some (w, e') \<Longrightarrow> client_step e e'"
| tx_delete: "on_tx (tx_Delete rnd env key t) e = Some (w, e') \<Longrightarrow> client_step e e'"
| commit: "on_tx (Commit senv wd t) e = Some (x, e') \<Longrightarrow> client_step e e'"
| rollback: "on_tx (Rollback t) e = Some (x, e') \<Longrightarrow> client_step e e'"

abbreviation writer :: "tx_mode \<Rightarrow> bool" where
  "writer mode \<equiv> mode \<noteq> ReadOnly"

lemma no_writerD: "running writer m = {} \<Longrightarrow> tm_txs m t = Some tx \<Longrightarrow> tx_active tx \<Longrightarrow> tx_mode tx = ReadOnly"
  by (auto simp: running_def)

lemma no_writer_put: "running writer m = {} \<Longrightarrow> \<not> tx_active tx \<or> tx_mode tx = ReadOnly \<Longrightarrow> running writer (put_tx t tx m) = {}"
  by (auto simp: running_put)

lemma no_writer_write:
  assumes "running writer m = {}" "buffered_write rnd env key change t m = Some (r, m')"
  shows "m' = m"
  using assms no_writerD [OF assms(1)]
  by (auto simp: buffered_write_def acquireWriteTxLock_def split: option.splits if_splits)

lemma no_writer_begin:
  assumes "running writer m = {}" "BeginTransaction t ReadOnly m = Some (r, m')"
  shows "running writer m' = {} \<and> tm_storage m' = tm_storage m"
  using assms by (auto simp: BeginTransaction_def AcquireNonSerializeLock_def running_def Let_def split: if_splits)

lemma no_writer_commit:
  assumes "running writer m = {}" "Commit senv wd t m = Some (r, m')"
  shows "running writer m' = {} \<and> tm_storage m' = tm_storage m"
  using assms no_writerD [OF assms(1)]
  by (auto simp: Commit_def ReleaseNonSerializeLock_def tx_IsValid_def running_def Let_def split: option.splits if_splits)

text \<open>No part of a rollback touches the storage or starts a transaction.\<close>

lemma release_mode_quiet: "release_mode mode m = Some (r, m') \<Longrightarrow> tm_txs m' = tm_txs m \<and> tm_storage m' = tm_storage m"
  by (auto simp: release_mode_def ReleaseNonSerializeLock_def ReleaseSerializeLock_def split: tx_mode.splits if_splits)

lemma rollbackSafe_quiet:
  assumes "running P m = {}" "rollbackSafeForRegisterTxLocked t m = Some (r, m')"
  shows "running P m' = {} \<and> tm_storage m' = tm_storage m"
  using assms by (auto simp: rollbackSafeForRegisterTxLocked_def running_def dest!: release_mode_quiet split: option.splits if_splits)

lemma release_tx_quiet:
  assumes "running P m = {}" "release_tx t m = Some m'"
  shows "running P m' = {} \<and> tm_storage m' = tm_storage m"
proof -
  obtain cb l where l: "ReleaseLocksAndUnregisterTx t (tm_locks m) = (cb, l)" by force
  have r: "running P (m\<lparr>tm_locks := l\<rparr>) = {}" using assms(1) by (simp add: running_def)
  show ?thesis
    using assms(2) l rollbackSafe_quiet [OF r] r by (cases cb) (auto simp: release_tx_def)
qed

lemma rollback_quiet:
  assumes "running P m = {}" "Rollback t m = Some (r, m')"
  shows "running P m' = {} \<and> tm_storage m' = tm_storage m"
proof -
  obtain m1 where m1: "release_tx t m = Some m1" "rollbackLocked t m1 = Some (r, m')"
    using assms(2) by (auto simp: Rollback_def split: option.splits)
  have q1: "running P m1 = {}" "tm_storage m1 = tm_storage m" using release_tx_quiet [OF assms(1) m1(1)] by auto
  obtain tx where tx: "tm_txs m1 t = Some tx" using m1(2) by (auto simp: rollbackLocked_def split: option.splits)
  let ?m = "put_tx t (tx\<lparr>tx_active := False, tx_buffer := buffer_Clear (tx_buffer tx)\<rparr>) m1"
  have p: "running P ?m = {}" using q1(1) by (auto simp: running_def)
  show ?thesis
  proof (cases "tx_active tx")
    case False
    then show ?thesis using m1(2) tx q1 by (simp add: rollbackLocked_def)
  next
    case True
    then obtain m2 where m2: "(if tx_mode tx = WriteReadCommitted then release_tx t ?m else Some ?m) = Some m2"
      "release_mode (tx_mode tx) m2 = Some (r, m')"
      using m1(2) tx by (auto simp: rollbackLocked_def Let_def split: option.splits)
    have "running P m2 = {} \<and> tm_storage m2 = tm_storage m"
      using m2(1) release_tx_quiet [OF p] p q1(2) by (auto split: if_splits)
    then show ?thesis using release_mode_quiet [OF m2(2)] by (simp add: running_def)
  qed
qed

lemma readonly_begin:
  assumes "engine_BeginTransaction c t mode e = Some (b, e')" "ef_readOnly e" "running writer (ef_tx e) = {}"
  shows "ef_readOnly e' \<and> running writer (ef_tx e') = {} \<and> ef_storage e' = ef_storage e"
proof (cases "ef_closed e")
  case True
  then show ?thesis using assms by (simp add: engine_BeginTransaction_def)
next
  case False
  then obtain r m where "BeginTransaction t ReadOnly (ef_tx e) = Some (r, m)" "ef_tx e' = m" "ef_readOnly e' = ef_readOnly e"
    using assms(1,2) by (auto simp: engine_BeginTransaction_def tracked_def)
  then show ?thesis using no_writer_begin [OF assms(3)] assms(2) by simp
qed

lemma on_tx_readonly:
  assumes "on_tx f e = Some (r, e')" "ef_readOnly e"
    and "\<And>r m'. f (ef_tx e) = Some (r, m') \<Longrightarrow> running writer m' = {} \<and> tm_storage m' = ef_storage e"
  shows "ef_readOnly e' \<and> running writer (ef_tx e') = {} \<and> ef_storage e' = ef_storage e"
  using assms by (auto simp: on_tx_def)

lemma client_step_readonly:
  assumes "client_step e e'" "ef_readOnly e" "running writer (ef_tx e) = {}"
  shows "ef_readOnly e' \<and> running writer (ef_tx e') = {} \<and> ef_storage e' = ef_storage e"
  using assms
proof (induction rule: client_step.induct)
  case (enter c t mode e b e')
  then show ?case using readonly_begin by blast
next
  case (tx_put rnd env key v t e w e')
  show ?case
  proof (rule on_tx_readonly [OF tx_put.hyps tx_put.prems(1)])
    fix r m'
    assume "tx_Put rnd env key v t (ef_tx e) = Some (r, m')"
    from no_writer_write [OF tx_put.prems(2) this [unfolded tx_Put_def]]
    show "running writer m' = {} \<and> tm_storage m' = ef_storage e" using tx_put.prems(2) by simp
  qed
next
  case (tx_delete rnd env key t e w e')
  show ?case
  proof (rule on_tx_readonly [OF tx_delete.hyps tx_delete.prems(1)])
    fix r m'
    assume "tx_Delete rnd env key t (ef_tx e) = Some (r, m')"
    from no_writer_write [OF tx_delete.prems(2) this [unfolded tx_Delete_def]]
    show "running writer m' = {} \<and> tm_storage m' = ef_storage e" using tx_delete.prems(2) by simp
  qed
next
  case (commit senv wd t e x e')
  show ?case by (rule on_tx_readonly [OF commit.hyps commit.prems(1) no_writer_commit [OF commit.prems(2)]])
next
  case (rollback t e x e')
  show ?case by (rule on_tx_readonly [OF rollback.hyps rollback.prems(1) rollback_quiet [OF rollback.prems(2)]])
qed (auto simp: engine_Put_def engine_Delete_def engine_ApplyBatch_def engine_Get_def engine_GetIterator_def
    engine_GetRangeIterator_def tracked_def split: if_splits)

text \<open>
  C7: an engine in read-only mode keeps its data. However clients mix puts, deletes, batches, reads,
  scans and transactions of any mode, begun, written to, committed and rolled back, the storage
  stays as it was when the mode was set, provided that no write transaction was open then.
\<close>

theorem readonly_keeps_data:
  assumes "client_step\<^sup>*\<^sup>* (SetReadOnly True e) e'" "running writer (ef_tx e) = {}"
  shows "ef_storage e' = ef_storage e \<and> IsReadOnly e'"
proof -
  have "ef_readOnly e' \<and> running writer (ef_tx e') = {} \<and> ef_storage e' = ef_storage e"
    using assms(1)
  proof (induction rule: rtranclp_induct)
    case base
    show ?case using assms(2) by (simp add: SetReadOnly_def)
  next
    case (step e1 e2)
    then show ?case using client_step_readonly [of e1 e2] by simp
  qed
  then show ?thesis by (simp add: IsReadOnly_def)
qed

text \<open>
  C8: the mode does not stop a transaction that is already open. A serialized transaction begun
  before \<open>SetReadOnly(true)\<close> commits afterwards without an error, and the data of the read-only
  engine then are those of the transaction, while a put through the engine is rejected.
\<close>

theorem readonly_commit_goes_through:
  assumes "engine_room (wo_xx (ec_world c)) (length xs) e" "t \<notin> dom (tm_txs (ef_tx e))" "list_all kv_small xs"
  shows "\<exists>e1 m2 e2 e3. engine_BeginTransaction c t ReadWriteSerialized e = Some (Inr t, e1) \<and>
    run_all (tx_exec t) (map (Pair no_wait) xs) (ef_tx e1) = Some m2 \<and> e2 = SetReadOnly True (e1\<lparr>ef_tx := m2\<rparr>) \<and>
    on_tx (Commit (ec_env c) (ec_world c) t) e2 = Some (None, e3) \<and> IsReadOnly e3 \<and>
    (\<forall>key. engine_get c key e3 = Some (kv_run xs (\<lambda>key. the (engine_get c key e2)) key)) \<and>
    (\<forall>key v. engine_Put c key v e3 = Some (Some ErrReadOnlyMode, e3))"
proof -
  let ?xx = "wo_xx (ec_world c)"
  have room: "engine_room ?xx (0 + length xs) e" using assms(1) by simp
  obtain e1 m2 m3 where s: "engine_BeginTransaction c t ReadWriteSerialized e = Some (Inr t, e1)" "\<not> ef_closed e1"
    "run_all (tx_exec t) (map (Pair no_wait) xs) (ef_tx e1) = Some m2" "tm_storage m2 = ef_storage e"
    "Commit (ec_env c) (ec_world c) t m2 = Some (None, m3)"
    "\<And>key. storage_get ?xx key (tm_storage m3) = Some (kv_run xs (\<lambda>key. the (storage_get ?xx key (ef_storage e))) key)"
    using engine_tx_steps [OF room assms(2,3), of c] by metis
  define e2 where "e2 = SetReadOnly True (e1\<lparr>ef_tx := m2\<rparr>)"
  define e3 where "e3 = e2\<lparr>ef_tx := m3\<rparr>"
  have f: "\<not> ef_closed e2" "ef_tx e2 = m2" "\<not> ef_closed e3" "ef_readOnly e3" "ef_tx e3 = m3"
    using s(2) by (simp_all add: e2_def e3_def SetReadOnly_def)
  have c: "on_tx (Commit (ec_env c) (ec_world c) t) e2 = Some (None, e3)" using s(5) f(2) by (simp add: on_tx_def e3_def)
  have g: "engine_get c key e3 = Some (kv_run xs (\<lambda>key. the (engine_get c key e2)) key)" for key
    using s(4,6) f by (simp add: engine_get_storage)
  have p: "engine_Put c key v e3 = Some (Some ErrReadOnlyMode, e3)" for key v using f by (simp add: engine_Put_def)
  show ?thesis using s(1,3) e2_def c g p f(4) by (auto simp: IsReadOnly_def)
qed

abbreviation sample_open :: "((engine_error + engine) \<times> manifest_files) option" where
  "sample_open \<equiv> NewEngineFacade (\<lambda>_. [1]) (\<lambda>_. None) True LoadsFine SavesFine (''w'', ''s'') sample_call (\<lambda>_ _. True) (\<lambda>_. 0) [] []
     \<lparr>md_manifest = None, md_temp = None\<rparr>"

lemma sample_engine:
  obtains e d where "sample_open = Some (Inr e, d)" "engine_room (wo_xx (ec_world sample_call)) 5 e" "dom (tm_txs (ef_tx e)) = {}"
proof -
  have w: "world_ok (ec_world sample_call)" "fst (''w'', ''s'') \<noteq> []" "snd (''w'', ''s'') \<noteq> []" "1 + 5 < (2::nat) ^ 64"
    by (simp_all add: sample_call_def)
  obtain e d where e: "sample_open = Some (Inr e, d)" "engine_room (wo_xx (ec_world sample_call)) 5 e" "ef_tx e = NewTxManager (ef_storage e)"
    using engine_opens [OF w(2,3,1,4), of "\<lambda>_. [1]" "\<lambda>_. None" "\<lambda>_ _. True" "\<lambda>_. 0"] by metis
  have "dom (tm_txs (ef_tx e)) = {}" by (subst e(3)) (simp add: NewTxManager_def)
  with that e(1,2) show thesis by blast
qed

theorem readonly_keeps_data_witness:
  "\<exists>e d b e'. sample_open = Some (Inr e, d) \<and> engine_BeginTransaction sample_call ''t1'' ReadWriteSerialized (SetReadOnly True e) = Some (Inr b, e') \<and>
     client_step\<^sup>*\<^sup>* (SetReadOnly True e) e' \<and> ef_storage e' = ef_storage e \<and> IsReadOnly e'"
proof -
  obtain e d where e: "sample_open = Some (Inr e, d)" "engine_room (wo_xx (ec_world sample_call)) 5 e" "dom (tm_txs (ef_tx e)) = {}"
    by (rule sample_engine)
  have "running P (ef_tx e) = {}" for P using e(2) by (auto simp: engine_room_def running_def)
  note none = this
  have "\<not> tm_writer (ef_tx e)" using tx_invD(5) [of "ef_tx e"] none e(2) by (auto simp: engine_room_def split: if_splits)
  then obtain b e' where b: "engine_BeginTransaction sample_call ''t1'' ReadWriteSerialized (SetReadOnly True e) = Some (Inr b, e')"
    using e(2) by (simp add: engine_BeginTransaction_def tracked_def engine_room_def SetReadOnly_def BeginTransaction_def
        AcquireNonSerializeLock_def Let_def)
  have run: "client_step\<^sup>*\<^sup>* (SetReadOnly True e) e'" using client_step.enter [OF b] by blast
  from readonly_keeps_data [OF run none] e(1) b run show ?thesis by blast
qed

theorem readonly_commit_goes_through_witness:
  "\<exists>e d e1 m2 e3. sample_open = Some (Inr e, d) \<and>
     engine_BeginTransaction sample_call ''t1'' ReadWriteSerialized e = Some (Inr ''t1'', e1) \<and>
     run_all (tx_exec ''t1'') [(no_wait, KvPut [107] [1])] (ef_tx e1) = Some m2 \<and>
     on_tx (Commit (ec_env sample_call) (ec_world sample_call) ''t1'') (SetReadOnly True (e1\<lparr>ef_tx := m2\<rparr>)) = Some (None, e3) \<and>
     IsReadOnly e3 \<and> engine_get sample_call [107] e3 = Some (Some [1])"
proof -
  obtain e d where e: "sample_open = Some (Inr e, d)" "engine_room (wo_xx (ec_world sample_call)) 5 e" "dom (tm_txs (ef_tx e)) = {}"
    by (rule sample_engine)
  have r: "engine_room (wo_xx (ec_world sample_call)) (length [KvPut [107] [1]]) e"
    using e(2) by (auto simp: engine_room_def storage_room_def)
  have t: "''t1'' \<notin> dom (tm_txs (ef_tx e))" using e(3) by simp
  have k: "list_all kv_small [KvPut [107] [1]]" by (simp add: payloadSize_def MaxRecordSize_def)
  show ?thesis using readonly_commit_goes_through [OF r t k] e(1) by fastforce
qed

section \<open>Counting\<close>

text \<open>Every put is counted when it starts and when it ends.\<close>

lemma counted:
  "getOrCreateCounter kind (sc_counts (TrackOperation now kind c)) = getOrCreateCounter kind (sc_counts c) + 1"
  "sc_counts (TrackOperationWithLatency now kind n c) = sc_counts (TrackOperation now kind c)"
  "sc_counts (TrackBytes w b c) = sc_counts c" "sc_counts (TrackError msg c) = sc_counts c"
  by (simp_all add: TrackOperation_def TrackOperationWithLatency_def TrackBytes_def TrackError_def getOrCreateCounter_def)

lemma put_counted_twice:
  assumes "engine_Put c key v e = Some (r, e')" "\<not> ef_closed e" "\<not> ef_readOnly e"
  shows "getOrCreateCounter OpPut (sc_counts (ef_stats e')) = getOrCreateCounter OpPut (sc_counts (ef_stats e)) + 2"
proof -
  obtain err s where "storage_Put (ec_env c) (ec_world c) key v (ef_storage e) = Some (err, s)"
    using assms by (auto simp: engine_Put_def put_body_def tracked_def on_storage_def)
  then show ?thesis
    using assms by (cases err) (auto simp: engine_Put_def put_body_def tracked_def on_storage_def set_storage_def on_stats_def counted)
qed

end
