(* ===== verification/Wal_Retention.thy ===== *)
theory Wal_Retention
  imports Wal_Correct
begin

text \<open>
  The retention of log files (\<open>src/pkg/wal/retention.go\<close>): which files of the log directory
  \<open>ManageRetention\<close> removes, by number, by age and by sequence number. A file is its base name with its
  content; the directory is the sorted list that \<open>FindWALFiles\<close> returns. Times are nanoseconds. A
  \<open>retention_world\<close> says which calls into the file system fail; \<open>rw_statBase\<close> is the modification time
  of a file of that name in the working directory of the process, where \<open>extractTimestampFromFilename\<close>
  looks for it.
\<close>

section \<open>Names and times\<close>

record wal_file =
  wf_name :: string
  wf_content :: bytes

record retention_config =
  MaxFileCount :: int
  MaxAge :: int
  MinSequenceKeep :: u64

record wal_file_info =
  wi_Path :: string
  wi_Size :: int
  wi_CreatedAt :: int
  wi_MinSeq :: u64
  wi_MaxSeq :: u64

record retention_world =
  rw_now :: int
  rw_globFails :: bool
  rw_statFails :: "string \<Rightarrow> bool"
  rw_statBase :: "string \<Rightarrow> int option"
  rw_openFails :: "string \<Rightarrow> bool"
  rw_rmFails :: "string \<Rightarrow> bool"

text \<open>\<open>strconv.ParseInt\<close> in base 10 with 64 bits: an optional sign, then digits, within the range of \<open>int64\<close>.\<close>

definition digit_value :: "char \<Rightarrow> int option" where
  "digit_value c = (let n = (of_char c :: int) in if 48 \<le> n \<and> n \<le> 57 then Some (n - 48) else None)"

fun parse_digits :: "int \<Rightarrow> string \<Rightarrow> int option" where
  "parse_digits acc [] = Some acc"
| "parse_digits acc (c # cs) = (case digit_value c of None \<Rightarrow> None | Some d \<Rightarrow> parse_digits (acc * 10 + d) cs)"

definition ParseInt :: "string \<Rightarrow> int option" where
  "ParseInt s =
     (let neg = (take 1 s = ''-''); ds = (if take 1 s = ''-'' \<or> take 1 s = ''+'' then drop 1 s else s) in
      if ds = [] then None
      else case parse_digits 0 ds of
             None \<Rightarrow> None
           | Some n \<Rightarrow>
               let v = (if neg then - n else n) in
               if v < - (2 ^ 63) \<or> v \<ge> 2 ^ 63 then None else Some v)"

text \<open>The zero \<open>time.Time\<close> is the year 1; \<open>Sub\<close> saturates at the bounds of a \<open>Duration\<close>.\<close>

definition zero_time :: int where "zero_time = - 62135596800 * 10 ^ 9"

definition time_Sub :: "int \<Rightarrow> int \<Rightarrow> int" where
  "time_Sub a b = max (- (2 ^ 63)) (min (2 ^ 63 - 1) (a - b))"

text \<open>The name of a log file ends in \<open>.wal\<close>, its extension.\<close>

definition extractTimestampFromFilename :: "(string \<Rightarrow> int option) \<Rightarrow> string \<Rightarrow> int" where
  "extractTimestampFromFilename stat filename =
     (case stat filename of
        Some t \<Rightarrow> t
      | None \<Rightarrow> (case ParseInt (take (length filename - 4) filename) of None \<Rightarrow> zero_time | Some t \<Rightarrow> t))"

section \<open>Sequence bounds\<close>

text \<open>The outer \<open>None\<close> is a panic of the reader, the inner one of \<open>getSequenceBounds\<close> its error.\<close>

function bounds_loop :: "u64 \<Rightarrow> u64 \<Rightarrow> wal_reader \<Rightarrow> (u64 \<times> u64) option" where
  "bounds_loop minSeq maxSeq r =
     (case ReadEntry r of
        (Inl e, _) \<Rightarrow> if e = WalPanic then None else Some (minSeq, maxSeq)
      | (Inr entry, r') \<Rightarrow>
          bounds_loop (if we_seq entry < minSeq then we_seq entry else minSeq)
            (if we_seq entry > maxSeq then we_seq entry else maxSeq) r')"
  by pat_completeness auto
termination
  by (relation "measure (\<lambda>(a, b, r). length (r_input r))") (auto dest!: sym [of _ "ReadEntry _"] ReadEntry_entry_progress)

declare bounds_loop.simps [simp del]

definition max_u64 :: u64 where "max_u64 = NOT 0"

definition getSequenceBounds :: "bool \<Rightarrow> bytes \<Rightarrow> (u64 \<times> u64) option option" where
  "getSequenceBounds openFails content =
     (if openFails then Some None
      else map_option (\<lambda>b. if fst b = max_u64 then None else Some b) (bounds_loop max_u64 0 (OpenReader content)))"

section \<open>The policies\<close>

definition file_info :: "retention_world \<Rightarrow> wal_file \<Rightarrow> wal_file_info" where
  "file_info wd f =
     (let bounds = (case getSequenceBounds (rw_openFails wd (wf_name f)) (wf_content f) of Some (Some b) \<Rightarrow> b | _ \<Rightarrow> (0, max_u64))
      in \<lparr>wi_Path = wf_name f, wi_Size = int (length (wf_content f)),
          wi_CreatedAt = extractTimestampFromFilename (rw_statBase wd) (wf_name f),
          wi_MinSeq = fst bounds, wi_MaxSeq = snd bounds\<rparr>)"

definition scanned_files :: "retention_world \<Rightarrow> string \<Rightarrow> wal_file list \<Rightarrow> wal_file list" where
  "scanned_files wd currentFile files = filter (\<lambda>f. wf_name f \<noteq> currentFile \<and> \<not> rw_statFails wd (wf_name f)) files"

definition scan_panics :: "retention_world \<Rightarrow> string \<Rightarrow> wal_file list \<Rightarrow> bool" where
  "scan_panics wd currentFile files =
     list_ex (\<lambda>f. getSequenceBounds (rw_openFails wd (wf_name f)) (wf_content f) = None) (scanned_files wd currentFile files)"

definition collect_infos :: "retention_world \<Rightarrow> string \<Rightarrow> wal_file list \<Rightarrow> wal_file_info list" where
  "collect_infos wd currentFile files = map (file_info wd) (scanned_files wd currentFile files)"

definition count_marks :: "retention_config \<Rightarrow> wal_file_info list \<Rightarrow> string list" where
  "count_marks cfg infos =
     (if MaxFileCount cfg > 0 then
        let filesLeftToKeep = MaxFileCount cfg - 1 in
        if filesLeftToKeep \<le> 0 then map wi_Path infos
        else if int (length infos) > filesLeftToKeep
        then map wi_Path (take (length infos - nat filesLeftToKeep) infos)
        else []
      else [])"

definition age_marks :: "retention_config \<Rightarrow> int \<Rightarrow> wal_file_info list \<Rightarrow> string list" where
  "age_marks cfg now infos =
     (if MaxAge cfg > 0 then map wi_Path (filter (\<lambda>fi. time_Sub now (wi_CreatedAt fi) > MaxAge cfg) infos) else [])"

definition seq_marks :: "retention_config \<Rightarrow> wal_file_info list \<Rightarrow> string list" where
  "seq_marks cfg infos =
     (if MinSequenceKeep cfg > 0 then map wi_Path (filter (\<lambda>fi. wi_MaxSeq fi < MinSequenceKeep cfg) infos) else [])"

text \<open>The loop that removes the marked files and counts the removals that succeed.\<close>

fun remove_marked :: "(string \<Rightarrow> bool) \<Rightarrow> string list \<Rightarrow> wal_file_info list \<Rightarrow> nat \<Rightarrow> wal_file list \<Rightarrow> nat \<times> wal_file list" where
  "remove_marked rmFails toDelete [] deleted files = (deleted, files)"
| "remove_marked rmFails toDelete (fi # fis) deleted files =
     (if wi_Path fi \<in> set toDelete \<and> \<not> rmFails (wi_Path fi)
      then remove_marked rmFails toDelete fis (Suc deleted) (filter (\<lambda>f. wf_name f \<noteq> wi_Path fi) files)
      else remove_marked rmFails toDelete fis deleted files)"

text \<open>
  \<open>currentFile\<close> is the name of the open log file, empty when there is none. \<open>sort.Slice\<close> may leave files with
  equal times in any order; here it keeps the order of the directory. \<open>Inl WalPanic\<close> is no return: the
  reader has panicked on one of the files, before anything was removed.
\<close>

definition ManageRetention ::
  "retention_config \<Rightarrow> retention_world \<Rightarrow> string \<Rightarrow> wal_file list \<Rightarrow> wal \<Rightarrow> (wal_error + nat) \<times> wal_file list" where
  "ManageRetention cfg wd currentFile files w =
     (if w_status w = WALStatusClosed then (Inl ErrWALClosed, files)
      else if rw_globFails wd then (Inl ErrIO, files)
      else if length files \<le> 1 then (Inr 0, files)
      else if scan_panics wd currentFile files then (Inl WalPanic, files)
      else
        let fileInfos = sort_key wi_CreatedAt (collect_infos wd currentFile files);
            toDelete = count_marks cfg fileInfos @ age_marks cfg (rw_now wd) fileInfos @ seq_marks cfg fileInfos;
            r = remove_marked (rw_rmFails wd) toDelete fileInfos 0 files
        in (Inr (fst r), snd r))"

section \<open>What is kept\<close>

lemma bounds_loop_entries:
  assumes "list_all append_ok es"
  shows "\<exists>ct. bounds_loop lo hi (reader_at (log_image es @ rest) c) =
    bounds_loop (fold (\<lambda>e m. if we_seq e < m then we_seq e else m) (map append_entry es) lo)
      (fold (\<lambda>e m. if we_seq e > m then we_seq e else m) (map append_entry es) hi) (reader_at rest ct)"
  using assms
proof (induction es arbitrary: c lo hi)
  case Nil
  then show ?case by auto
next
  case (Cons a es)
  have ok: "append_ok a" using Cons.prems by simp
  obtain ct where "ReadEntry (reader_at (log_image (a # es) @ rest) c) = (Inr (append_entry a), reader_at (log_image es @ rest) ct)"
    using ReadEntry_image [OF ok, of "log_image es @ rest" c] log_image_Cons [of a es rest] by auto
  then have "bounds_loop lo hi (reader_at (log_image (a # es) @ rest) c) =
      bounds_loop (if we_seq (append_entry a) < lo then we_seq (append_entry a) else lo)
        (if we_seq (append_entry a) > hi then we_seq (append_entry a) else hi) (reader_at (log_image es @ rest) ct)"
    by (subst bounds_loop.simps) simp
  with Cons.IH Cons.prems show ?case by simp
qed

lemma bounds_loop_image:
  assumes "list_all append_ok es"
  shows "bounds_loop lo hi (reader_at (log_image es) c) =
    Some (fold (\<lambda>e m. if we_seq e < m then we_seq e else m) (map append_entry es) lo,
     fold (\<lambda>e m. if we_seq e > m then we_seq e else m) (map append_entry es) hi)"
  using bounds_loop_entries [OF assms, of lo hi "[]" c] by (auto simp: bounds_loop.simps [of _ _ "reader_at [] _"] ReadEntry_empty)

lemma image_no_panic:
  assumes "\<And>f. f \<in> set files \<Longrightarrow> \<exists>es. wf_content f = log_image es \<and> list_all append_ok es"
  shows "\<not> scan_panics wd currentFile files"
proof -
  have "getSequenceBounds b (log_image es) \<noteq> None" if "list_all append_ok es" for b es
    using bounds_loop_image [OF that, of max_u64 0 0] by (simp add: getSequenceBounds_def reader_at_def OpenReader_def)
  with assms show ?thesis
    by (auto simp: scan_panics_def scanned_files_def list_ex_iff) (metis option.distinct(1))
qed

lemma fold_max_ge: "(hi :: u64) \<le> fold (\<lambda>e m. if f e > m then f e else m) es hi"
  by (induction es arbitrary: hi) (auto intro: order_trans less_imp_le)

lemma fold_max_bound: "e \<in> set es \<Longrightarrow> f e \<le> fold (\<lambda>e m. if f e > m then f e else m) es (hi :: u64)"
proof (induction es arbitrary: hi)
  case (Cons x es)
  show ?case
  proof (cases "e = x")
    case True
    have "f x \<le> (if f x > hi then f x else hi)" by (simp add: not_less)
    also have "\<dots> \<le> fold (\<lambda>e m. if f e > m then f e else m) es (if f x > hi then f x else hi)" by (rule fold_max_ge)
    finally show ?thesis using True by simp
  qed (use Cons in simp)
qed simp

text \<open>The upper bound of an intact file is at least the number of each of its entries, also when the bounds are unknown.\<close>

lemma file_info_bound:
  assumes "wf_content f = log_image es" "list_all append_ok es" "a \<in> set es"
  shows "we_seq (append_entry a) \<le> wi_MaxSeq (file_info wd f)"
proof -
  have top: "x \<le> max_u64" for x :: u64 by (simp add: max_u64_def)
  have "we_seq (append_entry a) \<le> fold (\<lambda>e m. if we_seq e > m then we_seq e else m) (map append_entry es) 0"
    by (rule fold_max_bound) (use assms(3) in simp)
  then show ?thesis
    using bounds_loop_image [OF assms(2), of max_u64 0 0] top
    by (auto simp: file_info_def getSequenceBounds_def assms(1) Let_def)
qed

lemma remove_marked_sub: "set (snd (remove_marked rm del fis n files)) \<subseteq> set files"
proof (induction fis arbitrary: n files)
  case (Cons fi fis)
  from Cons.IH [of "Suc n" "filter (\<lambda>f. wf_name f \<noteq> wi_Path fi) files"] Cons.IH [of n files] show ?case by auto
qed simp

lemma remove_marked_keeps:
  "f \<in> set files \<Longrightarrow> wf_name f \<notin> set (map wi_Path fis) \<inter> set del \<Longrightarrow> f \<in> set (snd (remove_marked rm del fis n files))"
proof (induction fis arbitrary: n files)
  case (Cons fi fis)
  from Cons.IH [of "filter (\<lambda>f. wf_name f \<noteq> wi_Path fi) files" "Suc n"] Cons.IH [of files n] Cons.prems
  show ?case by (cases "wf_name f = wi_Path fi") auto
qed simp

lemma remove_marked_count:
  assumes "distinct (map wf_name files)" "distinct (map wi_Path fis)" "set (map wi_Path fis) \<subseteq> set (map wf_name files)"
  shows "fst (remove_marked rm del fis n files) + length (snd (remove_marked rm del fis n files)) = n + length files"
  using assms
proof (induction fis arbitrary: n files)
  case (Cons fi fis)
  let ?rest = "filter (\<lambda>f. wf_name f \<noteq> wi_Path fi) files"
  have "length (filter (\<lambda>f. wf_name f = wi_Path fi) files) = 1"
  proof -
    obtain f where f: "f \<in> set files" "wf_name f = wi_Path fi" using Cons.prems(3) by auto
    then have "filter (\<lambda>g. wf_name g = wi_Path fi) files = [f]"
      using Cons.prems(1)
    proof (induction files)
      case (Cons g gs)
      then show ?case by (cases "wf_name g = wi_Path fi") (auto simp: filter_empty_conv image_iff)
    qed simp
    then show ?thesis by simp
  qed
  then have len: "Suc (length ?rest) = length files"
    using sum_length_filter_compl [of "\<lambda>f. wf_name f = wi_Path fi" files] by simp
  have dist: "distinct (map wf_name ?rest)" using Cons.prems(1) by (rule distinct_map_filter)
  have sub: "set (map wi_Path fis) \<subseteq> set (map wf_name ?rest)"
  proof
    fix p
    assume p: "p \<in> set (map wi_Path fis)"
    then have "p \<noteq> wi_Path fi" using Cons.prems(2) by (metis distinct.simps(2) list.simps(9))
    moreover have "p \<in> set (map wf_name files)" using Cons.prems(3) p by auto
    ultimately show "p \<in> set (map wf_name ?rest)" by auto
  qed
  from Cons.IH [OF dist _ sub, of "Suc n"] Cons.IH [of files n] Cons.prems len show ?case by auto
qed simp

text \<open>
  C40: retention by sequence number, for files that hold whole entries only (what \<open>Append\<close>,
  \<open>AppendWithSequence\<close> and \<open>Batch.Write\<close> log; a file with a batch of \<open>AppendBatch\<close> is excluded, see
  \<open>retention_drops_batch\<close>). When \<open>ManageRetention\<close> succeeds it has not touched the current log file or the
  content of a file, its result is the number of files that are gone, and when neither a number nor
  an age is configured every such file with an entry numbered at or above \<open>MinSequenceKeep\<close> is still
  there, also when files cannot be opened. (An entry of \<open>Batch.Write\<close> counts with its first number.)
\<close>

theorem retention_keeps_needed:
  assumes "ManageRetention cfg wd currentFile files w = (Inr n, files')" "distinct (map wf_name files)"
  shows "set files' \<subseteq> set files \<and> n + length files' = length files \<and>
    (\<forall>f. f \<in> set files \<and> wf_name f = currentFile \<longrightarrow> f \<in> set files') \<and>
    (\<forall>f es a. MaxFileCount cfg \<le> 0 \<and> MaxAge cfg \<le> 0 \<and> f \<in> set files \<and> wf_content f = log_image es \<and> list_all append_ok es \<and>
       a \<in> set es \<and> MinSequenceKeep cfg \<le> we_seq (append_entry a) \<longrightarrow> f \<in> set files')"
proof (cases "length files \<le> 1")
  case True
  then have "files' = files \<and> n = 0" using assms(1) by (auto simp: ManageRetention_def split: if_splits)
  then show ?thesis by simp
next
  case False
  let ?infos = "sort_key wi_CreatedAt (collect_infos wd currentFile files)"
  let ?del = "count_marks cfg ?infos @ age_marks cfg (rw_now wd) ?infos @ seq_marks cfg ?infos"
  let ?r = "remove_marked (rw_rmFails wd) ?del ?infos 0 files"
  have r: "n = fst ?r" "files' = snd ?r"
    using assms(1) False by (auto simp: ManageRetention_def Let_def split: if_splits)
  have paths: "map wi_Path (collect_infos wd currentFile files) =
      map wf_name (filter (\<lambda>f. wf_name f \<noteq> currentFile \<and> \<not> rw_statFails wd (wf_name f)) files)"
    by (simp add: collect_infos_def scanned_files_def file_info_def comp_def Let_def)
  have "set (map wi_Path ?infos) = set (map wi_Path (collect_infos wd currentFile files))" by simp
  then have p: "set (map wi_Path ?infos) \<subseteq> set (map wf_name files) - {currentFile}" unfolding paths by auto
  have "distinct (map wi_Path (collect_infos wd currentFile files))" unfolding paths using assms(2) by (rule distinct_map_filter)
  then have d: "distinct (map wi_Path ?infos)"
    by (simp add: distinct_map)
  have count: "n + length files' = length files"
    using remove_marked_count [OF assms(2) d, of "rw_rmFails wd" ?del 0] p r by auto
  have current: "f \<in> set files'" if "f \<in> set files" "wf_name f = currentFile" for f
    unfolding r by (rule remove_marked_keeps) (use that p in auto)
  have needed: "f \<in> set files'"
    if f: "MaxFileCount cfg \<le> 0" "MaxAge cfg \<le> 0" "f \<in> set files" "wf_content f = log_image es" "list_all append_ok es"
      "a \<in> set es" "MinSequenceKeep cfg \<le> we_seq (append_entry a)" for f es a
  proof -
    have inj: "g = f" if "g \<in> set files" "wf_name g = wf_name f" for g
      using assms(2) f(3) that by (metis distinct_map inj_onD)
    have "wf_name f \<notin> set ?del"
    proof
      assume "wf_name f \<in> set ?del"
      then obtain fi where fi: "fi \<in> set (collect_infos wd currentFile files)" "wi_Path fi = wf_name f" "wi_MaxSeq fi < MinSequenceKeep cfg"
        using f(1,2) by (auto simp: count_marks_def age_marks_def seq_marks_def split: if_splits)
      then obtain g where "g \<in> set files" "fi = file_info wd g" by (auto simp: collect_infos_def scanned_files_def)
      moreover from this fi(2) have "g = f" by (intro inj) (simp_all add: file_info_def Let_def)
      ultimately show False using file_info_bound [OF f(4-6), of wd] f(7) fi(3) by simp
    qed
    then show ?thesis unfolding r by (intro remove_marked_keeps) (use f(3) in auto)
  qed
  show ?thesis using remove_marked_sub [of "rw_rmFails wd" ?del ?infos 0 files] r count current needed by blast
qed

definition sample_retention :: retention_world where
  "sample_retention = \<lparr>rw_now = 100, rw_globFails = False, rw_statFails = (\<lambda>_. False), rw_statBase = (\<lambda>_. None),
     rw_openFails = (\<lambda>_. False), rw_rmFails = (\<lambda>_. False)\<rparr>"

theorem retention_keeps_needed_witness:
  "\<exists>n files'. ManageRetention \<lparr>MaxFileCount = 0, MaxAge = 0, MinSequenceKeep = 3\<rparr> sample_retention ''2.wal''
      [\<lparr>wf_name = ''1.wal'', wf_content = log_image [(OpTypePut, 5, [107], Some [1])]\<rparr>, \<lparr>wf_name = ''2.wal'', wf_content = []\<rparr>]
      (NewWAL (NewDefaultConfig ''wal'' ''sst'') None) = (Inr n, files') \<and>
    \<lparr>wf_name = ''1.wal'', wf_content = log_image [(OpTypePut, 5, [107], Some [1])]\<rparr> \<in> set files'"
proof -
  let ?cfg = "\<lparr>MaxFileCount = 0, MaxAge = 0, MinSequenceKeep = 3\<rparr>"
  let ?f = "\<lparr>wf_name = ''1.wal'', wf_content = log_image [(OpTypePut, 5, [107], Some [1])]\<rparr>"
  let ?files = "[?f, \<lparr>wf_name = ''2.wal'', wf_content = []\<rparr>]" and ?w = "NewWAL (NewDefaultConfig ''wal'' ''sst'') None"
  have ok: "list_all append_ok [(OpTypePut, 5, [107], Some [1])]"
    by (simp add: append_ok_def valid_entry_type_def valid_append_type_def fits_u32_def OpTypePut_def bytes_of_def)
  have "\<not> scan_panics sample_retention ''2.wal'' ?files"
  proof (rule image_no_panic)
    fix f
    assume "f \<in> set ?files"
    then have "wf_content f = log_image [(OpTypePut, 5, [107], Some [1])] \<or> wf_content f = log_image []" by auto
    with ok show "\<exists>es. wf_content f = log_image es \<and> list_all append_ok es" by (metis list.pred_inject(1))
  qed
  then obtain n files' where r: "ManageRetention ?cfg sample_retention ''2.wal'' ?files ?w = (Inr n, files')"
    by (simp add: ManageRetention_def NewWAL_def sample_retention_def Let_def)
  note ok
  moreover have "MinSequenceKeep ?cfg \<le> we_seq (append_entry (OpTypePut, 5, [107], Some [1]))"
    by (simp add: append_entry_def logged_entry_def)
  moreover have "distinct (map wf_name ?files)" by simp
  ultimately have "?f \<in> set files'" using retention_keeps_needed [OF r] by (metis retention_config.select_convs(1,2) order_refl
      list.set_intros(1) wal_file.select_convs(2))
  then show ?thesis using r by blast
qed

text \<open>A marked file whose removal does not fail is gone.\<close>

lemma remove_marked_gone:
  assumes "wf_name f \<in> set (map wi_Path fis)" "wf_name f \<in> set del" "\<not> rm (wf_name f)"
  shows "f \<notin> set (snd (remove_marked rm del fis n fs))"
  using assms
proof (induction fis arbitrary: n fs)
  case (Cons fi fis)
  show ?case
  proof (cases "wf_name f = wi_Path fi")
    case True
    then have "f \<notin> set (filter (\<lambda>g. wf_name g \<noteq> wi_Path fi) fs)" by simp
    then have "f \<notin> set (snd (remove_marked rm del fis (Suc n) (filter (\<lambda>g. wf_name g \<noteq> wi_Path fi) fs)))"
      using remove_marked_sub [of rm del fis "Suc n" "filter (\<lambda>g. wf_name g \<noteq> wi_Path fi) fs"] by blast
    then show ?thesis using True Cons.prems by simp
  qed (use Cons in auto)
qed simp

lemma collected:
  assumes "f \<in> set files" "wf_name f \<noteq> currentFile" "\<not> rw_statFails wd (wf_name f)"
  shows "file_info wd f \<in> set (collect_infos wd currentFile files)" "wi_Path (file_info wd f) = wf_name f"
  using assms by (auto simp: collect_infos_def scanned_files_def file_info_def Let_def)

text \<open>
  Counting files overrides the sequence numbers: with \<open>MaxFileCount\<close> 1 every file but the current one is removed.
\<close>

lemma retention_by_count:
  assumes "MaxFileCount cfg = 1" "w_status w \<noteq> WALStatusClosed" "\<not> rw_globFails wd" "1 < length files"
    and "f \<in> set files" "wf_name f \<noteq> currentFile" "\<not> rw_statFails wd (wf_name f)" "\<not> rw_rmFails wd (wf_name f)"
    and "\<not> scan_panics wd currentFile files"
  shows "f \<notin> set (snd (ManageRetention cfg wd currentFile files w))"
proof -
  have "wf_name f \<in> set (map wi_Path (collect_infos wd currentFile files))"
    using collected [OF assms(5-7)] by (metis image_eqI set_map)
  then show ?thesis using assms(1-4,8,9) remove_marked_gone by (simp add: ManageRetention_def count_marks_def Let_def)
qed

text \<open>
  A file with a batch of \<open>AppendBatch\<close> is not protected: the scan for the bounds stops at the batch
  header, so only the entries in front of it count. When these are below \<open>MinSequenceKeep\<close> the file is removed,
  whatever numbers the batch has.
\<close>

lemma retention_drops_batch:
  assumes "AppendBatch batch w0 = (Inr sq, w1)" "batch \<noteq> []" "length batch < 2 ^ 32"
    and "w_stream w0 = log_image es" "list_all append_ok es" "es \<noteq> []"
    and "list_all (\<lambda>a. we_seq (append_entry a) < MinSequenceKeep cfg) es"
    and "w_status w \<noteq> WALStatusClosed" "\<not> rw_globFails wd" "1 < length files" "\<not> scan_panics wd currentFile files"
    and "f \<in> set files" "wf_content f = w_stream w1" "wf_name f \<noteq> currentFile"
    and "\<not> rw_statFails wd (wf_name f)" "\<not> rw_openFails wd (wf_name f)" "\<not> rw_rmFails wd (wf_name f)"
  shows "f \<notin> set (snd (ManageRetention cfg wd currentFile files w))"
proof -
  let ?lo = "fold (\<lambda>e m. if we_seq e < m then we_seq e else m) (map append_entry es) max_u64"
  let ?hi = "fold (\<lambda>e m. if we_seq e > m then we_seq e else m) (map append_entry es) 0"
  obtain a where a: "a \<in> set es" using assms(6) by (cases es) auto
  then have pos: "0 < MinSequenceKeep cfg"
    using assms(7) by (auto simp: list_all_iff word_gt_0)
  have hi: "fold (\<lambda>e m. if we_seq e > m then we_seq e else m) ds h < k"
    if "h < k" "list_all (\<lambda>e. we_seq e < k) ds" for ds and h k :: u64
    using that by (induction ds arbitrary: h) auto
  have lo: "fold (\<lambda>e m. if we_seq e < m then we_seq e else m) ds h \<le> h" for ds and h :: u64
    by (induction ds arbitrary: h) (auto intro: order_trans less_imp_le)
  have below: "?hi < MinSequenceKeep cfg"
    by (rule hi [OF pos]) (use assms(7) in \<open>simp add: list_all_iff\<close>)
  obtain a' es' where es: "es = a' # es'" using assms(6) by (cases es) auto
  have "we_seq (append_entry a') < max_u64"
    using assms(7) es by (auto simp: max_u64_def intro: less_le_trans)
  then have "?lo < max_u64" using lo [of "map append_entry es'" "we_seq (append_entry a')"] by (simp add: es)
  moreover obtain ct where "bounds_loop max_u64 0 (reader_at (log_image es @ record_bytes RecordTypeFull (batch_header sq (length batch)) @
       records_bytes (batch_records sq batch)) 0) = bounds_loop ?lo ?hi (reader_at (record_bytes RecordTypeFull (batch_header sq (length batch)) @
       records_bytes (batch_records sq batch)) ct)"
    using bounds_loop_entries [OF assms(5)] by blast
  moreover have "bounds_loop ?lo ?hi (reader_at (record_bytes RecordTypeFull (batch_header sq (length batch)) @
       records_bytes (batch_records sq batch)) ct) = Some (?lo, ?hi)"
    using assms(2,3) by (subst bounds_loop.simps) (simp add: ReadEntry_batch_header)
  ultimately have "getSequenceBounds False (wf_content f) = Some (Some (?lo, ?hi))"
    using AppendBatch_ok(3) [OF assms(1,2)] assms(4,13) by (simp add: getSequenceBounds_def reader_at_def OpenReader_def)
  then have "wi_MaxSeq (file_info wd f) < MinSequenceKeep cfg"
    using below assms(16) by (simp add: file_info_def Let_def)
  with collected [OF assms(12,14,15)] pos
  have "wf_name f \<in> set (map wi_Path (collect_infos wd currentFile files))"
    "wf_name f \<in> set (seq_marks cfg (sort_key wi_CreatedAt (collect_infos wd currentFile files)))"
    by (auto simp: seq_marks_def image_iff intro: bexI [of _ "file_info wd f"])
  then show ?thesis using assms(8-11,17) remove_marked_gone by (simp add: ManageRetention_def Let_def)
qed

end
