(* ===== verification/Sessions.thy ===== *)
theory Sessions
  imports Tx_Isolation "HOL-Library.AList"
begin

text \<open>
  The registry of client sessions (\<open>src/pkg/sessreg/sessreg.go\<close>, \<open>sessstate.go\<close>, with the identifiers and
  session values of \<open>src/pkg/common/common.go\<close>). The map of sessions is an association list, its order
  one of the orders in which Go may range over it. The state of a session is an object that calls
  hold on to: it lives in a heap under the identifier of its session and survives the session. All
  operations hold \<open>r.mu\<close> and are atomic; they carry the transaction manager along, because closing a
  state rolls its transaction back. \<open>None\<close> is the panic on a closed registry. The clock reading and
  the random identifier are arguments, \<open>sha\<close> is the hexadecimal SHA-512/256 of the crypto library.
\<close>

section \<open>Session states\<close>

record sess_state =
  ss_tx :: "txid option"
  ss_closed :: bool

datatype session_error =
    ErrInvalidSession | ErrSessionWasClosed | ErrSessionNotInUse | ErrSessionExpired | ErrSessionValidationFailed
  | ErrExpiryJobRunning | ErrStateClosed | ErrRandom

definition NewSessionState :: sess_state where
  "NewSessionState = \<lparr>ss_tx = None, ss_closed = False\<rparr>"

definition SessionStateInfo :: "tx_manager \<Rightarrow> sess_state \<Rightarrow> (session_error + tx_info option) option" where
  "SessionStateInfo m s =
     (if ss_closed s then Some (Inl ErrStateClosed)
      else case ss_tx s of None \<Rightarrow> Some (Inr None) | Some t \<Rightarrow> map_option (Inr \<circ> Some) (GetInfo t m))"

definition GetTx :: "sess_state \<Rightarrow> session_error + txid option" where
  "GetTx s = (if ss_closed s then Inl ErrStateClosed else Inr (ss_tx s))"

definition UnsetTx :: "sess_state \<Rightarrow> session_error option \<times> sess_state" where
  "UnsetTx s = (if ss_closed s then (Some ErrStateClosed, s) else (None, s\<lparr>ss_tx := None\<rparr>))"

definition SetTx :: "txid option \<Rightarrow> sess_state \<Rightarrow> session_error option \<times> sess_state" where
  "SetTx tx s = (if ss_closed s then (Some ErrStateClosed, s) else (None, s\<lparr>ss_tx := tx\<rparr>))"

definition IsClosed :: "sess_state \<Rightarrow> bool" where
  "IsClosed s = ss_closed s"

text \<open>\<open>Close\<close> ignores what \<open>Rollback\<close> returns.\<close>

definition state_Close :: "sess_state \<times> tx_manager \<Rightarrow> (sess_state \<times> tx_manager) option" where
  "state_Close sm =
     (case ss_tx (fst sm) of
        None \<Rightarrow> Some ((fst sm)\<lparr>ss_closed := True\<rparr>, snd sm)
      | Some t \<Rightarrow> map_option (\<lambda>(_, m). ((fst sm)\<lparr>ss_closed := True\<rparr>, m)) (Rollback t (snd sm)))"

section \<open>The registry\<close>

record session =
  se_ExpiryTs :: int
  se_ActiveUseCount :: int

record registry =
  rg_sessions :: "(string \<times> session) list"
  rg_states :: "string \<rightharpoonup> sess_state"
  rg_ttl :: int
  rg_autoExpiryDuration :: int
  rg_canceler :: bool
  rg_closed :: bool

type_synonym reg = "registry \<times> tx_manager"

definition NewSessionRegistry :: "int \<Rightarrow> int \<Rightarrow> registry" where
  "NewSessionRegistry ttl autoExpiryDuration =
     \<lparr>rg_sessions = [], rg_states = Map.empty, rg_ttl = ttl, rg_autoExpiryDuration = autoExpiryDuration,
      rg_canceler = False, rg_closed = False\<rparr>"

definition NewSessionRegistryWithDefaults :: registry where
  "NewSessionRegistryWithDefaults = NewSessionRegistry (10 * 10 ^ 9) (30 * 10 ^ 9)"

definition CreateSessionValue :: "(string \<Rightarrow> string) \<Rightarrow> string \<Rightarrow> string \<Rightarrow> string" where
  "CreateSessionValue sha secret sessionId = sha (secret @ sessionId)"

definition CompareSessionValues :: "string \<Rightarrow> string \<Rightarrow> bool" where
  "CompareSessionValues a b \<longleftrightarrow> a = b"

text \<open>\<open>time.Now().UnixNano() + int64(r.ttl)\<close> wraps around in \<open>int64\<close>.\<close>

definition i64 :: "int \<Rightarrow> int" where
  "i64 n = (n + 2 ^ 63) mod 2 ^ 64 - 2 ^ 63"

definition session_of :: "string \<Rightarrow> registry \<Rightarrow> session option" where
  "session_of sid r = map_of (rg_sessions r) sid"

definition set_session :: "string \<Rightarrow> session \<Rightarrow> registry \<Rightarrow> registry" where
  "set_session sid s r = r\<lparr>rg_sessions := AList.update sid s (rg_sessions r)\<rparr>"

definition state_closed :: "string \<Rightarrow> registry \<Rightarrow> bool" where
  "state_closed sid r = (case rg_states r sid of None \<Rightarrow> False | Some s \<Rightarrow> IsClosed s)"

definition close_state :: "string \<Rightarrow> reg \<Rightarrow> reg option" where
  "close_state sid rm =
     (case rg_states (fst rm) sid of
        None \<Rightarrow> None
      | Some s \<Rightarrow> map_option (\<lambda>(s', m). ((fst rm)\<lparr>rg_states := (rg_states (fst rm))(sid \<mapsto> s')\<rparr>, m)) (state_Close (s, snd rm)))"

definition removeLocked :: "string \<Rightarrow> reg \<Rightarrow> reg option" where
  "removeLocked sid rm =
     (if rg_closed (fst rm) then None
      else case session_of sid (fst rm) of
             None \<Rightarrow> Some rm
           | Some _ \<Rightarrow> map_option (apfst (\<lambda>r. r\<lparr>rg_sessions := AList.delete sid (rg_sessions r)\<rparr>)) (close_state sid rm))"

definition renewSessionLocked :: "int \<Rightarrow> string \<Rightarrow> reg \<Rightarrow> (session_error option \<times> reg) option" where
  "renewSessionLocked ts sid rm =
     (if rg_closed (fst rm) then None
      else case session_of sid (fst rm) of
             None \<Rightarrow> Some (Some ErrInvalidSession, rm)
           | Some sess \<Rightarrow>
               if se_ActiveUseCount sess = 0 then
                 if ts \<ge> se_ExpiryTs sess then map_option (Pair (Some ErrSessionExpired)) (removeLocked sid rm)
                 else Some (None, apfst (set_session sid (sess\<lparr>se_ExpiryTs := i64 (ts + rg_ttl (fst rm))\<rparr>)) rm)
               else Some (None, rm))"

definition CreateSession ::
  "(string \<Rightarrow> string) \<Rightarrow> string option \<Rightarrow> int \<Rightarrow> string \<Rightarrow> reg \<Rightarrow> ((session_error + string \<times> string) \<times> reg) option" where
  "CreateSession sha random ts secret rm =
     (if rg_closed (fst rm) then None
      else case random of
             None \<Rightarrow> Some (Inl ErrRandom, rm)
           | Some sid \<Rightarrow>
               Some (Inr (sid, CreateSessionValue sha secret sid),
                 apfst (\<lambda>r. (set_session sid \<lparr>se_ExpiryTs = i64 (ts + rg_ttl r), se_ActiveUseCount = 0\<rparr> r)
                               \<lparr>rg_states := (rg_states r)(sid \<mapsto> NewSessionState)\<rparr>) rm))"

definition RenewSession :: "int \<Rightarrow> string \<Rightarrow> reg \<Rightarrow> (session_error option \<times> reg) option" where
  "RenewSession ts sid rm = (if rg_closed (fst rm) then None else renewSessionLocked ts sid rm)"

definition reg_Remove :: "string \<Rightarrow> reg \<Rightarrow> reg option" where
  "reg_Remove sid rm = (if rg_closed (fst rm) then None else removeLocked sid rm)"

definition VerifySession ::
  "(string \<Rightarrow> string) \<Rightarrow> int \<Rightarrow> string \<Rightarrow> string \<Rightarrow> string \<Rightarrow> reg \<Rightarrow> (session_error option \<times> reg) option" where
  "VerifySession sha ts sid sessionValue secret rm =
     (if rg_closed (fst rm) then None
      else if \<not> CompareSessionValues sessionValue (CreateSessionValue sha secret sid) then Some (Some ErrSessionValidationFailed, rm)
      else if session_of sid (fst rm) = None then Some (Some ErrInvalidSession, rm)
      else renewSessionLocked ts sid rm)"

definition StartAutoExpiry :: "registry \<Rightarrow> (session_error option \<times> registry) option" where
  "StartAutoExpiry r =
     (if rg_closed r then None
      else if rg_canceler r then Some (Some ErrExpiryJobRunning, r)
      else Some (None, r\<lparr>rg_canceler := True\<rparr>))"

text \<open>One tick of the expiry goroutine: the loop over the sessions under \<open>r.mu\<close>.\<close>

definition expired :: "int \<Rightarrow> session \<Rightarrow> bool" where
  "expired currentTs s \<longleftrightarrow> \<not> se_ActiveUseCount s > 0 \<and> se_ExpiryTs s \<le> currentTs"

fun expiry_loop :: "int \<Rightarrow> (string \<times> session) list \<Rightarrow> reg \<Rightarrow> reg option" where
  "expiry_loop currentTs [] rm = Some rm"
| "expiry_loop currentTs ((sid, sess) # rest) rm =
     (if expired currentTs sess
      then (case removeLocked sid rm of None \<Rightarrow> None | Some rm' \<Rightarrow> expiry_loop currentTs rest rm')
      else expiry_loop currentTs rest rm)"

definition expiry_tick :: "int \<Rightarrow> reg \<Rightarrow> reg option" where
  "expiry_tick currentTs rm =
     (if rg_closed (fst rm) then None else expiry_loop currentTs (rg_sessions (fst rm)) rm)"

definition stopAutoExpiryLocked :: "registry \<Rightarrow> registry" where
  "stopAutoExpiryLocked r = (if rg_canceler r then r\<lparr>rg_canceler := False\<rparr> else r)"

definition StopAutoExpiry :: "registry \<Rightarrow> registry option" where
  "StopAutoExpiry r = (if rg_closed r then None else Some (stopAutoExpiryLocked r))"

fun close_all :: "(string \<times> session) list \<Rightarrow> reg \<Rightarrow> reg option" where
  "close_all [] rm = Some rm"
| "close_all ((sid, _) # rest) rm =
     (case (if state_closed sid (fst rm) then Some rm else close_state sid rm) of
        None \<Rightarrow> None
      | Some rm' \<Rightarrow> close_all rest rm')"

definition reg_Close :: "reg \<Rightarrow> reg option" where
  "reg_Close rm =
     (if rg_closed (fst rm) then None
      else map_option (apfst (\<lambda>r. r\<lparr>rg_sessions := [], rg_closed := True\<rparr>))
             (close_all (rg_sessions (fst rm)) (apfst stopAutoExpiryLocked rm)))"

definition ActiveUseCount :: "int \<Rightarrow> string \<Rightarrow> reg \<Rightarrow> ((session_error + int) \<times> reg) option" where
  "ActiveUseCount ts sid rm =
     (if rg_closed (fst rm) then None
      else case renewSessionLocked ts sid rm of
             None \<Rightarrow> None
           | Some (Some err, rm') \<Rightarrow> Some (Inl err, rm')
           | Some (None, rm') \<Rightarrow>
               Some (case session_of sid (fst rm') of Some s \<Rightarrow> Inr (se_ActiveUseCount s) | None \<Rightarrow> Inl ErrInvalidSession, rm'))"

definition GetSessionInfo :: "string \<Rightarrow> reg \<Rightarrow> ((session_error + tx_info option) \<times> reg) option" where
  "GetSessionInfo sid rm =
     (if rg_closed (fst rm) then None
      else case session_of sid (fst rm) of
             None \<Rightarrow> Some (Inl ErrInvalidSession, rm)
           | Some _ \<Rightarrow>
               if state_closed sid (fst rm) then map_option (Pair (Inl ErrSessionWasClosed)) (removeLocked sid rm)
               else (case rg_states (fst rm) sid of
                       None \<Rightarrow> None
                     | Some s \<Rightarrow> map_option (\<lambda>i. (i, rm)) (SessionStateInfo (snd rm) s)))"

text \<open>The state that \<open>IncActiveUseCount\<close> returns is the one under the identifier of the session.\<close>

definition IncActiveUseCount :: "int \<Rightarrow> string \<Rightarrow> reg \<Rightarrow> (session_error option \<times> reg) option" where
  "IncActiveUseCount ts sid rm =
     (if rg_closed (fst rm) then None
      else case session_of sid (fst rm) of
             None \<Rightarrow> Some (Some ErrInvalidSession, rm)
           | Some sess \<Rightarrow>
               if state_closed sid (fst rm) then map_option (Pair (Some ErrSessionWasClosed)) (removeLocked sid rm)
               else (case (if se_ActiveUseCount sess = 0 then renewSessionLocked ts sid rm else Some (None, rm)) of
                       None \<Rightarrow> None
                     | Some (Some err, rm') \<Rightarrow> Some (Some err, rm')
                     | Some (None, rm') \<Rightarrow>
                         (case session_of sid (fst rm') of
                            None \<Rightarrow> None
                          | Some s \<Rightarrow>
                              Some (None, apfst (set_session sid (s\<lparr>se_ActiveUseCount := se_ActiveUseCount s + 1\<rparr>)) rm'))))"

definition DecActiveUseCount :: "int \<Rightarrow> string \<Rightarrow> reg \<Rightarrow> (session_error option \<times> reg) option" where
  "DecActiveUseCount ts sid rm =
     (if rg_closed (fst rm) then None
      else case session_of sid (fst rm) of
             None \<Rightarrow> Some (Some ErrInvalidSession, rm)
           | Some sess \<Rightarrow>
               if state_closed sid (fst rm) then map_option (Pair None) (removeLocked sid rm)
               else if se_ActiveUseCount sess = 0 then Some (Some ErrSessionNotInUse, rm)
               else
                 let n = (if se_ActiveUseCount sess > 0 then se_ActiveUseCount sess - 1 else se_ActiveUseCount sess);
                     s1 = sess\<lparr>se_ActiveUseCount := n\<rparr>;
                     s2 = (if n = 0 then s1\<lparr>se_ExpiryTs := i64 (ts + rg_ttl (fst rm))\<rparr> else s1)
                 in Some (None, apfst (set_session sid s2) rm))"

definition on_state :: "string \<Rightarrow> (sess_state \<Rightarrow> session_error option \<times> sess_state) \<Rightarrow> registry \<Rightarrow> registry" where
  "on_state sid f r = (case rg_states r sid of None \<Rightarrow> r | Some s \<Rightarrow> r\<lparr>rg_states := (rg_states r)(sid \<mapsto> snd (f s))\<rparr>)"

end
