(* ===== verification/Sessions_Correct.thy ===== *)
theory Sessions_Correct
  imports Sessions
begin

text \<open>
  What the registry promises to the calls that use a session: it stays as long as one of them holds it
  (\<open>session_in_use_survives\<close>, for every interleaving), and once it has expired its transaction ends, so
  that the locks of a client that went away are released (\<open>expiry_ends_transactions\<close>).
\<close>

section \<open>Removing a session\<close>

lemma session_of_set [simp]: "session_of sid' (set_session sid s r) = (if sid' = sid then Some s else session_of sid' r)"
  by (simp add: session_of_def set_session_def AList.update_conv')

lemma set_session_fields [simp]: "rg_states (set_session sid s r) = rg_states r" "rg_closed (set_session sid s r) = rg_closed r"
  by (simp_all add: set_session_def)

lemma set_session_distinct: "distinct (map fst (rg_sessions r)) \<Longrightarrow> distinct (map fst (rg_sessions (set_session sid s r)))"
  by (simp add: set_session_def AList.distinct_update)

lemma removeLocked_shape:
  assumes "removeLocked sid (r, m) = Some (r', m')"
  obtains (absent) "session_of sid r = None" "r' = r" "m' = m"
  | (removed) s st st' where "session_of sid r = Some s" "rg_states r sid = Some st" "state_Close (st, m) = Some (st', m')"
      "r' = r\<lparr>rg_states := (rg_states r)(sid \<mapsto> st'), rg_sessions := AList.delete sid (rg_sessions r)\<rparr>"
  using assms by (auto simp: removeLocked_def close_state_def split: if_splits option.splits)

lemma removeLocked_lookup:
  assumes "removeLocked sid (r, m) = Some (r', m')"
  shows "session_of sid' r' = (if sid' = sid then None else session_of sid' r)"
  using assms by (cases rule: removeLocked_shape) (auto simp: session_of_def AList.delete_conv')

text \<open>\<open>h\<close> counts the calls that hold a session. The session \<open>kept\<close> is the one nobody removes by force.\<close>

definition reg_inv :: "string \<Rightarrow> registry \<Rightarrow> (string \<Rightarrow> nat) \<Rightarrow> bool" where
  "reg_inv kept r h \<longleftrightarrow> distinct (map fst (rg_sessions r)) \<and>
     (\<forall>sid s. session_of sid r = Some s \<longrightarrow>
        se_ActiveUseCount s = int (h sid) \<and> (\<exists>st. rg_states r sid = Some st \<and> \<not> ss_closed st)) \<and>
     (\<forall>sid. h sid > 0 \<longrightarrow> rg_states r sid \<noteq> None) \<and> (h kept > 0 \<longrightarrow> session_of kept r \<noteq> None)"

lemma reg_invD:
  assumes "reg_inv kept r h"
  shows "distinct (map fst (rg_sessions r))" "session_of sid r = Some s \<Longrightarrow> se_ActiveUseCount s = int (h sid)"
    "session_of sid r = Some s \<Longrightarrow> \<exists>st. rg_states r sid = Some st \<and> \<not> ss_closed st"
    "h sid > 0 \<Longrightarrow> rg_states r sid \<noteq> None" "h kept > 0 \<Longrightarrow> session_of kept r \<noteq> None"
  using assms by (auto simp: reg_inv_def)

lemma reg_inv_remove:
  assumes "reg_inv kept r h" "removeLocked sid (r, m) = Some (r', m')" "sid = kept \<Longrightarrow> h sid = 0"
  shows "reg_inv kept r' h"
  using assms(2)
proof (cases rule: removeLocked_shape)
  case absent
  then show ?thesis using assms(1) by simp
next
  case (removed s st st')
  note look = removeLocked_lookup [OF assms(2)]
  have d: "distinct (map fst (rg_sessions r'))" using reg_invD(1) [OF assms(1)] unfolding removed(4) by (simp add: AList.distinct_delete)
  have st: "rg_states r' = (rg_states r)(sid \<mapsto> st')" unfolding removed(4) by simp
  show ?thesis unfolding reg_inv_def look st using d assms(1,3) by (auto simp: reg_inv_def)
qed

lemma reg_inv_set:
  assumes "reg_inv kept r h" "session_of sid r = Some s" "se_ActiveUseCount s' = int n"
  shows "reg_inv kept (set_session sid s' r) (h(sid := n))"
proof -
  obtain st where "rg_states r sid = Some st" "\<not> ss_closed st" using reg_invD(3) [OF assms(1,2)] by blast
  then show ?thesis
    using assms set_session_distinct [OF reg_invD(1) [OF assms(1)], of sid s'] by (auto simp: reg_inv_def)
qed

lemma reg_inv_renew:
  assumes "reg_inv kept r h" "renewSessionLocked ts sid (r, m) = Some (e, r', m')"
  shows "reg_inv kept r' h" "e = None \<Longrightarrow> session_of sid r' \<noteq> None \<and> rg_closed r' = rg_closed r"
proof -
  obtain s where s: "session_of sid r = Some s \<or> session_of sid r = None \<and> r' = r \<and> e \<noteq> None"
    using assms(2) by (auto simp: renewSessionLocked_def split: option.splits if_splits)
  have "reg_inv kept r' h \<and> (e = None \<longrightarrow> session_of sid r' \<noteq> None \<and> rg_closed r' = rg_closed r)"
  proof (cases "session_of sid r")
    case None
    then show ?thesis using s assms(1) by auto
  next
    case (Some s)
    note cnt = reg_invD(2) [OF assms(1) Some]
    show ?thesis
    proof (cases "se_ActiveUseCount s = 0 \<and> ts \<ge> se_ExpiryTs s")
      case True
      then have rm: "removeLocked sid (r, m) = Some (r', m')" "e = Some ErrSessionExpired" "h sid = 0"
        using assms(2) Some cnt by (auto simp: renewSessionLocked_def split: if_splits)
      then show ?thesis using reg_inv_remove [OF assms(1) rm(1)] by auto
    next
      case False
      let ?s = "s\<lparr>se_ExpiryTs := i64 (ts + rg_ttl r)\<rparr>"
      have "r' = set_session sid ?s r \<or> r' = r" using assms(2) Some False by (auto simp: renewSessionLocked_def split: if_splits)
      moreover have "reg_inv kept (set_session sid ?s r) h"
        using reg_inv_set [OF assms(1) Some, of ?s "h sid"] cnt by simp
      ultimately show ?thesis using assms(1) Some by auto
    qed
  qed
  then show "reg_inv kept r' h" "e = None \<Longrightarrow> session_of sid r' \<noteq> None \<and> rg_closed r' = rg_closed r" by auto
qed

section \<open>Interleavings\<close>

inductive sess_step :: "string \<Rightarrow> reg \<times> (string \<Rightarrow> nat) \<Rightarrow> reg \<times> (string \<Rightarrow> nat) \<Rightarrow> bool" for kept where
  create: "CreateSession sha (Some sid) ts secret rm = Some (v, rm') \<Longrightarrow> rg_states (fst rm) sid = None \<Longrightarrow>
    sess_step kept (rm, h) (rm', h)"
| renew: "RenewSession ts sid rm = Some (e, rm') \<Longrightarrow> sess_step kept (rm, h) (rm', h)"
| verify: "VerifySession sha ts sid val secret rm = Some (e, rm') \<Longrightarrow> sess_step kept (rm, h) (rm', h)"
| use_count: "ActiveUseCount ts sid rm = Some (n, rm') \<Longrightarrow> sess_step kept (rm, h) (rm', h)"
| info: "GetSessionInfo sid rm = Some (i, rm') \<Longrightarrow> sess_step kept (rm, h) (rm', h)"
| hold: "IncActiveUseCount ts sid rm = Some (e, rm') \<Longrightarrow>
    sess_step kept (rm, h) (rm', if e = None then h(sid := Suc (h sid)) else h)"
| release: "h sid > 0 \<Longrightarrow> DecActiveUseCount ts sid rm = Some (e, rm') \<Longrightarrow> sess_step kept (rm, h) (rm', h(sid := h sid - 1))"
| remove: "sid \<noteq> kept \<Longrightarrow> reg_Remove sid rm = Some rm' \<Longrightarrow> sess_step kept (rm, h) (rm', h)"
| tick: "expiry_tick ts rm = Some rm' \<Longrightarrow> sess_step kept (rm, h) (rm', h)"
| start: "StartAutoExpiry r = Some (e, r') \<Longrightarrow> sess_step kept ((r, m), h) ((r', m), h)"
| stop: "StopAutoExpiry r = Some r' \<Longrightarrow> sess_step kept ((r, m), h) ((r', m), h)"
| set_tx: "sess_step kept ((r, m), h) ((on_state sid (SetTx tx) r, m), h)"
| unset_tx: "sess_step kept ((r, m), h) ((on_state sid UnsetTx r, m), h)"
| engine: "tx_step m m' \<Longrightarrow> sess_step kept ((r, m), h) ((r, m'), h)"

lemma reg_inv_create:
  assumes "reg_inv kept r h" "CreateSession sha (Some sid) ts secret (r, m) = Some (v, r', m')" "rg_states r sid = None"
  shows "reg_inv kept r' h"
proof -
  let ?s = "\<lparr>se_ExpiryTs = i64 (ts + rg_ttl r), se_ActiveUseCount = 0\<rparr>"
  have r': "r' = (set_session sid ?s r)\<lparr>rg_states := (rg_states r)(sid \<mapsto> NewSessionState)\<rparr>"
    using assms(2) by (auto simp: CreateSession_def split: if_splits)
  have "h sid = 0" using reg_invD(4) [OF assms(1), of sid] assms(3) by auto
  have look: "session_of sid' r' = (if sid' = sid then Some ?s else session_of sid' r)" for sid'
    using session_of_set [of sid' sid ?s r] by (simp add: r' session_of_def)
  have "distinct (map fst (rg_sessions r'))" using set_session_distinct reg_invD(1) [OF assms(1)] by (simp add: r')
  then show ?thesis
    unfolding reg_inv_def look using assms(1) \<open>h sid = 0\<close> by (auto simp: reg_inv_def r' NewSessionState_def)
qed

lemma reg_inv_on_state:
  assumes "reg_inv kept r h" "\<And>s. ss_closed (snd (f s)) = ss_closed s"
  shows "reg_inv kept (on_state sid f r) h"
proof (cases "rg_states r sid")
  case (Some st)
  have "\<not> ss_closed st" if "session_of sid r = Some s" for s using reg_invD(3) [OF assms(1) that] Some by auto
  then show ?thesis using assms Some by (auto simp: reg_inv_def on_state_def session_of_def)
qed (use assms in \<open>simp add: on_state_def\<close>)

lemma state_open: "reg_inv kept r h \<Longrightarrow> session_of sid r = Some s \<Longrightarrow> \<not> state_closed sid r"
  using reg_invD(3) [of kept r h sid s] by (auto simp: state_closed_def IsClosed_def)

lemma reg_inv_hold:
  assumes "reg_inv kept r h" "IncActiveUseCount ts sid (r, m) = Some (e, r', m')"
  shows "reg_inv kept r' (if e = None then h(sid := Suc (h sid)) else h)"
proof (cases "session_of sid r")
  case None
  then show ?thesis using assms by (auto simp: IncActiveUseCount_def split: if_splits)
next
  case (Some s)
  let ?pre = "if se_ActiveUseCount s = 0 then renewSessionLocked ts sid (r, m) else Some (None, r, m)"
  obtain e1 r1 m1 where pre: "?pre = Some (e1, r1, m1)"
    using assms(2) Some state_open [OF assms(1) Some] by (auto simp: IncActiveUseCount_def split: option.splits if_splits)
  have inv1: "reg_inv kept r1 h" using pre reg_inv_renew(1) [OF assms(1)] assms(1) by (auto split: if_splits)
  show ?thesis
  proof (cases e1)
    case (Some x)
    then show ?thesis using pre assms(2) \<open>session_of sid r = Some s\<close> state_open [OF assms(1) \<open>session_of sid r = Some s\<close>] inv1
      by (auto simp: IncActiveUseCount_def split: if_splits)
  next
    case None
    then obtain s1 where s1: "session_of sid r1 = Some s1" "e = None" "r' = set_session sid (s1\<lparr>se_ActiveUseCount := se_ActiveUseCount s1 + 1\<rparr>) r1"
      using pre assms(2) Some state_open [OF assms(1) Some] by (auto simp: IncActiveUseCount_def split: option.splits if_splits)
    then show ?thesis using reg_inv_set [OF inv1 s1(1)] reg_invD(2) [OF inv1 s1(1)] by simp
  qed
qed

lemma reg_inv_release:
  assumes "reg_inv kept r h" "h sid > 0" "DecActiveUseCount ts sid (r, m) = Some (e, r', m')"
  shows "reg_inv kept r' (h(sid := h sid - 1))"
proof (cases "session_of sid r")
  case None
  then have "r' = r" using assms(3) by (auto simp: DecActiveUseCount_def split: if_splits)
  moreover have "sid \<noteq> kept" using None reg_invD(5) [OF assms(1)] assms(2) by auto
  ultimately show ?thesis using assms(1) None by (auto simp: reg_inv_def)
next
  case (Some s)
  note c = reg_invD(2) [OF assms(1) Some] and o = state_open [OF assms(1) Some]
  obtain s' where "r' = set_session sid s' r" "se_ActiveUseCount s' = int (h sid - 1)"
    using assms(2,3) Some c o by (auto simp: DecActiveUseCount_def Let_def of_nat_diff split: if_splits)
  then show ?thesis using reg_inv_set [OF assms(1) Some] by simp
qed

lemma reg_inv_expiry:
  assumes "reg_inv kept r h" "expiry_loop ts xs (r, m) = Some (r', m')"
    and "\<And>sid s. (sid, s) \<in> set xs \<Longrightarrow> session_of sid r = Some s" "distinct (map fst xs)"
  shows "reg_inv kept r' h"
  using assms
proof (induction xs arbitrary: r m)
  case (Cons x xs)
  obtain sid s where x: "x = (sid, s)" by (cases x)
  show ?case
  proof (cases "expired ts s")
    case False
    then show ?thesis using Cons x by auto
  next
    case True
    then obtain r1 m1 where r1: "removeLocked sid (r, m) = Some (r1, m1)" "expiry_loop ts xs (r1, m1) = Some (r', m')"
      using Cons.prems(2) x by (auto split: option.splits)
    have "session_of sid r = Some s" using Cons.prems(3) x by simp
    then have "h sid = 0" using reg_invD(2) [OF Cons.prems(1)] True by (force simp: expired_def)
    then have inv1: "reg_inv kept r1 h" by (intro reg_inv_remove [OF Cons.prems(1) r1(1)])
    have "session_of sid' r1 = Some s'" if "(sid', s') \<in> set xs" for sid' s'
    proof -
      have "sid' \<noteq> sid" using Cons.prems(4) that x by force
      moreover have "session_of sid' r = Some s'" using Cons.prems(3) that by simp
      ultimately show ?thesis using removeLocked_lookup [OF r1(1)] by simp
    qed
    with Cons.IH [OF inv1 r1(2)] Cons.prems(4) show ?thesis by simp
  qed
qed simp

lemma sess_step_inv: "sess_step kept q q' \<Longrightarrow> reg_inv kept (fst (fst q)) (snd q) \<Longrightarrow> reg_inv kept (fst (fst q')) (snd q')"
proof (induction rule: sess_step.induct)
  case (create sha sid ts secret rm v rm' h)
  then show ?case using reg_inv_create by (cases rm; cases rm') auto
next
  case (renew ts sid rm e rm' h)
  then show ?case using reg_inv_renew(1) by (cases rm; cases rm') (auto simp: RenewSession_def split: if_splits)
next
  case (verify sha ts sid val secret rm e rm' h)
  then show ?case using reg_inv_renew(1) by (cases rm; cases rm') (auto simp: VerifySession_def split: if_splits)
next
  case (use_count ts sid rm n rm' h)
  then show ?case using reg_inv_renew(1) by (cases rm; cases rm') (auto simp: ActiveUseCount_def split: if_splits option.splits)
next
  case (info sid rm i rm' h)
  then show ?case using state_open by (cases rm; cases rm') (auto simp: GetSessionInfo_def split: if_splits option.splits)
next
  case (hold ts sid rm e rm' h)
  then show ?case using reg_inv_hold by (cases rm; cases rm') auto
next
  case (release h sid ts rm e rm')
  obtain r m r' m' where [simp]: "rm = (r, m)" "rm' = (r', m')" by (cases rm; cases rm')
  show ?case using reg_inv_release [of kept r h sid ts m e r' m'] release by (simp add: fun_upd_def)
next
  case (remove sid rm rm' h)
  then show ?case using reg_inv_remove by (cases rm; cases rm') (auto simp: reg_Remove_def split: if_splits)
next
  case (tick ts rm rm' h)
  obtain r m r' m' where [simp]: "rm = (r, m)" "rm' = (r', m')" by (cases rm; cases rm')
  have i: "reg_inv kept r h" using tick.prems by simp
  have "expiry_loop ts (rg_sessions r) (r, m) = Some (r', m')" using tick.hyps by (auto simp: expiry_tick_def split: if_splits)
  moreover have "session_of sid r = Some s" if "(sid, s) \<in> set (rg_sessions r)" for sid s
    using that reg_invD(1) [OF i] by (simp add: session_of_def)
  ultimately show ?case using reg_inv_expiry [OF i] reg_invD(1) [OF i] by simp
next
  case (start r e r' m h)
  then show ?case by (auto simp: StartAutoExpiry_def reg_inv_def session_of_def split: if_splits)
next
  case (stop r r' m h)
  then show ?case by (auto simp: StopAutoExpiry_def stopAutoExpiryLocked_def reg_inv_def session_of_def split: if_splits)
next
  case (set_tx r m h sid tx)
  then show ?case by (auto intro!: reg_inv_on_state simp: SetTx_def split: if_splits)
next
  case (unset_tx r m h sid)
  then show ?case by (auto intro!: reg_inv_on_state simp: UnsetTx_def split: if_splits)
qed simp

text \<open>
  C11: a session in use is never expired. Whatever calls create, verify, renew, inspect, hold and release
  sessions, set their transactions or remove other sessions, whatever the clock says at the ticks of
  the expiry job, in every interleaving: while calls hold a session that nobody removes by force it
  is in the registry, its use count is the number of these calls, and its state is open.
\<close>

theorem session_in_use_survives:
  assumes "(sess_step kept)\<^sup>*\<^sup>* ((NewSessionRegistry ttl period, m0), \<lambda>_. 0) ((r, m), h)" "h kept > 0"
  shows "\<exists>s st. session_of kept r = Some s \<and> se_ActiveUseCount s = int (h kept) \<and> rg_states r kept = Some st \<and> \<not> IsClosed st"
proof -
  have "reg_inv kept (fst (fst ((r, m), h))) (snd ((r, m), h))"
    using assms(1)
  proof (induction rule: rtranclp_induct)
    case base
    show ?case by (simp add: reg_inv_def NewSessionRegistry_def session_of_def)
  next
    case (step q q')
    then show ?case using sess_step_inv by blast
  qed
  then have inv: "reg_inv kept r h" by simp
  then obtain s where s: "session_of kept r = Some s" using reg_invD(5) assms(2) by blast
  then show ?thesis using reg_invD(2,3) [OF inv s] by (auto simp: IsClosed_def)
qed

theorem session_in_use_survives_witness:
  "\<exists>st r h s. NewManager sample_config sample_world (\<lambda>_ _. True) (\<lambda>_. 0) [] [] = Some (Inr st) \<and>
     (sess_step ''s1'')\<^sup>*\<^sup>* ((NewSessionRegistry 10 30, NewTxManager st), \<lambda>_. 0) ((r, NewTxManager st), h) \<and> h ''s1'' = 1 \<and>
     session_of ''s1'' r = Some s \<and> se_ActiveUseCount s = 1 \<and> expiry_tick 1000 (r, NewTxManager st) = Some (r, NewTxManager st)"
proof -
  obtain st where st: "NewManager sample_config sample_world (\<lambda>_ _. True) (\<lambda>_. 0) [] [] = Some (Inr st)" by (rule sample_manager)
  let ?m = "NewTxManager st" and ?r0 = "NewSessionRegistry 10 30" and ?h = "(\<lambda>_. 0)(''s1'' := Suc 0)"
  let ?r1 = "?r0\<lparr>rg_sessions := [(''s1'', \<lparr>se_ExpiryTs = 12, se_ActiveUseCount = 0\<rparr>)], rg_states := [''s1'' \<mapsto> NewSessionState]\<rparr>"
  let ?r2 = "?r1\<lparr>rg_sessions := [(''s1'', \<lparr>se_ExpiryTs = 12, se_ActiveUseCount = 1\<rparr>)]\<rparr>"
  have "CreateSession id (Some ''s1'') 2 ''x'' (?r0, ?m) = Some (Inr (''s1'', ''xs1''), ?r1, ?m)"
    by (simp add: CreateSession_def NewSessionRegistry_def CreateSessionValue_def set_session_def i64_def)
  then have s1: "sess_step ''s1'' ((?r0, ?m), \<lambda>_. 0) ((?r1, ?m), \<lambda>_. 0)"
    by (rule sess_step.create) (simp add: NewSessionRegistry_def)
  have "IncActiveUseCount 2 ''s1'' (?r1, ?m) = Some (None, ?r2, ?m)"
    by (simp add: IncActiveUseCount_def renewSessionLocked_def session_of_def set_session_def state_closed_def IsClosed_def
        NewSessionState_def NewSessionRegistry_def i64_def)
  then have s2: "sess_step ''s1'' ((?r1, ?m), \<lambda>_. 0) ((?r2, ?m), if None = (None :: session_error option) then ?h else (\<lambda>_. 0))"
    by (rule sess_step.hold)
  have run: "(sess_step ''s1'')\<^sup>*\<^sup>* ((?r0, ?m), \<lambda>_. 0) ((?r2, ?m), ?h)" using s1 s2 [unfolded if_P [OF refl]] by (rule rtranclp.rtrancl_into_rtrancl [OF r_into_rtranclp])
  have tick: "expiry_tick 1000 (?r2, ?m) = Some (?r2, ?m)" by (simp add: expiry_tick_def expired_def NewSessionRegistry_def)
  have h: "?h ''s1'' = 1" by simp
  have "0 < ?h ''s1''" by simp
  from session_in_use_survives [OF run this] obtain s where "session_of ''s1'' ?r2 = Some s" "se_ActiveUseCount s = int (?h ''s1'')" by blast
  moreover from this(2) have "se_ActiveUseCount s = 1" by simp
  ultimately have "\<exists>s. session_of ''s1'' ?r2 = Some s \<and> se_ActiveUseCount s = 1" by blast
  with st run h tick show ?thesis by blast
qed

section \<open>Expiry\<close>

definition ended :: "txid \<Rightarrow> tx_manager \<Rightarrow> bool" where
  "ended t m \<longleftrightarrow> (\<exists>tx. tm_txs m t = Some tx \<and> \<not> tx_active tx)"

lemma Rollback_ends:
  assumes "tx_inv m" "tm_txs m t \<noteq> None"
  obtains e m' where "Rollback t m = Some (e, m')" "tx_inv m'" "ended t m'" "\<And>t'. t' \<noteq> t \<Longrightarrow> tm_txs m' t' = tm_txs m t'"
    "ended t m \<Longrightarrow> m' = m"
proof -
  obtain tx where tx: "tm_txs m t = Some tx" using assms(2) by auto
  show thesis
  proof (cases "tx_active tx")
    case True
    show thesis
      by (rule that [OF Rollback_running [OF assms(1) tx True] rolled_back_inv [OF assms(1) tx True]])
         (use tx True in \<open>auto simp: rolled_back_def ended_def\<close>)
  next
    case False
    show thesis
      by (rule that [OF Rollback_ended [OF assms(1) tx False] assms(1)]) (use tx False in \<open>auto simp: ended_def\<close>)
  qed
qed

text \<open>The transactions of the sessions that a tick removes.\<close>

definition doomed :: "int \<Rightarrow> (string \<times> session) list \<Rightarrow> (string \<rightharpoonup> sess_state) \<Rightarrow> txid set" where
  "doomed ts xs states = {t. \<exists>sid s st. (sid, s) \<in> set xs \<and> expired ts s \<and> states sid = Some st \<and> ss_tx st = Some t}"

lemma removeLocked_ends:
  assumes "tx_inv m" "\<not> rg_closed r" "session_of sid r = Some s" "rg_states r sid = Some st" "\<And>t. ss_tx st = Some t \<Longrightarrow> tm_txs m t \<noteq> None"
  obtains m' where "removeLocked sid (r, m) =
      Some (r\<lparr>rg_states := (rg_states r)(sid \<mapsto> st\<lparr>ss_closed := True\<rparr>), rg_sessions := AList.delete sid (rg_sessions r)\<rparr>, m')"
    "tx_inv m'" "\<And>t. ss_tx st = Some t \<Longrightarrow> ended t m'" "\<And>t. ss_tx st \<noteq> Some t \<Longrightarrow> tm_txs m' t = tm_txs m t"
    "\<And>t. ended t m \<Longrightarrow> ended t m'"
proof (cases "ss_tx st")
  case None
  then show thesis using that [of m] assms by (simp add: removeLocked_def close_state_def state_Close_def)
next
  case (Some t)
  obtain e m' where m': "Rollback t m = Some (e, m')" "tx_inv m'" "ended t m'" "\<And>t'. t' \<noteq> t \<Longrightarrow> tm_txs m' t' = tm_txs m t'"
    using Rollback_ends [OF assms(1) assms(5) [OF Some]] by metis
  have "ended t' m'" if "ended t' m" for t' using that m'(3,4) by (cases "t' = t") (auto simp: ended_def)
  with m' Some assms(2-4) show thesis
    by (intro that [of m']) (simp_all add: removeLocked_def close_state_def state_Close_def)
qed

lemma expiry_loop_ends:
  assumes "tx_inv m" "\<not> rg_closed r" "distinct (map fst xs)"
    and "\<And>sid s. (sid, s) \<in> set xs \<Longrightarrow> session_of sid r = Some s \<and> (\<exists>st. rg_states r sid = Some st \<and> (\<forall>t. ss_tx st = Some t \<longrightarrow> tm_txs m t \<noteq> None))"
  shows "\<exists>r' m'. expiry_loop ts xs (r, m) = Some (r', m') \<and> tx_inv m' \<and>
    rg_sessions r' = filter (\<lambda>(sid, _). \<nexists>s. (sid, s) \<in> set xs \<and> expired ts s) (rg_sessions r) \<and>
    (\<forall>t. t \<in> doomed ts xs (rg_states r) \<or> ended t m \<longrightarrow> ended t m') \<and>
    (\<forall>t. t \<notin> doomed ts xs (rg_states r) \<longrightarrow> tm_txs m' t = tm_txs m t)"
  using assms
proof (induction xs arbitrary: r m)
  case Nil
  then show ?case by (auto simp: doomed_def)
next
  case (Cons x xs)
  obtain sid s where x: "x = (sid, s)" by (cases x)
  have fresh: "sid' \<noteq> sid" if "(sid', s') \<in> set xs" for sid' s' using Cons.prems(3) that x by force
  show ?case
  proof (cases "expired ts s")
    case False
    have d: "doomed ts (x # xs) (rg_states r) = doomed ts xs (rg_states r)" using False x by (auto simp: doomed_def)
    have f: "(\<lambda>(sid', _). \<nexists>s'. (sid', s') \<in> set (x # xs) \<and> expired ts s') = (\<lambda>(sid', _). \<nexists>s'. (sid', s') \<in> set xs \<and> expired ts s')"
      using False x by (auto simp: fun_eq_iff)
    have l: "expiry_loop ts (x # xs) (r, m) = expiry_loop ts xs (r, m)" using False x by simp
    have "distinct (map fst xs)" using Cons.prems(3) by simp
    then show ?thesis unfolding d f l by (rule Cons.IH [OF Cons.prems(1,2)]) (rule Cons.prems(4), simp)
  next
    case True
    obtain st where st: "session_of sid r = Some s" "rg_states r sid = Some st" "\<And>t. ss_tx st = Some t \<Longrightarrow> tm_txs m t \<noteq> None"
      using Cons.prems(4) [of sid s] x by auto
    let ?r = "r\<lparr>rg_states := (rg_states r)(sid \<mapsto> st\<lparr>ss_closed := True\<rparr>), rg_sessions := AList.delete sid (rg_sessions r)\<rparr>"
    obtain m1 where m1: "removeLocked sid (r, m) = Some (?r, m1)" "tx_inv m1" "\<And>t. ss_tx st = Some t \<Longrightarrow> ended t m1"
      "\<And>t. ss_tx st \<noteq> Some t \<Longrightarrow> tm_txs m1 t = tm_txs m t" "\<And>t. ended t m \<Longrightarrow> ended t m1"
      using removeLocked_ends [OF Cons.prems(1,2) st] by metis
    have kept: "tm_txs m t \<noteq> None \<Longrightarrow> tm_txs m1 t \<noteq> None" for t
      using m1(3,4) [of t] by (cases "ss_tx st = Some t") (auto simp: ended_def)
    have pre: "session_of sid' ?r = Some s' \<and> (\<exists>st. rg_states ?r sid' = Some st \<and> (\<forall>t. ss_tx st = Some t \<longrightarrow> tm_txs m1 t \<noteq> None))"
      if "(sid', s') \<in> set xs" for sid' s'
      using Cons.prems(4) [of sid' s'] that fresh [OF that] kept by (auto simp: session_of_def AList.delete_conv')
    have dist: "\<not> rg_closed ?r" "distinct (map fst xs)" using Cons.prems(2,3) by simp_all
    obtain r' m' where r': "expiry_loop ts xs (?r, m1) = Some (r', m')" "tx_inv m'"
      "rg_sessions r' = filter (\<lambda>(sid, _). \<nexists>s. (sid, s) \<in> set xs \<and> expired ts s) (rg_sessions ?r)"
      "\<forall>t. t \<in> doomed ts xs (rg_states ?r) \<or> ended t m1 \<longrightarrow> ended t m'"
      "\<forall>t. t \<notin> doomed ts xs (rg_states ?r) \<longrightarrow> tm_txs m' t = tm_txs m1 t"
      using Cons.IH [OF m1(2) dist pre] by blast
    have doom: "doomed ts (x # xs) (rg_states r) = doomed ts xs (rg_states ?r) \<union> {t. ss_tx st = Some t}"
      using True x st(2) fresh by (fastforce simp: doomed_def)
    have "rg_sessions r' = filter (\<lambda>(sid', _). \<nexists>s'. (sid', s') \<in> set (x # xs) \<and> expired ts s') (rg_sessions r)"
      unfolding r'(3) using True x by (auto simp: AList.delete_eq intro: filter_cong)
    moreover have "expiry_loop ts (x # xs) (r, m) = Some (r', m')" using True x m1(1) r'(1) by simp
    ultimately show ?thesis unfolding doom using r'(2,4,5) m1(3-5) by auto
  qed
qed

text \<open>
  C12: expiry releases what a client left behind. A tick of the expiry job on an open registry returns,
  removes exactly the sessions that no call holds and whose time is over, and rolls back their
  transactions: they are ended and their locks are given back, while every other transaction is as before.
\<close>

theorem expiry_ends_transactions:
  assumes "tx_inv m" "\<not> rg_closed r" "distinct (map fst (rg_sessions r))"
    and "\<And>sid s. (sid, s) \<in> set (rg_sessions r) \<Longrightarrow> \<exists>st. rg_states r sid = Some st \<and> (\<forall>t. ss_tx st = Some t \<longrightarrow> tm_txs m t \<noteq> None)"
  shows "\<exists>r' m'. expiry_tick ts (r, m) = Some (r', m') \<and> rg_sessions r' = filter (\<lambda>(_, s). \<not> expired ts s) (rg_sessions r) \<and>
    tx_inv m' \<and> (\<forall>t \<in> doomed ts (rg_sessions r) (rg_states r). ended t m') \<and>
    (\<forall>t. t \<notin> doomed ts (rg_sessions r) (rg_states r) \<longrightarrow> tm_txs m' t = tm_txs m t)"
proof -
  let ?xs = "rg_sessions r"
  have look: "session_of sid r = Some s" if "(sid, s) \<in> set ?xs" for sid s using that assms(3) by (simp add: session_of_def)
  obtain r' m' where r': "expiry_loop ts ?xs (r, m) = Some (r', m')" "tx_inv m'"
    "rg_sessions r' = filter (\<lambda>(sid, _). \<nexists>s. (sid, s) \<in> set ?xs \<and> expired ts s) ?xs"
    "\<forall>t. t \<in> doomed ts ?xs (rg_states r) \<or> ended t m \<longrightarrow> ended t m'"
    "\<forall>t. t \<notin> doomed ts ?xs (rg_states r) \<longrightarrow> tm_txs m' t = tm_txs m t"
    using expiry_loop_ends [OF assms(1-3), of ts] look assms(4) by blast
  have "(\<nexists>s'. (sid, s') \<in> set ?xs \<and> expired ts s') \<longleftrightarrow> \<not> expired ts s" if "(sid, s) \<in> set ?xs" for sid s
    using that look by (metis option.inject)
  then have "rg_sessions r' = filter (\<lambda>(_, s). \<not> expired ts s) ?xs" unfolding r'(3) by (intro filter_cong) auto
  then show ?thesis using r' assms(2) by (auto simp: expiry_tick_def)
qed

theorem expiry_ends_transactions_witness:
  "\<exists>st m r r' m'. NewManager sample_config sample_world (\<lambda>_ _. True) (\<lambda>_. 0) [] [] = Some (Inr st) \<and>
     BeginTransaction ''t1'' ReadWriteSerialized (NewTxManager st) = Some (Inr ''t1'', m) \<and>
     r = (NewSessionRegistry 10 30)\<lparr>rg_sessions := [(''s1'', \<lparr>se_ExpiryTs = 12, se_ActiveUseCount = 0\<rparr>)],
            rg_states := [''s1'' \<mapsto> \<lparr>ss_tx = Some ''t1'', ss_closed = False\<rparr>]\<rparr> \<and>
     expiry_tick 1000 (r, m) = Some (r', m') \<and> rg_sessions r' = [] \<and> ended ''t1'' m'"
proof -
  obtain st where st: "NewManager sample_config sample_world (\<lambda>_ _. True) (\<lambda>_. 0) [] [] = Some (Inr st)" by (rule sample_manager)
  define m where "m = snd (the (BeginTransaction ''t1'' ReadWriteSerialized (NewTxManager st)))"
  have m: "BeginTransaction ''t1'' ReadWriteSerialized (NewTxManager st) = Some (Inr ''t1'', m)" "tm_txs m ''t1'' \<noteq> None"
    by (simp_all add: m_def BeginTransaction_def AcquireSerializeLock_def NewTxManager_def Let_def put_tx_def)
  have inv: "tx_inv m" by (rule tx_inv_begin [OF tx_inv_new _ m(1)]) (simp add: NewTxManager_def)
  define r where "r = (NewSessionRegistry 10 30)\<lparr>rg_sessions := [(''s1'', \<lparr>se_ExpiryTs = 12, se_ActiveUseCount = 0\<rparr>)],
            rg_states := [''s1'' \<mapsto> \<lparr>ss_tx = Some ''t1'', ss_closed = False\<rparr>]\<rparr>"
  have r: "\<not> rg_closed r" "rg_sessions r = [(''s1'', \<lparr>se_ExpiryTs = 12, se_ActiveUseCount = 0\<rparr>)]"
    "rg_states r ''s1'' = Some \<lparr>ss_tx = Some ''t1'', ss_closed = False\<rparr>" by (simp_all add: r_def NewSessionRegistry_def)
  have d: "distinct (map fst (rg_sessions r))" by (simp add: r)
  have s: "\<exists>st. rg_states r sid = Some st \<and> (\<forall>t. ss_tx st = Some t \<longrightarrow> tm_txs m t \<noteq> None)" if "(sid, s) \<in> set (rg_sessions r)" for sid s
    using that m(2) r by auto
  have t: "''t1'' \<in> doomed 1000 (rg_sessions r) (rg_states r)" using r by (auto simp: doomed_def expired_def)
  have "\<exists>r' m'. expiry_tick 1000 (r, m) = Some (r', m') \<and> rg_sessions r' = filter (\<lambda>(_, s). \<not> expired 1000 s) (rg_sessions r) \<and>
      tx_inv m' \<and> (\<forall>t \<in> doomed 1000 (rg_sessions r) (rg_states r). ended t m') \<and>
      (\<forall>t. t \<notin> doomed 1000 (rg_sessions r) (rg_states r) \<longrightarrow> tm_txs m' t = tm_txs m t)"
    by (rule expiry_ends_transactions [OF inv r(1) d]) (erule s)
  then obtain r' m' where "expiry_tick 1000 (r, m) = Some (r', m')" "rg_sessions r' = filter (\<lambda>(_, s). \<not> expired 1000 s) (rg_sessions r)" "ended ''t1'' m'"
    using t by blast
  moreover from this(2) have "rg_sessions r' = []" by (simp add: r expired_def)
  ultimately show ?thesis using st m(1) r_def by blast
qed

text \<open>A tick that finds the registry closed panics: \<open>Close\<close> does not wait for the goroutine of the expiry job.\<close>

lemma tick_after_close: "reg_Close rm = Some rm' \<Longrightarrow> expiry_tick ts rm' = None"
  by (auto simp: reg_Close_def expiry_tick_def split: if_splits)

end
