(* ===== verification/Spec2Isabelle.thy ===== *)
theory Spec2Isabelle
  imports Tx_Scan Compaction_Stale Engine_Correct Wal_Retention Sessions_Correct
begin

text \<open>
  A verification library for Kevo, a log-structured key-value store in Go (\<^verbatim>\<open>src/pkg\<close>).

  \<^bold>\<open>The program.\<close> A client opens an engine (\<^verbatim>\<open>pkg/engine/facade.go\<close>). A write goes through the storage
  manager (\<^verbatim>\<open>pkg/engine/storage\<close>) first to the write-ahead log (\<^verbatim>\<open>pkg/wal\<close>) and then to the active
  memtable (\<^verbatim>\<open>pkg/memtable\<close>, a skip list). A full memtable becomes immutable and is flushed to a table
  file (\<^verbatim>\<open>pkg/sstable\<close>, blocks with Bloom filters of \<^verbatim>\<open>pkg/bloom_filter\<close>); compaction (\<^verbatim>\<open>pkg/compaction\<close>)
  merges table files. A read asks the memtables, newest first, then the tables; a scan merges
  iterators over all of them (\<^verbatim>\<open>pkg/common/iterator\<close>, \<^verbatim>\<open>pkg/engine/iterator\<close>). Opening a directory replays
  the log. Transactions (\<^verbatim>\<open>pkg/transaction\<close>) buffer their writes and commit them as one batch, isolated by
  a read-write lock or by record locks (\<^verbatim>\<open>pkg/locks\<close>), whose waiting loops are retries (\<^verbatim>\<open>pkg/common/retry\<close>)
  and whose deadlocks a background worker (\<^verbatim>\<open>pkg/common/reqprocessor\<close>) detects.

  \<^bold>\<open>Theories and sources.\<close> Every definition carries the name of the Go function or type it models, with a
  prefix where several types have a method of that name.
  \<^item> \<^verbatim>\<open>Kevo_Prelude\<close>: byte slices, little-endian codecs, the collections and lemmas shared by all.
  \<^item> \<^verbatim>\<open>Checksums\<close>: CRC-32 and FNV-1a of the standard library. \<^verbatim>\<open>Config\<close>, \<^verbatim>\<open>Manifest\<close>: the configuration, its
    validation, its file and the manifest (\<^verbatim>\<open>config/\<close>).
  \<^item> \<^verbatim>\<open>Wal_Format\<close>, \<^verbatim>\<open>Wal_Log\<close>, \<^verbatim>\<open>Wal_Batch\<close>, \<^verbatim>\<open>Wal_Replay\<close>: the log byte for byte (\<^verbatim>\<open>wal/wal.go\<close>, \<^verbatim>\<open>batch.go\<close>, \<^verbatim>\<open>reader.go\<close>);
    \<^verbatim>\<open>Wal_Correct\<close>: appended and synced entries are the replayed ones, damaged and batched tails. \<^verbatim>\<open>Wal_Retention\<close>: which
    log files retention removes (\<^verbatim>\<open>retention.go\<close>).
  \<^item> \<^verbatim>\<open>Version_Store\<close>, \<^verbatim>\<open>Skip_List\<close>, \<^verbatim>\<open>Mem_Table\<close>, \<^verbatim>\<open>Mem_Iterator\<close>: the memtable, its pool and recovery
    (\<^verbatim>\<open>memtable/\<close>); \<^verbatim>\<open>Mem_Correct\<close>: the newest write is read, recovery restores what was logged.
  \<^item> \<^verbatim>\<open>Iterators\<close>, \<^verbatim>\<open>Hierarchical\<close>, \<^verbatim>\<open>Iter_Factory\<close>, \<^verbatim>\<open>Engine_Scan\<close>: the iterator interface, bounded and merging
    iterators, the scans of the engine.
  \<^item> \<^verbatim>\<open>Bloom\<close>, \<^verbatim>\<open>Sst_Footer\<close>, \<^verbatim>\<open>Sst_Block\<close>, \<^verbatim>\<open>Sst_Block_Iter\<close>, \<^verbatim>\<open>Sst_File\<close>, \<^verbatim>\<open>Sst_Layout\<close>, \<^verbatim>\<open>Sst_Reader\<close>, \<^verbatim>\<open>Sst_Iter\<close>: table
    files, written and read; \<^verbatim>\<open>Sst_Correct\<close>: what a scan and a point read find in a written table.
  \<^item> \<^verbatim>\<open>Retry\<close>, \<^verbatim>\<open>Request_Queue\<close>, \<^verbatim>\<open>Deadlock\<close>, \<^verbatim>\<open>Lock_Table\<close>: retries, the worker's queue, deadlock search, record locks.
  \<^item> \<^verbatim>\<open>Storage\<close>, \<^verbatim>\<open>Kv_Store\<close>, \<^verbatim>\<open>Storage_Correct\<close>, \<^verbatim>\<open>Storage_Recovery\<close>: the storage manager, the abstract store and
    the refinement between them, crashes and reopening.
  \<^item> \<^verbatim>\<open>Tx_Buffer\<close>, \<^verbatim>\<open>Transactions\<close>, \<^verbatim>\<open>Tx_Isolation\<close>, \<^verbatim>\<open>Tx_Commit\<close>, \<^verbatim>\<open>Tx_Scan\<close>: transactions, their isolation in every
    interleaving, atomic commit, scans through a transaction.
  \<^item> \<^verbatim>\<open>Compaction\<close>, \<^verbatim>\<open>Compaction_Coord\<close>, \<^verbatim>\<open>Compaction_Load\<close>, \<^verbatim>\<open>Compaction_Merge\<close>, \<^verbatim>\<open>Compaction_Correct\<close>,
    \<^verbatim>\<open>Compaction_Cycle\<close>, \<^verbatim>\<open>Compaction_Stale\<close>: choice of files, merge, coordinator; what a merge keeps and a
    cycle removes.
  \<^item> \<^verbatim>\<open>Stats\<close>, \<^verbatim>\<open>Engine_Facade\<close>, \<^verbatim>\<open>Engine_Correct\<close>: the collector, the engine, and the engine as a map with
    transactions.
  \<^item> \<^verbatim>\<open>Sessions\<close>, \<^verbatim>\<open>Sessions_Correct\<close>: the registry of client sessions (\<^verbatim>\<open>sessreg/\<close>), their expiry, and which sessions and transactions it ends.

  \<^bold>\<open>Interfaces.\<close> The contracts between components are locales, interpreted on the model's own definitions:
  \<^verbatim>\<open>version_list\<close> (skip list and memtable), \<^verbatim>\<open>iterator\<close> and \<^verbatim>\<open>forward_iterator\<close> with \<^verbatim>\<open>two_iterators\<close> (memtable, buffer,
  table, bounded and merging iterators), \<^verbatim>\<open>fifo\<close> (the request queue), \<^verbatim>\<open>kv_store\<close> (the storage manager) and
  \<^verbatim>\<open>kv_tx_store\<close> (the engine).

  \<^bold>\<open>State, errors, concurrency.\<close> Objects are records that operations return updated; errors are values of a
  datatype per package, in a sum type or an option; \<^verbatim>\<open>None\<close> as the result of a whole operation is a
  panic, a fatal error, or a call that never returns (the error values \<^verbatim>\<open>WalPanic\<close>, \<^verbatim>\<open>SstPanic\<close> and \<^verbatim>\<open>StoragePanic\<close> mark a
  panic inside an operation; \<^verbatim>\<open>RecoverFromWAL\<close> and the counting loops turn that of the log reader into \<^verbatim>\<open>None\<close>). An
  operation that runs under its object's mutex from beginning to end is one atomic step. Not all do:
  \<^verbatim>\<open>Rollback\<close> does part of its work without the mutex of the transaction, and a transaction is modelled as used by one
  goroutine at a time (\<^verbatim>\<open>rollback_commit_race\<close> shows what goes wrong otherwise). Where goroutines interleave, the steps are an inductive relation (locks, transactions,
  client calls on the engine, compare-and-swap loops), or the other goroutines are an arbitrary
  function \<^verbatim>\<open>env\<close> that runs whenever a call sleeps. The rounds of the background flusher that the storage manager starts
  are events between the calls of clients; since a flush rotates the log and the sequence numbers start again
  (\<^verbatim>\<open>storage_rotate_stale\<close>), the refinement theorems are about runs whose writes fit one memtable, in which the flusher
  finds nothing to do. The log is written through a 64 KB buffer: \<^verbatim>\<open>w_stream\<close> is what the writer has accepted, \<^verbatim>\<open>log_file\<close>
  what has reached the file, \<^verbatim>\<open>durable\<close> what has been synced and survives a crash. Machine integers are words where they can wrap.

  \<^bold>\<open>Arguments that stand for the outside.\<close> A \<^verbatim>\<open>world\<close>, a \<^verbatim>\<open>cworld\<close> or an \<^verbatim>\<open>ecall\<close> carries clock readings, random
  coins and jitter, time stamps, and the faults of the device: \<^verbatim>\<open>Some n\<close> lets \<open>n\<close> calls succeed and every
  later one fail, \<^verbatim>\<open>None\<close> never fails. \<^verbatim>\<open>xx\<close> is the third-party \<^verbatim>\<open>xxhash.Sum64\<close>, of which nothing is assumed, \<^verbatim>\<open>dims\<close>
  the dimensions of a Bloom filter that floating point code computes, and the JSON codec a pair of
  functions.

  \<^bold>\<open>Bounds and fuel.\<close> Loops that may not end are \<^verbatim>\<open>partial_function (option)\<close>, so that a theorem about their
  result includes that they return; deadlock detection is shown to return on every consistent table, and recovery on
  every directory without the byte pattern on which the log reader panics.
  \<^verbatim>\<open>iter_collect n\<close> reads at most \<open>n\<close> items off an iterator, and the theorems about scans take
  \<open>n\<close> at least as large as the number of items, which is enough. \<^verbatim>\<open>room n\<close> says that \<open>n\<close> more
  sequence numbers fit 64 bits.

  \<^bold>\<open>Not modelled.\<close> The gRPC transport and service, generated protocol code, logging and the command line
  tools: network and terminal I/O around the interfaces modelled here. The iterators of an earlier
  engine version (\<^verbatim>\<open>engine/iterator.go\<close>) that the iterator factory has replaced. The goroutines of the request
  processor beyond its queue. Statistics that storage, transactions and compaction record on their own.
\<close>

end
